(* ===== verification/Fsm_Prelude.thy ===== *)
theory Fsm_Prelude
  imports Main "HOL-Library.Monad_Syntax" "HOL-Library.Word"
begin

text \<open>
  Shared ground of the development: the types every component uses, the allocator, the
  result type of a C function that may hit a failing \<open>assert\<close>, a weakest-precondition
  calculus for it, the counted \<open>for\<close> loop with an early exit, and generic facts about
  lists and sorted arrays.

  Conventions. A C function that can stop the program, by a failing assertion or by leaving
  an array, has a result in \<open>option\<close> and \<open>None\<close> is that outcome; a
  function that reports an error by its return value returns a \<open>bool\<close> beside the
  updated data, as the source returns 0 or 1 beside what it wrote through its pointers.
  \<open>fsm_state_t\<close> (an \<open>unsigned int\<close>) and \<open>size_t\<close> are \<open>nat\<close>, with the
  wrap-around of \<open>fsm_state_t\<close> written out where the source adds to one.
\<close>

section \<open>Types\<close>

type_synonym fsm_state_t = nat
type_synonym octet = "8 word"
type_synonym u64 = "64 word"

text \<open>The number of values of \<open>fsm_state_t\<close>, and \<open>(fsm_state_t) -1\<close>.\<close>

definition state_limit :: nat where
  "state_limit = 2 ^ 32"

definition FSM_STATE_REMAP_NO_STATE :: fsm_state_t where
  "FSM_STATE_REMAP_NO_STATE = 2 ^ 32 - 1"

definition state_add :: "fsm_state_t \<Rightarrow> fsm_state_t \<Rightarrow> fsm_state_t" where
  "state_add s base = (s + base) mod state_limit"

lemma state_add_small [simp]: "s + base < state_limit \<Longrightarrow> state_add s base = s + base"
  by (simp add: state_add_def)

lemma state_add_limit [simp]: "state_add s base < state_limit"
  by (simp add: state_add_def state_limit_def)

section \<open>The allocator\<close>

text \<open>
  The allocation callbacks of \<open>struct fsm_alloc\<close> belong to the caller of the library
  and may fail at any call. The model threads the outcomes of the coming calls: the head of
  the list says whether the next call succeeds, and every call past the end of the list
  succeeds. Every finite pattern of failures is such a list, and \<open>[]\<close> is an allocator
  that never fails.
\<close>

type_synonym alloc = "bool list"

fun f_malloc :: "alloc \<Rightarrow> bool \<times> alloc" where
  "f_malloc [] = (True, [])"
| "f_malloc (b # bs) = (b, bs)"

definition f_calloc :: "alloc \<Rightarrow> bool \<times> alloc" where
  "f_calloc al = f_malloc al"

definition f_realloc :: "alloc \<Rightarrow> bool \<times> alloc" where
  "f_realloc al = f_malloc al"

lemma f_malloc_Nil [simp]: "f_realloc [] = (True, [])" "f_calloc [] = (True, [])"
  by (simp_all add: f_realloc_def f_calloc_def)

section \<open>Assertions and weakest preconditions\<close>

definition c_assert :: "bool \<Rightarrow> unit option" where
  "c_assert b = (if b then Some () else None)"

named_theorems wp_simps \<open>rewrite rules of the weakest-precondition calculus\<close>

definition wp :: "'a option \<Rightarrow> ('a \<Rightarrow> bool) \<Rightarrow> bool" where
  "wp m Q = (case m of None \<Rightarrow> False | Some x \<Rightarrow> Q x)"

lemma wp_Some [wp_simps, simp]: "wp (Some x) Q = Q x"
  by (simp add: wp_def)

lemma wp_None [wp_simps, simp]: "wp None Q = False"
  by (simp add: wp_def)

lemma wp_bind [wp_simps]: "wp (m \<bind> f) Q = wp m (\<lambda>x. wp (f x) Q)"
  by (cases m) (simp_all add: wp_def)

lemma wp_assert [wp_simps]: "wp (c_assert b) Q = (b \<and> Q ())"
  by (simp add: c_assert_def)

lemma wp_if [wp_simps]: "wp (if b then m else m') Q = (if b then wp m Q else wp m' Q)"
  by simp

lemma wp_case_prod [wp_simps]:
  "wp (case_prod f x) Q = (case x of (a, b) \<Rightarrow> wp (f a b) Q)"
  by (cases x) simp

lemma wp_let [wp_simps]: "wp (Let x f) Q = (let y = x in wp (f y) Q)"
  by simp

lemma wp_mono: "wp m P \<Longrightarrow> (\<And>x. P x \<Longrightarrow> Q x) \<Longrightarrow> wp m Q"
  by (cases m) (simp_all add: wp_def)

lemma wp_mono2:
  "wp m (\<lambda>(a, b). P a b) \<Longrightarrow> (\<And>a b. P a b \<Longrightarrow> Q (a, b)) \<Longrightarrow> wp m Q"
  by (erule wp_mono) auto

lemma wp_mono3:
  "wp m (\<lambda>(a, b, c). P a b c) \<Longrightarrow> (\<And>a b c. P a b c \<Longrightarrow> Q (a, b, c)) \<Longrightarrow> wp m Q"
  by (erule wp_mono) auto

lemma wp_conj: "wp m P \<Longrightarrow> wp m Q \<Longrightarrow> wp m (\<lambda>x. P x \<and> Q x)"
  by (cases m) (simp_all add: wp_def)

lemma wp_iff_ex: "wp m Q = (\<exists>x. m = Some x \<and> Q x)"
  by (cases m) (simp_all add: wp_def)

lemma wpD: "wp m Q \<Longrightarrow> m = Some x \<Longrightarrow> Q x"
  by (simp add: wp_def)

lemma wpE:
  assumes "wp m Q"
  obtains x where "m = Some x" and "Q x"
  using assms by (auto simp: wp_iff_ex)

lemma wpE2:
  assumes "wp m Q"
  obtains a b where "m = Some (a, b)" and "Q (a, b)"
  using assms by (auto simp: wp_iff_ex)

lemma wpE3:
  assumes "wp m Q"
  obtains a b c where "m = Some (a, b, c)" and "Q (a, b, c)"
  using assms by (auto simp: wp_iff_ex)

lemma wpE4:
  assumes "wp m Q"
  obtains a b c d where "m = Some (a, b, c, d)" and "Q (a, b, c, d)"
  using assms by (auto simp: wp_iff_ex)

text \<open>An array read, which must stay inside the array.\<close>

definition c_nth :: "'a list \<Rightarrow> nat \<Rightarrow> 'a option" where
  "c_nth xs i = (if i < length xs then Some (xs ! i) else None)"

lemma c_nth_in [simp]: "i < length xs \<Longrightarrow> c_nth xs i = Some (xs ! i)"
  by (simp add: c_nth_def)

lemma wp_c_nth [wp_simps]: "wp (c_nth xs i) Q = (i < length xs \<and> Q (xs ! i))"
  by (simp add: c_nth_def)

section \<open>Counted loops with an early exit\<close>

text \<open>
  \<open>c_for f xs s\<close> is a C loop over \<open>xs\<close> whose body updates \<open>s\<close> and leaves the
  function with 0 as soon as a call in it fails: \<open>for (...) { if (!f(...)) return 0; }\<close>.
\<close>

fun c_for :: "('a \<Rightarrow> 's \<Rightarrow> (bool \<times> 's) option) \<Rightarrow> 'a list \<Rightarrow> 's \<Rightarrow> (bool \<times> 's) option" where
  "c_for f [] s = Some (True, s)"
| "c_for f (x # xs) s =
     do { (ok, s') \<leftarrow> f x s; if ok then c_for f xs s' else Some (False, s') }"

lemma c_for_map: "c_for f (map g xs) s = c_for (\<lambda>x. f (g x)) xs s"
  by (induction xs arbitrary: s) (simp_all cong: if_cong)

lemma c_for_append:
  "c_for f (xs @ ys) s = do { (ok, s) \<leftarrow> c_for f xs s; if ok then c_for f ys s else Some (False, s) }"
  by (induction xs arbitrary: s) (auto split: Option.bind_splits)

lemma c_for_concat: "c_for f (concat xss) s = c_for (\<lambda>xs. c_for f xs) xss s"
proof (induction xss arbitrary: s)
  case (Cons xs xss)
  then show ?case by (simp add: c_for_append cong: if_cong)
qed simp

lemma wp_c_for_gen:
  assumes "I pre s" and "whole = pre @ xs"
    and step: "\<And>ys x zs s. whole = ys @ x # zs \<Longrightarrow> I ys s \<Longrightarrow>
      wp (f x s) (\<lambda>(ok, s'). if ok then I (ys @ [x]) s' else E s')"
  shows "wp (c_for f xs s) (\<lambda>(ok, s'). if ok then I whole s' else E s')"
  using assms(1,2)
proof (induction xs arbitrary: pre s)
  case Nil
  then show ?case by simp
next
  case (Cons x xs)
  from Cons.prems have eq: "whole = pre @ x # xs" by simp
  then have eq': "whole = (pre @ [x]) @ xs" by simp
  have "wp (f x s) (\<lambda>(ok, s'). if ok then I (pre @ [x]) s' else E s')"
    using eq Cons.prems(1) by (rule step)
  then show ?case
    unfolding c_for.simps wp_bind
  proof (rule wp_mono2)
    fix ok s'
    assume "if ok then I (pre @ [x]) s' else E s'"
    then show "wp (case (ok, s') of (ok, s') \<Rightarrow> if ok then c_for f xs s' else Some (False, s'))
        (\<lambda>(ok, s'). if ok then I whole s' else E s')"
      using Cons.IH [OF _ eq', of s'] by (cases ok) simp_all
  qed
qed

lemma wp_c_for:
  assumes "I [] s"
    and "\<And>ys x zs s. xs = ys @ x # zs \<Longrightarrow> I ys s \<Longrightarrow>
      wp (f x s) (\<lambda>(ok, s'). if ok then I (ys @ [x]) s' else E s')"
  shows "wp (c_for f xs s) (\<lambda>(ok, s'). if ok then I xs s' else E s')"
  using wp_c_for_gen [of I "[]" s xs xs f E] assms by simp

text \<open>The same loop when no call in the body can fail.\<close>

lemma wp_c_for_simple:
  assumes "I s" and "\<And>x s. x \<in> set xs \<Longrightarrow> I s \<Longrightarrow> wp (f x s) (\<lambda>(ok, s'). I s')"
  shows "wp (c_for f xs s) (\<lambda>(ok, s'). I s')"
proof -
  have "wp (c_for f xs s) (\<lambda>(ok, s'). if ok then I s' else I s')"
    by (rule wp_c_for [where I = "\<lambda>_. I" and E = I])
      (use assms in \<open>auto intro: wp_mono\<close>)
  then show ?thesis by simp
qed

text \<open>What every completed round keeps, a loop that completes keeps.\<close>

lemma c_for_inv:
  assumes "c_for g xs s = Some (ok, s')" and "P s"
    and "\<And>x s ok s'. g x s = Some (ok, s') \<Longrightarrow> P s \<Longrightarrow> P s'"
  shows "P s'"
  using assms(1,2)
proof (induction xs arbitrary: s)
  case (Cons x xs)
  then obtain ok1 s1 where g: "g x s = Some (ok1, s1)" and rest: "if ok1 then c_for g xs s1 = Some (ok, s') else s1 = s'"
    by (auto simp: bind_eq_Some_conv split: prod.splits if_splits)
  have "P s1" using assms(3) [OF g Cons.prems(2)] .
  then show ?case using rest Cons.IH [of s1] by (auto split: if_splits)
qed simp

text \<open>A loop that looks for the first element with a property.\<close>

fun first_index :: "('a \<Rightarrow> bool) \<Rightarrow> 'a list \<Rightarrow> nat option" where
  "first_index P [] = None"
| "first_index P (x # xs) =
     (if P x then Some 0 else case first_index P xs of None \<Rightarrow> None | Some i \<Rightarrow> Some (Suc i))"

lemma first_index_None: "first_index P xs = None \<longleftrightarrow> (\<forall>x \<in> set xs. \<not> P x)"
  by (induction xs) (auto split: option.split)

lemma first_index_Some:
  "first_index P xs = Some i \<Longrightarrow> i < length xs \<and> P (xs ! i) \<and> (\<forall>k < i. \<not> P (xs ! k))"
  by (induction xs arbitrary: i) (auto split: if_splits option.splits simp: less_Suc_eq_0_disj)

section \<open>Strictly ascending arrays\<close>

abbreviation asc :: "nat list \<Rightarrow> bool" where
  "asc \<equiv> sorted_wrt (<)"

lemma asc_distinct: "asc xs \<Longrightarrow> distinct xs"
  by (induction xs) auto

lemma asc_sorted: "asc xs \<Longrightarrow> sorted xs"
  by (rule strict_sorted_imp_sorted)

lemma asc_nth_less: "asc xs \<Longrightarrow> i < j \<Longrightarrow> j < length xs \<Longrightarrow> xs ! i < xs ! j"
  by (rule sorted_wrt_nth_less)

lemma asc_nth_mono: "asc xs \<Longrightarrow> i \<le> j \<Longrightarrow> j < length xs \<Longrightarrow> xs ! i \<le> xs ! j"
  by (cases "i = j") (auto dest: asc_nth_less [of xs i j])

lemma asc_unique: "asc xs \<Longrightarrow> asc ys \<Longrightarrow> set xs = set ys \<Longrightarrow> xs = ys"
  by (metis asc_distinct asc_sorted sorted_distinct_set_unique)

lemma asc_map: "asc xs \<Longrightarrow> (\<And>x y. x \<in> set xs \<Longrightarrow> y \<in> set xs \<Longrightarrow> x < y \<Longrightarrow> f x < f y) \<Longrightarrow> asc (map f xs)"
  by (induction xs) auto

lemma asc_filter: "asc xs \<Longrightarrow> asc (filter P xs)"
  by (rule sorted_wrt_filter)

text \<open>Insertion at the first position whose element is not smaller keeps the order.\<close>

lemma asc_insert_at:
  assumes "asc xs" and "i \<le> length xs"
    and "\<forall>k < i. xs ! k < x" and "\<forall>k. i \<le> k \<longrightarrow> k < length xs \<longrightarrow> x < xs ! k"
  shows "asc (take i xs @ x # drop i xs)"
proof -
  have "\<forall>y \<in> set (take i xs). y < x"
    using assms(2,3) by (auto simp: in_set_conv_nth)
  moreover have "\<forall>y \<in> set (drop i xs). x < y"
    using assms(2,4) by (auto simp: in_set_conv_nth)
  moreover have "asc (take i xs)" "asc (drop i xs)"
    using assms(1) by (simp_all add: sorted_wrt_take sorted_wrt_drop)
  ultimately show ?thesis
    by (force simp: sorted_wrt_append)
qed

lemma set_insert_at: "set (take i xs @ x # drop i xs) = insert x (set xs)"
  by (metis append_take_drop_id set_append list.simps(15) Un_insert_right)

text \<open>The place where a binary search has to end.\<close>

definition insertion_point :: "nat list \<Rightarrow> nat \<Rightarrow> nat \<Rightarrow> bool" where
  "insertion_point a s r \<longleftrightarrow> r \<le> length a \<and> (\<forall>k < r. a ! k < s) \<and>
     (\<forall>k. r \<le> k \<longrightarrow> k < length a \<longrightarrow> s \<le> a ! k)"

lemma insertion_point_mem:
  assumes "asc a" and "insertion_point a s r"
  shows "s \<in> set a \<longleftrightarrow> r < length a \<and> a ! r = s"
proof
  assume "s \<in> set a"
  then obtain k where k: "k < length a" "a ! k = s" by (auto simp: in_set_conv_nth)
  then have "\<not> k < r" using assms(2) by (metis insertion_point_def less_irrefl)
  moreover have "\<not> r < k"
    using asc_nth_less [OF assms(1), of r k] k assms(2)
    by (metis insertion_point_def leD less_imp_le order_less_trans order_refl)
  ultimately show "r < length a \<and> a ! r = s" using k by auto
qed (auto simp: in_set_conv_nth)

lemma insertion_point_insert:
  assumes "asc a" and "insertion_point a s i" and "s \<notin> set a"
  shows "asc (take i a @ s # drop i a)"
proof (rule asc_insert_at)
  show "\<forall>k. i \<le> k \<longrightarrow> k < length a \<longrightarrow> s < a ! k"
    using assms(2,3) by (metis insertion_point_def nth_mem le_neq_implies_less)
qed (use assms in \<open>auto simp: insertion_point_def\<close>)

text \<open>The removal of duplicates from a sorted array, as far as an index.\<close>

lemma asc_remdups_adj: "sorted xs \<Longrightarrow> asc (remdups_adj xs)"
  by (induction xs rule: remdups_adj.induct) (auto simp: le_less)

lemma remdups_adj_take_Suc:
  assumes "0 < i" and "i < length xs"
  shows "remdups_adj (take (Suc i) xs) =
    remdups_adj (take i xs) @ (if xs ! (i - 1) = xs ! i then [] else [xs ! i])"
proof -
  have "take (Suc i) xs = take (i - 1) xs @ [xs ! (i - 1), xs ! i]"
    and "take i xs = take (i - 1) xs @ [xs ! (i - 1)]"
    using assms by (cases i; simp add: take_Suc_conv_app_nth)+
  then show ?thesis by (simp only: remdups_adj_append_two)
qed

lemma option_eqI: "(\<And>x. a = Some x \<longleftrightarrow> b = Some x) \<Longrightarrow> a = b"
  by (cases a; cases b) auto

section \<open>Sets that grow through the allocator\<close>

text \<open>
  The contract of a collection with an insertion that may run out of memory, and the loop
  that inserts every element of an array into it and gives up at the first failure.
\<close>

definition add_all ::
  "(alloc \<Rightarrow> 's \<Rightarrow> 'a \<Rightarrow> (bool \<times> 's \<times> alloc) option) \<Rightarrow> 'a list \<Rightarrow> 's \<times> alloc \<Rightarrow>
   (bool \<times> 's \<times> alloc) option" where
  "add_all add xs = c_for (\<lambda>x (s, al). add al s x) xs"

locale alloc_set =
  fixes inv :: "'s \<Rightarrow> bool" and mem :: "'s \<Rightarrow> 'a set" and elem_ok :: "'a \<Rightarrow> bool"
    and add :: "alloc \<Rightarrow> 's \<Rightarrow> 'a \<Rightarrow> (bool \<times> 's \<times> alloc) option"
  assumes add_wp: "inv s \<Longrightarrow> elem_ok x \<Longrightarrow>
    wp (add al s x) (\<lambda>(ok, s', al'). inv s' \<and>
      (if ok then mem s' = insert x (mem s) else mem s' \<subseteq> mem s) \<and> (al = [] \<longrightarrow> ok \<and> al' = []))"
begin

lemma add_all_wp:
  assumes "inv s" and "\<forall>x \<in> set xs. elem_ok x"
  shows "wp (add_all add xs (s, al)) (\<lambda>(ok, s', al'). inv s' \<and>
      (if ok then mem s' = set xs \<union> mem s else mem s' \<subseteq> set xs \<union> mem s) \<and>
      (al = [] \<longrightarrow> ok \<and> al' = []))"
proof -
  let ?I = "\<lambda>ys (s', al' :: alloc). inv s' \<and> mem s' = set ys \<union> mem s \<and> (al = [] \<longrightarrow> al' = [])"
  let ?E = "\<lambda>(s', al' :: alloc). inv s' \<and> mem s' \<subseteq> set xs \<union> mem s \<and> al \<noteq> []"
  have "wp (c_for (\<lambda>x (s, al). add al s x) xs (s, al))
      (\<lambda>(ok, sa). if ok then ?I xs sa else ?E sa)"
  proof (rule wp_c_for)
    fix ys x zs sa
    assume xs: "xs = ys @ x # zs" and I: "?I ys sa"
    obtain s1 al1 where sa: "sa = (s1, al1)" by (cases sa)
    have "inv s1" "elem_ok x" using I assms(2) xs sa by auto
    then show "wp (case sa of (s, al) \<Rightarrow> add al s x)
        (\<lambda>(ok, s'). if ok then ?I (ys @ [x]) s' else ?E s')"
      unfolding sa prod.case by (rule wp_mono3 [OF add_wp]) (use I sa xs in auto)
  qed (use assms in auto)
  then show ?thesis
    unfolding add_all_def by (rule wp_mono2) (auto split: if_splits)
qed

end

section \<open>Iterators\<close>

text \<open>
  The contract of a reset/next iterator: the items still to come. The loop
  \<open>while (next(&it, &x)) { ... }\<close>, run for at most \<open>n\<close> rounds, meets the first \<open>n\<close> of
  them, and so ends and meets all of them.
\<close>

fun drain :: "nat \<Rightarrow> ('it \<Rightarrow> 'a option \<times> 'it) \<Rightarrow> 'it \<Rightarrow> 'a list" where
  "drain 0 nxt it = []"
| "drain (Suc n) nxt it =
     (case nxt it of (None, it') \<Rightarrow> [] | (Some x, it') \<Rightarrow> x # drain n nxt it')"

locale iterator =
  fixes nxt :: "'it \<Rightarrow> 'a option \<times> 'it" and rest :: "'it \<Rightarrow> 'a list"
  assumes next_None: "nxt it = (None, it') \<Longrightarrow> rest it = []"
    and next_Some: "nxt it = (Some x, it') \<Longrightarrow> rest it = x # rest it'"
begin

lemma drain_take: "drain n nxt it = take n (rest it)"
proof (induction n arbitrary: it)
  case (Suc n)
  obtain r it' where r: "nxt it = (r, it')" by (cases "nxt it")
  show ?case
  proof (cases r)
    case None
    then show ?thesis using r next_None [of it it'] by simp
  next
    case (Some x)
    then show ?thesis using r Suc next_Some [of it x it'] by simp
  qed
qed simp

lemma drain_all: "length (rest it) \<le> n \<Longrightarrow> drain n nxt it = rest it"
  by (simp add: drain_take)

lemma next_hd: "fst (nxt it) = (case rest it of [] \<Rightarrow> None | x # xs \<Rightarrow> Some x)"
proof -
  obtain r it' where "nxt it = (r, it')" by (cases "nxt it")
  then show ?thesis using next_None [of it it'] next_Some [of it _ it'] by (cases r) auto
qed

end

lemma upt_split:
  assumes "[0..<n] = ys @ i # zs"
  shows "i = length ys" and "i < n"
proof -
  have "length ys < n" using arg_cong [OF assms, of length] by simp
  then have "[0..<n] ! length ys = length ys" by simp
  then show i: "i = length ys" unfolding assms by (simp add: nth_append)
  then show "i < n" using \<open>length ys < n\<close> by simp
qed

end
