(* ===== verification/Bitset.thy ===== *)
theory Bitset
  imports Fsm_Prelude
begin

unbundle bit_operations_syntax

text \<open>
  Bit sets over arrays of 64-bit words: the inline functions of
  \<open>include/adt/u64bitset.h\<close>, the \<open>SYMBOLS_*\<close> macros of \<open>src/adt/edgeset.c\<close>
  over the four words of an edge group, and the character bitmaps \<open>struct bm\<close> of
  \<open>src/adt/bitmap.c\<close>. The lemmas read every operation as an operation on the set of
  bits, so that the components above never look inside a word.
\<close>

section \<open>Words as bit sets\<close>

definition u64bitset_get :: "u64 list \<Rightarrow> nat \<Rightarrow> u64" where
  "u64bitset_get s k = s ! (k div 64) AND push_bit (k mod 64) 1"

definition u64bitset_set :: "u64 list \<Rightarrow> nat \<Rightarrow> u64 list" where
  "u64bitset_set s k = s[k div 64 := s ! (k div 64) OR push_bit (k mod 64) 1]"

definition u64bitset_clear :: "u64 list \<Rightarrow> nat \<Rightarrow> u64 list" where
  "u64bitset_clear s k = s[k div 64 := s ! (k div 64) AND NOT (push_bit (k mod 64) 1)]"

definition u64bitset_words :: "nat \<Rightarrow> nat" where
  "u64bitset_words count = count div 64 + (if count mod 64 \<noteq> 0 then 1 else 0)"

definition u64bitset_popcount :: "u64 \<Rightarrow> nat" where
  "u64bitset_popcount w = length (filter (bit w) [0..<64])"

text \<open>The bits of an array.\<close>

definition bits :: "u64 list \<Rightarrow> nat set" where
  "bits s = {i. i < 64 * length s \<and> bit (s ! (i div 64)) (i mod 64)}"

lemma and_push_bit_1: "((w :: u64) AND push_bit n 1 \<noteq> 0) = (n < 64 \<and> bit w n)"
proof
  assume "w AND push_bit n 1 \<noteq> 0"
  then obtain k where "bit (w AND push_bit n 1) k"
    by (metis bit_eq_iff bit_0_eq bot_apply bot_bool_def)
  then show "n < 64 \<and> bit w n"
    by (auto simp: bit_simps dest: bit_imp_le_length)
next
  assume "n < 64 \<and> bit w n"
  then have "bit (w AND push_bit n 1) n"
    by (simp add: bit_simps)
  then show "w AND push_bit n 1 \<noteq> 0" by auto
qed

lemma and_exp_1: "((w :: u64) AND 2 ^ n \<noteq> 0) = (n < 64 \<and> bit w n)"
  using and_push_bit_1 [of w n] by (simp add: push_bit_of_1)

lemma u64bitset_get_iff: "u64bitset_get s k \<noteq> 0 \<longleftrightarrow> bit (s ! (k div 64)) (k mod 64)"
  by (simp add: u64bitset_get_def and_exp_1)

lemma u64bitset_get_bits:
  "k < 64 * length s \<Longrightarrow> u64bitset_get s k \<noteq> 0 \<longleftrightarrow> k \<in> bits s"
  by (simp add: u64bitset_get_iff bits_def)

lemma length_u64bitset_set [simp]: "length (u64bitset_set s k) = length s"
  by (simp add: u64bitset_set_def)

lemma length_u64bitset_clear [simp]: "length (u64bitset_clear s k) = length s"
  by (simp add: u64bitset_clear_def)

lemma div_mod_eq_iff: "(i div 64 = j div 64 \<and> i mod 64 = j mod 64) \<longleftrightarrow> i = (j :: nat)"
  by (metis mult_div_mod_eq)

lemma bit_u64bitset_set:
  assumes "k < 64 * length s" and "i < 64 * length s"
  shows "bit (u64bitset_set s k ! (i div 64)) (i mod 64) \<longleftrightarrow>
    i = k \<or> bit (s ! (i div 64)) (i mod 64)"
proof -
  have "k div 64 < length s" using assms(1) by (simp add: less_mult_imp_div_less)
  moreover have "bit (push_bit (k mod 64) (1 :: u64)) (i mod 64) \<longleftrightarrow> i mod 64 = k mod 64"
    by (auto simp: bit_simps)
  ultimately show ?thesis
    using div_mod_eq_iff [of i k]
    by (cases "i div 64 = k div 64") (auto simp: u64bitset_set_def bit_or_iff)
qed

lemma bit_u64bitset_clear:
  assumes "k < 64 * length s" and "i < 64 * length s"
  shows "bit (u64bitset_clear s k ! (i div 64)) (i mod 64) \<longleftrightarrow>
    i \<noteq> k \<and> bit (s ! (i div 64)) (i mod 64)"
proof -
  have "k div 64 < length s" using assms(1) by (simp add: less_mult_imp_div_less)
  moreover have "bit (push_bit (k mod 64) (1 :: u64)) (i mod 64) \<longleftrightarrow> i mod 64 = k mod 64"
    by (auto simp: bit_simps)
  ultimately show ?thesis
    using div_mod_eq_iff [of i k]
    by (cases "i div 64 = k div 64") (auto simp: u64bitset_clear_def bit_and_iff bit_not_iff)
qed

lemma bits_u64bitset_set: "k < 64 * length s \<Longrightarrow> bits (u64bitset_set s k) = insert k (bits s)"
  by (auto simp: bits_def bit_u64bitset_set)

lemma bits_u64bitset_clear: "k < 64 * length s \<Longrightarrow> bits (u64bitset_clear s k) = bits s - {k}"
  by (auto simp: bits_def bit_u64bitset_clear)

lemma u64bitset_words_enough: "k < count \<Longrightarrow> k div 64 < u64bitset_words count"
  unfolding u64bitset_words_def
  by (cases "count mod 64 = 0") (auto simp: less_mult_imp_div_less div_le_mono le_imp_less_Suc)

lemma u64bitset_popcount_card: "u64bitset_popcount w = card {i. i < 64 \<and> bit w i}"
proof -
  have "{i. i < 64 \<and> bit w i} = set (filter (bit w) [0..<64])" by auto
  moreover have "distinct (filter (bit w) [0..<64])" by (rule distinct_filter) simp
  ultimately show ?thesis
    unfolding u64bitset_popcount_def by (metis distinct_card)
qed

section \<open>The symbols of an edge group\<close>

text \<open>
  \<open>uint64_t symbols[256/64]\<close>, indexed by an \<open>unsigned char\<close>: the four words are
  never left.
\<close>

type_synonym symbols = "u64 list"

definition SYMBOLS_SET :: "symbols \<Rightarrow> octet \<Rightarrow> symbols" where
  "SYMBOLS_SET S ID = S[unat ID div 64 := S ! (unat ID div 64) OR push_bit (unat ID mod 64) 1]"

definition SYMBOLS_GET :: "symbols \<Rightarrow> octet \<Rightarrow> bool" where
  "SYMBOLS_GET S ID = (S ! (unat ID div 64) AND push_bit (unat ID mod 64) 1 \<noteq> 0)"

definition SYMBOLS_CLEAR :: "symbols \<Rightarrow> octet \<Rightarrow> symbols" where
  "SYMBOLS_CLEAR S ID =
     S[unat ID div 64 := S ! (unat ID div 64) AND NOT (push_bit (unat ID mod 64) 1)]"

definition symbols_zero :: symbols where
  "symbols_zero = [0, 0, 0, 0]"

text \<open>The loops \<open>for (i = 0; i < 4; i++) dst[i] |= src[i]\<close> and the two masked copies.\<close>

definition symbols_or :: "symbols \<Rightarrow> symbols \<Rightarrow> symbols" where
  "symbols_or = map2 (OR)"

definition symbols_and :: "symbols \<Rightarrow> symbols \<Rightarrow> symbols" where
  "symbols_and = map2 (AND)"

definition symbols_and_not :: "symbols \<Rightarrow> symbols \<Rightarrow> symbols" where
  "symbols_and_not = map2 (\<lambda>a b. a AND NOT b)"

definition symset :: "symbols \<Rightarrow> octet set" where
  "symset S = {c. bit (S ! (unat c div 64)) (unat c mod 64)}"

lemma unat_octet: "unat (c :: octet) < 256"
  by (rule order_less_le_trans [OF unsigned_less]) simp

lemma unat_of_nat_octet: "n < 256 \<Longrightarrow> unat (of_nat n :: octet) = n"
  by (simp add: unat_of_nat)

lemma unat_octet_word: "unat (c :: octet) div 64 < 4"
  using unat_octet [of c] by linarith

lemma unat_octet_4: "unat (c :: octet) < 64 * 4"
  using unat_octet [of c] by simp

lemma octet_nat_eq_iff [simp]: "(unat c = unat d) = (c = (d :: octet))"
  by (auto dest: word_eq_iff_unsigned [THEN iffD2])

lemma SYMBOLS_GET_iff [simp]: "SYMBOLS_GET S c = (c \<in> symset S)"
  by (simp add: SYMBOLS_GET_def and_exp_1 symset_def)

lemma length_SYMBOLS_SET [simp]: "length (SYMBOLS_SET S c) = length S"
  by (simp add: SYMBOLS_SET_def)

lemma length_SYMBOLS_CLEAR [simp]: "length (SYMBOLS_CLEAR S c) = length S"
  by (simp add: SYMBOLS_CLEAR_def)

lemma symset_SYMBOLS_SET: "length S = 4 \<Longrightarrow> symset (SYMBOLS_SET S c) = insert c (symset S)"
  using bit_u64bitset_set [of "unat c" S] unat_octet_4
  by (auto simp: symset_def SYMBOLS_SET_def u64bitset_set_def)

lemma symset_SYMBOLS_CLEAR: "length S = 4 \<Longrightarrow> symset (SYMBOLS_CLEAR S c) = symset S - {c}"
  using bit_u64bitset_clear [of "unat c" S] unat_octet_4
  by (auto simp: symset_def SYMBOLS_CLEAR_def u64bitset_clear_def)

lemma length_symbols_zero [simp]: "length symbols_zero = 4"
  by (simp add: symbols_zero_def)

lemma symset_zero [simp]: "symset symbols_zero = {}"
proof -
  have "symbols_zero ! (unat c div 64) = 0" for c :: octet
    using unat_octet_word [of c]
    by (auto simp: symbols_zero_def nth_Cons split: nat.split)
  then show ?thesis by (simp add: symset_def)
qed

lemma length_symbols_ops [simp]:
  "length (symbols_or S T) = min (length S) (length T)"
  "length (symbols_and S T) = min (length S) (length T)"
  "length (symbols_and_not S T) = min (length S) (length T)"
  by (simp_all add: symbols_or_def symbols_and_def symbols_and_not_def)

lemma symset_or: "length S = 4 \<Longrightarrow> length T = 4 \<Longrightarrow> symset (symbols_or S T) = symset S \<union> symset T"
  using unat_octet_word by (auto simp: symset_def symbols_or_def bit_or_iff)

lemma symset_and: "length S = 4 \<Longrightarrow> length T = 4 \<Longrightarrow> symset (symbols_and S T) = symset S \<inter> symset T"
  using unat_octet_word by (auto simp: symset_def symbols_and_def bit_and_iff)

lemma symset_and_not:
  "length S = 4 \<Longrightarrow> length T = 4 \<Longrightarrow> symset (symbols_and_not S T) = symset S - symset T"
  using unat_octet_word by (auto simp: symset_def symbols_and_not_def bit_and_iff bit_not_iff)

text \<open>A symbol of the set lies in a word that is not zero, so an empty word holds none.\<close>

lemma symset_word: "c \<in> symset S \<Longrightarrow> S ! (unat c div 64) \<noteq> 0"
  by (auto simp: symset_def)

lemma symset_empty_iff:
  assumes "length S = 4"
  shows "symset S = {} \<longleftrightarrow> (\<forall>i < 4. S ! i = 0)"
proof
  assume e: "symset S = {}"
  show "\<forall>i < 4. S ! i = 0"
  proof (intro allI impI, rule ccontr)
    fix i :: nat
    assume i: "i < 4" and "S ! i \<noteq> 0"
    then obtain n where n: "bit (S ! i) n" by (metis bit_eq_iff bit_0_eq bot_apply bot_bool_def)
    then have "n < 64" by (auto dest: bit_imp_le_length)
    moreover define c :: octet where "c = of_nat (64 * i + n)"
    ultimately have "unat c = 64 * i + n"
      unfolding c_def using i by (intro unat_of_nat_octet) simp
    then have "c \<in> symset S"
      using n \<open>n < 64\<close> by (simp add: symset_def)
    with e show False by simp
  qed
next
  assume "\<forall>i < 4. S ! i = 0"
  then show "symset S = {}"
    using symset_word unat_octet_word by blast
qed

lemma symset_eqI:
  assumes "length S = 4" and "length T = 4" and "symset S = symset T"
  shows "S = T"
proof (rule nth_equalityI)
  show "length S = length T" using assms by simp
next
  fix i assume i: "i < length S"
  show "S ! i = T ! i"
  proof (rule bit_eqI)
    fix n assume "possible_bit TYPE(u64) n"
    then have n: "n < 64" by simp
    define c :: octet where "c = of_nat (64 * i + n)"
    have "unat c = 64 * i + n" unfolding c_def using i n assms(1) by (intro unat_of_nat_octet) simp
    then have "c \<in> symset S \<longleftrightarrow> bit (S ! i) n" "c \<in> symset T \<longleftrightarrow> bit (T ! i) n"
      using n by (simp_all add: symset_def)
    then show "bit (S ! i) n = bit (T ! i) n" using assms(3) by simp
  qed
qed

end
