(* ===== verification/State_Set.thy ===== *)
theory State_Set
  imports Bitset
begin

unbundle bit_operations_syntax

text \<open>
  The sets of states of \<open>src/adt/stateset.c\<close>: a null pointer for the empty set, a
  tagged pointer holding the only member of a singleton, or a heap-allocated, growing,
  strictly ascending array. The definitions follow the file function by function; the lemmas
  show that every operation keeps the array strictly ascending and inside its allocation,
  that it is the set operation it is named after, that no assertion fails, and what is left
  of the set when the allocator fails. The locale at the end is the contract the automata
  code uses.
\<close>

section \<open>Tagged pointers\<close>

definition SINGLETON_ENCODE :: "fsm_state_t \<Rightarrow> u64" where
  "SINGLETON_ENCODE state = push_bit 1 (of_nat state) OR 1"

definition SINGLETON_DECODE :: "u64 \<Rightarrow> fsm_state_t" where
  "SINGLETON_DECODE ptr = unat (drop_bit 1 ptr) mod state_limit"

definition IS_SINGLETON :: "u64 \<Rightarrow> bool" where
  "IS_SINGLETON ptr = (ptr AND 1 \<noteq> 0)"

section \<open>The data structure\<close>

record state_array =
  arr_a :: "fsm_state_t list"  \<comment> \<open>the items in use, \<open>a[0] .. a[i - 1]\<close>\<close>
  arr_n :: nat                 \<comment> \<open>the items allocated\<close>

datatype state_set =
    SS_Null
  | SS_Singleton fsm_state_t
  | SS_Array state_array

definition SET_INITIAL :: nat where
  "SET_INITIAL = 8"

fun state_set_empty :: "state_set \<Rightarrow> bool" where
  "state_set_empty SS_Null = True"
| "state_set_empty (SS_Singleton s) = False"
| "state_set_empty (SS_Array st) = (arr_a st = [])"

fun state_set_count :: "state_set \<Rightarrow> nat" where
  "state_set_count SS_Null = 0"
| "state_set_count (SS_Singleton s) = 1"
| "state_set_count (SS_Array st) = length (arr_a st)"

fun state_set_only :: "state_set \<Rightarrow> fsm_state_t option" where
  "state_set_only SS_Null = None"
| "state_set_only (SS_Singleton s) = Some s"
| "state_set_only (SS_Array st) =
     do { c_assert (arr_n st \<ge> 1); c_assert (length (arr_a st) = 1); Some (arr_a st ! 0) }"

definition state_set_cmpval :: "fsm_state_t \<Rightarrow> fsm_state_t \<Rightarrow> int" where
  "state_set_cmpval a b = (if a > b then 1 else if a < b then -1 else 0)"

text \<open>
  The loop of the binary search, with its three variables. The last position at which it
  looked is the result, moved one past it when the loop is about to stop on the right.
\<close>

function search_loop ::
  "fsm_state_t list \<Rightarrow> fsm_state_t \<Rightarrow> nat \<Rightarrow> nat \<Rightarrow> nat \<Rightarrow> nat" where
  "search_loop a state start end mid =
     (if start < end then
        let mid = start + (end - start) div 2; r = state_set_cmpval state (a ! mid) in
        if r < 0 then search_loop a state start mid mid
        else if r > 0 then
          search_loop a state (mid + 1) end (if mid + 1 = end then mid + 1 else mid)
        else mid
      else mid)"
  by pat_completeness auto
termination
  by (relation "measure (\<lambda>(a, state, start, end, mid). end - start)") auto

declare search_loop.simps [simp del]

definition state_set_search :: "state_array \<Rightarrow> fsm_state_t \<Rightarrow> nat" where
  "state_set_search st state =
     (let a = arr_a st; i = length a in
      if i > 0 \<and> state > a ! (i - 1) then i else search_loop a state 0 i 0)"

fun state_set_contains :: "state_set \<Rightarrow> fsm_state_t \<Rightarrow> bool" where
  "state_set_contains SS_Null state = False"
| "state_set_contains (SS_Singleton s) state = (s = state)"
| "state_set_contains (SS_Array st) state =
     (if arr_a st = [] then False
      else let i = state_set_search st state in
           i < length (arr_a st) \<and> arr_a st ! i = state)"

definition state_set_create :: "alloc \<Rightarrow> state_array option \<times> alloc" where
  "state_set_create al =
     (let (ok, al) = f_malloc al in
      if \<not> ok then (None, al)
      else let (ok, al) = f_malloc al in
           if \<not> ok then (None, al)
           else (Some \<lparr>arr_a = [], arr_n = SET_INITIAL\<rparr>, al))"

text \<open>
  The part of \<open>state_set_add\<close> for a set that has an array. A store outside the
  allocation is \<open>None\<close>, as is the failing assertion at the end.
\<close>

definition state_set_add_array ::
  "alloc \<Rightarrow> state_array \<Rightarrow> fsm_state_t \<Rightarrow> (bool \<times> state_array \<times> alloc) option" where
  "state_set_add_array al st state =
     (let i = (if arr_a st = [] then 0 else state_set_search st state) in
      if arr_a st \<noteq> [] \<and> i < length (arr_a st) \<and> arr_a st ! i = state
      then Some (True, st, al)
      else
        let (ok, st, al) =
          (if arr_a st \<noteq> [] \<and> length (arr_a st) = arr_n st
           then let (ok, al) = f_realloc al in
                if ok then (True, st\<lparr>arr_n := arr_n st * 2\<rparr>, al) else (False, st, al)
           else (True, st, al)) in
        if \<not> ok then Some (False, st, al)
        else do {
          c_assert (length (arr_a st) < arr_n st);
          let st = st\<lparr>arr_a := take i (arr_a st) @ state # drop i (arr_a st)\<rparr>;
          c_assert (state_set_contains (SS_Array st) state);
          Some (True, st, al) })"

text \<open>
  The in-place removal of adjacent duplicates at the end of \<open>state_set_add_bulk\<close>: an
  array, the position read, the position to write next.
\<close>

function dedup_loop ::
  "fsm_state_t list \<Rightarrow> nat \<Rightarrow> nat \<Rightarrow> nat \<Rightarrow> (fsm_state_t list \<times> nat) option" where
  "dedup_loop a i cur lim =
     (if i < lim then
        let cmp = state_set_cmpval (a ! (i - 1)) (a ! i) in
        if \<not> (cmp \<le> 0) \<or> \<not> (cur \<le> i) then None
        else if cmp \<noteq> 0 then dedup_loop (a[cur := a ! i]) (i + 1) (cur + 1) lim
        else dedup_loop a (i + 1) cur lim
      else Some (a, cur))"
  by pat_completeness auto
termination
  by (relation "measure (\<lambda>(a, i, cur, lim). lim - i)") auto

declare dedup_loop.simps [simp del]

definition state_set_bulk_array ::
  "alloc \<Rightarrow> state_array \<Rightarrow> fsm_state_t list \<Rightarrow> (bool \<times> state_array \<times> alloc) option" where
  "state_set_bulk_array al st a =
     (let newlen = length (arr_a st) + length a;
          (ok, st, al) =
            (if newlen > arr_n st
             then let newcap = (if newlen < 2 * arr_n st then 2 * arr_n st else newlen);
                      (ok, al) = f_realloc al in
                  if ok then (True, st\<lparr>arr_n := newcap\<rparr>, al) else (False, st, al)
             else (True, st, al)) in
      if \<not> ok then Some (False, st, al)
      else do {
        c_assert (newlen \<le> arr_n st);
        (a, cur) \<leftarrow> dedup_loop (sort (arr_a st @ a)) 1 1 newlen;
        Some (True, st\<lparr>arr_a := take cur a\<rparr>, al) })"

text \<open>
  \<open>state_set_add\<close> and \<open>state_set_add_bulk\<close> call each other: a singleton grows into an
  array through the bulk insertion of its member and the new one, and a bulk insertion of
  one item is an insertion. Both come down to the two array operations above.
\<close>

fun state_set_add ::
  "alloc \<Rightarrow> state_set \<Rightarrow> fsm_state_t \<Rightarrow> (bool \<times> state_set \<times> alloc) option" where
  "state_set_add al SS_Null state = Some (True, SS_Singleton state, al)"
| "state_set_add al (SS_Singleton s) state =
     (case state_set_create al of
        (None, al) \<Rightarrow> Some (False, SS_Null, al)
      | (Some st, al) \<Rightarrow>
          do { (ok, st, al) \<leftarrow> state_set_bulk_array al st [s, state];
               Some (ok, SS_Array st, al) })"
| "state_set_add al (SS_Array st) state =
     do { (ok, st, al) \<leftarrow> state_set_add_array al st state; Some (ok, SS_Array st, al) }"

definition state_set_add_bulk ::
  "alloc \<Rightarrow> state_set \<Rightarrow> fsm_state_t list \<Rightarrow> (bool \<times> state_set \<times> alloc) option" where
  "state_set_add_bulk al setp a =
     (if a = [] then Some (True, setp, al)
      else if length a = 1 then state_set_add al setp (a ! 0)
      else case setp of
        SS_Singleton prev \<Rightarrow>
          (case state_set_create al of
             (None, al) \<Rightarrow> Some (False, SS_Null, al)
           | (Some st, al) \<Rightarrow>
               do { (ok, st, al) \<leftarrow> state_set_add_array al st prev;
                    if \<not> ok then Some (False, SS_Array st, al)
                    else do { (ok, st, al) \<leftarrow> state_set_bulk_array al st a;
                              Some (ok, SS_Array st, al) } })
      | SS_Null \<Rightarrow>
          (case state_set_create al of
             (None, al) \<Rightarrow> Some (False, SS_Null, al)
           | (Some st, al) \<Rightarrow>
               do { (ok, st, al) \<leftarrow> state_set_bulk_array al st a;
                    Some (ok, SS_Array st, al) })
      | SS_Array st \<Rightarrow>
          do { (ok, st, al) \<leftarrow> state_set_bulk_array al st a; Some (ok, SS_Array st, al) })"

fun state_set_copy ::
  "alloc \<Rightarrow> state_set \<Rightarrow> state_set \<Rightarrow> (bool \<times> state_set \<times> alloc) option" where
  "state_set_copy al dst SS_Null = Some (True, dst, al)"
| "state_set_copy al dst (SS_Singleton s) = state_set_add al dst s"
| "state_set_copy al dst (SS_Array src) = state_set_add_bulk al dst (arr_a src)"

text \<open>The callback may itself stop the program, hence its \<open>option\<close>.\<close>

fun compact_items :: "(fsm_state_t \<Rightarrow> fsm_state_t option) \<Rightarrow> fsm_state_t list \<Rightarrow> fsm_state_t list option" where
  "compact_items remap [] = Some []"
| "compact_items remap (s # ss) =
     do { new_id \<leftarrow> remap s;
          rest \<leftarrow> compact_items remap ss;
          Some (if new_id = FSM_STATE_REMAP_NO_STATE then rest else new_id # rest) }"

fun state_set_compact :: "state_set \<Rightarrow> (fsm_state_t \<Rightarrow> fsm_state_t option) \<Rightarrow> state_set option" where
  "state_set_compact SS_Null remap = Some SS_Null"
| "state_set_compact (SS_Singleton s) remap =
     do { new_id \<leftarrow> remap s;
          if new_id = FSM_STATE_REMAP_NO_STATE then Some SS_Null
          else do { c_assert (new_id \<le> s); Some (SS_Singleton new_id) } }"
| "state_set_compact (SS_Array st) remap =
     (if arr_a st = [] then Some (SS_Array st)
      else do { a \<leftarrow> compact_items remap (arr_a st); Some (SS_Array (st\<lparr>arr_a := a\<rparr>)) })"

fun state_set_remove :: "state_set \<Rightarrow> fsm_state_t \<Rightarrow> state_set option" where
  "state_set_remove SS_Null state = Some SS_Null"
| "state_set_remove (SS_Singleton s) state =
     Some (if s = state then SS_Null else SS_Singleton s)"
| "state_set_remove (SS_Array st) state =
     (if arr_a st = [] then Some (SS_Array st)
      else
        let i = state_set_search st state;
            st = (if i < length (arr_a st) \<and> arr_a st ! i = state
                   then st\<lparr>arr_a := take i (arr_a st) @ drop (i + 1) (arr_a st)\<rparr>
                   else st) in
        do { c_assert (\<not> state_set_contains (SS_Array st) state); Some (SS_Array st) })"

fun state_set_rebase :: "state_set \<Rightarrow> fsm_state_t \<Rightarrow> state_set" where
  "state_set_rebase SS_Null base = SS_Null"
| "state_set_rebase (SS_Singleton s) base = SS_Singleton (state_add s base)"
| "state_set_rebase (SS_Array st) base =
     SS_Array (st\<lparr>arr_a := map (\<lambda>s. state_add s base) (arr_a st)\<rparr>)"

fun state_set_replace :: "state_set \<Rightarrow> fsm_state_t \<Rightarrow> fsm_state_t \<Rightarrow> state_set" where
  "state_set_replace SS_Null old new = SS_Null"
| "state_set_replace (SS_Singleton s) old new = (if s \<noteq> old then SS_Singleton s else SS_Singleton new)"
| "state_set_replace (SS_Array st) old new =
     SS_Array (st\<lparr>arr_a := map (\<lambda>s. if s = old then new else s) (arr_a st)\<rparr>)"

text \<open>The items in use of a set that has an array; the other two shapes fail the assertions.\<close>

fun state_set_array :: "state_set \<Rightarrow> fsm_state_t list option" where
  "state_set_array (SS_Array st) = Some (arr_a st)"
| "state_set_array _ = None"

section \<open>Iteration\<close>

record state_iter =
  it_i :: nat
  it_set :: state_set

definition state_set_reset :: "state_set \<Rightarrow> state_iter" where
  "state_set_reset st = \<lparr>it_i = 0, it_set = st\<rparr>"

definition state_set_next :: "state_iter \<Rightarrow> fsm_state_t option \<times> state_iter" where
  "state_set_next it =
     (case it_set it of
        SS_Null \<Rightarrow> (None, it)
      | SS_Singleton s \<Rightarrow>
          (if it_i it \<ge> 1 then (None, it) else (Some s, it\<lparr>it_i := it_i it + 1\<rparr>))
      | SS_Array st \<Rightarrow>
          (if it_i it \<ge> length (arr_a st) then (None, it)
           else (Some (arr_a st ! it_i it), it\<lparr>it_i := it_i it + 1\<rparr>)))"

lemma state_set_next_Some:
  "state_set_next it = (Some s, it') \<Longrightarrow>
   it_set it' = it_set it \<and> it_i it' = it_i it + 1 \<and> it_i it < state_set_count (it_set it)"
  by (auto simp: state_set_next_def split: state_set.splits if_splits)

text \<open>What a loop \<open>for (state_set_reset(...); state_set_next(...); )\<close> runs over.\<close>

function state_set_drain :: "state_iter \<Rightarrow> fsm_state_t list" where
  "state_set_drain it =
     (case state_set_next it of
        (None, it') \<Rightarrow> []
      | (Some s, it') \<Rightarrow> s # state_set_drain it')"
  by pat_completeness auto
termination
  by (relation "measure (\<lambda>it. state_set_count (it_set it) - it_i it)")
    (auto dest: state_set_next_Some [OF sym])

declare state_set_drain.simps [simp del]

fun state_set_has :: "(fsm_state_t \<Rightarrow> bool) \<Rightarrow> fsm_state_t list \<Rightarrow> bool" where
  "state_set_has predicate [] = False"
| "state_set_has predicate (s # ss) = (if predicate s then True else state_set_has predicate ss)"

section \<open>Comparison\<close>

text \<open>\<open>memcmp\<close> compares the bytes of the arrays; the target is little-endian.\<close>

definition state_bytes :: "fsm_state_t \<Rightarrow> nat list" where
  "state_bytes s = [s mod 256, s div 256 mod 256, s div 65536 mod 256, s div 16777216 mod 256]"

fun memcmp_bytes :: "nat list \<Rightarrow> nat list \<Rightarrow> int" where
  "memcmp_bytes (x # xs) (y # ys) =
     (if x < y then -1 else if x > y then 1 else memcmp_bytes xs ys)"
| "memcmp_bytes _ _ = 0"

definition cmp_states :: "fsm_state_t \<Rightarrow> fsm_state_t \<Rightarrow> int" where
  "cmp_states sa sb = of_bool (sa > sb) - of_bool (sa < sb)"

definition state_set_cmp :: "state_set \<Rightarrow> state_set \<Rightarrow> int option" where
  "state_set_cmp a b =
     do { c_assert (a \<noteq> SS_Null); c_assert (b \<noteq> SS_Null);
          let count_a = state_set_count a;
          let count_b = state_set_count b;
          if count_a \<noteq> count_b
          then Some (sint (of_nat count_a - of_nat count_b :: 32 word))
          else case (a, b) of
            (SS_Singleton sa, SS_Singleton sb) \<Rightarrow> Some (cmp_states sa sb)
          | (SS_Singleton sa, _) \<Rightarrow>
              do { c_assert (count_b = 1); sb \<leftarrow> state_set_only b; Some (cmp_states sa sb) }
          | (_, SS_Singleton sb) \<Rightarrow>
              do { c_assert (count_a = 1); sa \<leftarrow> state_set_only a; Some (cmp_states sa sb) }
          | (SS_Array sa, SS_Array sb) \<Rightarrow>
              Some (memcmp_bytes (concat (map state_bytes (arr_a sa)))
                                 (concat (map state_bytes (arr_a sb))))
          | _ \<Rightarrow> None }"

section \<open>Invariant and members\<close>

definition arr_inv :: "state_array \<Rightarrow> bool" where
  "arr_inv st \<longleftrightarrow> asc (arr_a st) \<and> (\<forall>s \<in> set (arr_a st). s < state_limit) \<and>
     length (arr_a st) \<le> arr_n st \<and> 0 < arr_n st"

fun ss_inv :: "state_set \<Rightarrow> bool" where
  "ss_inv SS_Null = True"
| "ss_inv (SS_Singleton s) = (s < state_limit)"
| "ss_inv (SS_Array st) = arr_inv st"

fun ss_list :: "state_set \<Rightarrow> fsm_state_t list" where
  "ss_list SS_Null = []"
| "ss_list (SS_Singleton s) = [s]"
| "ss_list (SS_Array st) = arr_a st"

abbreviation ss_set :: "state_set \<Rightarrow> fsm_state_t set" where
  "ss_set st \<equiv> set (ss_list st)"

lemma ss_list_asc: "ss_inv st \<Longrightarrow> asc (ss_list st)"
  by (cases st) (auto simp: arr_inv_def)

lemma ss_set_limit: "ss_inv st \<Longrightarrow> s \<in> ss_set st \<Longrightarrow> s < state_limit"
  by (cases st) (auto simp: arr_inv_def)

lemma ss_list_unique: "ss_inv st \<Longrightarrow> ss_inv st' \<Longrightarrow> ss_set st = ss_set st' \<Longrightarrow> ss_list st = ss_list st'"
  by (auto intro: asc_unique ss_list_asc)

lemma state_set_empty_iff: "state_set_empty st \<longleftrightarrow> ss_list st = []"
  by (cases st) auto

lemma state_set_count_length: "state_set_count st = length (ss_list st)"
  by (cases st) auto

section \<open>Binary search\<close>

lemma search_loop_spec:
  assumes "asc a" and "start \<le> end" and "end \<le> length a"
    and "\<forall>k < start. a ! k < s" and "\<forall>k. end \<le> k \<longrightarrow> k < length a \<longrightarrow> s < a ! k"
    and "start = end \<longrightarrow> mid = start"
  shows "insertion_point a s (search_loop a s start end mid)"
  using assms
proof (induction a s start "end" mid rule: search_loop.induct)
  case (1 a s start "end" mid)
  note prems = "1.prems"
  let ?m = "start + (end - start) div 2"
  show ?case
  proof (cases "start < end")
    case False
    then have "search_loop a s start end mid = start"
      using prems by (subst search_loop.simps) auto
    then show ?thesis
      using False prems by (auto simp: insertion_point_def intro: less_imp_le)
  next
    case True
    then have m: "start \<le> ?m" "?m < end" by linarith+
    consider "s < a ! ?m" | "s > a ! ?m" | "s = a ! ?m" by linarith
    then show ?thesis
    proof cases
      case 1
      then have r: "search_loop a s start end mid = search_loop a s start ?m ?m"
        using True by (subst search_loop.simps) (simp add: Let_def state_set_cmpval_def)
      have "\<forall>k. ?m \<le> k \<longrightarrow> k < length a \<longrightarrow> s < a ! k"
        using 1 asc_nth_mono [OF prems(1)] by (meson order_less_le_trans)
      then show ?thesis
        unfolding r
        using "1.IH"(1) [OF True refl refl] 1 m prems by (auto simp: state_set_cmpval_def)
    next
      case 2
      then have r: "search_loop a s start end mid =
          search_loop a s (?m + 1) end (if ?m + 1 = end then ?m + 1 else ?m)"
        using True by (subst search_loop.simps) (simp add: Let_def state_set_cmpval_def)
      have "\<forall>k < ?m + 1. a ! k < s"
        using 2 m prems asc_nth_mono [OF prems(1), of _ ?m]
        by (metis Suc_eq_plus1 less_Suc_eq_le order_le_less_trans order_less_le_trans)
      then show ?thesis
        unfolding r
        using "1.IH"(2) [OF True refl refl] 2 m prems by (auto simp: state_set_cmpval_def)
    next
      case 3
      then have r: "search_loop a s start end mid = ?m"
        using True by (subst search_loop.simps) (simp add: Let_def state_set_cmpval_def)
      show ?thesis
        unfolding r insertion_point_def
        using 3 m prems asc_nth_less [OF prems(1)] asc_nth_mono [OF prems(1)] by auto
    qed
  qed
qed

lemma state_set_search_spec:
  assumes "asc (arr_a st)"
  shows "insertion_point (arr_a st) s (state_set_search st s)"
proof (cases "length (arr_a st) > 0 \<and> s > arr_a st ! (length (arr_a st) - 1)")
  case True
  have "arr_a st ! k < s" if "k < length (arr_a st)" for k
  proof -
    have "k \<le> length (arr_a st) - 1" "length (arr_a st) - 1 < length (arr_a st)"
      using that by linarith+
    then have "arr_a st ! k \<le> arr_a st ! (length (arr_a st) - 1)"
      by (rule asc_nth_mono [OF assms])
    with True show ?thesis by linarith
  qed
  then show ?thesis
    using True by (simp add: state_set_search_def insertion_point_def)
next
  case False
  then have "state_set_search st s = search_loop (arr_a st) s 0 (length (arr_a st)) 0"
    by (auto simp: state_set_search_def Let_def)
  then show ?thesis
    using search_loop_spec [OF assms, of 0 "length (arr_a st)" s 0] by simp
qed

lemma state_set_contains_iff: "ss_inv st \<Longrightarrow> state_set_contains st s \<longleftrightarrow> s \<in> ss_set st"
proof (cases st)
  case (SS_Array a)
  assume "ss_inv st"
  with SS_Array have "asc (arr_a a)" by (simp add: arr_inv_def)
  then have "s \<in> set (arr_a a) \<longleftrightarrow>
      state_set_search a s < length (arr_a a) \<and> arr_a a ! state_set_search a s = s"
    using insertion_point_mem [OF _ state_set_search_spec] by blast
  then show ?thesis by (auto simp: SS_Array Let_def)
qed auto

section \<open>Insertion\<close>

text \<open>
  The outcome of an insertion: on success the new member is in the set, on failure the
  array is as it was; an allocator that does not fail is enough for success.
\<close>

lemma state_set_add_array_wp:
  assumes "arr_inv st" and "s < state_limit"
  shows "wp (state_set_add_array al st s)
    (\<lambda>(ok, st', al'). arr_inv st' \<and>
       set (arr_a st') = (if ok then insert s (set (arr_a st)) else set (arr_a st)) \<and>
       (al = [] \<longrightarrow> ok \<and> al' = []))"
proof -
  define i where "i = (if arr_a st = [] then 0 else state_set_search st s)"
  have asc: "asc (arr_a st)" using assms(1) by (simp add: arr_inv_def)
  then have ip: "insertion_point (arr_a st) s i"
    using state_set_search_spec by (auto simp: i_def insertion_point_def)
  note mem = insertion_point_mem [OF asc ip]
  define a where "a = take i (arr_a st) @ s # drop i (arr_a st)"
  have store: "wp (do {
        c_assert (length (arr_a st1) < arr_n st1);
        let st2 = st1\<lparr>arr_a := take i (arr_a st1) @ s # drop i (arr_a st1)\<rparr>;
        c_assert (state_set_contains (SS_Array st2) s);
        Some (True, st2, al1) })
      (\<lambda>(ok, st', al'). ok \<and> al' = al1 \<and> arr_inv st' \<and> set (arr_a st') = insert s (set (arr_a st)))"
    if "s \<notin> set (arr_a st)" "arr_a st1 = arr_a st" "length (arr_a st) < arr_n st1" for st1 al1
  proof -
    have a: "asc a" "set a = insert s (set (arr_a st))" "length a = length (arr_a st) + 1"
      using insertion_point_insert [OF asc ip that(1)] set_insert_at [of i "arr_a st" s] ip
      by (auto simp: insertion_point_def a_def)
    have inv: "arr_inv (st1\<lparr>arr_a := a\<rparr>)" using a assms that by (auto simp: arr_inv_def)
    then have "state_set_contains (SS_Array (st1\<lparr>arr_a := a\<rparr>)) s"
      using state_set_contains_iff [of "SS_Array (st1\<lparr>arr_a := a\<rparr>)" s] a(2) by simp
    with inv a that show ?thesis by (simp add: wp_simps a_def [symmetric] Let_def)
  qed
  show ?thesis
  proof (cases "s \<in> set (arr_a st)")
    case True
    then show ?thesis
      using mem assms(1)
      by (auto simp: state_set_add_array_def i_def Let_def insert_absorb split: if_splits)
  next
    case False
    then have absent: "\<not> (arr_a st \<noteq> [] \<and> i < length (arr_a st) \<and> arr_a st ! i = s)"
      using mem by blast
    show ?thesis
    proof (cases "arr_a st \<noteq> [] \<and> length (arr_a st) = arr_n st")
      case True
      obtain ok al' where al: "f_realloc al = (ok, al')" by (cases "f_realloc al")
      have nil: "al = [] \<Longrightarrow> ok \<and> al' = []" using al by auto
      show ?thesis
      proof (cases ok)
        case False
        then show ?thesis
          unfolding state_set_add_array_def i_def [symmetric] Let_def
          using absent True al nil assms(1) by auto
      next
        case ok: True
        have "0 < arr_n st" using assms(1) by (simp add: arr_inv_def)
        then have "wp (state_set_add_array al st s)
          (\<lambda>(ok, st', al1). ok \<and> al1 = al' \<and> arr_inv st' \<and> set (arr_a st') = insert s (set (arr_a st)))"
          unfolding state_set_add_array_def i_def [symmetric] Let_def if_not_P [OF absent]
            if_P [OF True] al prod.case if_P [OF ok]
          using store [OF \<open>s \<notin> set (arr_a st)\<close>, of "st\<lparr>arr_n := arr_n st * 2\<rparr>" al'] True
          by (simp only: Let_def) simp
        then show ?thesis by (rule wp_mono3) (use nil in auto)
      qed
    next
      case room: False
      then have "length (arr_a st) < arr_n st" using assms(1) by (auto simp: arr_inv_def)
      then have "wp (state_set_add_array al st s)
          (\<lambda>(ok, st', al1). ok \<and> al1 = al \<and> arr_inv st' \<and> set (arr_a st') = insert s (set (arr_a st)))"
        unfolding state_set_add_array_def i_def [symmetric] Let_def if_not_P [OF absent]
          if_not_P [OF room] prod.case
        using store [OF False refl, of al] by (simp only: Let_def) simp
      then show ?thesis by (rule wp_mono3) auto
    qed
  qed
qed

text \<open>The removal of duplicates in place, on a sorted array.\<close>

lemma dedup_loop_wp:
  assumes "sorted xs" and "length a = length xs" and "0 < i" and "i \<le> length xs" and "cur \<le> i"
    and "take cur a = remdups_adj (take i xs)" and "\<forall>k. i - 1 \<le> k \<longrightarrow> k < length xs \<longrightarrow> a ! k = xs ! k"
  shows "wp (dedup_loop a i cur (length xs)) (\<lambda>(a', cur'). take cur' a' = remdups_adj xs)"
  using assms
proof (induction a i cur "length xs" rule: dedup_loop.induct)
  case (1 a i cur)
  note prems = "1.prems"
  show ?case
  proof (cases "i < length xs")
    case False
    then show ?thesis using prems by (subst dedup_loop.simps) simp
  next
    case True
    have nth: "a ! (i - 1) = xs ! (i - 1)" "a ! i = xs ! i" using prems True by auto
    have le: "xs ! (i - 1) \<le> xs ! i" using prems(1) True by (simp add: sorted_nth_mono)
    note take = remdups_adj_take_Suc [OF prems(3) True]
    show ?thesis
    proof (cases "xs ! (i - 1) = xs ! i")
      case eq: True
      then have "dedup_loop a i cur (length xs) = dedup_loop a (i + 1) cur (length xs)"
        using True nth prems by (subst dedup_loop.simps) (simp add: state_set_cmpval_def)
      moreover have "wp (dedup_loop a (i + 1) cur (length xs)) (\<lambda>(a', cur'). take cur' a' = remdups_adj xs)"
        by (rule "1.hyps"(2) [OF True refl])
          (use True eq nth prems take in \<open>auto simp: state_set_cmpval_def\<close>)
      ultimately show ?thesis by simp
    next
      case neq: False
      then have "dedup_loop a i cur (length xs) = dedup_loop (a[cur := a ! i]) (i + 1) (cur + 1) (length xs)"
        using True nth prems le by (subst dedup_loop.simps) (simp add: state_set_cmpval_def)
      moreover have "wp (dedup_loop (a[cur := a ! i]) (i + 1) (cur + 1) (length xs))
          (\<lambda>(a', cur'). take cur' a' = remdups_adj xs)"
      proof (rule "1.hyps"(1) [OF True refl])
        have "cur < length a" using prems True by simp
        then show "take (cur + 1) (a[cur := a ! i]) = remdups_adj (take (i + 1) xs)"
          using take neq nth prems by (simp add: take_Suc_conv_app_nth)
        show "\<forall>k. i + 1 - 1 \<le> k \<longrightarrow> k < length xs \<longrightarrow> a[cur := a ! i] ! k = xs ! k"
          using prems by (auto simp: nth_list_update)
      qed (use True neq nth prems le in \<open>auto simp: state_set_cmpval_def\<close>)
      ultimately show ?thesis by simp
    qed
  qed
qed

lemma take_one: "remdups_adj (take (Suc 0) xs) = take (Suc 0) xs"
  by (cases xs) auto

lemma state_set_bulk_array_wp:
  assumes "arr_inv st" and "\<forall>s \<in> set a. s < state_limit" and "a \<noteq> []"
  shows "wp (state_set_bulk_array al st a)
    (\<lambda>(ok, st', al'). arr_inv st' \<and>
       set (arr_a st') = (if ok then set a \<union> set (arr_a st) else set (arr_a st)) \<and>
       (al = [] \<longrightarrow> ok \<and> al' = []))"
proof -
  define xs where "xs = sort (arr_a st @ a)"
  have xs: "sorted xs" "length xs = length (arr_a st) + length a" "set xs = set a \<union> set (arr_a st)"
    by (auto simp: xs_def)
  have "wp (dedup_loop xs 1 1 (length xs)) (\<lambda>(a', cur'). take cur' a' = remdups_adj xs)"
    by (rule dedup_loop_wp)
      (use xs(1,2) assms(3) in \<open>auto simp: neq_Nil_conv take_one\<close>)
  then obtain a' c
    where dd: "dedup_loop (sort (arr_a st @ a)) 1 1 (length (arr_a st) + length a) = Some (a', c)"
      and t: "take c a' = remdups_adj xs"
    unfolding xs(2) by (auto simp: xs_def elim: wpE)
  have inv: "arr_inv (st\<lparr>arr_n := k, arr_a := remdups_adj xs\<rparr>)"
    if "length (arr_a st) + length a \<le> k" for k
    using asc_remdups_adj [OF xs(1)] xs that assms le_trans [OF remdups_adj_length [of xs]]
    by (auto simp: arr_inv_def)
  obtain ok al' where al: "f_realloc al = (ok, al')" by (cases "f_realloc al")
  have nil: "al = [] \<Longrightarrow> ok \<and> al' = []" using al by auto
  show ?thesis
  proof (cases "length (arr_a st) + length a > arr_n st")
    case True
    define k where "k = (if length (arr_a st) + length a < 2 * arr_n st then 2 * arr_n st
      else length (arr_a st) + length a)"
    have "length (arr_a st) + length a \<le> k" by (simp add: k_def)
    with inv [of k] show ?thesis
      unfolding state_set_bulk_array_def Let_def if_P [OF True] al prod.case k_def [symmetric]
      using dd t nil assms(1) xs(3) by (cases ok) (auto simp: wp_simps)
  next
    case False
    with inv [of "arr_n st"] show ?thesis
      unfolding state_set_bulk_array_def Let_def if_not_P [OF False] prod.case
      using dd t xs(3) by (simp add: wp_simps)
  qed
qed

lemma state_set_create_cases:
  obtains (fail) al' where "state_set_create al = (None, al')" and "al \<noteq> []"
  | (ok) al' where "state_set_create al = (Some \<lparr>arr_a = [], arr_n = SET_INITIAL\<rparr>, al')"
      and "al = [] \<longrightarrow> al' = []"
proof -
  have "(\<exists>al'. state_set_create al = (None, al') \<and> al \<noteq> []) \<or>
      (\<exists>al'. state_set_create al = (Some \<lparr>arr_a = [], arr_n = SET_INITIAL\<rparr>, al') \<and> (al = [] \<longrightarrow> al' = []))"
    by (cases al) (auto simp: state_set_create_def split_beta Let_def)
  then show thesis using that by blast
qed

lemma arr_inv_create [simp]: "arr_inv \<lparr>arr_a = [], arr_n = SET_INITIAL\<rparr>"
  by (simp add: arr_inv_def SET_INITIAL_def)

text \<open>
  The contract of every operation that adds members: the invariant is kept, on success
  exactly the new members are added, on failure no member appears (but some may be lost),
  and it only fails when the allocator does.
\<close>

definition added :: "alloc \<Rightarrow> state_set \<Rightarrow> fsm_state_t set \<Rightarrow> bool \<times> state_set \<times> alloc \<Rightarrow> bool" where
  "added al st new = (\<lambda>(ok, st', al'). ss_inv st' \<and>
     (if ok then ss_set st' = new \<union> ss_set st else ss_set st' \<subseteq> ss_set st) \<and>
     (al = [] \<longrightarrow> ok \<and> al' = []))"

lemma state_set_add_wp:
  assumes "ss_inv st" and "s < state_limit"
  shows "wp (state_set_add al st s) (added al st {s})"
proof (cases st)
  case SS_Null
  then show ?thesis using assms by (simp add: added_def)
next
  case (SS_Singleton x)
  show ?thesis
  proof (cases rule: state_set_create_cases [of al])
    case (fail al')
    then show ?thesis by (simp add: SS_Singleton added_def)
  next
    case (ok al')
    then show ?thesis
      using assms
      by (simp add: SS_Singleton wp_simps)
        (rule wp_mono3 [OF state_set_bulk_array_wp], auto simp: added_def)
  qed
next
  case (SS_Array a)
  then show ?thesis
    using assms
    by (simp add: wp_simps) (rule wp_mono3 [OF state_set_add_array_wp], auto simp: added_def)
qed

lemma state_set_add_bulk_wp:
  assumes "ss_inv st" and "\<forall>s \<in> set a. s < state_limit"
  shows "wp (state_set_add_bulk al st a) (added al st (set a))"
proof -
  consider "a = []" | s where "a = [s]" | "a \<noteq> []" "length a \<noteq> 1"
    by (cases a rule: remdups_adj.cases) auto
  then show ?thesis
  proof cases
    case 1
    then show ?thesis using assms by (simp add: state_set_add_bulk_def added_def)
  next
    case 2
    then show ?thesis
      using state_set_add_wp [OF assms(1)] assms(2) by (simp add: state_set_add_bulk_def)
  next
    case 3
    note bulk = state_set_bulk_array_wp [OF _ assms(2) 3(1)]
    show ?thesis
    proof (cases st)
      case (SS_Array x)
      then show ?thesis
        using assms 3 unfolding state_set_add_bulk_def
        by (simp add: wp_simps) (rule wp_mono3 [OF bulk], auto simp: added_def)
    next
      case SS_Null
      show ?thesis
      proof (cases rule: state_set_create_cases [of al])
        case (ok al')
        then show ?thesis
          using assms 3 unfolding state_set_add_bulk_def
          by (simp add: SS_Null wp_simps) (rule wp_mono3 [OF bulk], auto simp: added_def SS_Null)
      qed (use 3 in \<open>simp add: SS_Null added_def state_set_add_bulk_def\<close>)
    next
      case (SS_Singleton x)
      show ?thesis
      proof (cases rule: state_set_create_cases [of al])
        case (ok al')
        have "wp (state_set_add_array al' \<lparr>arr_a = [], arr_n = SET_INITIAL\<rparr> x)
            (\<lambda>(ok, st', al1). arr_inv st' \<and> set (arr_a st') = (if ok then {x} else {}) \<and>
              (al' = [] \<longrightarrow> ok \<and> al1 = []))"
          by (rule wp_mono3 [OF state_set_add_array_wp]) (use assms SS_Singleton in auto)
        then show ?thesis
          using assms 3 ok unfolding state_set_add_bulk_def
          by (simp add: SS_Singleton wp_simps)
            (elim wp_mono3, auto simp: wp_simps added_def SS_Singleton intro!: wp_mono3 [OF bulk])
      qed (use 3 in \<open>simp add: SS_Singleton added_def state_set_add_bulk_def\<close>)
    qed
  qed
qed

lemma state_set_copy_wp:
  assumes "ss_inv dst" and "ss_inv src"
  shows "wp (state_set_copy al dst src) (added al dst (ss_set src))"
  using assms state_set_add_wp [of dst] state_set_add_bulk_wp [of dst]
  by (cases src) (auto simp: added_def arr_inv_def)

section \<open>Removal, renumbering and replacement\<close>

lemma delete_at:
  assumes "asc xs" and "i < length xs"
  shows "asc (take i xs @ drop (Suc i) xs)"
    and "set (take i xs @ drop (Suc i) xs) = set xs - {xs ! i}"
proof -
  have eq: "xs = take i xs @ xs ! i # drop (Suc i) xs" using assms(2) by (rule id_take_nth_drop)
  then have "asc (take i xs @ xs ! i # drop (Suc i) xs)" using assms(1) by simp
  then show "asc (take i xs @ drop (Suc i) xs)" by (simp add: sorted_wrt_append)
  have "distinct (take i xs @ xs ! i # drop (Suc i) xs)" using eq asc_distinct [OF assms(1)] by simp
  then have "set (take i xs @ xs ! i # drop (Suc i) xs) - {xs ! i} = set (take i xs @ drop (Suc i) xs)"
    by auto
  then show "set (take i xs @ drop (Suc i) xs) = set xs - {xs ! i}" using eq by simp
qed

lemma state_set_remove_wp:
  assumes "ss_inv st"
  shows "wp (state_set_remove st s) (\<lambda>st'. ss_inv st' \<and> ss_set st' = ss_set st - {s})"
proof (cases st)
  case (SS_Array a)
  show ?thesis
  proof (cases "arr_a a = []")
    case False
    define i where "i = state_set_search a s"
    have inv: "arr_inv a" "asc (arr_a a)" using assms SS_Array by (auto simp: arr_inv_def)
    have mem: "s \<in> set (arr_a a) \<longleftrightarrow> i < length (arr_a a) \<and> arr_a a ! i = s"
      unfolding i_def by (rule insertion_point_mem [OF inv(2) state_set_search_spec [OF inv(2)]])
    show ?thesis
    proof (cases "s \<in> set (arr_a a)")
      case True
      define a' where "a' = a\<lparr>arr_a := take i (arr_a a) @ drop (i + 1) (arr_a a)\<rparr>"
      have i: "i < length (arr_a a)" "arr_a a ! i = s" using True mem by auto
      note del = delete_at [OF inv(2) i(1)]
      have a': "arr_inv a'" "set (arr_a a') = set (arr_a a) - {s}"
        using del i inv by (auto simp: a'_def arr_inv_def dest: in_set_takeD in_set_dropD)
      then have "\<not> state_set_contains (SS_Array a') s"
        using state_set_contains_iff [of "SS_Array a'"] by simp
      then show ?thesis
        using a' i False
        by (simp add: SS_Array Let_def i_def [symmetric] a'_def [symmetric, simplified] wp_simps
            del: state_set_contains.simps)
    next
      case absent: False
      then have "\<not> state_set_contains (SS_Array a) s"
        using state_set_contains_iff [of "SS_Array a"] inv by simp
      then show ?thesis
        using absent mem inv False
        by (auto simp add: SS_Array Let_def i_def [symmetric] wp_simps del: state_set_contains.simps)
    qed
  qed (use assms SS_Array in simp)
qed (use assms in auto)

lemma state_set_rebase_set:
  assumes "ss_inv st" and "\<forall>s \<in> ss_set st. s + base < state_limit"
  shows "ss_inv (state_set_rebase st base)"
    and "ss_set (state_set_rebase st base) = (\<lambda>s. s + base) ` ss_set st"
  using assms by (cases st; auto simp: arr_inv_def intro: asc_map)+

lemma compact_items_wp:
  assumes "\<forall>s \<in> set xs. remap s = Some (f s)"
  shows "compact_items remap xs =
    Some (map f (filter (\<lambda>s. f s \<noteq> FSM_STATE_REMAP_NO_STATE) xs))"
  using assms by (induction xs) auto

text \<open>
  The renumbering of the kept states. The callback is the one of \<open>fsm_compact_states\<close>:
  no state gets a larger number, and two kept states keep their order.
\<close>

lemma state_set_compact_wp:
  assumes "ss_inv st" and "\<forall>s \<in> ss_set st. remap s = Some (f s)"
    and "\<And>s. s \<in> ss_set st \<Longrightarrow> f s \<noteq> FSM_STATE_REMAP_NO_STATE \<Longrightarrow> f s \<le> s"
    and "\<And>s s'. s < s' \<Longrightarrow> f s \<noteq> FSM_STATE_REMAP_NO_STATE \<Longrightarrow>
      f s' \<noteq> FSM_STATE_REMAP_NO_STATE \<Longrightarrow> f s < f s'"
  shows "wp (state_set_compact st remap) (\<lambda>st'. ss_inv st' \<and>
    ss_set st' = f ` {s \<in> ss_set st. f s \<noteq> FSM_STATE_REMAP_NO_STATE})"
proof (cases st)
  case (SS_Singleton x)
  then show ?thesis
    using assms(1,2) assms(3) [of x] by (auto simp: wp_simps intro: le_less_trans)
next
  case (SS_Array a)
  let ?l = "map f (filter (\<lambda>s. f s \<noteq> FSM_STATE_REMAP_NO_STATE) (arr_a a))"
  have "asc ?l"
    using assms(1,4) SS_Array by (intro asc_map asc_filter) (auto simp: arr_inv_def)
  moreover have "\<forall>s \<in> set ?l. s < state_limit"
    using assms(1,3) SS_Array by (auto simp: arr_inv_def intro: le_less_trans)
  moreover have "length ?l \<le> arr_n a"
    using assms(1) SS_Array le_trans [OF length_filter_le] by (auto simp: arr_inv_def)
  ultimately show ?thesis
    using assms(1) SS_Array compact_items_wp [of "arr_a a" remap f] assms(2)
    by (auto simp: arr_inv_def)
qed auto

section \<open>Iteration and comparison\<close>

lemma state_set_drain_list: "state_set_drain (state_set_reset st) = ss_list st"
proof -
  have arr: "state_set_drain \<lparr>it_i = i, it_set = SS_Array a\<rparr> = drop i (arr_a a)" for i a
  proof (induction "length (arr_a a) - i" arbitrary: i)
    case 0
    then show ?case by (subst state_set_drain.simps) (simp add: state_set_next_def)
  next
    case (Suc k)
    then have "i < length (arr_a a)" by linarith
    with Suc show ?case
      by (subst state_set_drain.simps) (simp add: state_set_next_def Cons_nth_drop_Suc)
  qed
  show ?thesis
    by (cases st)
      (simp_all add: state_set_reset_def arr, (simp add: state_set_drain.simps state_set_next_def)+)
qed

lemma state_set_has_iff: "state_set_has p xs \<longleftrightarrow> (\<exists>x \<in> set xs. p x)"
  by (induction xs) auto

lemma memcmp_bytes_eq: "length xs = length ys \<Longrightarrow> memcmp_bytes xs ys = 0 \<longleftrightarrow> xs = ys"
  by (induction xs ys rule: list_induct2) auto

lemma state_bytes_value:
  assumes "x < state_limit"
  shows "foldr (\<lambda>b v. b + 256 * v) (state_bytes x) 0 = x"
proof -
  have d: "x div 65536 = x div 256 div 256" "x div 16777216 = x div 256 div 256 div 256"
    by (simp_all add: div_mult2_eq [symmetric])
  have "x div 16777216 < 256" using assms by (simp add: state_limit_def div_less_iff_less_mult)
  then have top: "x div 16777216 mod 256 = x div 256 div 256 div 256" by (simp add: d)
  have "foldr (\<lambda>b v. b + 256 * v) (state_bytes x) 0 =
      x mod 256 + 256 * (x div 256 mod 256 + 256 * (x div 65536 mod 256 + 256 * (x div 16777216 mod 256)))"
    by (simp add: state_bytes_def)
  also have "\<dots> = x" unfolding top unfolding d by (simp only: mod_mult_div_eq)
  finally show ?thesis .
qed

lemma concat_state_bytes_inject:
  assumes "length xs = length ys" and "\<forall>s \<in> set xs \<union> set ys. s < state_limit"
  shows "concat (map state_bytes xs) = concat (map state_bytes ys) \<longleftrightarrow> xs = ys"
  using assms
proof (induction xs ys rule: list_induct2)
  case (Cons x xs y ys)
  have "x < state_limit" "y < state_limit" using Cons.prems by auto
  then have eq: "state_bytes x = state_bytes y \<longleftrightarrow> x = y" by (metis state_bytes_value)
  have len: "length (state_bytes x) = length (state_bytes y)" by (simp add: state_bytes_def)
  have "concat (map state_bytes xs) = concat (map state_bytes ys) \<longleftrightarrow> xs = ys"
    using Cons.prems by (intro Cons.IH) simp
  with eq len show ?case by simp
qed simp

lemma length_concat_state_bytes: "length (concat (map state_bytes xs)) = 4 * length xs"
  by (induction xs) (auto simp: state_bytes_def)

lemma sint_diff_eq_0:
  assumes "m < 2 ^ 32" and "n < 2 ^ 32"
  shows "sint (of_nat m - of_nat n :: 32 word) = 0 \<longleftrightarrow> m = n"
proof
  assume "sint (of_nat m - of_nat n :: 32 word) = 0"
  then have "of_nat m = (of_nat n :: 32 word)" by (simp add: signed_eq_0_iff)
  then have "unat (of_nat m :: 32 word) = unat (of_nat n :: 32 word)" by simp
  then show "m = n" using assms by (simp add: unsigned_of_nat take_bit_nat_eq_self)
qed simp

lemma cmp_states_0: "cmp_states a b = 0 \<longleftrightarrow> a = b"
  by (auto simp: cmp_states_def)

text \<open>Two sets that are not the null pointer compare equal exactly when their members agree.\<close>

lemma state_set_cmp_wp:
  assumes "ss_inv a" and "ss_inv b" and "a \<noteq> SS_Null" and "b \<noteq> SS_Null"
    and "state_set_count a < 2 ^ 32" and "state_set_count b < 2 ^ 32"
  shows "wp (state_set_cmp a b) (\<lambda>r. r = 0 \<longleftrightarrow> ss_list a = ss_list b)"
proof (cases "state_set_count a = state_set_count b")
  case False
  then have "ss_list a \<noteq> ss_list b" by (auto simp: state_set_count_length)
  then show ?thesis
    using False assms sint_diff_eq_0 [OF assms(5,6)] by (simp add: state_set_cmp_def wp_simps)
next
  case True
  show ?thesis
  proof (cases a; cases b)
    fix x y assume "a = SS_Array x" "b = SS_Array y"
    then show ?thesis
      using True assms concat_state_bytes_inject [of "arr_a x" "arr_a y"]
      by (auto simp: state_set_cmp_def wp_simps memcmp_bytes_eq length_concat_state_bytes arr_inv_def)
  qed (use True assms in \<open>auto simp: state_set_cmp_def wp_simps cmp_states_0 arr_inv_def length_Suc_conv Suc_length_conv\<close>)
qed

section \<open>Tagged pointers\<close>

text \<open>
  A tagged pointer gives back the state, and is never mistaken for the address of an array,
  which the allocator aligns.
\<close>

lemma push_bit_1_IS_SINGLETON: "IS_SINGLETON (SINGLETON_ENCODE s)"
proof -
  have "bit (SINGLETON_ENCODE s AND 1) 0"
    by (simp add: SINGLETON_ENCODE_def bit_simps)
  then show ?thesis unfolding IS_SINGLETON_def by (metis bit_0_eq bot_apply bot_bool_def)
qed

lemma SINGLETON_roundtrip:
  assumes "s < state_limit"
  shows "SINGLETON_DECODE (SINGLETON_ENCODE s) = s"
proof -
  have "drop_bit 1 (SINGLETON_ENCODE s) = (of_nat s :: u64)"
  proof (rule bit_word_eqI)
    fix n assume "n < LENGTH(64)"
    have "take_bit 32 s = s" using assms by (simp add: state_limit_def take_bit_nat_eq_self)
    then have "bit s n \<Longrightarrow> n < 32" by (metis bit_take_bit_iff)
    then show "bit (drop_bit 1 (SINGLETON_ENCODE s)) n = bit (of_nat s :: u64) n"
      using \<open>n < LENGTH(64)\<close>
      unfolding SINGLETON_ENCODE_def bit_drop_bit_eq o_def bit_or_iff bit_push_bit_iff
      by (auto simp: bit_simps)
  qed
  then show ?thesis
    using assms by (simp add: SINGLETON_DECODE_def unsigned_of_nat state_limit_def take_bit_nat_eq_self)
qed

section \<open>Replacement of a member\<close>

lemma ss_set_replace: "ss_set (state_set_replace st old new) = (\<lambda>s. if s = old then new else s) ` ss_set st"
  by (cases st) auto

text \<open>
  The replacement writes the new number where the old one was, so that the array need not
  stay ascending, and a binary search can then miss a member.
\<close>

definition replace_example :: state_set where
  "replace_example = SS_Array \<lparr>arr_a = [1, 5], arr_n = 8\<rparr>"

lemma replace_example_inv: "ss_inv replace_example"
  by (simp add: replace_example_def arr_inv_def state_limit_def)

lemma state_set_replace_inv:
  assumes "ss_inv st" and "new < state_limit"
    and "\<forall>s \<in> ss_set st. s \<noteq> old \<longrightarrow> s \<noteq> new \<and> (s < old \<longleftrightarrow> s < new)"
  shows "ss_inv (state_set_replace st old new)"
proof (cases st)
  case (SS_Array arr)
  let ?f = "\<lambda>s. if s = old then new else s"
  have "sorted_wrt (\<lambda>x y. ?f x < ?f y) (arr_a arr)"
    by (rule sorted_wrt_mono_rel [of _ "(<)"]) (use assms SS_Array in \<open>auto simp: arr_inv_def\<close>)
  then show ?thesis using assms(1,2) by (auto simp: SS_Array arr_inv_def sorted_wrt_map)
qed (use assms in auto)

text \<open>The search first compares with the last item, which is then the new one.\<close>

lemma state_set_replace_missed:
  assumes "ss_inv st" and "old \<in> ss_set st" and "\<forall>s \<in> ss_set st. s \<le> old"
    and "x \<in> ss_set st" and "x \<noteq> old" and "new < x"
  shows "\<not> state_set_contains (state_set_replace st old new) x"
proof (cases st)
  case (SS_Array arr)
  have ne: "arr_a arr \<noteq> []" and asc: "asc (arr_a arr)" using assms by (auto simp: SS_Array arr_inv_def)
  have "last (arr_a arr) = old"
  proof (rule antisym)
    show "last (arr_a arr) \<le> old" using assms(3) ne by (simp add: SS_Array)
    show "old \<le> last (arr_a arr)"
      using assms(2) ne asc_nth_mono [OF asc, of _ "length (arr_a arr) - 1"]
      by (auto simp: SS_Array last_conv_nth in_set_conv_nth)
  qed
  then show ?thesis using assms(6) ne by (simp add: SS_Array state_set_search_def last_conv_nth)
qed (use assms in auto)

section \<open>The contract the automata code uses\<close>

interpretation sset: alloc_set ss_inv "\<lambda>st. ss_set st" "\<lambda>s. s < state_limit" state_set_add
proof
  fix s x al
  assume "ss_inv s" and "x < state_limit"
  then show "wp (state_set_add al s x) (\<lambda>(ok, s', al'). ss_inv s' \<and>
      (if ok then ss_set s' = insert x (ss_set s) else ss_set s' \<subseteq> ss_set s) \<and> (al = [] \<longrightarrow> ok \<and> al' = []))"
    by (rule wp_mono [OF state_set_add_wp]) (auto simp: added_def)
qed

fun state_rest :: "state_iter \<Rightarrow> fsm_state_t list" where
  "state_rest it = drop (it_i it) (ss_list (it_set it))"

interpretation siter: iterator state_set_next state_rest
proof
  fix it it' :: state_iter and x
  show "state_set_next it = (None, it') \<Longrightarrow> state_rest it = []"
    by (auto simp: state_set_next_def split: state_set.splits if_splits)
  show "state_set_next it = (Some x, it') \<Longrightarrow> state_rest it = x # state_rest it'"
    by (auto simp: state_set_next_def Cons_nth_drop_Suc not_le split: state_set.splits if_splits)
qed

end
