(* ===== verification/Bitmap.thy ===== *)
theory Bitmap
  imports Bitset
begin

unbundle bit_operations_syntax

text \<open>
  The character bitmaps of \<open>src/adt/bitmap.c\<close>. \<open>struct bm\<close> divides the 256
  characters by \<open>sizeof(uint64_t)\<close>, the bytes of a word and not its bits, so its array has
  32 words of which the characters use the first four. Printing (\<open>bm_print\<close>,
  \<open>bm_snprint\<close>) is input and output only and is left out.

  The locale \<open>char_set\<close> is what the automata code relies on: a set of characters that
  starts empty, grows one member at a time and can be queried and counted.
\<close>

record bm =
  bm_map :: "u64 list"

definition bm_words :: nat where
  "bm_words = 32"

definition bm_get :: "bm \<Rightarrow> nat \<Rightarrow> bool option" where
  "bm_get bm i = do { c_assert (i \<le> 255); Some (u64bitset_get (bm_map bm) i \<noteq> 0) }"

definition bm_set :: "bm \<Rightarrow> nat \<Rightarrow> bm option" where
  "bm_set bm i =
     do { c_assert (i \<le> 255); Some (bm\<lparr>bm_map := u64bitset_set (bm_map bm) i\<rparr>) }"

definition bm_unset :: "bm \<Rightarrow> nat \<Rightarrow> bm option" where
  "bm_unset bm i =
     do { c_assert (i \<le> 255); Some (bm\<lparr>bm_map := u64bitset_clear (bm_map bm) i\<rparr>) }"

text \<open>\<open>bm_nth_word\<close> hands out a pointer; the model returns the index it points to.\<close>

definition bm_nth_word :: "bm \<Rightarrow> nat \<Rightarrow> nat option" where
  "bm_nth_word bm n = (if n < bm_words then Some n else None)"

function bm_next_loop :: "bm \<Rightarrow> nat \<Rightarrow> bool \<Rightarrow> nat" where
  "bm_next_loop bm n value =
     (if n \<le> 255
      then if (u64bitset_get (bm_map bm) n = 0) = (\<not> value) then n
           else bm_next_loop bm (Suc n) value
      else 256)"
  by pat_completeness auto
termination
  by (relation "measure (\<lambda>(bm, n, value). 256 - n)") auto

declare bm_next_loop.simps [simp del]

text \<open>
  The argument is an \<open>int\<close> and \<open>n = i + 1\<close> a \<open>size_t\<close>: below \<open>-1\<close> the sum
  wraps around to a huge value and the loop does not run.
\<close>

definition bm_next :: "bm \<Rightarrow> int \<Rightarrow> bool \<Rightarrow> nat option" where
  "bm_next bm i value =
     do { c_assert (i div 8 < 255);
          Some (if i < -1 then 256 else bm_next_loop bm (nat (i + 1)) value) }"

text \<open>
  The loop bound is \<open>sizeof(sizeof(bm->map)/sizeof(bm->map[0]))\<close>, the size of a
  \<open>size_t\<close>: eight words, not the 32 of the array and not the four in use.
\<close>

definition bm_count :: "bm \<Rightarrow> nat" where
  "bm_count bm = sum_list (map (\<lambda>n. u64bitset_popcount (bm_map bm ! n)) [0..<8])"

definition bm_clear :: "bm \<Rightarrow> bm" where
  "bm_clear bm = bm\<lparr>bm_map := replicate bm_words 0\<rparr>"

definition bm_invert :: "bm \<Rightarrow> bm" where
  "bm_invert bm = bm\<lparr>bm_map := map (\<lambda>n. NOT (bm_map bm ! n)) [0..<bm_words]\<rparr>"

definition bm_copy :: "bm \<Rightarrow> bm \<Rightarrow> bm" where
  "bm_copy dst src = src"

definition bm_intersect :: "bm \<Rightarrow> bm \<Rightarrow> bm" where
  "bm_intersect dst src =
     dst\<lparr>bm_map := map (\<lambda>i. bm_map dst ! i AND bm_map src ! i) [0..<bm_words]\<rparr>"

definition bm_union :: "bm \<Rightarrow> bm \<Rightarrow> bm" where
  "bm_union dst src =
     dst\<lparr>bm_map := map (\<lambda>i. bm_map dst ! i OR bm_map src ! i) [0..<bm_words]\<rparr>"

definition bm_any :: "bm \<Rightarrow> bool" where
  "bm_any bm = list_ex (\<lambda>i. bm_map bm ! i \<noteq> 0) [0..<bm_words]"

section \<open>The characters of a bitmap\<close>

definition bm_ok :: "bm \<Rightarrow> bool" where
  "bm_ok bm \<longleftrightarrow> length (bm_map bm) = bm_words"

text \<open>No bit past the last character: what the operations other than \<open>bm_invert\<close> keep.\<close>

definition bm_low :: "bm \<Rightarrow> bool" where
  "bm_low bm \<longleftrightarrow> length (bm_map bm) = bm_words \<and> bits (bm_map bm) \<subseteq> {..255}"

definition bm_chars :: "bm \<Rightarrow> nat set" where
  "bm_chars bm = bits (bm_map bm)"

lemma bm_low_ok: "bm_low bm \<Longrightarrow> bm_ok bm"
  by (simp add: bm_low_def bm_ok_def)

lemma bits_replicate_0 [simp]: "bits (replicate n 0) = {}"
proof -
  have "i div 64 < n" if "i < 64 * n" for i using that by (simp add: less_mult_imp_div_less)
  then show ?thesis by (auto simp: bits_def)
qed

lemma bm_clear_low [simp]: "bm_low (bm_clear bm)"
  by (simp add: bm_low_def bm_clear_def)

lemma bm_chars_clear [simp]: "bm_chars (bm_clear bm) = {}"
  by (simp add: bm_chars_def bm_clear_def)

lemma bm_set_wp:
  assumes "bm_low bm" and "i \<le> 255"
  shows "wp (bm_set bm i) (\<lambda>bm'. bm_low bm' \<and> bm_chars bm' = insert i (bm_chars bm))"
proof -
  have "i < 64 * length (bm_map bm)" using assms by (simp add: bm_low_def bm_words_def)
  with assms show ?thesis
    by (simp add: bm_set_def wp_simps bm_low_def bm_chars_def bits_u64bitset_set)
qed

lemma bm_unset_wp:
  assumes "bm_low bm" and "i \<le> 255"
  shows "wp (bm_unset bm i) (\<lambda>bm'. bm_low bm' \<and> bm_chars bm' = bm_chars bm - {i})"
proof -
  have "i < 64 * length (bm_map bm)" using assms by (simp add: bm_low_def bm_words_def)
  with assms show ?thesis
    by (auto simp: bm_unset_def wp_simps bm_low_def bm_chars_def bits_u64bitset_clear)
qed

lemma bm_get_wp:
  assumes "bm_low bm" and "i \<le> 255"
  shows "wp (bm_get bm i) (\<lambda>r. r \<longleftrightarrow> i \<in> bm_chars bm)"
proof -
  have "i < 64 * length (bm_map bm)" using assms by (simp add: bm_low_def bm_words_def)
  with assms show ?thesis
    using u64bitset_get_bits [of i "bm_map bm"]
    by (simp add: bm_get_def wp_simps bm_chars_def)
qed

lemma bits_map_nth:
  assumes "length xs = n"
  shows "i \<in> bits (map (\<lambda>j. f j) [0..<n]) \<longleftrightarrow> i < 64 * n \<and> bit (f (i div 64)) (i mod 64)"
proof -
  have "i div 64 < n" if "i < 64 * n" using that by (simp add: less_mult_imp_div_less)
  then show ?thesis by (auto simp: bits_def)
qed

lemma bm_union_chars:
  assumes "bm_low a" and "bm_low b"
  shows "bm_low (bm_union a b) \<and> bm_chars (bm_union a b) = bm_chars a \<union> bm_chars b"
proof -
  have "bm_chars (bm_union a b) = bm_chars a \<union> bm_chars b"
    using assms
    by (auto simp: bm_chars_def bm_union_def bm_low_def bits_def bit_or_iff less_mult_imp_div_less)
  then show ?thesis
    using assms by (auto simp: bm_low_def bm_chars_def bm_union_def)
qed

lemma bm_intersect_chars:
  assumes "bm_low a" and "bm_low b"
  shows "bm_low (bm_intersect a b) \<and> bm_chars (bm_intersect a b) = bm_chars a \<inter> bm_chars b"
proof -
  have "bm_chars (bm_intersect a b) = bm_chars a \<inter> bm_chars b"
    using assms
    by (auto simp: bm_chars_def bm_intersect_def bm_low_def bits_def bit_and_iff less_mult_imp_div_less)
  then show ?thesis
    using assms by (auto simp: bm_low_def bm_chars_def bm_intersect_def)
qed

section \<open>Counting\<close>

lemma card_bits_words:
  "card {i. i < 64 * n \<and> bit (w (i div 64)) (i mod 64)} =
   sum_list (map (\<lambda>j. u64bitset_popcount (w j)) [0..<n])"
proof (induction n)
  case 0
  then show ?case by simp
next
  case (Suc n)
  let ?B = "\<lambda>n. {i. i < 64 * n \<and> bit (w (i div 64)) (i mod 64)}"
  let ?W = "{b. b < 64 \<and> bit (w n) b}"
  have "?B (Suc n) = ?B n \<union> (\<lambda>b. 64 * n + b) ` ?W" (is "?L = ?R")
  proof (rule set_eqI)
    fix i
    show "i \<in> ?L \<longleftrightarrow> i \<in> ?R"
    proof (cases "i < 64 * n")
      case True
      then show ?thesis by auto
    next
      case False
      then obtain b where b: "i = 64 * n + b" using le_Suc_ex not_less by blast
      then show ?thesis by auto
    qed
  qed
  moreover have "?B n \<inter> (\<lambda>b. 64 * n + b) ` ?W = {}" by auto
  moreover have "finite (?B n)" by (rule finite_subset [of _ "{..<64 * n}"]) auto
  moreover have "finite ((\<lambda>b. 64 * n + b) ` ?W)" by simp
  moreover have "card ((\<lambda>b. 64 * n + b) ` ?W) = card ?W"
    by (rule card_image) (simp add: inj_on_def)
  ultimately show ?case
    using Suc.IH by (simp add: card_Un_disjoint u64bitset_popcount_card)
qed

lemma bm_count_card: "bm_ok bm \<Longrightarrow> bm_count bm = card (bm_chars bm \<inter> {..<512})"
proof -
  assume "bm_ok bm"
  then have "bm_chars bm \<inter> {..<512} =
      {i. i < 64 * 8 \<and> bit ((\<lambda>n. bm_map bm ! n) (i div 64)) (i mod 64)}"
    by (auto simp: bm_chars_def bits_def bm_ok_def bm_words_def)
  then show ?thesis
    by (simp only: bm_count_def card_bits_words)
qed

lemma bm_count_low: "bm_low bm \<Longrightarrow> bm_count bm = card (bm_chars bm)"
proof -
  assume *: "bm_low bm"
  then have "bm_chars bm \<inter> {..<512} = bm_chars bm"
    by (auto simp: bm_low_def bm_chars_def)
  then show ?thesis using bm_count_card bm_low_ok * by metis
qed

lemma bm_full_iff: "bm_low bm \<Longrightarrow> bm_count bm = 256 \<longleftrightarrow> bm_chars bm = {..255}"
proof -
  assume *: "bm_low bm"
  then have sub: "bm_chars bm \<subseteq> {..255}" by (simp add: bm_low_def bm_chars_def)
  show ?thesis
    using card_subset_eq [OF _ sub] by (auto simp: bm_count_low [OF *])
qed

lemma bm_invert_chars: "bm_ok bm \<Longrightarrow> bm_chars (bm_invert bm) = {..<2048} - bm_chars bm"
  by (auto simp: bm_chars_def bm_invert_def bm_ok_def bm_words_def bits_def bit_not_iff
      less_mult_imp_div_less)

section \<open>Searching\<close>

lemma bm_next_loop_spec:
  assumes "bm_low bm"
  shows "let r = bm_next_loop bm n value in
    (r = 256 \<or> r \<le> 255 \<and> n \<le> r \<and> (r \<in> bm_chars bm) = value) \<and>
    (\<forall>k. n \<le> k \<and> k < r \<and> k \<le> 255 \<longrightarrow> (k \<in> bm_chars bm) \<noteq> value)"
  using assms
proof (induction bm n "value" rule: bm_next_loop.induct)
  case (1 bm n "value")
  have get: "n \<le> 255 \<Longrightarrow> (u64bitset_get (bm_map bm) n = 0) \<longleftrightarrow> n \<notin> bm_chars bm"
    using u64bitset_get_bits [of n "bm_map bm"] \<open>bm_low bm\<close>
    by (auto simp: bm_low_def bm_words_def bm_chars_def)
  show ?case
  proof (cases "n \<le> 255 \<and> (n \<in> bm_chars bm) \<noteq> value")
    case True
    then have r: "bm_next_loop bm n value = bm_next_loop bm (Suc n) value"
      using get by (subst bm_next_loop.simps) auto
    have IH: "let r = bm_next_loop bm (Suc n) value in
      (r = 256 \<or> r \<le> 255 \<and> Suc n \<le> r \<and> (r \<in> bm_chars bm) = value) \<and>
      (\<forall>k. Suc n \<le> k \<and> k < r \<and> k \<le> 255 \<longrightarrow> (k \<in> bm_chars bm) \<noteq> value)"
      by (rule "1.IH") (use True get "1.prems" in auto)
    show ?thesis
      unfolding r Let_def
    proof (intro conjI allI impI)
      show "bm_next_loop bm (Suc n) value = 256 \<or> bm_next_loop bm (Suc n) value \<le> 255 \<and>
          n \<le> bm_next_loop bm (Suc n) value \<and>
          (bm_next_loop bm (Suc n) value \<in> bm_chars bm) = value"
        using IH by (auto simp: Let_def)
    next
      fix k assume "n \<le> k \<and> k < bm_next_loop bm (Suc n) value \<and> k \<le> 255"
      then show "(k \<in> bm_chars bm) \<noteq> value"
        using IH True by (cases "k = n") (auto simp: Let_def)
    qed
  next
    case False
    then have "bm_next_loop bm n value = (if n \<le> 255 then n else 256)"
      using get by (subst bm_next_loop.simps) auto
    then show ?thesis using False by (auto simp: Let_def)
  qed
qed

section \<open>The contract of a character set\<close>

text \<open>
  Two loops of the automata code over a character set: adding every character of a
  sequence, and adding them until one is met that is there already.
\<close>

fun ins_all :: "('s \<Rightarrow> nat \<Rightarrow> 's option) \<Rightarrow> 's \<Rightarrow> nat list \<Rightarrow> 's option" where
  "ins_all ins s [] = Some s"
| "ins_all ins s (c # cs) = do { s' \<leftarrow> ins s c; ins_all ins s' cs }"

fun mark_unique ::
  "('s \<Rightarrow> nat \<Rightarrow> 's option) \<Rightarrow> ('s \<Rightarrow> nat \<Rightarrow> bool option) \<Rightarrow> 's \<Rightarrow> nat list \<Rightarrow> (bool \<times> 's) option" where
  "mark_unique ins mem s [] = Some (False, s)"
| "mark_unique ins mem s (c # cs) =
     do { seen \<leftarrow> mem s c;
          if seen then Some (True, s)
          else do { s' \<leftarrow> ins s c; mark_unique ins mem s' cs } }"

locale char_set =
  fixes empty :: 's
    and ins :: "'s \<Rightarrow> nat \<Rightarrow> 's option"
    and mem :: "'s \<Rightarrow> nat \<Rightarrow> bool option"
    and count :: "'s \<Rightarrow> nat"
    and chars :: "'s \<Rightarrow> nat set"
    and inv :: "'s \<Rightarrow> bool"
  assumes empty: "inv empty" "chars empty = {}"
    and ins: "inv s \<Longrightarrow> c \<le> 255 \<Longrightarrow> wp (ins s c) (\<lambda>s'. inv s' \<and> chars s' = insert c (chars s))"
    and mem: "inv s \<Longrightarrow> c \<le> 255 \<Longrightarrow> wp (mem s c) (\<lambda>r. r \<longleftrightarrow> c \<in> chars s)"
    and full: "inv s \<Longrightarrow> count s = 256 \<longleftrightarrow> chars s = {..255}"
begin

lemma ins_all_wp:
  "inv s \<Longrightarrow> \<forall>c \<in> set cs. c \<le> 255 \<Longrightarrow>
   wp (ins_all ins s cs) (\<lambda>s'. inv s' \<and> chars s' = set cs \<union> chars s)"
proof (induction cs arbitrary: s)
  case Nil
  then show ?case by simp
next
  case (Cons c cs)
  then have "wp (ins s c) (\<lambda>s'. inv s' \<and> chars s' = insert c (chars s))"
    by (intro ins) simp_all
  then show ?case
    unfolding ins_all.simps wp_bind
  proof (rule wp_mono)
    fix s' assume "inv s' \<and> chars s' = insert c (chars s)"
    then show "wp (ins_all ins s' cs) (\<lambda>s'. inv s' \<and> chars s' = set (c # cs) \<union> chars s)"
      using Cons.IH [of s'] Cons.prems by (auto elim!: wp_mono)
  qed
qed

text \<open>The marking loop reports exactly whether some character comes twice.\<close>

lemma mark_unique_wp:
  "inv s \<Longrightarrow> \<forall>c \<in> set cs. c \<le> 255 \<Longrightarrow>
   wp (mark_unique ins mem s cs)
     (\<lambda>(dup, s'). inv s' \<and> (dup \<longleftrightarrow> \<not> (distinct cs \<and> set cs \<inter> chars s = {})) \<and>
        (\<not> dup \<longrightarrow> chars s' = set cs \<union> chars s))"
proof (induction cs arbitrary: s)
  case Nil
  then show ?case by simp
next
  case (Cons c cs)
  have "wp (mem s c) (\<lambda>r. r \<longleftrightarrow> c \<in> chars s)"
    using Cons.prems by (intro mem) simp_all
  moreover have "wp (ins s c) (\<lambda>s'. inv s' \<and> chars s' = insert c (chars s))"
    using Cons.prems by (intro ins) simp_all
  ultimately show ?case
  proof (elim wpE)
    fix r s'
    assume "mem s c = Some r" "r = (c \<in> chars s)" "ins s c = Some s'"
      "inv s' \<and> chars s' = insert c (chars s)"
    then show ?thesis
      using Cons.IH [of s'] Cons.prems by (auto elim!: wp_mono)
  qed
qed

end

interpretation bmset: char_set "bm_clear bm" bm_set bm_get bm_count bm_chars bm_low for bm
  by unfold_locales (simp_all add: bm_set_wp bm_get_wp bm_full_iff)

end
