(* ===== verification/Edge_Set.thy ===== *)
theory Edge_Set
  imports State_Set Bitmap "HOL-Library.Multiset"
begin

unbundle bit_operations_syntax

text \<open>
  The edge sets of \<open>src/adt/edgeset.c\<close>: an array of groups, one per destination state and
  ascending in it, each with the 256-bit set of the labels that lead there. The definitions
  follow the file function by function. A read outside the allocation, a failing assertion
  and a null pointer that is followed are \<open>None\<close>.

  The lemmas read an edge set as the set of its labelled edges and show what each operation
  does to that set, that the groups stay ascending and inside the allocation, and what each
  of the three iterators yields.
\<close>

section \<open>The data structure\<close>

record edge_group =
  eg_symbols :: symbols
  eg_to :: fsm_state_t

record edge_array =
  es_ceil :: nat                    \<comment> \<open>the groups allocated\<close>
  es_groups :: "edge_group list"    \<comment> \<open>the groups in use, \<open>groups[0] .. groups[count - 1]\<close>\<close>

datatype edge_set =
    ES_Null
  | ES edge_array

record fsm_edge =
  e_state :: fsm_state_t
  e_symbol :: octet

text \<open>The destination in \<open>struct fsm_edge\<close> is a bit field of 24 bits.\<close>

definition edge_state_limit :: nat where
  "edge_state_limit = 2 ^ 24"

definition mk_edge :: "fsm_state_t \<Rightarrow> octet \<Rightarrow> fsm_edge" where
  "mk_edge state symbol = \<lparr>e_state = state mod edge_state_limit, e_symbol = symbol\<rparr>"

definition DEF_EDGE_GROUP_CEIL :: nat where
  "DEF_EDGE_GROUP_CEIL = 1"

definition edge_set_new :: edge_set where
  "edge_set_new = ES_Null"

section \<open>Growing\<close>

definition grow_groups :: "alloc \<Rightarrow> edge_array \<Rightarrow> (bool \<times> edge_array \<times> alloc) option" where
  "grow_groups al st =
     do { let nceil = 2 * es_ceil st;
          c_assert (nceil > 0);
          let (ok, al) = f_realloc al;
          Some (if ok then (True, st\<lparr>es_ceil := nceil\<rparr>, al) else (False, st, al)) }"

definition init_empty :: "alloc \<Rightarrow> edge_array option \<times> alloc" where
  "init_empty al =
     (let (ok, al) = f_malloc al in
      if \<not> ok then (None, al)
      else let (ok, al) = f_malloc al in
           if \<not> ok then (None, al)
           else (Some \<lparr>es_ceil = DEF_EDGE_GROUP_CEIL, es_groups = []\<rparr>, al))"

function grow_ceil :: "nat \<Rightarrow> nat \<Rightarrow> nat" where
  "grow_ceil nceil needed =
     (if 0 < nceil \<and> nceil < needed then grow_ceil (nceil * 2) needed else nceil)"
  by pat_completeness auto
termination
  by (relation "measure (\<lambda>(nceil, needed). needed - nceil)") auto

declare grow_ceil.simps [simp del]

definition edge_set_advise_growth ::
  "alloc \<Rightarrow> edge_set \<Rightarrow> nat \<Rightarrow> (bool \<times> edge_set \<times> alloc) option" where
  "edge_set_advise_growth al pset n =
     (let (st, al) = (case pset of ES_Null \<Rightarrow> init_empty al | ES st \<Rightarrow> (Some st, al)) in
      case st of
        None \<Rightarrow> Some (False, pset, al)
      | Some st \<Rightarrow>
          do { let nceil = grow_ceil 1 (es_ceil st + n);
               c_assert (nceil > 0);
               let (ok, al) = f_realloc al;
               Some (if ok then (True, ES (st\<lparr>es_ceil := nceil\<rparr>), al)
                     else (False, ES st, al)) })"

section \<open>Insertion\<close>

datatype fsp_res = FSP_FOUND_INSERT_POSITION | FSP_FOUND_VALUE_PRESENT

text \<open>
  The loop of the binary search; it is only entered with \<open>lo < hi\<close>, so the
  uninitialised \<open>mid\<close> is never read and its value here does not matter.
\<close>

function fsp_loop ::
  "edge_group list \<Rightarrow> fsm_state_t \<Rightarrow> nat \<Rightarrow> nat \<Rightarrow> nat \<Rightarrow> (fsp_res \<times> nat) option" where
  "fsp_loop groups state lo hi mid =
     (if lo < hi then
        let mid = lo + (hi - lo) div 2; cur = eg_to (groups ! mid) in
        if state = cur then Some (FSP_FOUND_VALUE_PRESENT, mid)
        else if state > cur then
          fsp_loop groups state (mid + 1) hi (if mid + 1 = hi then mid + 1 else mid)
        else fsp_loop groups state lo mid mid
      else do {
        c_assert (mid = length groups \<or> mid < length groups \<and> eg_to (groups ! mid) > state);
        Some (FSP_FOUND_INSERT_POSITION, mid) })"
  by pat_completeness auto
termination
  by (relation "measure (\<lambda>(groups, state, lo, hi, mid). hi - lo)") auto

declare fsp_loop.simps [simp del]

definition find_state_position ::
  "edge_array \<Rightarrow> fsm_state_t \<Rightarrow> (fsp_res \<times> nat) option" where
  "find_state_position st state =
     (let groups = es_groups st; hi = length groups in
      if hi = 0 then Some (FSP_FOUND_INSERT_POSITION, 0)
      else
        let last_to = eg_to (groups ! (hi - 1)) in
        if state > last_to then Some (FSP_FOUND_INSERT_POSITION, hi)
        else if state = last_to then Some (FSP_FOUND_VALUE_PRESENT, hi - 1)
        else fsp_loop groups state 0 hi 0)"

text \<open>
  Storing the new group. The groups after the position are moved up when there is one at
  the position with another destination; counting a group that is there already would take
  in the uninitialised group after the last one.
\<close>

definition insert_group :: "edge_array \<Rightarrow> nat \<Rightarrow> symbols \<Rightarrow> fsm_state_t \<Rightarrow> edge_array option" where
  "insert_group st i symbols state =
     (let new = \<lparr>eg_symbols = symbols, eg_to = state\<rparr> in
      do { c_assert (length (es_groups st) < es_ceil st);
           c_assert (i \<le> length (es_groups st));
           c_assert (i < length (es_groups st) \<longrightarrow> eg_to (es_groups st ! i) \<noteq> state);
           Some (st\<lparr>es_groups := take i (es_groups st) @ new # drop i (es_groups st)\<rparr>) })"

fun edge_set_add_bulk ::
  "alloc \<Rightarrow> edge_set \<Rightarrow> symbols \<Rightarrow> fsm_state_t \<Rightarrow> (bool \<times> edge_set \<times> alloc) option" where
  "edge_set_add_bulk al ES_Null symbols state =
     (case init_empty al of
        (None, al) \<Rightarrow> Some (False, ES_Null, al)
      | (Some st, al) \<Rightarrow>
          Some (True, ES (st\<lparr>es_groups := [\<lparr>eg_symbols = symbols, eg_to = state\<rparr>]\<rparr>), al))"
| "edge_set_add_bulk al (ES st) symbols state =
     do { c_assert (es_ceil st > 0);
          c_assert (length (es_groups st) \<le> es_ceil st);
          (res, i) \<leftarrow> find_state_position st state;
          case res of
            FSP_FOUND_VALUE_PRESENT \<Rightarrow>
              do { eg \<leftarrow> c_nth (es_groups st) i;
                   Some (True, ES (st\<lparr>es_groups := (es_groups st)
                     [i := eg\<lparr>eg_symbols := symbols_or (eg_symbols eg) symbols\<rparr>]\<rparr>), al) }
          | FSP_FOUND_INSERT_POSITION \<Rightarrow>
              do { (ok, st, al) \<leftarrow>
                     (if length (es_groups st) = es_ceil st then grow_groups al st
                      else Some (True, st, al));
                   if \<not> ok then Some (False, ES st, al)
                   else do { st \<leftarrow> insert_group st i symbols state; Some (True, ES st, al) } } }"

definition edge_set_add ::
  "alloc \<Rightarrow> edge_set \<Rightarrow> octet \<Rightarrow> fsm_state_t \<Rightarrow> (bool \<times> edge_set \<times> alloc) option" where
  "edge_set_add al pset symbol state =
     edge_set_add_bulk al pset (SYMBOLS_SET symbols_zero symbol) state"

definition edge_set_add_state_set ::
  "alloc \<Rightarrow> edge_set \<Rightarrow> octet \<Rightarrow> state_set \<Rightarrow> (bool \<times> edge_set \<times> alloc) option" where
  "edge_set_add_state_set al setp symbol ss =
     add_all (\<lambda>al es state. edge_set_add al es symbol state)
       (state_set_drain (state_set_reset ss)) (setp, al)"

section \<open>Queries\<close>

fun find_loop :: "edge_group list \<Rightarrow> octet \<Rightarrow> fsm_edge option" where
  "find_loop [] symbol = None"
| "find_loop (eg # egs) symbol =
     (if SYMBOLS_GET (eg_symbols eg) symbol then Some (mk_edge (eg_to eg) symbol)
      else find_loop egs symbol)"

text \<open>What \<open>edge_set_find\<close> writes to \<open>*e\<close>, or \<open>None\<close> when it returns 0.\<close>

fun edge_set_find :: "edge_set \<Rightarrow> octet \<Rightarrow> fsm_edge option" where
  "edge_set_find ES_Null symbol = None"
| "edge_set_find (ES st) symbol = find_loop (es_groups st) symbol"

definition edge_set_transition :: "edge_set \<Rightarrow> octet \<Rightarrow> fsm_state_t option" where
  "edge_set_transition st symbol =
     (case edge_set_find st symbol of None \<Rightarrow> None | Some e \<Rightarrow> Some (e_state e))"

fun first_label_loop :: "symbols \<Rightarrow> nat list \<Rightarrow> octet option" where
  "first_label_loop S [] = None"
| "first_label_loop S (i # is) =
     (if S ! i = 0 then first_label_loop S is
      else case find (\<lambda>k. S ! i AND push_bit k 1 \<noteq> 0) [0..<64] of
             Some k \<Rightarrow> Some (of_nat (i * 64 + k))
           | None \<Rightarrow> first_label_loop S is)"

definition find_first_group_label :: "edge_group \<Rightarrow> octet option" where
  "find_first_group_label g = first_label_loop (eg_symbols g) [0..<4]"

fun edge_set_empty :: "edge_set \<Rightarrow> bool" where
  "edge_set_empty ES_Null = True"
| "edge_set_empty (ES s) =
     (es_groups s = [] \<or> \<not> list_ex (\<lambda>g. find_first_group_label g \<noteq> None) (es_groups s))"

fun edge_set_contains :: "edge_set \<Rightarrow> octet \<Rightarrow> bool" where
  "edge_set_contains ES_Null symbol = False"
| "edge_set_contains (ES st) symbol =
     (if edge_set_empty (ES st) then False
      else list_ex (\<lambda>eg. SYMBOLS_GET (eg_symbols eg) symbol) (es_groups st))"

text \<open>The labels of a group in the order of the two inner loops, empty words skipped.\<close>

definition group_bits :: "symbols \<Rightarrow> nat list" where
  "group_bits S = concat (map (\<lambda>w_i. if S ! w_i = 0 then []
     else map (\<lambda>b_i. 64 * w_i + b_i) (filter (\<lambda>b_i. S ! w_i AND push_bit b_i 1 \<noteq> 0) [0..<64])) [0..<4])"

fun edge_set_hasnondeterminism :: "edge_set \<Rightarrow> bm \<Rightarrow> (bool \<times> bm) option" where
  "edge_set_hasnondeterminism ES_Null bm = Some (False, bm)"
| "edge_set_hasnondeterminism (ES st) bm =
     (if edge_set_empty (ES st) then Some (False, bm)
      else mark_unique bm_set bm_get bm
             (concat (map (\<lambda>eg. group_bits (eg_symbols eg)) (es_groups st))))"

fun edge_set_count :: "edge_set \<Rightarrow> nat" where
  "edge_set_count ES_Null = 0"
| "edge_set_count (ES st) =
     sum_list (map (\<lambda>eg. sum_list (map (\<lambda>w_i.
       if eg_symbols eg ! w_i = 0 then 0 else u64bitset_popcount (eg_symbols eg ! w_i)) [0..<4]))
       (es_groups st))"

fun ec_labels_loop ::
  "edge_group list \<Rightarrow> nat \<Rightarrow> fsm_state_t list \<Rightarrow> fsm_state_t \<Rightarrow> symbols \<Rightarrow> symbols option" where
  "ec_labels_loop [] ec_map_count state_ecs first_ec labels = Some labels"
| "ec_labels_loop (eg # egs) ec_map_count state_ecs first_ec labels =
     do { c_assert (eg_to eg < ec_map_count);
          ec \<leftarrow> c_nth state_ecs (eg_to eg);
          ec_labels_loop egs ec_map_count state_ecs first_ec
            (if ec = first_ec then symbols_or labels (eg_symbols eg) else labels) }"

text \<open>The destination and the labels written, or \<open>Some None\<close> when it returns 0.\<close>

fun edge_set_check_edges_with_EC_mapping ::
  "edge_set \<Rightarrow> octet \<Rightarrow> nat \<Rightarrow> fsm_state_t list \<Rightarrow> (fsm_state_t \<times> symbols) option option" where
  "edge_set_check_edges_with_EC_mapping ES_Null label ec_map_count state_ecs = Some None"
| "edge_set_check_edges_with_EC_mapping (ES st) label ec_map_count state_ecs =
     (case find (\<lambda>eg. SYMBOLS_GET (eg_symbols eg) label) (es_groups st) of
        None \<Rightarrow> Some None
      | Some eg \<Rightarrow>
          do { c_assert (eg_to eg < ec_map_count);
               first_ec \<leftarrow> c_nth state_ecs (eg_to eg);
               labels \<leftarrow> ec_labels_loop (es_groups st) ec_map_count state_ecs first_ec symbols_zero;
               Some (Some (eg_to eg, labels)) })"

section \<open>Copying\<close>

text \<open>
  The first half of a round of \<open>edge_set_copy_into\<close>: an empty source group is skipped, a
  destination group is made where there is none, or the group there is taken as it is.
\<close>

datatype copy_slot = Slot_Skip | Slot_Fail | Slot_Ready

definition copy_into_slot ::
  "alloc \<Rightarrow> edge_array \<Rightarrow> edge_group \<Rightarrow> nat \<Rightarrow> (copy_slot \<times> edge_array \<times> alloc) option" where
  "copy_into_slot al dst src_g dg_i =
     (if dg_i \<ge> length (es_groups dst) \<or> eg_to (es_groups dst ! dg_i) > eg_to src_g then
        (case find_first_group_label src_g of
           None \<Rightarrow> Some (Slot_Skip, dst, al)
         | Some label \<Rightarrow>
             do { (ok, es, al) \<leftarrow> edge_set_add al (ES dst) label (eg_to src_g);
                  case es of
                    ES_Null \<Rightarrow> None
                  | ES dst \<Rightarrow> Some (if ok then Slot_Ready else Slot_Fail, dst, al) })
      else Some (Slot_Ready, dst, al))"

partial_function (option) copy_into_loop ::
  "edge_group list \<Rightarrow> nat \<Rightarrow> nat \<Rightarrow> alloc \<Rightarrow> edge_array \<Rightarrow> (bool \<times> edge_array \<times> alloc) option" where
  "copy_into_loop src sg_i dg_i al dst =
     (if sg_i < length src then
        do { let src_g = src ! sg_i;
             (slot, dst, al) \<leftarrow> copy_into_slot al dst src_g dg_i;
             case slot of
               Slot_Skip \<Rightarrow> copy_into_loop src (sg_i + 1) dg_i al dst
             | Slot_Fail \<Rightarrow> Some (False, dst, al)
             | Slot_Ready \<Rightarrow>
                 do { dst_g \<leftarrow> c_nth (es_groups dst) dg_i;
                      if eg_to dst_g < eg_to src_g then copy_into_loop src sg_i (dg_i + 1) al dst
                      else do {
                        c_assert (eg_to dst_g = eg_to src_g);
                        copy_into_loop src (sg_i + 1) (dg_i + 1) al
                          (dst\<lparr>es_groups := (es_groups dst)[dg_i :=
                             dst_g\<lparr>eg_symbols := symbols_or (eg_symbols dst_g) (eg_symbols src_g)\<rparr>]\<rparr>) } } }
      else Some (True, dst, al))"

declare copy_into_loop.simps [code]

fun edge_set_copy_into ::
  "alloc \<Rightarrow> edge_array \<Rightarrow> edge_set \<Rightarrow> (bool \<times> edge_array \<times> alloc) option" where
  "edge_set_copy_into al dst ES_Null = None"
| "edge_set_copy_into al dst (ES src) = copy_into_loop (es_groups src) 0 0 al dst"

fun edge_set_copy ::
  "alloc \<Rightarrow> edge_set \<Rightarrow> edge_set \<Rightarrow> (bool \<times> edge_set \<times> alloc) option" where
  "edge_set_copy al (ES dst) src =
     do { (ok, dst, al) \<leftarrow> edge_set_copy_into al dst src; Some (ok, ES dst, al) }"
| "edge_set_copy al ES_Null src =
     (if edge_set_empty src then Some (True, ES_Null, al)
      else
        let (ok, al) = f_malloc al in
        if \<not> ok then Some (False, ES_Null, al)
        else
          let (ok, al) = f_malloc al in
          if \<not> ok then Some (False, ES_Null, al)
          else Some (True, src, al))"

section \<open>Removal, renumbering and replacement\<close>

fun edge_set_remove :: "edge_set \<Rightarrow> octet \<Rightarrow> edge_set" where
  "edge_set_remove ES_Null symbol = ES_Null"
| "edge_set_remove (ES st) symbol =
     (if edge_set_empty (ES st) then ES st
      else ES (st\<lparr>es_groups :=
        map (\<lambda>eg. eg\<lparr>eg_symbols := SYMBOLS_CLEAR (eg_symbols eg) symbol\<rparr>) (es_groups st)\<rparr>))"

text \<open>
  Closing the gap left by a group: \<open>memmove\<close> is asked for \<open>count - i\<close> groups from
  \<open>i + 1\<close> on and so reads the one at \<open>count\<close>, which has to be allocated.
\<close>

definition close_gap :: "nat \<Rightarrow> edge_group list \<Rightarrow> nat \<Rightarrow> edge_group list option" where
  "close_gap ceil groups i =
     do { c_assert (length groups < ceil); Some (take i groups @ drop (i + 1) groups) }"

function remove_state_loop ::
  "nat \<Rightarrow> edge_group list \<Rightarrow> fsm_state_t \<Rightarrow> nat \<Rightarrow> edge_group list option" where
  "remove_state_loop ceil groups state i =
     (if i < length groups then
        if eg_to (groups ! i) = state
        then (case close_gap ceil groups i of
                None \<Rightarrow> None
              | Some groups' \<Rightarrow> remove_state_loop ceil groups' state i)
        else remove_state_loop ceil groups state (i + 1)
      else Some groups)"
  by pat_completeness auto
termination
  by (relation "measure (\<lambda>(ceil, groups, state, i). length groups - i)")
    (auto simp: close_gap_def c_assert_def split: if_splits)

declare remove_state_loop.simps [simp del]

fun edge_set_remove_state :: "edge_set \<Rightarrow> fsm_state_t \<Rightarrow> edge_set option" where
  "edge_set_remove_state ES_Null state = Some ES_Null"
| "edge_set_remove_state (ES st) state =
     (if edge_set_empty (ES st) then Some (ES st)
      else do { groups \<leftarrow> remove_state_loop (es_ceil st) (es_groups st) state 0;
                Some (ES (st\<lparr>es_groups := groups\<rparr>)) })"

record to_info =
  old_to :: fsm_state_t
  new_to :: fsm_state_t
  assignment :: fsm_state_t

fun assign_loop ::
  "fsm_state_t \<Rightarrow> fsm_state_t \<Rightarrow> to_info list \<Rightarrow> (to_info list \<times> nat) option" where
  "assign_loop prev_new_to prev_assignment [] = Some ([], 0)"
| "assign_loop prev_new_to prev_assignment (x # xs) =
     do { c_assert (new_to x \<ge> prev_new_to);
          if new_to x = FSM_STATE_REMAP_NO_STATE then Some (x # xs, 0)
          else if new_to x = prev_new_to
          then do { (xs, n) \<leftarrow> assign_loop (new_to x) prev_assignment xs;
                    Some (x\<lparr>assignment := prev_assignment\<rparr> # xs, n) }
          else do { (xs, n) \<leftarrow> assign_loop (new_to x) (state_add prev_assignment 1) xs;
                    Some (x\<lparr>assignment := state_add prev_assignment 1\<rparr> # xs, n + 1) } }"

text \<open>\<open>info[0]\<close> gets the first slot whatever its new number is.\<close>

fun assign_slots :: "to_info list \<Rightarrow> (to_info list \<times> nat) option" where
  "assign_slots [] = None"
| "assign_slots (x # xs) =
     do { (xs, n) \<leftarrow> assign_loop (new_to x) 0 xs; Some (x\<lparr>assignment := 0\<rparr> # xs, n + 1) }"

fun condense_loop ::
  "to_info list \<Rightarrow> edge_group list \<Rightarrow> edge_group list \<Rightarrow> edge_group list option" where
  "condense_loop (x # xs) (eg # egs) ngroups =
     (if new_to x = FSM_STATE_REMAP_NO_STATE then condense_loop xs egs ngroups
      else do { g \<leftarrow> c_nth ngroups (assignment x);
                condense_loop xs egs (ngroups[assignment x :=
                  \<lparr>eg_symbols = symbols_or (eg_symbols g) (eg_symbols eg), eg_to = new_to x\<rparr>]) })"
| "condense_loop _ _ ngroups = Some ngroups"

fun to_infos ::
  "(fsm_state_t \<Rightarrow> fsm_state_t option) \<Rightarrow> edge_group list \<Rightarrow> to_info list option" where
  "to_infos remap [] = Some []"
| "to_infos remap (eg # egs) =
     do { n \<leftarrow> remap (eg_to eg);
          xs \<leftarrow> to_infos remap egs;
          Some (\<lparr>old_to = eg_to eg, new_to = n, assignment = FSM_STATE_REMAP_NO_STATE\<rparr> # xs) }"

text \<open>
  The two calls of \<open>qsort\<close> are sorts by a key. The first leaves the order of equal keys
  open, but those get the same slot; the comparison of the second asserts that there are
  no equal keys.
\<close>

fun edge_set_compact ::
  "alloc \<Rightarrow> edge_set \<Rightarrow> (fsm_state_t \<Rightarrow> fsm_state_t option) \<Rightarrow> (bool \<times> edge_set \<times> alloc) option" where
  "edge_set_compact al ES_Null remap = Some (True, ES_Null, al)"
| "edge_set_compact al (ES st) remap =
     (if edge_set_empty (ES st) then Some (True, ES st, al)
      else
        let (ok, al) = f_malloc al in
        if \<not> ok then Some (False, ES st, al)
        else
          let (ok, al) = f_calloc al in
          if \<not> ok then Some (False, ES st, al)
          else do {
            info \<leftarrow> to_infos remap (es_groups st);
            (info, ncount) \<leftarrow> assign_slots (sort_key new_to info);
            c_assert (distinct (map old_to info));
            let info = sort_key old_to info;
            ngroups \<leftarrow> condense_loop info (es_groups st)
              (replicate (es_ceil st) \<lparr>eg_symbols = symbols_zero, eg_to = 0\<rparr>);
            Some (True, ES (st\<lparr>es_groups := take ncount ngroups\<rparr>), al) })"

fun edge_set_rebase :: "edge_set \<Rightarrow> fsm_state_t \<Rightarrow> edge_set" where
  "edge_set_rebase ES_Null base = ES_Null"
| "edge_set_rebase (ES st) base =
     (if edge_set_empty (ES st) then ES st
      else ES (st\<lparr>es_groups :=
        map (\<lambda>eg. eg\<lparr>eg_to := state_add (eg_to eg) base\<rparr>) (es_groups st)\<rparr>))"

fun edge_set_replace_state ::
  "alloc \<Rightarrow> edge_set \<Rightarrow> fsm_state_t \<Rightarrow> fsm_state_t \<Rightarrow> (bool \<times> edge_set \<times> alloc) option" where
  "edge_set_replace_state al ES_Null old new = Some (True, ES_Null, al)"
| "edge_set_replace_state al (ES st) old new =
     (if edge_set_empty (ES st) then Some (True, ES st, al)
      else case first_index (\<lambda>eg. eg_to eg = old) (es_groups st) of
        None \<Rightarrow> Some (True, ES st, al)
      | Some i \<Rightarrow>
          let cp = es_groups st ! i in
          (case find_first_group_label cp of
             None \<Rightarrow> Some (True, ES st, al)
           | Some label \<Rightarrow>
               do { groups \<leftarrow> close_gap (es_ceil st) (es_groups st) i;
                    (ok, es, al) \<leftarrow> edge_set_add al (ES (st\<lparr>es_groups := groups\<rparr>)) label new;
                    case es of
                      ES_Null \<Rightarrow> None
                    | ES st \<Rightarrow>
                        if \<not> ok then Some (False, ES st, al)
                        else (case first_index (\<lambda>eg. eg_to eg = new) (es_groups st) of
                            None \<Rightarrow> None
                          | Some j \<Rightarrow>
                              let eg = es_groups st ! j in
                              Some (True, ES (st\<lparr>es_groups := (es_groups st)[j :=
                                eg\<lparr>eg_symbols := symbols_or (eg_symbols eg) (eg_symbols cp)\<rparr>]\<rparr>), al)) }))"

section \<open>Iteration\<close>

record edge_iter =
  ei_i :: nat
  ei_j :: nat
  ei_set :: edge_set

definition edge_set_reset :: "edge_set \<Rightarrow> edge_iter" where
  "edge_set_reset st = \<lparr>ei_i = 0, ei_j = 0, ei_set = st\<rparr>"

function edge_next_j :: "symbols \<Rightarrow> nat \<Rightarrow> nat option" where
  "edge_next_j S j =
     (if j < 256 then
        if j mod 64 = 0 \<and> S ! (j div 64) = 0 then edge_next_j S (j + 64)
        else if SYMBOLS_GET S (of_nat j) then Some j
        else edge_next_j S (j + 1)
      else None)"
  by pat_completeness auto
termination
  by (relation "measure (\<lambda>(S, j). 256 - j)") auto

function edge_next_loop ::
  "edge_group list \<Rightarrow> nat \<Rightarrow> nat \<Rightarrow> fsm_edge option \<times> nat \<times> nat" where
  "edge_next_loop groups i j =
     (if i < length groups then
        case edge_next_j (eg_symbols (groups ! i)) j of
          Some j \<Rightarrow> (Some (mk_edge (eg_to (groups ! i)) (of_nat j)), i, j + 1)
        | None \<Rightarrow> edge_next_loop groups (i + 1) 0
      else (None, i, j))"
  by pat_completeness auto
termination
  by (relation "measure (\<lambda>(groups, i, j). length groups - i)") auto

declare edge_next_j.simps [simp del] edge_next_loop.simps [simp del]

definition edge_set_next :: "edge_iter \<Rightarrow> fsm_edge option \<times> edge_iter" where
  "edge_set_next it =
     (case ei_set it of
        ES_Null \<Rightarrow> (None, it)
      | ES st \<Rightarrow>
          (case edge_next_loop (es_groups st) (ei_i it) (ei_j it) of
             (e, i, j) \<Rightarrow> (e, it\<lparr>ei_i := i, ei_j := j\<rparr>)))"

subsection \<open>By label\<close>

record edge_ordered_iter =
  eoi_set :: edge_set
  eoi_pos :: nat
  eoi_symbol :: octet

definition edge_set_ordered_iter_reset_to :: "edge_set \<Rightarrow> octet \<Rightarrow> edge_ordered_iter" where
  "edge_set_ordered_iter_reset_to st symbol = \<lparr>eoi_set = st, eoi_pos = 0, eoi_symbol = symbol\<rparr>"

definition edge_set_ordered_iter_reset :: "edge_set \<Rightarrow> edge_ordered_iter" where
  "edge_set_ordered_iter_reset st = edge_set_ordered_iter_reset_to st 0"

lemma octet_below_top: "(c :: octet) \<noteq> 255 \<Longrightarrow> unat c < 255"
proof -
  assume "c \<noteq> 255"
  then have "unat c \<noteq> unat (255 :: octet)" unfolding octet_nat_eq_iff .
  then have "unat c \<noteq> 255" by simp
  then show ?thesis using unat_octet [of c] by linarith
qed

lemma unat_octet_Suc: "(c :: octet) \<noteq> 255 \<Longrightarrow> unat (c + 1) = unat c + 1"
  using octet_below_top [of c] by (simp add: unat_word_ariths)

text \<open>The round over one label, from a position on, and the loop over the labels.\<close>

definition ordered_scan :: "edge_group list \<Rightarrow> octet \<Rightarrow> nat \<Rightarrow> (fsm_edge \<times> nat) option" where
  "ordered_scan groups symbol pos =
     (case first_index (\<lambda>eg. SYMBOLS_GET (eg_symbols eg) symbol) (drop pos groups) of
        None \<Rightarrow> None
      | Some k \<Rightarrow> Some (mk_edge (eg_to (groups ! (pos + k))) symbol, pos + k + 1))"

function ordered_loop ::
  "edge_group list \<Rightarrow> octet \<Rightarrow> nat \<Rightarrow> (fsm_edge \<times> octet \<times> nat) option" where
  "ordered_loop groups symbol pos =
     (case ordered_scan groups symbol pos of
        Some (e, pos) \<Rightarrow> Some (e, symbol, pos)
      | None \<Rightarrow> if symbol = 255 then None else ordered_loop groups (symbol + 1) 0)"
  by pat_completeness auto
termination
  by (relation "measure (\<lambda>(groups, symbol, pos). 255 - unat symbol)")
    (auto simp: unat_octet_Suc dest: octet_below_top)

declare ordered_loop.simps [simp del]

definition edge_set_ordered_iter_next ::
  "edge_ordered_iter \<Rightarrow> fsm_edge option \<times> edge_ordered_iter" where
  "edge_set_ordered_iter_next eoi =
     (case eoi_set eoi of
        ES_Null \<Rightarrow> (None, eoi)
      | ES st \<Rightarrow>
          (case ordered_loop (es_groups st) (eoi_symbol eoi) (eoi_pos eoi) of
             None \<Rightarrow> (None, eoi\<lparr>eoi_set := ES_Null, eoi_symbol := 255, eoi_pos := length (es_groups st)\<rparr>)
           | Some (e, symbol, pos) \<Rightarrow> (Some e, eoi\<lparr>eoi_symbol := symbol, eoi_pos := pos\<rparr>)))"

subsection \<open>By group\<close>

datatype edge_group_iter_type = EDGE_GROUP_ITER_ALL | EDGE_GROUP_ITER_UNIQUE

text \<open>The flag of the iterator: a type of iteration, or \<open>EDGE_GROUP_ITER_UNIQUE + 1\<close>.\<close>

datatype edge_group_flag = Flag_All | Flag_Unique | Flag_NonUnique

record edge_group_iter =
  egi_set :: edge_set
  egi_flag :: edge_group_flag
  egi_i :: nat
  egi_internal :: symbols

record edge_group_iter_info =
  gi_unique :: "bool option"  \<comment> \<open>\<open>None\<close>: not written\<close>
  gi_to :: fsm_state_t
  gi_symbols :: symbols

text \<open>The labels of the groups are met in turn; one met before is shared.\<close>

fun shared_loop :: "octet list \<Rightarrow> symbols \<Rightarrow> symbols \<Rightarrow> symbols" where
  "shared_loop [] seen internal = internal"
| "shared_loop (c # cs) seen internal =
     (if SYMBOLS_GET seen c then shared_loop cs seen (SYMBOLS_SET internal c)
      else shared_loop cs (SYMBOLS_SET seen c) internal)"

definition edge_set_group_iter_reset :: "edge_set \<Rightarrow> edge_group_iter_type \<Rightarrow> edge_group_iter" where
  "edge_set_group_iter_reset st iter_type =
     \<lparr>egi_set = st,
      egi_flag = (case iter_type of EDGE_GROUP_ITER_ALL \<Rightarrow> Flag_All | EDGE_GROUP_ITER_UNIQUE \<Rightarrow> Flag_Unique),
      egi_i = 0,
      egi_internal =
        (case (iter_type, st) of
           (EDGE_GROUP_ITER_UNIQUE, ES a) \<Rightarrow>
             shared_loop (concat (map (\<lambda>g. map of_nat (group_bits (eg_symbols g))) (es_groups a)))
               symbols_zero symbols_zero
         | _ \<Rightarrow> symbols_zero)\<rparr>"

definition symbols_any :: "symbols \<Rightarrow> bool" where
  "symbols_any S = list_ex (\<lambda>w. w \<noteq> 0) S"

function group_next_loop ::
  "edge_group list \<Rightarrow> symbols \<Rightarrow> edge_group_flag \<Rightarrow> nat \<Rightarrow>
   edge_group_iter_info option \<times> edge_group_flag \<times> nat" where
  "group_next_loop groups internal flag i =
     (if \<not> i < length groups then (None, flag, i)
      else
        let g = groups ! i;
            uniq = symbols_and_not (eg_symbols g) internal;
            shared = symbols_and (eg_symbols g) internal in
        case flag of
          Flag_All \<Rightarrow>
            if symbols_any (eg_symbols g)
            then (Some \<lparr>gi_unique = None, gi_to = eg_to g, gi_symbols = eg_symbols g\<rparr>, flag, i + 1)
            else group_next_loop groups internal flag (i + 1)
        | _ \<Rightarrow>
            if flag = Flag_Unique \<and> symbols_any uniq
            then (Some \<lparr>gi_unique = Some True, gi_to = eg_to g, gi_symbols = uniq\<rparr>, Flag_NonUnique, i)
            else if symbols_any shared
            then (Some \<lparr>gi_unique = Some False, gi_to = eg_to g, gi_symbols = shared\<rparr>, Flag_Unique, i + 1)
            else group_next_loop groups internal Flag_Unique (i + 1))"
  by pat_completeness auto
termination
  by (relation "measure (\<lambda>(groups, internal, flag, i). length groups - i)") auto

declare group_next_loop.simps [simp del]

definition edge_set_group_iter_next ::
  "edge_group_iter \<Rightarrow> edge_group_iter_info option \<times> edge_group_iter" where
  "edge_set_group_iter_next egi =
     (case egi_set egi of
        ES_Null \<Rightarrow> (None, egi)
      | ES st \<Rightarrow>
          (case group_next_loop (es_groups st) (egi_internal egi) (egi_flag egi) (egi_i egi) of
             (r, flag, i) \<Rightarrow> (r, egi\<lparr>egi_flag := flag, egi_i := i\<rparr>)))"

section \<open>Invariant and edges\<close>

definition group_ok :: "edge_group \<Rightarrow> bool" where
  "group_ok g \<longleftrightarrow> length (eg_symbols g) = 4 \<and> eg_to g < state_limit"

definition groups_ok :: "edge_group list \<Rightarrow> bool" where
  "groups_ok gs \<longleftrightarrow> asc (map eg_to gs) \<and> (\<forall>g \<in> set gs. group_ok g)"

fun es_inv :: "edge_set \<Rightarrow> bool" where
  "es_inv ES_Null = True"
| "es_inv (ES st) \<longleftrightarrow> groups_ok (es_groups st) \<and> length (es_groups st) \<le> es_ceil st \<and> 0 < es_ceil st"

definition group_edges :: "edge_group \<Rightarrow> (octet \<times> fsm_state_t) set" where
  "group_edges g = (\<lambda>c. (c, eg_to g)) ` symset (eg_symbols g)"

definition groups_edges :: "edge_group list \<Rightarrow> (octet \<times> fsm_state_t) set" where
  "groups_edges gs = \<Union> (group_edges ` set gs)"

fun es_edges :: "edge_set \<Rightarrow> (octet \<times> fsm_state_t) set" where
  "es_edges ES_Null = {}"
| "es_edges (ES st) = groups_edges (es_groups st)"

fun es_tos :: "edge_set \<Rightarrow> fsm_state_t set" where
  "es_tos ES_Null = {}"
| "es_tos (ES st) = eg_to ` set (es_groups st)"

lemma groups_edges_simps [simp]:
  "groups_edges [] = {}"
  "groups_edges (g # gs) = group_edges g \<union> groups_edges gs"
  "groups_edges (gs @ hs) = groups_edges gs \<union> groups_edges hs"
  by (auto simp: groups_edges_def)

lemma group_edges_iff: "(c, s) \<in> group_edges g \<longleftrightarrow> c \<in> symset (eg_symbols g) \<and> s = eg_to g"
  by (auto simp: group_edges_def)

lemma groups_edges_iff:
  "(c, s) \<in> groups_edges gs \<longleftrightarrow> (\<exists>g \<in> set gs. c \<in> symset (eg_symbols g) \<and> s = eg_to g)"
  by (auto simp: groups_edges_def group_edges_iff)

lemma groups_edges_update:
  assumes "i < length gs" and "eg_to g = eg_to (gs ! i)"
    and "symset (eg_symbols g) = symset (eg_symbols (gs ! i)) \<union> T"
  shows "groups_edges (gs[i := g]) = (\<lambda>c. (c, eg_to g)) ` T \<union> groups_edges gs"
proof -
  have e: "groups_edges gs = groups_edges (take i gs) \<union> (group_edges (gs ! i) \<union> groups_edges (drop (Suc i) gs))"
    using arg_cong [OF id_take_nth_drop [OF assms(1)], of groups_edges] by simp
  have g: "group_edges g = (\<lambda>c. (c, eg_to g)) ` T \<union> group_edges (gs ! i)"
    using assms(2,3) by (simp add: group_edges_def image_Un Un_commute)
  show ?thesis
    unfolding upd_conv_take_nth_drop [OF assms(1)] groups_edges_simps e g by (simp only: Un_ac)
qed

lemma groups_edges_insert:
  "groups_edges (take i gs @ g # drop i gs) = group_edges g \<union> groups_edges gs"
proof -
  have "groups_edges gs = groups_edges (take i gs) \<union> groups_edges (drop i gs)"
    using groups_edges_simps(3) [of "take i gs" "drop i gs"] by simp
  then show ?thesis unfolding groups_edges_simps by (simp only: Un_ac)
qed

lemma groups_ok_update:
  assumes "groups_ok gs" and "i < length gs" and "eg_to g = eg_to (gs ! i)" and "length (eg_symbols g) = 4"
  shows "groups_ok (gs[i := g])"
proof -
  have "map eg_to (gs[i := g]) = map eg_to gs"
    using assms(2,3) by (simp add: map_update list_update_same_conv)
  moreover have "group_ok g"
    using assms by (auto simp: groups_ok_def group_ok_def)
  ultimately show ?thesis
    using assms(1) set_update_subset_insert [of gs i g] by (auto simp: groups_ok_def)
qed

lemma image_eg_to_update:
  assumes "i < length gs" and "eg_to (gs ! i) = s" and "eg_to g = s"
  shows "eg_to ` set (gs[i := g]) = insert s (eg_to ` set gs)"
proof -
  have "map eg_to (gs[i := g]) = map eg_to gs"
    using assms by (simp add: map_update list_update_same_conv)
  then have "set (map eg_to (gs[i := g])) = set (map eg_to gs)" by (rule arg_cong)
  moreover have "s \<in> eg_to ` set gs" using assms by force
  ultimately show ?thesis by auto
qed

lemma es_inv_groups: "es_inv (ES st) \<Longrightarrow> groups_ok (es_groups st)"
  by simp

lemma es_edges_limit: "es_inv es \<Longrightarrow> (c, s) \<in> es_edges es \<Longrightarrow> s < state_limit"
  by (cases es) (auto simp: groups_edges_iff groups_ok_def group_ok_def)

text \<open>Two groups with the same destination are the same group.\<close>

lemma groups_ok_inject:
  assumes "groups_ok gs" and "g \<in> set gs" and "h \<in> set gs" and "eg_to g = eg_to h"
  shows "g = h"
proof -
  have "distinct (map eg_to gs)" using assms(1) by (simp add: groups_ok_def asc_distinct)
  then show ?thesis using assms(2-4) by (auto simp: distinct_map dest: inj_onD)
qed

section \<open>Insertion is insertion\<close>

lemma fsp_loop_wp:
  assumes "asc (map eg_to gs)" and "lo \<le> hi" and "hi \<le> length gs"
    and "\<forall>k < lo. eg_to (gs ! k) < s" and "\<forall>k. hi \<le> k \<longrightarrow> k < length gs \<longrightarrow> s < eg_to (gs ! k)"
    and "lo = hi \<longrightarrow> mid = lo"
  shows "wp (fsp_loop gs s lo hi mid) (\<lambda>(res, i). case res of
      FSP_FOUND_VALUE_PRESENT \<Rightarrow> i < length gs \<and> eg_to (gs ! i) = s
    | FSP_FOUND_INSERT_POSITION \<Rightarrow> i \<le> length gs \<and> (\<forall>k < i. eg_to (gs ! k) < s) \<and>
        (\<forall>k. i \<le> k \<longrightarrow> k < length gs \<longrightarrow> s < eg_to (gs ! k)))"
  using assms
proof (induction gs s lo hi mid rule: fsp_loop.induct)
  case (1 gs s lo hi mid)
  note prems = "1.prems"
  have mono: "eg_to (gs ! i) \<le> eg_to (gs ! j)" if "i \<le> j" "j < length gs" for i j
    using asc_nth_mono [OF prems(1), of i j] that by simp
  let ?m = "lo + (hi - lo) div 2"
  show ?case
  proof (cases "lo < hi")
    case False
    then show ?thesis using prems by (subst fsp_loop.simps) (auto simp: wp_simps intro: order_le_neq_trans)
  next
    case True
    then have m: "lo \<le> ?m" "?m < hi" by linarith+
    consider "s = eg_to (gs ! ?m)" | "s < eg_to (gs ! ?m)" | "s > eg_to (gs ! ?m)" by linarith
    then show ?thesis
    proof cases
      case 1
      then show ?thesis using True m prems by (subst fsp_loop.simps) (simp add: Let_def)
    next
      case 2
      then have r: "fsp_loop gs s lo hi mid = fsp_loop gs s lo ?m ?m"
        using True by (subst fsp_loop.simps) (simp add: Let_def)
      have "\<forall>k. ?m \<le> k \<longrightarrow> k < length gs \<longrightarrow> s < eg_to (gs ! k)"
        using 2 mono by (meson order_less_le_trans)
      then show ?thesis
        unfolding r by (intro "1.IH"(2) [OF True refl refl]) (use 2 m prems in auto)
    next
      case 3
      then have r: "fsp_loop gs s lo hi mid = fsp_loop gs s (?m + 1) hi (if ?m + 1 = hi then ?m + 1 else ?m)"
        using True by (subst fsp_loop.simps) (simp add: Let_def)
      have "\<forall>k < ?m + 1. eg_to (gs ! k) < s"
        using 3 m prems mono [of _ ?m]
        by (metis Suc_eq_plus1 less_Suc_eq_le order_le_less_trans order_less_le_trans)
      then show ?thesis
        unfolding r by (intro "1.IH"(1) [OF True refl refl]) (use 3 m prems in auto)
    qed
  qed
qed

definition fsp_post :: "edge_group list \<Rightarrow> fsm_state_t \<Rightarrow> fsp_res \<Rightarrow> nat \<Rightarrow> bool" where
  "fsp_post gs s res i = (case res of
      FSP_FOUND_VALUE_PRESENT \<Rightarrow> i < length gs \<and> eg_to (gs ! i) = s
    | FSP_FOUND_INSERT_POSITION \<Rightarrow> i \<le> length gs \<and> (\<forall>k < i. eg_to (gs ! k) < s) \<and>
        (\<forall>k. i \<le> k \<longrightarrow> k < length gs \<longrightarrow> s < eg_to (gs ! k)))"

lemma find_state_position_wp:
  assumes "groups_ok (es_groups st)"
  shows "wp (find_state_position st s) (\<lambda>(res, i). fsp_post (es_groups st) s res i)"
proof -
  let ?gs = "es_groups st" and ?n = "length (es_groups st)"
  have asc: "asc (map eg_to ?gs)" using assms by (simp add: groups_ok_def)
  consider "?gs = []" | "?gs \<noteq> []" "s > eg_to (?gs ! (?n - 1))"
    | "?gs \<noteq> []" "s = eg_to (?gs ! (?n - 1))" | "?gs \<noteq> []" "s < eg_to (?gs ! (?n - 1))"
    by fastforce
  then show ?thesis
  proof cases
    case 2
    have "eg_to (?gs ! k) < s" if "k < ?n" for k
    proof -
      have "k \<le> ?n - 1" "?n - 1 < length (map eg_to ?gs)" using that by auto
      then have "map eg_to ?gs ! k \<le> map eg_to ?gs ! (?n - 1)" by (rule asc_nth_mono [OF asc])
      with that 2 show ?thesis by simp
    qed
    with 2 show ?thesis by (simp add: find_state_position_def fsp_post_def)
  next
    case 4
    then have "find_state_position st s = fsp_loop ?gs s 0 ?n 0"
      by (simp add: find_state_position_def Let_def)
    then show ?thesis
      using fsp_loop_wp [OF asc, of 0 ?n s 0] by (simp add: fsp_post_def)
  qed (simp_all add: find_state_position_def fsp_post_def)
qed

lemma init_empty_cases:
  obtains (fail) al' where "init_empty al = (None, al')" and "al \<noteq> []"
  | (ok) al' where "init_empty al = (Some \<lparr>es_ceil = DEF_EDGE_GROUP_CEIL, es_groups = []\<rparr>, al')"
      and "al = [] \<longrightarrow> al' = []"
proof -
  have "(\<exists>al'. init_empty al = (None, al') \<and> al \<noteq> []) \<or>
      (\<exists>al'. init_empty al = (Some \<lparr>es_ceil = DEF_EDGE_GROUP_CEIL, es_groups = []\<rparr>, al') \<and>
        (al = [] \<longrightarrow> al' = []))"
    by (cases al) (auto simp: init_empty_def split_beta Let_def)
  then show thesis using that by blast
qed

lemma insert_group_wp:
  assumes "groups_ok (es_groups st)" and "length (es_groups st) < es_ceil st"
    and "fsp_post (es_groups st) s FSP_FOUND_INSERT_POSITION i"
    and "length symbols = 4" and "s < state_limit"
  shows "wp (insert_group st i symbols s) (\<lambda>st'. es_inv (ES st') \<and>
    groups_edges (es_groups st') = (\<lambda>c. (c, s)) ` symset symbols \<union> groups_edges (es_groups st) \<and>
    eg_to ` set (es_groups st') = insert s (eg_to ` set (es_groups st)))"
proof -
  let ?gs = "es_groups st" and ?g = "\<lparr>eg_symbols = symbols, eg_to = s\<rparr>"
  have i: "i \<le> length ?gs" "\<forall>k < i. eg_to (?gs ! k) < s"
    "\<forall>k. i \<le> k \<longrightarrow> k < length ?gs \<longrightarrow> s < eg_to (?gs ! k)"
    using assms(3) by (auto simp: fsp_post_def)
  have "asc (take i (map eg_to ?gs) @ s # drop i (map eg_to ?gs))"
    by (rule asc_insert_at) (use assms(1) i in \<open>auto simp: groups_ok_def\<close>)
  then have asc: "asc (map eg_to (take i ?gs @ ?g # drop i ?gs))" by (simp add: take_map drop_map)
  have "\<forall>g \<in> set (take i ?gs @ ?g # drop i ?gs). group_ok g"
    using assms unfolding set_insert_at by (auto simp: groups_ok_def group_ok_def)
  with asc have "groups_ok (take i ?gs @ ?g # drop i ?gs)" by (simp add: groups_ok_def)
  moreover have "eg_to ` set (take i ?gs @ ?g # drop i ?gs) = insert s (eg_to ` set ?gs)"
    unfolding set_insert_at by simp
  moreover have "groups_edges (take i ?gs @ ?g # drop i ?gs) =
      (\<lambda>c. (c, s)) ` symset symbols \<union> groups_edges ?gs"
    unfolding groups_edges_insert by (simp add: group_edges_def)
  moreover have "i < length ?gs \<longrightarrow> eg_to (?gs ! i) \<noteq> s" using i(3) by auto
  ultimately show ?thesis
    using assms(2) i(1) by (simp add: insert_group_def wp_simps Let_def del: groups_edges_simps)
qed

text \<open>
  The contract of the insertion of the edges with a set of labels to one state: the
  invariant is kept, on success exactly the new edges are added and the state has a group,
  on failure none is added and none is lost, and it only fails when the allocator does.
\<close>

definition es_added ::
  "alloc \<Rightarrow> edge_set \<Rightarrow> octet set \<Rightarrow> fsm_state_t \<Rightarrow> bool \<times> edge_set \<times> alloc \<Rightarrow> bool" where
  "es_added al es T s = (\<lambda>(ok, es', al'). es_inv es' \<and>
     es_edges es' = (if ok then (\<lambda>c. (c, s)) ` T \<union> es_edges es else es_edges es) \<and>
     es_tos es' = (if ok then insert s (es_tos es) else es_tos es) \<and>
     (es \<noteq> ES_Null \<longrightarrow> es' \<noteq> ES_Null) \<and> (al = [] \<longrightarrow> ok \<and> al' = []))"

lemma edge_set_add_bulk_wp:
  assumes "es_inv es" and "length symbols = 4" and "s < state_limit"
  shows "wp (edge_set_add_bulk al es symbols s) (es_added al es (symset symbols) s)"
proof (cases es)
  case ES_Null
  show ?thesis
    by (cases rule: init_empty_cases [of al])
      (use assms in \<open>simp_all add: ES_Null es_added_def groups_ok_def group_ok_def group_edges_def
        DEF_EDGE_GROUP_CEIL_def\<close>)
next
  case (ES st)
  let ?post = "es_added al es (symset symbols) s"
  have inv: "groups_ok (es_groups st)" "length (es_groups st) \<le> es_ceil st" "0 < es_ceil st"
    using assms(1) ES by auto
  have "wp (find_state_position st s) (\<lambda>(res, i). fsp_post (es_groups st) s res i)"
    by (rule find_state_position_wp [OF inv(1)])
  then obtain res i where f: "find_state_position st s = Some (res, i)"
    and post: "fsp_post (es_groups st) s res i" by (auto elim: wpE)
  show ?thesis
  proof (cases res)
    case FSP_FOUND_VALUE_PRESENT
    then have i: "i < length (es_groups st)" "eg_to (es_groups st ! i) = s"
      using post by (auto simp: fsp_post_def)
    have len: "length (eg_symbols (es_groups st ! i)) = 4"
      using inv(1) i by (auto simp: groups_ok_def group_ok_def)
    show ?thesis
      using inv f i len assms(2)
        groups_edges_update [OF i(1), of "(es_groups st ! i)\<lparr>eg_symbols :=
          symbols_or (eg_symbols (es_groups st ! i)) symbols\<rparr>" "symset symbols"]
        image_eg_to_update [OF i]
      by (simp add: ES FSP_FOUND_VALUE_PRESENT wp_simps es_added_def groups_ok_update symset_or)
  next
    case FSP_FOUND_INSERT_POSITION
    note post = post [unfolded FSP_FOUND_INSERT_POSITION]
    have store: "wp (do { st' \<leftarrow> insert_group st1 i symbols s; Some (True, ES st', al1) }) ?post"
      if "es_groups st1 = es_groups st" "length (es_groups st) < es_ceil st1" "al = [] \<longrightarrow> al1 = []"
      for st1 al1
      using insert_group_wp [of st1 s i symbols] that post inv assms
      by (simp add: wp_simps) (erule wp_mono, auto simp: es_added_def ES)
    show ?thesis
    proof (cases "length (es_groups st) = es_ceil st")
      case False
      with inv have "length (es_groups st) < es_ceil st" by simp
      from store [OF refl this] show ?thesis
        using False inv f by (simp add: ES FSP_FOUND_INSERT_POSITION wp_simps)
    next
      case True
      obtain ok al' where al: "f_realloc al = (ok, al')" by (cases "f_realloc al")
      have nil: "al = [] \<longrightarrow> ok \<and> al' = []" using al by auto
      show ?thesis
      proof (cases ok)
        case ok: True
        have "wp (do { st' \<leftarrow> insert_group (st\<lparr>es_ceil := 2 * es_ceil st\<rparr>) i symbols s;
            Some (True, ES st', al') }) ?post"
          by (rule store) (use True inv(3) nil in auto)
        then show ?thesis
          using True inv f al ok
          by (simp add: ES FSP_FOUND_INSERT_POSITION wp_simps grow_groups_def)
      next
        case False
        then show ?thesis
          using True inv f al nil
          by (auto simp: ES FSP_FOUND_INSERT_POSITION wp_simps grow_groups_def es_added_def)
      qed
    qed
  qed
qed

lemma edge_set_add_wp:
  assumes "es_inv es" and "s < state_limit"
  shows "wp (edge_set_add al es c s) (es_added al es {c} s)"
  using edge_set_add_bulk_wp [OF assms(1) _ assms(2), of "SYMBOLS_SET symbols_zero c" al]
  by (simp add: edge_set_add_def symset_SYMBOLS_SET)

interpretation eset: alloc_set es_inv es_edges "\<lambda>(c, s). s < state_limit"
  "\<lambda>al es (c, s). edge_set_add al es c s"
proof
  fix es al and x :: "octet \<times> fsm_state_t"
  assume "es_inv es" and "case x of (c, s) \<Rightarrow> s < state_limit"
  then have "wp (edge_set_add al es (fst x) (snd x)) (es_added al es {fst x} (snd x))"
    using edge_set_add_wp [of es "snd x" al "fst x"] by (simp add: case_prod_beta)
  then show "wp (case x of (c, s) \<Rightarrow> edge_set_add al es c s) (\<lambda>(ok, es', al'). es_inv es' \<and>
      (if ok then es_edges es' = insert x (es_edges es) else es_edges es' \<subseteq> es_edges es) \<and>
      (al = [] \<longrightarrow> ok \<and> al' = []))"
    by (cases x) (auto elim!: wp_mono simp: es_added_def)
qed

lemma edge_set_add_state_set_wp:
  assumes "es_inv es" and "ss_inv ss"
  shows "wp (edge_set_add_state_set al es c ss) (\<lambda>(ok, es', al'). es_inv es' \<and>
    (if ok then es_edges es' = {c} \<times> ss_set ss \<union> es_edges es
     else es_edges es' \<subseteq> {c} \<times> ss_set ss \<union> es_edges es) \<and> (al = [] \<longrightarrow> ok \<and> al' = []))"
proof -
  have run: "edge_set_add_state_set al es c ss =
      add_all (\<lambda>al es (c, s). edge_set_add al es c s) (map (Pair c) (ss_list ss)) (es, al)"
    by (simp add: edge_set_add_state_set_def add_all_def c_for_map state_set_drain_list)
  have ok: "\<forall>x \<in> set (map (Pair c) (ss_list ss)). case x of (c, s) \<Rightarrow> s < state_limit"
    using ss_set_limit [OF assms(2)] by auto
  have new: "set (map (Pair c) (ss_list ss)) = {c} \<times> ss_set ss" by auto
  show ?thesis
    unfolding run using eset.add_all_wp [OF assms(1) ok, of al] unfolding new .
qed

section \<open>The labels of a group\<close>

abbreviation label_bit :: "symbols \<Rightarrow> nat \<Rightarrow> bool" where
  "label_bit S i \<equiv> bit (S ! (i div 64)) (i mod 64)"

lemma upt_words: "concat (map (\<lambda>w. map (\<lambda>b. 64 * w + b) [0..<64]) [0..<n]) = [0..<64 * n]"
proof (induction n)
  case (Suc n)
  have "map (\<lambda>b. 64 * n + b) [0..<64] = [64 * n..<64 * n + 64]"
    using map_add_upt [of "64 * n" 64] by (simp add: add.commute)
  moreover have "[0..<64 * Suc n] = [0..<64 * n] @ [64 * n..<64 * n + 64]"
    using upt_add_eq_append [of 0 "64 * n" 64] by (simp add: add.commute)
  ultimately show ?case using Suc by simp
qed simp

lemma group_bits_filter: "group_bits S = filter (label_bit S) [0..<256]"
proof -
  have "(if S ! w = 0 then []
      else map (\<lambda>b. 64 * w + b) (filter (\<lambda>b. S ! w AND push_bit b 1 \<noteq> 0) [0..<64])) =
      filter (label_bit S) (map (\<lambda>b. 64 * w + b) [0..<64])" for w
  proof -
    have "map (\<lambda>b. 64 * w + b) (filter (\<lambda>b. S ! w AND push_bit b 1 \<noteq> 0) [0..<64]) =
        filter (label_bit S) (map (\<lambda>b. 64 * w + b) [0..<64])"
      unfolding filter_map by (rule arg_cong [of _ _ "map _"], rule filter_cong)
        (auto simp: and_exp_1)
    moreover have "S ! w = 0 \<Longrightarrow> filter (label_bit S) (map (\<lambda>b. 64 * w + b) [0..<64]) = []"
      unfolding filter_map o_def by (simp add: filter_empty_conv)
    ultimately show ?thesis by auto
  qed
  then have "group_bits S = concat (map (\<lambda>w. filter (label_bit S) (map (\<lambda>b. 64 * w + b) [0..<64])) [0..<4])"
    unfolding group_bits_def by simp
  also have "\<dots> = filter (label_bit S) (concat (map (\<lambda>w. map (\<lambda>b. 64 * w + b) [0..<64]) [0..<4]))"
    unfolding filter_concat map_map o_def ..
  finally show ?thesis unfolding upt_words by simp
qed

lemma group_bits_asc: "asc (group_bits S)"
  unfolding group_bits_filter by (rule asc_filter) simp

lemma label_bit_of_nat: "i < 256 \<Longrightarrow> of_nat i \<in> symset S \<longleftrightarrow> label_bit S i"
  by (simp add: symset_def unat_of_nat_octet)

lemma set_group_bits: "set (group_bits S) = unat ` symset S"
proof (intro set_eqI iffI)
  fix i assume "i \<in> set (group_bits S)"
  then have i: "i < 256" "label_bit S i" by (auto simp: group_bits_filter)
  then have "of_nat i \<in> symset S" "unat (of_nat i :: octet) = i"
    by (simp_all only: label_bit_of_nat unat_of_nat_octet)
  then show "i \<in> unat ` symset S" by (metis imageI)
next
  fix i assume "i \<in> unat ` symset S"
  then show "i \<in> set (group_bits S)"
    using unat_octet by (auto simp: group_bits_filter symset_def)
qed

lemma map_of_nat_group_bits: "set (map of_nat (group_bits S)) = symset S"
  by (auto simp: set_group_bits image_image)

lemma first_label_loop_None:
  "set is \<subseteq> {..<4} \<Longrightarrow> first_label_loop S is = None \<longleftrightarrow> (\<forall>i \<in> set is. S ! i = 0)"
proof (induction "is")
  case (Cons i "is")
  have "find (\<lambda>k. S ! i AND push_bit k 1 \<noteq> 0) [0..<64] \<noteq> None" if nz: "S ! i \<noteq> 0"
  proof -
    obtain k where "bit (S ! i) k" using nz by (metis bit_eq_iff bit_0_eq bot_apply bot_bool_def)
    then have "k < 64" "S ! i AND push_bit k 1 \<noteq> 0" by (auto simp: and_exp_1 dest: bit_imp_le_length)
    then show ?thesis by (auto simp: find_None_iff simp del: push_bit_of_1)
  qed
  with Cons show ?case by (auto split: option.split)
qed simp

lemma first_label_loop_Some:
  "set is \<subseteq> {..<4} \<Longrightarrow> first_label_loop S is = Some c \<Longrightarrow> c \<in> symset S"
proof (induction "is")
  case (Cons i "is")
  show ?case
  proof (cases "S ! i = 0")
    case False
    show ?thesis
    proof (cases "find (\<lambda>k. S ! i AND push_bit k 1 \<noteq> 0) [0..<64]")
      case (Some k)
      then have "k < 64" "bit (S ! i) k" by (auto simp: find_Some_iff and_exp_1)
      moreover from this have "64 * i + k < 256" using Cons.prems(1) by auto
      ultimately show ?thesis
        using Cons.prems(2) Some False label_bit_of_nat [of "64 * i + k" S]
        by (auto simp: mult.commute)
    qed (use Cons False in auto)
  qed (use Cons in auto)
qed simp

lemma find_first_group_label_None:
  "length (eg_symbols g) = 4 \<Longrightarrow> find_first_group_label g = None \<longleftrightarrow> symset (eg_symbols g) = {}"
  using first_label_loop_None [of "[0..<4]" "eg_symbols g"]
  by (simp add: find_first_group_label_def symset_empty_iff atLeast0LessThan Ball_def)

lemma find_first_group_label_Some:
  "find_first_group_label g = Some c \<Longrightarrow> c \<in> symset (eg_symbols g)"
  unfolding find_first_group_label_def by (rule first_label_loop_Some) auto

section \<open>Queries read the edges\<close>

lemma edge_set_empty_iff:
  assumes "es_inv es"
  shows "edge_set_empty es \<longleftrightarrow> es_edges es = {}"
proof (cases es)
  case (ES st)
  then have "\<forall>g \<in> set (es_groups st). length (eg_symbols g) = 4"
    using assms by (auto simp: groups_ok_def group_ok_def)
  then show ?thesis
    by (auto simp: ES list_ex_iff find_first_group_label_None groups_edges_def group_edges_def
        simp del: not_None_eq)
qed simp

lemma edge_set_contains_iff:
  assumes "es_inv es"
  shows "edge_set_contains es c \<longleftrightarrow> (\<exists>s. (c, s) \<in> es_edges es)"
proof (cases es)
  case (ES st)
  show ?thesis
  proof (cases "edge_set_empty es")
    case True
    then show ?thesis using edge_set_empty_iff [OF assms] ES by simp
  next
    case False
    then show ?thesis using ES by (auto simp: list_ex_iff groups_edges_iff simp del: edge_set_empty.simps)
  qed
qed simp

lemma find_loop_Some:
  "find_loop gs c = Some e \<Longrightarrow> \<exists>s. (c, s) \<in> groups_edges gs \<and> e = mk_edge s c"
  by (induction gs) (auto simp: group_edges_iff split: if_splits)

lemma find_loop_None: "find_loop gs c = None \<longleftrightarrow> (\<forall>s. (c, s) \<notin> groups_edges gs)"
  by (induction gs) (auto simp: group_edges_iff)

lemma edge_set_find_Some: "edge_set_find es c = Some e \<Longrightarrow> \<exists>s. (c, s) \<in> es_edges es \<and> e = mk_edge s c"
  by (cases es) (auto dest: find_loop_Some)

lemma edge_set_find_None: "edge_set_find es c = None \<longleftrightarrow> (\<forall>s. (c, s) \<notin> es_edges es)"
  by (cases es) (auto simp: find_loop_None)

definition es_deterministic :: "edge_set \<Rightarrow> bool" where
  "es_deterministic es \<longleftrightarrow> (\<forall>c s s'. (c, s) \<in> es_edges es \<longrightarrow> (c, s') \<in> es_edges es \<longrightarrow> s = s')"

text \<open>
  With at most one edge per label, and states that fit the 24-bit field, a transition is
  the edge.
\<close>

lemma edge_set_transition_iff:
  assumes "es_deterministic es" and "\<forall>(c, s) \<in> es_edges es. s < edge_state_limit"
  shows "edge_set_transition es c = Some s \<longleftrightarrow> (c, s) \<in> es_edges es"
proof
  assume "edge_set_transition es c = Some s"
  then obtain e where "edge_set_find es c = Some e" "s = e_state e"
    by (auto simp: edge_set_transition_def split: option.splits)
  then show "(c, s) \<in> es_edges es"
    using edge_set_find_Some [of es c e] assms(2) by (auto simp: mk_edge_def)
next
  assume s: "(c, s) \<in> es_edges es"
  then obtain e where e: "edge_set_find es c = Some e"
    using edge_set_find_None [of es c] by (cases "edge_set_find es c") auto
  then obtain s' where "(c, s') \<in> es_edges es" "e = mk_edge s' c" using edge_set_find_Some by blast
  moreover from this have "s' = s" using s assms(1) by (auto simp: es_deterministic_def)
  ultimately show "edge_set_transition es c = Some s"
    using e assms(2) by (auto simp: edge_set_transition_def mk_edge_def)
qed

section \<open>Nondeterminism and counting\<close>

lemma groups_ok_Cons:
  "groups_ok (g # gs) \<longleftrightarrow> group_ok g \<and> groups_ok gs \<and> (\<forall>h \<in> set gs. eg_to g < eg_to h)"
  by (auto simp: groups_ok_def)

definition single_label :: "(octet \<times> fsm_state_t) set \<Rightarrow> bool" where
  "single_label E \<longleftrightarrow> (\<forall>c s s'. (c, s) \<in> E \<longrightarrow> (c, s') \<in> E \<longrightarrow> s = s')"

lemma single_label_Cons:
  assumes "groups_ok (g # gs)"
  shows "single_label (groups_edges (g # gs)) \<longleftrightarrow>
    single_label (groups_edges gs) \<and> symset (eg_symbols g) \<inter> fst ` groups_edges gs = {}"
proof -
  have "eg_to g \<noteq> s" if "(c, s) \<in> groups_edges gs" for c s
    using that assms by (auto simp: groups_ok_Cons groups_edges_iff)
  note ne = this
  show ?thesis
  proof (intro iffI conjI)
    assume L: "single_label (groups_edges (g # gs))"
    then show "single_label (groups_edges gs)" unfolding single_label_def groups_edges_simps by blast
    show "symset (eg_symbols g) \<inter> fst ` groups_edges gs = {}"
    proof (rule equals0I)
      fix c assume "c \<in> symset (eg_symbols g) \<inter> fst ` groups_edges gs"
      then obtain s where c: "c \<in> symset (eg_symbols g)" "(c, s) \<in> groups_edges gs" by auto
      then have "(c, eg_to g) \<in> groups_edges (g # gs)" "(c, s) \<in> groups_edges (g # gs)"
        by (simp_all add: group_edges_iff)
      with L have "eg_to g = s" unfolding single_label_def by blast
      with ne c(2) show False by blast
    qed
  next
    assume R: "single_label (groups_edges gs) \<and> symset (eg_symbols g) \<inter> fst ` groups_edges gs = {}"
    then have "c \<notin> symset (eg_symbols g)" if "(c, s) \<in> groups_edges gs" for c s using that by force
    then show "single_label (groups_edges (g # gs))"
      using R unfolding single_label_def groups_edges_simps Un_iff group_edges_iff by blast
  qed
qed

lemma labels_of_groups: "fst ` groups_edges gs = (\<Union>g \<in> set gs. symset (eg_symbols g))"
  by (simp add: groups_edges_def group_edges_def image_UN image_image)

lemma distinct_group_bits:
  assumes "groups_ok gs"
  shows "distinct (concat (map (\<lambda>eg. group_bits (eg_symbols eg)) gs)) \<longleftrightarrow> single_label (groups_edges gs)"
  using assms
proof (induction gs)
  case (Cons g gs)
  have "set (group_bits (eg_symbols g)) \<inter> (\<Union>h \<in> set gs. set (group_bits (eg_symbols h))) = {} \<longleftrightarrow>
      symset (eg_symbols g) \<inter> fst ` groups_edges gs = {}"
    by (auto simp: set_group_bits labels_of_groups)
  then show ?case
    using Cons single_label_Cons [OF Cons.prems] asc_distinct [OF group_bits_asc [of "eg_symbols g"]]
    by (simp add: groups_ok_Cons)
qed (simp add: single_label_def)

lemma edge_set_hasnondeterminism_wp:
  assumes "es_inv es" and "bm_low bm"
  shows "wp (edge_set_hasnondeterminism es bm) (\<lambda>(r, bm'). bm_low bm' \<and>
    (r \<longleftrightarrow> \<not> (es_deterministic es \<and> unat ` fst ` es_edges es \<inter> bm_chars bm = {})) \<and>
    (\<not> r \<longrightarrow> bm_chars bm' = unat ` fst ` es_edges es \<union> bm_chars bm))"
proof (cases "edge_set_empty es")
  case True
  then have "es_edges es = {}" using edge_set_empty_iff [OF assms(1)] by simp
  with True assms(2) show ?thesis by (cases es) (auto simp: es_deterministic_def)
next
  case False
  then obtain st where es: "es = ES st" by (cases es) auto
  let ?cs = "concat (map (\<lambda>eg. group_bits (eg_symbols eg)) (es_groups st))"
  have ok: "groups_ok (es_groups st)" using assms(1) es by simp
  have chars: "set ?cs = unat ` fst ` es_edges es"
    unfolding es es_edges.simps labels_of_groups by (auto simp: set_group_bits)
  have "\<forall>c \<in> set ?cs. c \<le> 255"
    unfolding chars using unat_octet by (force simp: less_Suc_eq_le [symmetric])
  from bmset.mark_unique_wp [OF assms(2) this]
  have "wp (mark_unique bm_set bm_get bm ?cs)
     (\<lambda>(dup, s'). bm_low s' \<and> (dup \<longleftrightarrow> \<not> (distinct ?cs \<and> set ?cs \<inter> bm_chars bm = {})) \<and>
        (\<not> dup \<longrightarrow> bm_chars s' = set ?cs \<union> bm_chars bm))" .
  moreover have "distinct ?cs \<longleftrightarrow> es_deterministic es"
    unfolding distinct_group_bits [OF ok] by (simp add: es es_deterministic_def single_label_def)
  ultimately show ?thesis
    using False unfolding es edge_set_hasnondeterminism.simps chars [unfolded es] by simp
qed

lemma group_popcount:
  assumes "length S = 4"
  shows "sum_list (map (\<lambda>w_i. if S ! w_i = 0 then 0 else u64bitset_popcount (S ! w_i)) [0..<4]) =
    card (symset S)"
proof -
  have "(if w = 0 then 0 else u64bitset_popcount w) = u64bitset_popcount w" for w
    by (simp add: u64bitset_popcount_def)
  then have "sum_list (map (\<lambda>w_i. if S ! w_i = 0 then 0 else u64bitset_popcount (S ! w_i)) [0..<4]) =
      card {i. i < 64 * 4 \<and> label_bit S i}"
    unfolding card_bits_words by simp
  also have "{i. i < 64 * 4 \<and> label_bit S i} = set (group_bits S)"
    by (auto simp: group_bits_filter)
  also have "card \<dots> = card (symset S)"
    unfolding set_group_bits by (rule card_image) (simp add: inj_on_def)
  finally show ?thesis .
qed

lemma card_group_edges: "card (group_edges g) = card (symset (eg_symbols g))"
  unfolding group_edges_def by (rule card_image) (simp add: inj_on_def)

lemma finite_group_edges: "finite (group_edges g)"
  by (simp add: group_edges_def)

lemma finite_groups_edges: "finite (groups_edges gs)"
  by (simp add: groups_edges_def finite_group_edges)

lemma edge_set_count_card:
  assumes "es_inv es"
  shows "edge_set_count es = card (es_edges es)"
proof (cases es)
  case (ES st)
  have "sum_list (map (\<lambda>eg. sum_list (map (\<lambda>w_i.
      if eg_symbols eg ! w_i = 0 then 0 else u64bitset_popcount (eg_symbols eg ! w_i)) [0..<4])) gs) =
      card (groups_edges gs)" if "groups_ok gs" for gs
    using that
  proof (induction gs)
    case (Cons g gs)
    have "group_edges g \<inter> groups_edges gs = {}"
      using Cons.prems by (fastforce simp: groups_ok_Cons group_edges_def groups_edges_iff)
    then have "card (groups_edges (g # gs)) = card (symset (eg_symbols g)) + card (groups_edges gs)"
      using card_Un_disjoint [of "group_edges g" "groups_edges gs"]
      by (simp add: card_group_edges finite_group_edges finite_groups_edges)
    with Cons show ?case
      by (simp add: groups_ok_Cons group_ok_def group_popcount)
  qed simp
  then show ?thesis using assms ES by simp
qed simp

section \<open>Removal, renumbering and replacement\<close>

lemma groups_ok_map:
  assumes "groups_ok gs" and "\<And>g. g \<in> set gs \<Longrightarrow> group_ok (f g)"
    and "\<And>g h. g \<in> set gs \<Longrightarrow> h \<in> set gs \<Longrightarrow> eg_to g < eg_to h \<Longrightarrow> eg_to (f g) < eg_to (f h)"
  shows "groups_ok (map f gs)"
  using assms by (induction gs) (simp_all add: groups_ok_Cons)

lemma groups_ok_group: "groups_ok gs \<Longrightarrow> g \<in> set gs \<Longrightarrow> length (eg_symbols g) = 4 \<and> eg_to g < state_limit"
  by (simp add: groups_ok_def group_ok_def)

lemma clear_groups:
  fixes c :: octet
  assumes "groups_ok gs"
  defines "f \<equiv> \<lambda>eg. eg\<lparr>eg_symbols := SYMBOLS_CLEAR (eg_symbols eg) c\<rparr>"
  shows "groups_ok (map f gs)" and "groups_edges (map f gs) = {(d, s) \<in> groups_edges gs. d \<noteq> c}"
proof -
  show "groups_ok (map f gs)"
    by (rule groups_ok_map) (use assms groups_ok_group in \<open>auto simp: f_def group_ok_def\<close>)
  have "symset (eg_symbols (f g)) = symset (eg_symbols g) - {c}" if "g \<in> set gs" for g
    using groups_ok_group [OF assms(1) that] by (simp add: f_def symset_SYMBOLS_CLEAR)
  moreover have "eg_to (f g) = eg_to g" for g by (simp add: f_def)
  ultimately show "groups_edges (map f gs) = {(d, s) \<in> groups_edges gs. d \<noteq> c}"
    by (auto simp: groups_edges_iff)
qed

lemma edge_set_remove_edges:
  assumes "es_inv es"
  shows "es_inv (edge_set_remove es c)" and "es_edges (edge_set_remove es c) = {(d, s) \<in> es_edges es. d \<noteq> c}"
proof -
  have "es_inv (edge_set_remove es c) \<and> es_edges (edge_set_remove es c) = {(d, s) \<in> es_edges es. d \<noteq> c}"
  proof (cases "edge_set_empty es")
    case True
    then show ?thesis using assms edge_set_empty_iff [OF assms] by (cases es) simp_all
  next
    case False
    then obtain st where "es = ES st" by (cases es) auto
    with False show ?thesis
      using assms clear_groups [of "es_groups st" c] by (simp del: edge_set_empty.simps)
  qed
  then show "es_inv (edge_set_remove es c)"
    and "es_edges (edge_set_remove es c) = {(d, s) \<in> es_edges es. d \<noteq> c}" by auto
qed

lemma remove_state_loop_run:
  assumes "length gs < ceil" and "i \<le> length gs"
  shows "remove_state_loop ceil gs s i = Some (take i gs @ filter (\<lambda>g. eg_to g \<noteq> s) (drop i gs))"
  using assms
proof (induction ceil gs s i rule: remove_state_loop.induct)
  case (1 ceil gs s i)
  show ?case
  proof (cases "i < length gs")
    case True
    have d: "drop i gs = gs ! i # drop (i + 1) gs" using True by (simp add: Cons_nth_drop_Suc)
    show ?thesis
    proof (cases "eg_to (gs ! i) = s")
      case eq: True
      have gap: "close_gap ceil gs i = Some (take i gs @ drop (i + 1) gs)"
        using "1.prems" by (simp add: close_gap_def c_assert_def)
      have "remove_state_loop ceil (take i gs @ drop (i + 1) gs) s i =
          Some (take i gs @ filter (\<lambda>g. eg_to g \<noteq> s) (drop (i + 1) gs))"
        using "1.IH"(1) [OF True eq gap] "1.prems" True by simp
      then show ?thesis
        using True eq gap d by (subst remove_state_loop.simps) simp
    next
      case False
      then have "remove_state_loop ceil gs s i = remove_state_loop ceil gs s (i + 1)"
        using True by (subst remove_state_loop.simps) simp
      then show ?thesis
        using "1.IH"(2) [OF True False] "1.prems" True False d
        by (simp add: take_Suc_conv_app_nth)
    qed
  qed (use "1.prems" in \<open>subst remove_state_loop.simps, simp\<close>)
qed

lemma groups_ok_filter: "groups_ok gs \<Longrightarrow> groups_ok (filter P gs)"
  by (induction gs) (auto simp: groups_ok_Cons)

lemma groups_edges_filter_to:
  "groups_edges (filter (\<lambda>g. P (eg_to g)) gs) = {(c, s) \<in> groups_edges gs. P s}"
  by (auto simp: groups_edges_iff)

definition es_room :: "edge_set \<Rightarrow> bool" where
  "es_room es = (case es of ES_Null \<Rightarrow> True | ES st \<Rightarrow> length (es_groups st) < es_ceil st)"

text \<open>
  The removal of a state needs a free group after the last one. Where the groups fill their
  allocation and one of them leads to the state, it reads past the allocation.
\<close>

lemma edge_set_remove_state_wp:
  assumes "es_inv es" and "es_room es"
  shows "wp (edge_set_remove_state es s) (\<lambda>es'. es_inv es' \<and> es_edges es' = {(c, t) \<in> es_edges es. t \<noteq> s})"
proof (cases "edge_set_empty es")
  case True
  then show ?thesis using assms edge_set_empty_iff [OF assms(1)] by (cases es) auto
next
  case False
  then obtain st where es: "es = ES st" by (cases es) auto
  have "length (es_groups st) < es_ceil st" using assms(2) by (simp add: es es_room_def)
  from remove_state_loop_run [OF this, of 0 s]
  show ?thesis
    using False assms(1)
    by (simp add: es groups_ok_filter groups_edges_filter_to [of "\<lambda>t. t \<noteq> s"]
        le_trans [OF length_filter_le] del: edge_set_empty.simps)
qed

lemma remove_state_loop_full:
  assumes "i \<le> length gs" and "length gs = ceil" and "s \<in> eg_to ` set (drop i gs)"
  shows "remove_state_loop ceil gs s i = None"
  using assms
proof (induction "length gs - i" arbitrary: i)
  case 0
  then show ?case by simp
next
  case (Suc n)
  then have i: "i < length gs" and d: "drop i gs = gs ! i # drop (i + 1) gs"
    by (simp_all add: Cons_nth_drop_Suc)
  show ?case
  proof (cases "eg_to (gs ! i) = s")
    case True
    then show ?thesis
      using i Suc.prems by (subst remove_state_loop.simps) (simp add: close_gap_def c_assert_def)
  next
    case False
    then have "remove_state_loop ceil gs s (i + 1) = None"
      using Suc.hyps(2) Suc.prems i unfolding d by (intro Suc.hyps(1)) auto
    then show ?thesis using False i by (subst remove_state_loop.simps) simp
  qed
qed

lemma remove_state_loop_other:
  assumes "i \<le> length gs" and "s \<notin> eg_to ` set gs"
  shows "remove_state_loop ceil gs s i = Some gs"
  using assms
proof (induction "length gs - i" arbitrary: i)
  case 0
  then show ?case by (subst remove_state_loop.simps) simp
next
  case (Suc n)
  then have "i < length gs" "eg_to (gs ! i) \<noteq> s" "remove_state_loop ceil gs s (i + 1) = Some gs" by auto
  then show ?case by (subst remove_state_loop.simps) simp
qed

lemma edge_set_remove_state_None_iff:
  assumes "es_inv es"
  shows "edge_set_remove_state es s = None \<longleftrightarrow> \<not> es_room es \<and> es_edges es \<noteq> {} \<and> s \<in> es_tos es"
proof (cases "edge_set_empty es \<or> es_room es")
  case True
  then have "edge_set_remove_state es s \<noteq> None"
    using edge_set_remove_state_wp [OF assms, of s] by (cases es) (auto simp: wp_iff_ex simp del: edge_set_empty.simps)
  then show ?thesis using True edge_set_empty_iff [OF assms] by blast
next
  case False
  then obtain st where es: "es = ES st" by (cases es) auto
  have "length (es_groups st) = es_ceil st" using False assms by (simp add: es es_room_def)
  then have "remove_state_loop (es_ceil st) (es_groups st) s 0 = None \<longleftrightarrow> s \<in> es_tos es"
    using remove_state_loop_full [of 0 "es_groups st" "es_ceil st" s]
      remove_state_loop_other [of 0 "es_groups st" s "es_ceil st"] by (cases "s \<in> es_tos es") (simp_all add: es)
  moreover have "edge_set_remove_state es s = None \<longleftrightarrow> remove_state_loop (es_ceil st) (es_groups st) s 0 = None"
    using False by (auto simp: es simp del: edge_set_empty.simps split: Option.bind_splits)
  ultimately show ?thesis using False edge_set_empty_iff [OF assms] by simp
qed

lemma edge_set_add_first:
  "edge_set_add [] ES_Null c t =
     Some (True, ES \<lparr>es_ceil = 1, es_groups = [\<lparr>eg_symbols = SYMBOLS_SET symbols_zero c, eg_to = t\<rparr>]\<rparr>, [])"
  by (simp add: edge_set_add_def init_empty_def DEF_EDGE_GROUP_CEIL_def)

lemma edge_set_rebase_edges:
  assumes "es_inv es" and "\<forall>s \<in> es_tos es. s + base < state_limit"
  shows "es_inv (edge_set_rebase es base)"
    and "es_edges (edge_set_rebase es base) = (\<lambda>(c, s). (c, s + base)) ` es_edges es"
proof -
  let ?f = "\<lambda>eg. eg\<lparr>eg_to := state_add (eg_to eg) base\<rparr>"
  have "es_inv (edge_set_rebase es base) \<and>
      es_edges (edge_set_rebase es base) = (\<lambda>(c, s). (c, s + base)) ` es_edges es"
  proof (cases "edge_set_empty es")
    case True
    then show ?thesis using assms edge_set_empty_iff [OF assms(1)] by (cases es) simp_all
  next
    case False
    then obtain st where es: "es = ES st" by (cases es) auto
    have small: "eg_to g + base < state_limit" if "g \<in> set (es_groups st)" for g
      using assms(2) that by (auto simp: es)
    have "groups_ok (map ?f (es_groups st))"
      by (rule groups_ok_map) (use assms(1) small groups_ok_group in \<open>auto simp: es group_ok_def\<close>)
    moreover have "groups_edges (map ?f (es_groups st)) =
        (\<lambda>(c, s). (c, s + base)) ` groups_edges (es_groups st)"
      unfolding groups_edges_def group_edges_def image_UN image_image list.set_map
      using small by simp
    ultimately show ?thesis
      using False assms(1) by (simp add: es del: edge_set_empty.simps)
  qed
  then show "es_inv (edge_set_rebase es base)"
    and "es_edges (edge_set_rebase es base) = (\<lambda>(c, s). (c, s + base)) ` es_edges es" by auto
qed

lemma es_tos_rebase: "es_tos (edge_set_rebase es base) \<subseteq> es_tos es \<union> (\<lambda>s. state_add s base) ` es_tos es"
  by (cases es) auto

lemma edge_set_add_bulk_room:
  assumes "es_inv (ES st)" and "es_room (ES st)"
  shows "wp (edge_set_add_bulk al (ES st) symbols s) (\<lambda>(ok, es', al'). ok \<and> al' = al)"
proof -
  have "wp (find_state_position st s) (\<lambda>(res, i). fsp_post (es_groups st) s res i)"
    by (rule find_state_position_wp) (use assms in simp)
  then obtain res i where f: "find_state_position st s = Some (res, i)"
    and post: "fsp_post (es_groups st) s res i" by (auto elim: wpE)
  have "length (es_groups st) < es_ceil st" using assms(2) by (simp add: es_room_def)
  then show ?thesis
    using f post assms(1)
    by (cases res) (auto simp: wp_simps fsp_post_def insert_group_def Let_def)
qed

lemma group_edges_not_to: "(c, t) \<in> groups_edges (filter (\<lambda>g. eg_to g \<noteq> s) gs) \<longleftrightarrow> (c, t) \<in> groups_edges gs \<and> t \<noteq> s"
  by (simp add: groups_edges_filter_to [of "\<lambda>t. t \<noteq> s"])

lemma close_gap_filter:
  assumes "groups_ok gs" and "i < length gs" and "length gs < ceil"
  shows "close_gap ceil gs i = Some (filter (\<lambda>g. eg_to g \<noteq> eg_to (gs ! i)) gs)"
proof -
  have neq: "eg_to (gs ! k) \<noteq> eg_to (gs ! i)" if "k < length gs" "k \<noteq> i" for k
    using asc_distinct [of "map eg_to gs"] assms that by (auto simp: groups_ok_def nth_eq_iff_index_eq distinct_conv_nth)
  have "filter (\<lambda>g. eg_to g \<noteq> eg_to (gs ! i)) (take i gs) = take i gs"
    by (rule filter_True) (use neq assms(2) in \<open>fastforce simp: in_set_conv_nth\<close>)
  moreover have "filter (\<lambda>g. eg_to g \<noteq> eg_to (gs ! i)) (drop (i + 1) gs) = drop (i + 1) gs"
    by (rule filter_True) (use neq assms(2) in \<open>fastforce simp: in_set_conv_nth\<close>)
  moreover have "filter (\<lambda>g. eg_to g \<noteq> eg_to (gs ! i)) gs =
      filter (\<lambda>g. eg_to g \<noteq> eg_to (gs ! i)) (take i gs @ gs ! i # drop (Suc i) gs)"
    using id_take_nth_drop [OF assms(2)] by simp
  ultimately show ?thesis using assms(3) by (simp add: close_gap_def c_assert_def)
qed

lemma groups_edges_split:
  assumes "groups_ok gs" and "i < length gs"
  shows "groups_edges gs = group_edges (gs ! i) \<union> groups_edges (filter (\<lambda>g. eg_to g \<noteq> eg_to (gs ! i)) gs)"
proof -
  have "(c, t) \<in> groups_edges gs \<longleftrightarrow> (c, t) \<in> group_edges (gs ! i) \<or> (c, t) \<in> groups_edges gs \<and> t \<noteq> eg_to (gs ! i)"
    for c t
    using groups_ok_inject [OF assms(1) _ nth_mem [OF assms(2)]] nth_mem [OF assms(2)]
    by (auto simp: groups_edges_iff group_edges_iff)
  then show ?thesis
    by (auto simp: groups_edges_filter_to [of "\<lambda>t. t \<noteq> eg_to (gs ! i)"])
qed

text \<open>Moving the labels of a group to another destination, the two sets of edges side by side.\<close>

lemma moved_edges:
  assumes "groups_ok gs" and "i < length gs"
  shows "(\<lambda>(c, t). (c, if t = eg_to (gs ! i) then new else t)) ` groups_edges gs =
    (\<lambda>c. (c, new)) ` symset (eg_symbols (gs ! i)) \<union> groups_edges (filter (\<lambda>g. eg_to g \<noteq> eg_to (gs ! i)) gs)"
    (is "?R ` _ = ?N \<union> ?rest")
proof -
  have "?R ` group_edges (gs ! i) = ?N" by (simp add: group_edges_def image_image)
  moreover have "?R ` ?rest = id ` ?rest"
    by (rule image_cong) (auto simp: group_edges_not_to)
  ultimately show ?thesis
    unfolding groups_edges_split [OF assms] image_Un by simp
qed

lemma replace_reinsert_wp:
  assumes "es_inv (ES st)" and "es_room (ES st)" and "new < state_limit" and "label \<in> symset cps" and "length cps = 4"
  shows "wp (do { (ok, es, al) \<leftarrow> edge_set_add al (ES st) label new;
      case es of ES_Null \<Rightarrow> None
      | ES st \<Rightarrow> if \<not> ok then Some (False, ES st, al)
          else (case first_index (\<lambda>eg. eg_to eg = new) (es_groups st) of
              None \<Rightarrow> None
            | Some j \<Rightarrow> let eg = es_groups st ! j in
                Some (True, ES (st\<lparr>es_groups := (es_groups st)[j :=
                  eg\<lparr>eg_symbols := symbols_or (eg_symbols eg) cps\<rparr>]\<rparr>), al)) })
    (\<lambda>(ok, es', al'). ok \<and> al' = al \<and> es_inv es' \<and>
       es_edges es' = (\<lambda>c. (c, new)) ` symset cps \<union> groups_edges (es_groups st))"
proof -
  have "wp (edge_set_add al (ES st) label new)
      (\<lambda>(ok, es', al'). es_added al (ES st) {label} new (ok, es', al') \<and> ok \<and> al' = al)"
    using wp_conj [OF edge_set_add_wp [OF assms(1,3), of al label]
        edge_set_add_bulk_room [OF assms(1,2), of al "SYMBOLS_SET symbols_zero label" new,
          folded edge_set_add_def]]
    by (rule wp_mono) auto
  then show ?thesis
    unfolding wp_bind
  proof (rule wp_mono3, goal_cases)
    case (1 ok es' al')
    then obtain st' where es': "es' = ES st'" and ok: "ok" "al' = al" by (cases es') (auto simp: es_added_def)
    have inv: "es_inv (ES st')" and edges: "groups_edges (es_groups st') = insert (label, new) (groups_edges (es_groups st))"
      and "new \<in> eg_to ` set (es_groups st')"
      using 1 by (auto simp: es_added_def es' ok)
    then obtain j where j: "first_index (\<lambda>eg. eg_to eg = new) (es_groups st') = Some j"
      by (cases "first_index (\<lambda>eg. eg_to eg = new) (es_groups st')") (auto simp: first_index_None)
    then have j': "j < length (es_groups st')" "eg_to (es_groups st' ! j) = new"
      using first_index_Some [OF j] by auto
    have grp: "length (eg_symbols (es_groups st' ! j)) = 4"
      using groups_ok_group [of "es_groups st'"] inv j' by simp
    show ?case
      using inv j j' grp assms(4,5) edges
        groups_edges_update [OF j'(1), of "(es_groups st' ! j)\<lparr>eg_symbols :=
          symbols_or (eg_symbols (es_groups st' ! j)) cps\<rparr>" "symset cps"]
      by (auto simp: es' ok Let_def groups_ok_update symset_or)
  qed
qed

text \<open>Given a free group, replacing a destination never allocates and never fails.\<close>

lemma edge_set_replace_state_wp:
  assumes "es_inv es" and "es_room es" and "new < state_limit"
  shows "wp (edge_set_replace_state al es old new) (\<lambda>(ok, es', al'). ok \<and> al' = al \<and> es_inv es' \<and>
    es_edges es' = (\<lambda>(c, t). (c, if t = old then new else t)) ` es_edges es)"
proof (cases "edge_set_empty es")
  case True
  then show ?thesis using assms(1) edge_set_empty_iff [OF assms(1)] by (cases es) simp_all
next
  case False
  then obtain st where es: "es = ES st" by (cases es) auto
  let ?gs = "es_groups st"
  have ok: "groups_ok ?gs" and len: "length ?gs < es_ceil st" using assms by (auto simp: es es_room_def)
  show ?thesis
  proof (cases "first_index (\<lambda>eg. eg_to eg = old) ?gs")
    case None
    then have "(\<lambda>(c, t). (c, if t = old then new else t)) ` groups_edges ?gs = id ` groups_edges ?gs"
      by (intro image_cong) (auto simp: first_index_None groups_edges_iff)
    then show ?thesis using None False assms(1) by (simp add: es del: edge_set_empty.simps)
  next
    case (Some i)
    then have i: "i < length ?gs" "eg_to (?gs ! i) = old" using first_index_Some [OF Some] by auto
    note move = moved_edges [OF ok i(1), of new, unfolded i(2)]
    let ?rest = "filter (\<lambda>g. eg_to g \<noteq> old) ?gs"
    have grp: "length (eg_symbols (?gs ! i)) = 4" using groups_ok_group [OF ok] i(1) by simp
    show ?thesis
    proof (cases "find_first_group_label (?gs ! i)")
      case None
      then have "symset (eg_symbols (?gs ! i)) = {}" using find_first_group_label_None [OF grp] by simp
      then have "groups_edges ?rest = groups_edges ?gs"
        using groups_edges_split [OF ok i(1)] i(2) by (simp add: group_edges_def)
      then show ?thesis
        using None Some False assms(1) move \<open>symset (eg_symbols (?gs ! i)) = {}\<close>
        by (simp add: es Let_def del: edge_set_empty.simps)
    next
      case label: (Some label)
      have gap: "close_gap (es_ceil st) ?gs i = Some ?rest"
        using close_gap_filter [OF ok i(1) len] i(2) by simp
      have inv: "es_inv (ES (st\<lparr>es_groups := ?rest\<rparr>))" "es_room (ES (st\<lparr>es_groups := ?rest\<rparr>))"
        using ok len le_less_trans [OF length_filter_le len]
        by (simp_all add: groups_ok_filter es_room_def less_imp_le)
      show ?thesis
        using replace_reinsert_wp [OF inv assms(3) find_first_group_label_Some [OF label] grp, of al]
          Some label False gap move
        by (simp add: es Let_def del: edge_set_empty.simps)
    qed
  qed
qed

section \<open>Copying is union\<close>

text \<open>
  The merge of \<open>edge_set_copy_into\<close>: what is left to do before a round, and what the
  first half of a round leaves.
\<close>

definition merge_pos :: "edge_group list \<Rightarrow> nat \<Rightarrow> edge_array \<Rightarrow> nat \<Rightarrow> bool" where
  "merge_pos src sg dst dg \<longleftrightarrow> es_inv (ES dst) \<and> dg \<le> length (es_groups dst) \<and>
     (\<forall>k < dg. \<forall>j. sg \<le> j \<longrightarrow> j < length src \<longrightarrow> eg_to (es_groups dst ! k) < eg_to (src ! j))"

definition slot_post ::
  "alloc \<Rightarrow> edge_array \<Rightarrow> edge_group \<Rightarrow> nat \<Rightarrow> copy_slot \<Rightarrow> edge_array \<Rightarrow> alloc \<Rightarrow> bool" where
  "slot_post al dst g dg slot dst' al' \<longleftrightarrow> es_inv (ES dst') \<and> (al = [] \<longrightarrow> al' = []) \<and>
     (case slot of
        Slot_Skip \<Rightarrow> dst' = dst \<and> symset (eg_symbols g) = {}
      | Slot_Fail \<Rightarrow> al \<noteq> [] \<and> es_edges (ES dst') = es_edges (ES dst) \<and> es_tos (ES dst') = es_tos (ES dst)
      | Slot_Ready \<Rightarrow> dg < length (es_groups dst') \<and>
          (\<forall>k < dg. eg_to (es_groups dst' ! k) = eg_to (es_groups dst ! k)) \<and>
          es_edges (ES dst) \<subseteq> es_edges (ES dst') \<and> es_edges (ES dst') \<subseteq> group_edges g \<union> es_edges (ES dst) \<and>
          es_tos (ES dst') \<subseteq> insert (eg_to g) (es_tos (ES dst)) \<and>
          (eg_to (es_groups dst' ! dg) < eg_to g \<and> dst' = dst \<or>
           eg_to (es_groups dst' ! dg) = eg_to g \<and> length (es_groups dst') \<le> length (es_groups dst) + 1))"

lemma asc_insert_list:
  assumes "asc xs" and "asc ys" and "set ys = insert s (set xs)" and "i \<le> length xs"
    and "\<forall>k < i. xs ! k < s" and "\<forall>k. i \<le> k \<longrightarrow> k < length xs \<longrightarrow> s < xs ! k"
  shows "ys = take i xs @ s # drop i xs"
  by (rule asc_unique [OF assms(2)]) (use assms asc_insert_at set_insert_at in \<open>blast, metis\<close>)

lemma copy_into_slot_wp:
  assumes "merge_pos src sg dst dg" and "sg < length src" and "groups_ok src"
  shows "wp (copy_into_slot al dst (src ! sg) dg) (\<lambda>(slot, dst', al'). slot_post al dst (src ! sg) dg slot dst' al')"
proof -
  let ?g = "src ! sg" and ?gs = "es_groups dst"
  have inv: "es_inv (ES dst)" and g: "length (eg_symbols ?g) = 4" "eg_to ?g < state_limit"
    using assms groups_ok_group [OF assms(3)] by (auto simp: merge_pos_def)
  show ?thesis
  proof (cases "dg \<ge> length ?gs \<or> eg_to (?gs ! dg) > eg_to ?g")
    case False
    then show ?thesis
      using inv by (auto simp: copy_into_slot_def slot_post_def not_less le_less)
  next
    case new: True
    show ?thesis
    proof (cases "find_first_group_label ?g")
      case None
      then show ?thesis
        using new inv find_first_group_label_None [OF g(1)] by (simp add: copy_into_slot_def slot_post_def)
    next
      case (Some label)
      have label: "label \<in> symset (eg_symbols ?g)" by (rule find_first_group_label_Some [OF Some])
      have before: "\<forall>k < dg. map eg_to ?gs ! k < eg_to ?g"
        using assms(1,2) by (auto simp: merge_pos_def)
      have asc: "asc (map eg_to ?gs)" using inv by (simp add: groups_ok_def)
      have after: "\<forall>k. dg \<le> k \<longrightarrow> k < length (map eg_to ?gs) \<longrightarrow> eg_to ?g < map eg_to ?gs ! k"
      proof (intro allI impI)
        fix k assume k: "dg \<le> k" "k < length (map eg_to ?gs)"
        then have "map eg_to ?gs ! dg \<le> map eg_to ?gs ! k" by (intro asc_nth_mono [OF asc])
        with k new show "eg_to ?g < map eg_to ?gs ! k" by auto
      qed
      have dg: "dg \<le> length (map eg_to ?gs)" using assms(1) by (simp add: merge_pos_def)
      obtain ok es' al' where run: "edge_set_add al (ES dst) label (eg_to ?g) = Some (ok, es', al')"
        and added: "es_added al (ES dst) {label} (eg_to ?g) (ok, es', al')"
        using edge_set_add_wp [OF inv g(2), of al label] by (rule wpE3)
      then obtain dst' where es': "es' = ES dst'" by (cases es') (auto simp: es_added_def)
      have slot: "copy_into_slot al dst ?g dg = Some (if ok then Slot_Ready else Slot_Fail, dst', al')"
        unfolding copy_into_slot_def if_P [OF new] by (simp add: Some run es')
      show ?thesis
      proof (cases ok)
        case False
        then show ?thesis using added by (auto simp: slot es_added_def es' slot_post_def)
      next
        case ok: True
        have tos: "map eg_to (es_groups dst') = take dg (map eg_to ?gs) @ eg_to ?g # drop dg (map eg_to ?gs)"
          by (rule asc_insert_list [OF asc _ _ dg before after])
            (use added ok in \<open>auto simp: es_added_def es' groups_ok_def\<close>)
        have len: "length (es_groups dst') = length ?gs + 1"
          using arg_cong [OF tos, of length] dg by simp
        have nth: "eg_to (es_groups dst' ! k) =
            (take dg (map eg_to ?gs) @ eg_to ?g # drop dg (map eg_to ?gs)) ! k" if "k \<le> dg" for k
          using that len dg unfolding tos [symmetric] by simp
        have "eg_to (es_groups dst' ! dg) = eg_to ?g"
          and "\<forall>k < dg. eg_to (es_groups dst' ! k) = eg_to (?gs ! k)"
          using nth dg by (auto simp: nth_append)
        then show ?thesis
          using added label ok len dg by (auto simp: slot es_added_def es' slot_post_def group_edges_iff)
      qed
    qed
  qed
qed

definition copied :: "alloc \<Rightarrow> (octet \<times> fsm_state_t) set \<Rightarrow> fsm_state_t set \<Rightarrow> edge_set \<Rightarrow> bool \<times> edge_set \<times> alloc \<Rightarrow> bool" where
  "copied al new tos es = (\<lambda>(ok, es', al'). es_inv es' \<and>
    (if ok then es_edges es' = new \<union> es_edges es else es_edges es' \<subseteq> new \<union> es_edges es) \<and>
    es_tos es' \<subseteq> tos \<union> es_tos es \<and> (al = [] \<longrightarrow> ok \<and> al' = []))"

lemma copied_step:
  assumes "copied al' new' tos es1 r" and "new' \<union> es_edges es1 = new \<union> es_edges es"
    and "es_tos es1 \<subseteq> tos \<union> es_tos es" and "al = [] \<longrightarrow> al' = []"
  shows "copied al new tos es r"
  using assms unfolding copied_def by (cases r) (auto split: if_splits)

lemma copy_into_loop_wp:
  assumes "merge_pos src sg dst dg" and "groups_ok src" and "sg \<le> length src"
  shows "wp (copy_into_loop src sg dg al dst) (\<lambda>(ok, dst', al').
    copied al (groups_edges (drop sg src)) (eg_to ` set src) (ES dst) (ok, ES dst', al'))"
  using assms
proof (induction "2 * (length src - sg) + (length (es_groups dst) - dg)" arbitrary: sg dg al dst rule: less_induct)
  case less
  note mp = less.prems(1) and src = less.prems(2)
  show ?case
  proof (cases "sg < length src")
    case False
    then show ?thesis
      using mp by (subst copy_into_loop.simps) (auto simp: merge_pos_def copied_def)
  next
    case True
    let ?g = "src ! sg"
    have d: "groups_edges (drop sg src) = group_edges ?g \<union> groups_edges (drop (sg + 1) src)"
      using True by (simp flip: Cons_nth_drop_Suc)
    have g: "length (eg_symbols ?g) = 4" "eg_to ?g \<in> eg_to ` set src" using groups_ok_group [OF src] True by auto
    have mono: "eg_to ?g < eg_to (src ! j)" if "sg < j" "j < length src" for j
      using asc_nth_less [of "map eg_to src" sg j] src that by (simp add: groups_ok_def)
    obtain slot dst' al' where run: "copy_into_slot al dst ?g dg = Some (slot, dst', al')"
      and post: "slot_post al dst ?g dg slot dst' al'"
      using copy_into_slot_wp [OF mp True src, of al] by (elim wpE3) simp
    show ?thesis
    proof (cases slot)
      case Slot_Fail
      then show ?thesis
        using post True by (subst copy_into_loop.simps) (auto simp: run slot_post_def copied_def)
    next
      case Slot_Skip
      then have "dst' = dst" "symset (eg_symbols ?g) = {}" "al = [] \<longrightarrow> al' = []"
        using post by (auto simp: slot_post_def)
      moreover have "wp (copy_into_loop src (sg + 1) dg al' dst) (\<lambda>(ok, dst', al1).
          copied al' (groups_edges (drop (sg + 1) src)) (eg_to ` set src) (ES dst) (ok, ES dst', al1))"
        by (rule less.hyps) (use mp True src in \<open>auto simp: merge_pos_def\<close>)
      ultimately show ?thesis
        using True Slot_Skip
        by (subst copy_into_loop.simps) (auto simp: run d group_edges_def copied_def elim!: wp_mono)
    next
      case Slot_Ready
      note p = post [unfolded slot_post_def Slot_Ready copy_slot.case]
      let ?h = "es_groups dst' ! dg"
      show ?thesis
      proof (cases "eg_to ?h < eg_to ?g")
        case lt: True
        then have dst': "dst' = dst" using p by auto
        have "wp (copy_into_loop src sg (dg + 1) al' dst) (\<lambda>(ok, dst', al1).
            copied al' (groups_edges (drop sg src)) (eg_to ` set src) (ES dst) (ok, ES dst', al1))"
        proof (rule less.hyps)
          show "merge_pos src sg dst (dg + 1)"
            using mp lt p mono by (auto simp: merge_pos_def dst' less_Suc_eq le_less intro: less_trans)
        qed (use p dst' True src in auto)
        then show ?thesis
          using p True Slot_Ready lt
          by (subst copy_into_loop.simps) (auto simp: run dst' copied_def elim!: wp_mono)
      next
        case False
        then have eq: "eg_to ?h = eg_to ?g" using p by auto
        let ?dst = "dst'\<lparr>es_groups := (es_groups dst')[dg := ?h\<lparr>eg_symbols :=
          symbols_or (eg_symbols ?h) (eg_symbols ?g)\<rparr>]\<rparr>"
        have inv: "groups_ok (es_groups dst')" "dg < length (es_groups dst')" using p by auto
        have h: "length (eg_symbols ?h) = 4" using groups_ok_group [OF inv(1)] inv(2) by simp
        have inv': "es_inv (ES ?dst)" using p h g by (simp add: groups_ok_update)
        have edges: "es_edges (ES ?dst) = group_edges ?g \<union> es_edges (ES dst')"
          using groups_edges_update [OF inv(2), of "?h\<lparr>eg_symbols := symbols_or (eg_symbols ?h) (eg_symbols ?g)\<rparr>"
              "symset (eg_symbols ?g)"] h g eq by (simp add: symset_or group_edges_def)
        have tos: "es_tos (ES ?dst) = insert (eg_to ?g) (es_tos (ES dst'))"
          using image_eg_to_update [OF inv(2) eq] eq by simp
        have "wp (copy_into_loop src (sg + 1) (dg + 1) al' ?dst) (\<lambda>(ok, dst2, al1).
            copied al' (groups_edges (drop (sg + 1) src)) (eg_to ` set src) (ES ?dst) (ok, ES dst2, al1))"
        proof (rule less.hyps)
          show "merge_pos src (sg + 1) ?dst (dg + 1)"
            using mp inv inv' p mono eq by (auto simp: merge_pos_def less_Suc_eq nth_list_update)
        qed (use p True src eq in auto)
        then have "wp (copy_into_loop src (sg + 1) (dg + 1) al' ?dst) (\<lambda>(ok, dst2, al1).
            copied al (groups_edges (drop sg src)) (eg_to ` set src) (ES dst) (ok, ES dst2, al1))"
        proof (rule wp_mono3)
          fix ok dst2 al1
          assume "copied al' (groups_edges (drop (sg + 1) src)) (eg_to ` set src) (ES ?dst) (ok, ES dst2, al1)"
          then have "copied al (groups_edges (drop sg src)) (eg_to ` set src) (ES dst) (ok, ES dst2, al1)"
            by (rule copied_step) (use p g(2) d in \<open>auto simp: edges tos simp del: es_edges.simps es_tos.simps\<close>)
          then show "case (ok, dst2, al1) of (ok, dst', al'') \<Rightarrow>
              copied al (groups_edges (drop sg src)) (eg_to ` set src) (ES dst) (ok, ES dst', al'')" by simp
        qed
        moreover have "copy_into_loop src sg dg al dst = copy_into_loop src (sg + 1) (dg + 1) al' ?dst"
          using p True Slot_Ready False eq
          by (subst copy_into_loop.simps) (simp add: run c_assert_def)
        ultimately show ?thesis by simp
      qed
    qed
  qed
qed

text \<open>
  A copy is a union. The one case left out follows a null pointer: a source that is null
  and a destination that is not.
\<close>

lemma edge_set_copy_wp:
  assumes "es_inv dst" and "es_inv src" and "src = ES_Null \<longrightarrow> dst = ES_Null"
  shows "wp (edge_set_copy al dst src) (copied al (es_edges src) (es_tos src) dst)"
proof (cases dst)
  case ES_Null
  show ?thesis
  proof (cases "edge_set_empty src")
    case True
    then show ?thesis
      using edge_set_empty_iff [OF assms(2)] by (simp add: ES_Null copied_def)
  next
    case False
    then show ?thesis
      using assms(2)
      by (cases al; cases "tl al") (auto simp: ES_Null copied_def simp del: edge_set_empty.simps)
  qed
next
  case (ES d)
  with assms(3) obtain s where src: "src = ES s" by (cases src) auto
  have "wp (copy_into_loop (es_groups s) 0 0 al d) (\<lambda>(ok, dst', al').
      copied al (groups_edges (drop 0 (es_groups s))) (eg_to ` set (es_groups s)) (ES d) (ok, ES dst', al'))"
    by (rule copy_into_loop_wp) (use assms ES src in \<open>auto simp: merge_pos_def\<close>)
  then show ?thesis
    by (auto simp: ES src wp_simps elim!: wp_mono)
qed

section \<open>Compaction\<close>

lemma to_infos_run:
  assumes "\<forall>g \<in> set gs. remap (eg_to g) = Some (f (eg_to g))"
  shows "to_infos remap gs =
    Some (map (\<lambda>g. \<lparr>old_to = eg_to g, new_to = f (eg_to g), assignment = FSM_STATE_REMAP_NO_STATE\<rparr>) gs)"
  using assms by (induction gs) auto

text \<open>
  The slots given out: \<open>vs\<close> is the ascending list of the new numbers met after \<open>p\<close>, and
  every entry points at its number in it.
\<close>

lemma assign_loop_wp:
  assumes "sorted (map new_to xs)" and "\<forall>x \<in> set xs. p \<le> new_to x" and "p < FSM_STATE_REMAP_NO_STATE"
    and "a + length xs < state_limit" and "\<forall>x \<in> set xs. new_to x \<le> FSM_STATE_REMAP_NO_STATE"
  shows "wp (assign_loop p a xs) (\<lambda>(xs', n). \<exists>vs. length vs = n \<and> asc (p # vs) \<and>
    set (p # vs) = insert p (new_to ` set xs - {FSM_STATE_REMAP_NO_STATE}) \<and>
    map old_to xs' = map old_to xs \<and> map new_to xs' = map new_to xs \<and> n \<le> length xs \<and>
    (\<forall>x \<in> set xs'. new_to x \<noteq> FSM_STATE_REMAP_NO_STATE \<longrightarrow>
      (\<exists>k \<le> n. assignment x = a + k \<and> (p # vs) ! k = new_to x)))"
  using assms
proof (induction xs arbitrary: p a)
  case Nil
  show ?case by (simp add: exI [of _ "[]"])
next
  case (Cons x xs)
  note prems = Cons.prems
  consider "new_to x = FSM_STATE_REMAP_NO_STATE" | "new_to x \<noteq> FSM_STATE_REMAP_NO_STATE" "new_to x = p"
    | "new_to x \<noteq> FSM_STATE_REMAP_NO_STATE" "new_to x > p"
    using prems(2) by (auto simp: le_less)
  then show ?case
  proof cases
    case 1
    then have "new_to ` set xs \<subseteq> {FSM_STATE_REMAP_NO_STATE}" using prems by fastforce
    moreover from this have "new_to y = FSM_STATE_REMAP_NO_STATE" if "y \<in> set xs" for y using that by auto
    ultimately show ?thesis
      using 1 prems(2) by (auto simp: wp_simps intro!: exI [of _ "[]"])
  next
    case 2
    obtain xs' n vs where
      run: "assign_loop (new_to x) a xs = Some (xs', n)" and vs: "length vs = n" "asc (p # vs)"
        "set (p # vs) = insert p (new_to ` set xs - {FSM_STATE_REMAP_NO_STATE})"
        "map old_to xs' = map old_to xs" "map new_to xs' = map new_to xs" "n \<le> length xs"
        "\<forall>x \<in> set xs'. new_to x \<noteq> FSM_STATE_REMAP_NO_STATE \<longrightarrow>
          (\<exists>k \<le> n. assignment x = a + k \<and> (p # vs) ! k = new_to x)"
      using Cons.IH [of p a] prems 2 by (auto elim!: wpE2)
    show ?thesis
      using 2 run vs by (auto simp: wp_simps intro!: exI [of _ vs] exI [of _ 0])
  next
    case 3
    have add: "state_add a 1 = a + 1" using prems(4) by simp
    obtain xs' n vs where
      run: "assign_loop (new_to x) (a + 1) xs = Some (xs', n)" and vs: "length vs = n" "asc (new_to x # vs)"
        "set (new_to x # vs) = insert (new_to x) (new_to ` set xs - {FSM_STATE_REMAP_NO_STATE})"
        "map old_to xs' = map old_to xs" "map new_to xs' = map new_to xs" "n \<le> length xs"
        "\<forall>y \<in> set xs'. new_to y \<noteq> FSM_STATE_REMAP_NO_STATE \<longrightarrow>
          (\<exists>k \<le> n. assignment y = a + 1 + k \<and> (new_to x # vs) ! k = new_to y)"
      using Cons.IH [of "new_to x" "a + 1"] prems 3 by (auto simp: le_less elim!: wpE2)
    have "\<exists>k \<le> Suc n. assignment y = a + k \<and> (p # new_to x # vs) ! k = new_to y"
      if y: "y \<in> set xs'" "new_to y \<noteq> FSM_STATE_REMAP_NO_STATE" for y
    proof -
      obtain k where "k \<le> n" "assignment y = a + 1 + k" "(new_to x # vs) ! k = new_to y"
        using vs(7) y by blast
      then show ?thesis by (intro exI [of _ "Suc k"]) simp
    qed
    moreover have "\<exists>k \<le> Suc n. assignment (x\<lparr>assignment := a + 1\<rparr>) = a + k \<and>
        (p # new_to x # vs) ! k = new_to (x\<lparr>assignment := a + 1\<rparr>)"
      by (rule exI [of _ 1]) simp
    ultimately have slots: "\<forall>y \<in> set (x\<lparr>assignment := a + 1\<rparr> # xs'). new_to y \<noteq> FSM_STATE_REMAP_NO_STATE \<longrightarrow>
        (\<exists>k \<le> Suc n. assignment y = a + k \<and> (p # new_to x # vs) ! k = new_to y)" by simp
    have "asc (p # new_to x # vs)" using vs(2) 3(2) by auto
    moreover have "set (p # new_to x # vs) = insert p (new_to ` set (x # xs) - {FSM_STATE_REMAP_NO_STATE})"
      using vs(3) 3(1) by auto
    moreover have "assign_loop p a (x # xs) = Some (x\<lparr>assignment := a + 1\<rparr> # xs', Suc n)"
      using 3 run add by (simp add: c_assert_def)
    ultimately show ?thesis
      using slots vs(1,4,5,6) by (simp only: wp_Some prod.case) (rule exI [of _ "new_to x # vs"], simp)
  qed
qed

definition slots :: "to_info list \<Rightarrow> fsm_state_t list \<Rightarrow> bool" where
  "slots xs V \<longleftrightarrow> (\<forall>x \<in> set xs. new_to x \<noteq> FSM_STATE_REMAP_NO_STATE \<longrightarrow>
     assignment x < length V \<and> V ! assignment x = new_to x)"

lemma assign_slots_wp:
  assumes "sorted (map new_to xs)" and "xs \<noteq> []" and "length xs \<le> state_limit"
    and "\<forall>x \<in> set xs. new_to x \<le> FSM_STATE_REMAP_NO_STATE"
  shows "wp (assign_slots xs) (\<lambda>(xs', n). \<exists>V. asc V \<and> set V = new_to ` set xs - {FSM_STATE_REMAP_NO_STATE} \<and>
    (n = length V \<or> V = [] \<and> n = 1) \<and> n \<le> length xs \<and> 0 < n \<and>
    map old_to xs' = map old_to xs \<and> map new_to xs' = map new_to xs \<and> slots xs' V)"
proof -
  obtain x ys where xs: "xs = x # ys" using assms(2) by (cases xs) auto
  show ?thesis
  proof (cases "new_to x = FSM_STATE_REMAP_NO_STATE")
    case True
    then have all: "\<forall>y \<in> set ys. new_to y = FSM_STATE_REMAP_NO_STATE"
      using assms(1,4) by (auto simp: xs intro: antisym)
    then have "assign_loop (new_to x) 0 ys = Some (ys, 0)"
      using True by (cases ys) (auto simp: c_assert_def)
    then show ?thesis
      using True all by (auto simp: xs slots_def wp_simps intro!: exI [of _ "[]"])
  next
    case False
    then have lt: "new_to x < FSM_STATE_REMAP_NO_STATE" using assms(4) by (auto simp: xs le_less)
    have "wp (assign_loop (new_to x) 0 ys) (\<lambda>(xs', n). \<exists>vs. length vs = n \<and> asc (new_to x # vs) \<and>
        set (new_to x # vs) = insert (new_to x) (new_to ` set ys - {FSM_STATE_REMAP_NO_STATE}) \<and>
        map old_to xs' = map old_to ys \<and> map new_to xs' = map new_to ys \<and> n \<le> length ys \<and>
        (\<forall>x' \<in> set xs'. new_to x' \<noteq> FSM_STATE_REMAP_NO_STATE \<longrightarrow>
          (\<exists>k \<le> n. assignment x' = 0 + k \<and> (new_to x # vs) ! k = new_to x')))"
      by (rule assign_loop_wp) (use assms lt in \<open>auto simp: xs\<close>)
    then obtain ys' n vs where run: "assign_loop (new_to x) 0 ys = Some (ys', n)"
      and vs: "length vs = n" "asc (new_to x # vs)"
        "set (new_to x # vs) = insert (new_to x) (new_to ` set ys - {FSM_STATE_REMAP_NO_STATE})"
        "map old_to ys' = map old_to ys" "map new_to ys' = map new_to ys" "n \<le> length ys"
      and sl: "\<forall>x' \<in> set ys'. new_to x' \<noteq> FSM_STATE_REMAP_NO_STATE \<longrightarrow>
          (\<exists>k \<le> n. assignment x' = 0 + k \<and> (new_to x # vs) ! k = new_to x')"
      by (elim wpE2) (simp only: prod.case, blast)
    have "slots (x\<lparr>assignment := 0\<rparr> # ys') (new_to x # vs)"
      unfolding slots_def using sl vs(1) by (auto simp: less_Suc_eq_le)
    moreover have "set (new_to x # vs) = new_to ` set xs - {FSM_STATE_REMAP_NO_STATE}"
      using vs(3) False by (auto simp: xs)
    moreover have "assign_slots xs = Some (x\<lparr>assignment := 0\<rparr> # ys', n + 1)"
      by (simp add: xs run)
    ultimately show ?thesis
      using vs(1,2,4,5,6) by (simp only: wp_Some prod.case) (rule exI [of _ "new_to x # vs"], simp add: xs)
  qed
qed

text \<open>What the slots hold after the second pass.\<close>

definition slot_syms :: "(to_info \<times> edge_group) list \<Rightarrow> nat \<Rightarrow> octet set" where
  "slot_syms ps j = {c. \<exists>x g. (x, g) \<in> set ps \<and> new_to x \<noteq> FSM_STATE_REMAP_NO_STATE \<and>
     assignment x = j \<and> c \<in> symset (eg_symbols g)}"

definition slot_used :: "to_info list \<Rightarrow> nat \<Rightarrow> bool" where
  "slot_used xs j \<longleftrightarrow> (\<exists>x \<in> set xs. new_to x \<noteq> FSM_STATE_REMAP_NO_STATE \<and> assignment x = j)"

lemma slot_syms_Cons:
  "slot_syms ((x, g) # ps) j =
    (if new_to x \<noteq> FSM_STATE_REMAP_NO_STATE \<and> assignment x = j then symset (eg_symbols g) else {}) \<union> slot_syms ps j"
  unfolding slot_syms_def by auto

lemma condense_loop_wp:
  assumes "length xs = length gs" and "slots xs V" and "length V \<le> length ng"
    and "\<forall>g \<in> set ng. length (eg_symbols g) = 4" and "\<forall>g \<in> set gs. length (eg_symbols g) = 4"
  shows "wp (condense_loop xs gs ng) (\<lambda>ng'. length ng' = length ng \<and>
    (\<forall>g \<in> set ng'. length (eg_symbols g) = 4) \<and>
    (\<forall>j < length ng. symset (eg_symbols (ng' ! j)) = symset (eg_symbols (ng ! j)) \<union> slot_syms (zip xs gs) j \<and>
      eg_to (ng' ! j) = (if slot_used xs j then V ! j else eg_to (ng ! j))))"
  using assms
proof (induction xs gs arbitrary: ng rule: list_induct2)
  case Nil
  then show ?case by (simp add: slot_syms_def slot_used_def)
next
  case (Cons x xs g gs)
  show ?case
  proof (cases "new_to x = FSM_STATE_REMAP_NO_STATE")
    case True
    moreover have "slot_used (x # xs) j = slot_used xs j" for j using True by (simp add: slot_used_def)
    ultimately show ?thesis
      using Cons.IH [of ng] Cons.prems by (simp add: slots_def slot_syms_Cons)
  next
    case False
    let ?a = "assignment x"
    have a: "?a < length V" "V ! ?a = new_to x" using Cons.prems(1) False by (auto simp: slots_def)
    then have an: "?a < length ng" using Cons.prems(2) by simp
    let ?n = "\<lparr>eg_symbols = symbols_or (eg_symbols (ng ! ?a)) (eg_symbols g), eg_to = new_to x\<rparr>"
    let ?ng = "ng[?a := ?n]"
    have len: "length (eg_symbols (ng ! ?a)) = 4" "length (eg_symbols g) = 4" using Cons.prems an by auto
    have all: "\<forall>g \<in> set ?ng. length (eg_symbols g) = 4"
      using Cons.prems(3) len set_update_subset_insert [of ng ?a ?n] by auto
    have "wp (condense_loop xs gs ?ng) (\<lambda>ng'. length ng' = length ?ng \<and>
      (\<forall>g \<in> set ng'. length (eg_symbols g) = 4) \<and>
      (\<forall>j < length ?ng. symset (eg_symbols (ng' ! j)) = symset (eg_symbols (?ng ! j)) \<union> slot_syms (zip xs gs) j \<and>
        eg_to (ng' ! j) = (if slot_used xs j then V ! j else eg_to (?ng ! j))))"
      by (rule Cons.IH) (use Cons.prems all in \<open>auto simp: slots_def\<close>)
    then obtain ng' where run: "condense_loop xs gs ?ng = Some ng'" and len': "length ng' = length ng"
      "\<forall>g \<in> set ng'. length (eg_symbols g) = 4"
      and nth: "\<forall>j < length ng. symset (eg_symbols (ng' ! j)) = symset (eg_symbols (?ng ! j)) \<union> slot_syms (zip xs gs) j \<and>
        eg_to (ng' ! j) = (if slot_used xs j then V ! j else eg_to (?ng ! j))"
      by (elim wpE) simp
    have "symset (eg_symbols (ng' ! j)) = symset (eg_symbols (ng ! j)) \<union> slot_syms (zip (x # xs) (g # gs)) j"
      if "j < length ng" for j
      using nth that False an len by (cases "j = ?a") (auto simp: slot_syms_Cons symset_or)
    moreover have "eg_to (ng' ! j) = (if slot_used (x # xs) j then V ! j else eg_to (ng ! j))"
      if "j < length ng" for j
      using nth that False an a by (cases "j = ?a") (auto simp: slot_used_def)
    ultimately show ?thesis
      using False an run len' by simp
  qed
qed

lemma groups_ok_length:
  assumes "groups_ok gs"
  shows "length gs \<le> state_limit"
proof -
  have "distinct (map eg_to gs)" "set (map eg_to gs) \<subseteq> {..<state_limit}"
    using assms by (auto simp: groups_ok_def group_ok_def asc_distinct)
  then show ?thesis by (metis card_lessThan card_mono distinct_card finite_lessThan length_map)
qed
text \<open>The entries after the second sort stand beside the groups they came from.\<close>

lemma aligned_infos:
  assumes "groups_ok gs" and "mset (map old_to xs) = mset (map eg_to gs)"
  shows "distinct (map old_to xs)" and "map old_to (sort_key old_to xs) = map eg_to gs"
proof -
  have asc: "asc (map eg_to gs)" using assms(1) by (simp add: groups_ok_def)
  show d: "distinct (map old_to xs)"
    using asc_distinct [OF asc] assms(2) by (metis mset_eq_imp_distinct_iff)
  have m: "mset (map old_to (sort_key old_to xs)) = mset (map eg_to gs)" using assms(2) by simp
  then have "distinct (map old_to (sort_key old_to xs))"
    using asc_distinct [OF asc] by (metis mset_eq_imp_distinct_iff)
  then have "asc (map old_to (sort_key old_to xs))" by (simp add: strict_sorted_iff)
  then show "map old_to (sort_key old_to xs) = map eg_to gs"
    using asc by (rule asc_unique) (use m in \<open>metis set_mset_mset\<close>)
qed

lemma condensed_groups:
  assumes "groups_ok gs" and "map old_to xs = map eg_to gs" and "\<forall>x \<in> set xs. new_to x = f (old_to x)"
    and "slots xs V" and "asc V" and "set V = new_to ` set xs - {FSM_STATE_REMAP_NO_STATE}"
    and "length ng = ceil" and "length V \<le> ceil" and "\<forall>g \<in> set ng. length (eg_symbols g) = 4"
    and "\<forall>j < ceil. symset (eg_symbols (ng ! j)) = slot_syms (zip xs gs) j \<and>
      eg_to (ng ! j) = (if slot_used xs j then V ! j else 0)"
    and "\<forall>v \<in> set V. v < state_limit" and "n = length V \<or> V = [] \<and> n = 1" and "n \<le> ceil"
  shows "groups_ok (take n ng)"
    and "groups_edges (take n ng) = {(c, f t) | c t. (c, t) \<in> groups_edges gs \<and> f t \<noteq> FSM_STATE_REMAP_NO_STATE}"
    and "eg_to ` set (take n ng) \<subseteq> insert 0 (set V)"
proof -
  have len: "length xs = length gs" using arg_cong [OF assms(2), of length] by simp
  have used: "slot_used xs j" if "j < length V" for j
  proof -
    have "V ! j \<in> new_to ` set xs - {FSM_STATE_REMAP_NO_STATE}" using that assms(6) nth_mem by blast
    then obtain x where x: "x \<in> set xs" "new_to x = V ! j" "new_to x \<noteq> FSM_STATE_REMAP_NO_STATE" by auto
    then have "assignment x < length V" "V ! assignment x = V ! j" using assms(4) by (auto simp: slots_def)
    then have "assignment x = j" using that asc_distinct [OF assms(5)] by (simp add: nth_eq_iff_index_eq)
    then show ?thesis unfolding slot_used_def using x(1,3) by blast
  qed
  have nth: "eg_to (ng ! j) = V ! j" if "j < length V" for j
    using assms(8,10) used [OF that] that by simp
  have empty: "slot_syms ps j = {}" if "set ps \<subseteq> set (zip xs gs)" "length V \<le> j" for j ps
    using that assms(4) by (fastforce simp: slot_syms_def slots_def dest: set_zip_leftD)
  have tos: "map eg_to (take n ng) = (if V = [] then map eg_to (take n ng) else V)"
    using assms(7,12,13) nth by (auto intro!: nth_equalityI)
  have z: "eg_to (ng ! 0) = 0" if "V = []" "n = 1"
    using that assms(4,7,10,13) by (auto simp: slot_used_def slots_def)
  have one: "take n ng = [ng ! 0]" if "V = []" "n = 1"
    using that assms(7,13) by (cases ng) auto
  show "groups_ok (take n ng)"
  proof (cases "V = []")
    case True
    show ?thesis
    proof (cases "n = 0")
      case False
      then have n: "n = 1" using assms(12) True by auto
      have "ng ! 0 \<in> set ng" using assms(7,13) n by simp
      then show ?thesis
        using z [OF True n] assms(9) unfolding one [OF True n]
        by (simp add: groups_ok_def group_ok_def state_limit_def)
    qed (simp add: groups_ok_def)
  next
    case False
    then have "map eg_to (take n ng) = V" using tos by simp
    moreover from this have "eg_to g \<in> set V" if "g \<in> set (take n ng)" for g using that by (metis image_eqI list.set_map)
    ultimately show ?thesis
      using assms(5,9,11) by (auto simp: groups_ok_def group_ok_def dest: in_set_takeD)
  qed
  show "eg_to ` set (take n ng) \<subseteq> insert 0 (set V)"
  proof (cases "V = []")
    case True
    then show ?thesis using z one assms(12) by auto
  next
    case False
    then show ?thesis using tos by (metis list.set_map subset_insertI)
  qed
  show "groups_edges (take n ng) = {(c, f t) | c t. (c, t) \<in> groups_edges gs \<and> f t \<noteq> FSM_STATE_REMAP_NO_STATE}"
  proof (intro set_eqI iffI)
    fix e assume "e \<in> groups_edges (take n ng)"
    then obtain c j where e: "e = (c, eg_to (ng ! j))" and j: "j < n" "j < length ng" "c \<in> symset (eg_symbols (ng ! j))"
      by (cases e) (auto simp: groups_edges_iff in_set_conv_nth)
    then have c: "c \<in> slot_syms (zip xs gs) j" using assms(7,10) by simp
    then have "j < length V" using empty [of "zip xs gs" j] by (metis empty_iff not_le order_refl)
    from c obtain x g where xg: "(x, g) \<in> set (zip xs gs)" "new_to x \<noteq> FSM_STATE_REMAP_NO_STATE"
      "assignment x = j" "c \<in> symset (eg_symbols g)" by (auto simp: slot_syms_def)
    from xg(1) obtain i where i: "i < length gs" "x = xs ! i" "g = gs ! i" by (auto simp: in_set_zip)
    then have "old_to x = eg_to g" using assms(2) len by (metis nth_map)
    then have "new_to x = f (eg_to g)" using assms(3) i len by (metis nth_mem)
    moreover have "eg_to (ng ! j) = new_to x"
      using nth [OF \<open>j < length V\<close>] assms(4) xg i len by (auto simp: slots_def)
    ultimately have "e = (c, f (eg_to g))" "f (eg_to g) \<noteq> FSM_STATE_REMAP_NO_STATE" using e xg by auto
    moreover have "(c, eg_to g) \<in> groups_edges gs" unfolding groups_edges_iff using xg(4) i nth_mem by blast
    ultimately show "e \<in> {(c, f t) | c t. (c, t) \<in> groups_edges gs \<and> f t \<noteq> FSM_STATE_REMAP_NO_STATE}"
      by blast
  next
    fix e assume "e \<in> {(c, f t) | c t. (c, t) \<in> groups_edges gs \<and> f t \<noteq> FSM_STATE_REMAP_NO_STATE}"
    then obtain c g where e: "e = (c, f (eg_to g))" and g: "g \<in> set gs" "c \<in> symset (eg_symbols g)"
      "f (eg_to g) \<noteq> FSM_STATE_REMAP_NO_STATE" by (auto simp: groups_edges_iff)
    then obtain i where i: "i < length gs" "g = gs ! i" by (auto simp: in_set_conv_nth)
    let ?x = "xs ! i"
    have x: "?x \<in> set xs" "(?x, g) \<in> set (zip xs gs)" using i len by (auto simp: in_set_zip)
    have "old_to ?x = eg_to g" using assms(2) i len by (metis nth_map)
    then have new: "new_to ?x = f (eg_to g)" using assms(3) x by metis
    then have a: "assignment ?x < length V" "V ! assignment ?x = f (eg_to g)"
      using assms(4) x g by (auto simp: slots_def)
    have "c \<in> slot_syms (zip xs gs) (assignment ?x)"
      unfolding slot_syms_def using x(2) g new by (intro CollectI exI [of _ ?x] exI [of _ g]) simp
    moreover have "n = length V" using a assms(12) by auto
    moreover have "take n ng ! assignment ?x \<in> set (take n ng)"
      by (rule nth_mem) (use a calculation(2) assms(7,8) in simp)
    ultimately have "c \<in> symset (eg_symbols (ng ! assignment ?x))" "ng ! assignment ?x \<in> set (take n ng)"
      using a assms(8,10) by auto
    then show "e \<in> groups_edges (take n ng)"
      unfolding e groups_edges_iff using a nth [OF a(1)] by metis
  qed
qed

text \<open>
  The contract of the compaction: the edges to kept states, renumbered. When no edge is
  left there can be one empty group, for state 0.
\<close>

definition es_compacted ::
  "alloc \<Rightarrow> edge_set \<Rightarrow> (fsm_state_t \<Rightarrow> fsm_state_t) \<Rightarrow> bool \<times> edge_set \<times> alloc \<Rightarrow> bool" where
  "es_compacted al es f = (\<lambda>(ok, es', al'). es_inv es' \<and>
     (if ok then es_edges es' = {(c, f t) | c t. (c, t) \<in> es_edges es \<and> f t \<noteq> FSM_STATE_REMAP_NO_STATE}
      else es' = es) \<and>
     (edge_set_empty es \<and> es' = es \<or>
      ok \<and> es_tos es' \<subseteq> insert 0 (f ` es_tos es - {FSM_STATE_REMAP_NO_STATE}) \<or> \<not> ok) \<and>
     (al = [] \<longrightarrow> ok \<and> al' = []))"

lemma compact_groups_wp:
  assumes "groups_ok gs" and "gs \<noteq> []" and "length gs \<le> ceil"
    and "\<forall>g \<in> set gs. remap (eg_to g) = Some (f (eg_to g))"
    and "\<forall>t \<in> eg_to ` set gs. f t \<le> FSM_STATE_REMAP_NO_STATE"
  shows "wp (do {
      info \<leftarrow> to_infos remap gs;
      (info, ncount) \<leftarrow> assign_slots (sort_key new_to info);
      c_assert (distinct (map old_to info));
      let info = sort_key old_to info;
      ngroups \<leftarrow> condense_loop info gs (replicate ceil \<lparr>eg_symbols = symbols_zero, eg_to = 0\<rparr>);
      Some (take ncount ngroups) })
    (\<lambda>gs'. groups_ok gs' \<and> length gs' \<le> ceil \<and>
      groups_edges gs' = {(c, f t) | c t. (c, t) \<in> groups_edges gs \<and> f t \<noteq> FSM_STATE_REMAP_NO_STATE} \<and>
      eg_to ` set gs' \<subseteq> insert 0 (f ` eg_to ` set gs - {FSM_STATE_REMAP_NO_STATE}))"
proof -
  define info where "info =
    map (\<lambda>g. \<lparr>old_to = eg_to g, new_to = f (eg_to g), assignment = FSM_STATE_REMAP_NO_STATE\<rparr>) gs"
  let ?xs = "sort_key new_to info"
  have run: "to_infos remap gs = Some info" using to_infos_run assms(4) by (auto simp: info_def)
  have f: "\<forall>x \<in> set info. new_to x = f (old_to x)" by (auto simp: info_def)
  have news: "new_to ` set info = f ` eg_to ` set gs" by (auto simp: info_def image_image)
  have old: "map old_to info = map eg_to gs" by (simp add: info_def)
  have "length ?xs = length gs" by (simp add: info_def)
  then have ne: "?xs \<noteq> []" using assms(2) by force
  have "wp (assign_slots ?xs) (\<lambda>(xs', n). \<exists>V. asc V \<and> set V = new_to ` set ?xs - {FSM_STATE_REMAP_NO_STATE} \<and>
    (n = length V \<or> V = [] \<and> n = 1) \<and> n \<le> length ?xs \<and> 0 < n \<and>
    map old_to xs' = map old_to ?xs \<and> map new_to xs' = map new_to ?xs \<and> slots xs' V)"
    by (rule assign_slots_wp [OF _ ne])
      (use assms(5) groups_ok_length [OF assms(1)] news in \<open>auto simp: info_def\<close>)
  then obtain xs n V where slots_run: "assign_slots ?xs = Some (xs, n)"
    and V: "asc V" "set V = new_to ` set info - {FSM_STATE_REMAP_NO_STATE}"
    and n: "n = length V \<or> V = [] \<and> n = 1" "n \<le> length gs"
    and maps: "map old_to xs = map old_to ?xs" "map new_to xs = map new_to ?xs" and sl: "slots xs V"
    by (elim wpE2) (auto simp: info_def)
  let ?ys = "sort_key old_to xs"
  have m: "mset (map old_to xs) = mset (map eg_to gs)" unfolding maps using old by (metis mset_map mset_sort)
  note al = aligned_infos [OF assms(1) m]
  have fx: "\<forall>x \<in> set ?ys. new_to x = f (old_to x)"
  proof
    fix x assume "x \<in> set ?ys"
    then obtain k where k: "k < length xs" "x = xs ! k" by (auto simp: in_set_conv_nth)
    then have "k < length ?xs" using arg_cong [OF maps(1), of length] by simp
    then have "old_to x = old_to (?xs ! k)" "new_to x = new_to (?xs ! k)" "?xs ! k \<in> set info"
      using maps k by (metis nth_map, metis nth_map, metis nth_mem set_sort)
    then show "new_to x = f (old_to x)" using f by simp
  qed
  have news': "new_to ` set ?ys = new_to ` set info"
    using maps(2) by (metis list.set_map set_sort)
  have len: "length ?ys = length gs" using arg_cong [OF al(2), of length] by simp
  have sl': "slots ?ys V" using sl by (simp add: slots_def)
  have "card (set V) \<le> card (set info)" unfolding V(2)
    by (rule order_trans [OF card_mono card_image_le [of _ new_to]]) auto
  then have lenV: "length V \<le> ceil"
    using distinct_card [OF asc_distinct [OF V(1)]] card_length [of info] assms(3) by (simp add: info_def)
  let ?z = "replicate ceil \<lparr>eg_symbols = symbols_zero, eg_to = 0\<rparr>"
  have "wp (condense_loop ?ys gs ?z) (\<lambda>ng'. length ng' = length ?z \<and>
    (\<forall>g \<in> set ng'. length (eg_symbols g) = 4) \<and>
    (\<forall>j < length ?z. symset (eg_symbols (ng' ! j)) = symset (eg_symbols (?z ! j)) \<union> slot_syms (zip ?ys gs) j \<and>
      eg_to (ng' ! j) = (if slot_used ?ys j then V ! j else eg_to (?z ! j))))"
    by (rule condense_loop_wp [OF len sl']) (use lenV groups_ok_group [OF assms(1)] in auto)
  then obtain ng where ng_run: "condense_loop ?ys gs ?z = Some ng" and ng: "length ng = ceil"
    "\<forall>g \<in> set ng. length (eg_symbols g) = 4"
    "\<forall>j < ceil. symset (eg_symbols (ng ! j)) = slot_syms (zip ?ys gs) j \<and>
      eg_to (ng ! j) = (if slot_used ?ys j then V ! j else 0)"
    by (elim wpE) auto
  have small: "\<forall>v \<in> set V. v < state_limit"
    using V(2) news assms(5) by (fastforce simp: FSM_STATE_REMAP_NO_STATE_def state_limit_def)
  note res = condensed_groups [OF assms(1) al(2) fx sl' V(1) _ ng(1) lenV ng(2,3) small n(1)]
  show ?thesis
    using run slots_run al(1) ng_run res n(2) assms(3) V(2) news news' by (simp add: wp_simps Let_def c_assert_def)
qed

lemma edge_set_compact_wp:
  assumes "es_inv es" and "\<forall>t \<in> es_tos es. remap t = Some (f t)"
    and "\<forall>t \<in> es_tos es. f t \<le> FSM_STATE_REMAP_NO_STATE"
  shows "wp (edge_set_compact al es remap) (es_compacted al es f)"
proof (cases "edge_set_empty es")
  case True
  then show ?thesis
    using assms(1) edge_set_empty_iff [OF assms(1)] by (cases es) (auto simp: es_compacted_def)
next
  case False
  then obtain st where es: "es = ES st" by (cases es) auto
  then have ne: "es_groups st \<noteq> []" using False by auto
  have "wp (do {
      info \<leftarrow> to_infos remap (es_groups st);
      (info, ncount) \<leftarrow> assign_slots (sort_key new_to info);
      c_assert (distinct (map old_to info));
      let info = sort_key old_to info;
      ngroups \<leftarrow> condense_loop info (es_groups st) (replicate (es_ceil st) \<lparr>eg_symbols = symbols_zero, eg_to = 0\<rparr>);
      Some (take ncount ngroups) })
    (\<lambda>gs'. groups_ok gs' \<and> length gs' \<le> es_ceil st \<and>
      groups_edges gs' = {(c, f t) | c t. (c, t) \<in> groups_edges (es_groups st) \<and> f t \<noteq> FSM_STATE_REMAP_NO_STATE} \<and>
      eg_to ` set gs' \<subseteq> insert 0 (f ` eg_to ` set (es_groups st) - {FSM_STATE_REMAP_NO_STATE}))"
    by (rule compact_groups_wp) (use assms es ne in auto)
  then obtain info xs n ng where run: "to_infos remap (es_groups st) = Some info"
      "assign_slots (sort_key new_to info) = Some (xs, n)" "distinct (map old_to xs)"
      "condense_loop (sort_key old_to xs) (es_groups st)
        (replicate (es_ceil st) \<lparr>eg_symbols = symbols_zero, eg_to = 0\<rparr>) = Some ng"
    and post: "groups_ok (take n ng)" "length (take n ng) \<le> es_ceil st"
      "groups_edges (take n ng) = {(c, f t) | c t. (c, t) \<in> groups_edges (es_groups st) \<and> f t \<noteq> FSM_STATE_REMAP_NO_STATE}"
      "eg_to ` set (take n ng) \<subseteq> insert 0 (f ` eg_to ` set (es_groups st) - {FSM_STATE_REMAP_NO_STATE})"
    by (auto simp: wp_iff_ex c_assert_def Let_def split: bind_splits if_splits)
  have "wp (edge_set_compact al es remap) (es_compacted al es f)"
    if "f_malloc al = (True, al1)" "f_calloc al1 = (True, al2)" "al = [] \<longrightarrow> al2 = []" for al1 al2
    using that False run post assms(1)
    by (simp add: es c_assert_def es_compacted_def del: edge_set_empty.simps)
  then show ?thesis
    using False assms(1)
    by (cases al; cases "tl al") (auto simp: es es_compacted_def f_calloc_def simp del: edge_set_empty.simps)
qed

section \<open>What the iterators yield\<close>

subsection \<open>Group after group\<close>

definition group_list :: "edge_group \<Rightarrow> nat \<Rightarrow> fsm_edge list" where
  "group_list g j = map (\<lambda>k. mk_edge (eg_to g) (of_nat k)) (filter (label_bit (eg_symbols g)) [j..<256])"

definition edge_list :: "edge_set \<Rightarrow> fsm_edge list" where
  "edge_list es = (case es of ES_Null \<Rightarrow> [] | ES st \<Rightarrow> concat (map (\<lambda>g. group_list g 0) (es_groups st)))"

definition edges_from :: "edge_group list \<Rightarrow> nat \<Rightarrow> nat \<Rightarrow> fsm_edge list" where
  "edges_from gs i j = (case drop i gs of
     [] \<Rightarrow> [] | g # gs' \<Rightarrow> group_list g j @ concat (map (\<lambda>g. group_list g 0) gs'))"

fun edge_rest :: "edge_iter \<Rightarrow> fsm_edge list" where
  "edge_rest it = (case ei_set it of
     ES_Null \<Rightarrow> [] | ES st \<Rightarrow> edges_from (es_groups st) (ei_i it) (ei_j it))"

lemma filter_label_skip:
  assumes "j < 256" and "j mod 64 = 0" and "S ! (j div 64) = 0"
  shows "filter (label_bit S) [j..<256] = filter (label_bit S) [j + 64..<256]"
proof -
  have le: "j + 64 \<le> 256"
  proof -
    have "64 * (j div 64) = j" using assms(2) mult_div_mod_eq [of 64 j] by simp
    moreover have "j div 64 < 4" using assms(1) by (simp add: div_less_iff_less_mult)
    ultimately show ?thesis by linarith
  qed
  have word: "x div 64 = j div 64" if "j \<le> x" "x < j + 64" for x
  proof -
    have "64 * (j div 64) = j" using assms(2) mult_div_mod_eq [of 64 j] by simp
    with that show ?thesis by (intro div_nat_eqI) simp_all
  qed
  have "\<not> label_bit S x" if "j \<le> x" "x < j + 64" for x
    unfolding word [OF that] assms(3) by simp
  then have "filter (label_bit S) [j..<j + 64] = []"
    by (auto simp: filter_empty_conv)
  then show ?thesis
    using upt_add_eq_append [of j "j + 64" "256 - (j + 64)"] le by simp
qed

lemma edge_next_j_filter:
  "filter (label_bit S) [j..<256] =
    (case edge_next_j S j of None \<Rightarrow> [] | Some k \<Rightarrow> k # filter (label_bit S) [k + 1..<256])"
proof (induction S j rule: edge_next_j.induct)
  case (1 S j)
  show ?case
  proof (cases "j < 256")
    case True
    have up: "[j..<256] = j # [j + 1..<256]" using True by (simp add: upt_conv_Cons)
    consider "j mod 64 = 0 \<and> S ! (j div 64) = 0" | "\<not> (j mod 64 = 0 \<and> S ! (j div 64) = 0)" "label_bit S j"
      | "\<not> (j mod 64 = 0 \<and> S ! (j div 64) = 0)" "\<not> label_bit S j" by blast
    then show ?thesis
    proof cases
      case 1
      then show ?thesis
        using "1.IH"(1) True filter_label_skip [OF True] by (subst edge_next_j.simps) simp
    next
      case 2
      then have "edge_next_j S j = Some j"
        using True label_bit_of_nat [OF True, of S] by (subst edge_next_j.simps) auto
      then show ?thesis using up 2 by simp
    next
      case 3
      then have "edge_next_j S j = edge_next_j S (j + 1)"
        using True label_bit_of_nat [OF True, of S] by (subst edge_next_j.simps) auto
      then show ?thesis
        using up 3 "1.IH"(2) True label_bit_of_nat [OF True, of S] by simp
    qed
  qed (simp add: edge_next_j.simps)
qed

lemma edges_from_0: "edges_from gs i 0 = concat (map (\<lambda>g. group_list g 0) (drop i gs))"
  by (auto simp: edges_from_def split: list.split)

lemma edge_next_loop_list:
  "edges_from gs i j = (case edge_next_loop gs i j of
     (None, i', j') \<Rightarrow> [] | (Some e, i', j') \<Rightarrow> e # edges_from gs i' j')"
proof (induction gs i j rule: edge_next_loop.induct)
  case (1 gs i j)
  show ?case
  proof (cases "i < length gs")
    case True
    then have d: "drop i gs = gs ! i # drop (i + 1) gs" by (simp add: Cons_nth_drop_Suc)
    note f = edge_next_j_filter [of "eg_symbols (gs ! i)" j]
    show ?thesis
    proof (cases "edge_next_j (eg_symbols (gs ! i)) j")
      case None
      then have "edge_next_loop gs i j = edge_next_loop gs (i + 1) 0"
        using True by (subst edge_next_loop.simps) simp
      moreover have "edges_from gs i j = edges_from gs (i + 1) 0"
        using f None d by (simp add: edges_from_0) (simp add: edges_from_def group_list_def)
      ultimately show ?thesis using "1.IH" [OF True None] by simp
    next
      case (Some k)
      then have "edge_next_loop gs i j = (Some (mk_edge (eg_to (gs ! i)) (of_nat k)), i, k + 1)"
        using True by (subst edge_next_loop.simps) simp
      then show ?thesis using f Some d by (simp add: edges_from_def group_list_def)
    qed
  qed (simp add: edge_next_loop.simps edges_from_def)
qed

interpretation eiter: iterator edge_set_next edge_rest
proof
  fix it it' :: edge_iter and x
  show "edge_set_next it = (None, it') \<Longrightarrow> edge_rest it = []"
    by (cases "ei_set it")
      (auto simp: edge_set_next_def edge_next_loop_list [of _ "ei_i it"] split: prod.splits)
  show "edge_set_next it = (Some x, it') \<Longrightarrow> edge_rest it = x # edge_rest it'"
    by (cases "ei_set it")
      (auto simp: edge_set_next_def edge_next_loop_list [of _ "ei_i it" "ei_j it"] split: prod.splits)
qed

lemma edge_rest_reset: "edge_rest (edge_set_reset es) = edge_list es"
  by (cases es) (auto simp: edge_set_reset_def edge_list_def edges_from_0)

text \<open>The edges met, with the destinations cut down to the 24-bit field.\<close>

lemma group_list_map: "group_list g 0 = map (\<lambda>k. mk_edge (eg_to g) (of_nat k)) (group_bits (eg_symbols g))"
  by (simp add: group_list_def group_bits_filter)

lemma edge_list_set:
  "set (edge_list es) = (\<lambda>(c, s). mk_edge s c) ` es_edges es"
proof -
  have "set (group_list g 0) = (\<lambda>(c, s). mk_edge s c) ` group_edges g" for g
  proof -
    have "set (group_list g 0) = (\<lambda>c. mk_edge (eg_to g) c) ` set (map of_nat (group_bits (eg_symbols g)))"
      unfolding group_list_map by (simp add: image_image)
    then show ?thesis unfolding map_of_nat_group_bits by (simp add: group_edges_def image_image)
  qed
  then show ?thesis
    by (cases es) (auto simp: edge_list_def groups_edges_def)
qed

subsection \<open>Label after label\<close>

definition label_list :: "edge_group list \<Rightarrow> octet \<Rightarrow> nat \<Rightarrow> fsm_edge list" where
  "label_list gs c pos = map (\<lambda>g. mk_edge (eg_to g) c) (filter (\<lambda>g. c \<in> symset (eg_symbols g)) (drop pos gs))"

definition ordered_from :: "edge_group list \<Rightarrow> octet \<Rightarrow> nat \<Rightarrow> fsm_edge list" where
  "ordered_from gs c pos =
     label_list gs c pos @ concat (map (\<lambda>k. label_list gs (of_nat k) 0) [unat c + 1..<256])"

fun ordered_rest :: "edge_ordered_iter \<Rightarrow> fsm_edge list" where
  "ordered_rest it = (case eoi_set it of
     ES_Null \<Rightarrow> [] | ES st \<Rightarrow> ordered_from (es_groups st) (eoi_symbol it) (eoi_pos it))"

lemma filter_first_index:
  "filter P xs = (case first_index P xs of None \<Rightarrow> [] | Some k \<Rightarrow> xs ! k # filter P (drop (Suc k) xs))"
  by (induction xs) (auto split: option.splits)

lemma ordered_scan_list:
  "label_list gs c pos = (case ordered_scan gs c pos of
     None \<Rightarrow> [] | Some (e, pos') \<Rightarrow> e # label_list gs c pos')"
proof (cases "first_index (\<lambda>eg. SYMBOLS_GET (eg_symbols eg) c) (drop pos gs)")
  case None
  then show ?thesis
    using filter_first_index [of "\<lambda>g. c \<in> symset (eg_symbols g)" "drop pos gs"]
    by (simp add: ordered_scan_def label_list_def)
next
  case (Some k)
  then have "k < length (drop pos gs)" using first_index_Some by blast
  then have "drop pos gs ! k = gs ! (pos + k)" by simp
  then show ?thesis
    using Some filter_first_index [of "\<lambda>g. c \<in> symset (eg_symbols g)" "drop pos gs"]
    by (simp add: ordered_scan_def label_list_def add.commute)
qed

lemma ordered_from_Suc:
  assumes "c \<noteq> 255"
  shows "ordered_from gs (c + 1) 0 = concat (map (\<lambda>k. label_list gs (of_nat k) 0) [unat c + 1..<256])"
proof -
  have "unat c + 1 < 256" using octet_below_top [OF assms] by simp
  then have "[unat c + 1..<256] = (unat c + 1) # [unat c + 1 + 1..<256]" by (simp add: upt_conv_Cons)
  moreover have "of_nat (unat c + 1) = c + 1" by simp
  ultimately show ?thesis
    unfolding ordered_from_def unat_octet_Suc [OF assms] by (simp add: add.commute)
qed

lemma ordered_loop_list:
  "ordered_from gs c pos = (case ordered_loop gs c pos of
     None \<Rightarrow> [] | Some (e, c', pos') \<Rightarrow> e # ordered_from gs c' pos')"
proof (induction gs c pos rule: ordered_loop.induct)
  case (1 gs c pos)
  show ?case
  proof (cases "ordered_scan gs c pos")
    case (Some r)
    obtain e pos' where r: "r = (e, pos')" by (cases r)
    then have "ordered_loop gs c pos = Some (e, c, pos')" using Some by (subst ordered_loop.simps) simp
    then show ?thesis using ordered_scan_list [of gs c pos] Some r by (simp add: ordered_from_def)
  next
    case None
    then have e: "label_list gs c pos = []" using ordered_scan_list [of gs c pos] by simp
    show ?thesis
    proof (cases "c = 255")
      case True
      then have "ordered_loop gs c pos = None" using None by (subst ordered_loop.simps) simp
      moreover have "unat c = 255" using True by simp
      ultimately show ?thesis using e by (simp add: ordered_from_def)
    next
      case False
      then have "ordered_loop gs c pos = ordered_loop gs (c + 1) 0"
        using None by (subst ordered_loop.simps) simp
      moreover have "ordered_from gs c pos = ordered_from gs (c + 1) 0"
        unfolding ordered_from_Suc [OF False] by (simp add: ordered_from_def e)
      ultimately show ?thesis using "1.IH" [OF None False] by simp
    qed
  qed
qed

interpretation oiter: iterator edge_set_ordered_iter_next ordered_rest
proof
  fix it it' :: edge_ordered_iter and x
  show "edge_set_ordered_iter_next it = (None, it') \<Longrightarrow> ordered_rest it = []"
    by (cases "eoi_set it") (auto simp: edge_set_ordered_iter_next_def
      ordered_loop_list [of _ "eoi_symbol it"] split: option.splits)
  show "edge_set_ordered_iter_next it = (Some x, it') \<Longrightarrow> ordered_rest it = x # ordered_rest it'"
    by (cases "eoi_set it") (auto simp: edge_set_ordered_iter_next_def
      ordered_loop_list [of _ "eoi_symbol it" "eoi_pos it"] split: option.splits)
qed

text \<open>
  The labels come in ascending order from the one it is reset to, and for each label the
  destinations in ascending order.
\<close>

definition ordered_list :: "edge_set \<Rightarrow> octet \<Rightarrow> fsm_edge list" where
  "ordered_list es c = (case es of ES_Null \<Rightarrow> []
     | ES st \<Rightarrow> concat (map (\<lambda>k. label_list (es_groups st) (of_nat k) 0) [unat c..<256]))"

lemma ordered_rest_reset_to:
  "ordered_rest (edge_set_ordered_iter_reset_to es c) = ordered_list es c"
proof -
  have "[unat c..<256] = unat c # [unat c + 1..<256]" using unat_octet [of c] by (simp add: upt_conv_Cons)
  then show ?thesis
    by (cases es) (simp_all add: edge_set_ordered_iter_reset_to_def ordered_list_def ordered_from_def)
qed

subsection \<open>Groups, with the shared labels apart\<close>

definition unique_info :: "symbols \<Rightarrow> edge_group \<Rightarrow> edge_group_iter_info list" where
  "unique_info internal g = (let S = symbols_and_not (eg_symbols g) internal in
     if symbols_any S then [\<lparr>gi_unique = Some True, gi_to = eg_to g, gi_symbols = S\<rparr>] else [])"

definition shared_info :: "symbols \<Rightarrow> edge_group \<Rightarrow> edge_group_iter_info list" where
  "shared_info internal g = (let S = symbols_and (eg_symbols g) internal in
     if symbols_any S then [\<lparr>gi_unique = Some False, gi_to = eg_to g, gi_symbols = S\<rparr>] else [])"

definition all_info :: "edge_group \<Rightarrow> edge_group_iter_info list" where
  "all_info g = (if symbols_any (eg_symbols g)
     then [\<lparr>gi_unique = None, gi_to = eg_to g, gi_symbols = eg_symbols g\<rparr>] else [])"

fun infos_from :: "edge_group list \<Rightarrow> symbols \<Rightarrow> edge_group_flag \<Rightarrow> edge_group_iter_info list" where
  "infos_from [] internal flag = []"
| "infos_from (g # gs) internal Flag_All = all_info g @ infos_from gs internal Flag_All"
| "infos_from (g # gs) internal Flag_Unique =
     unique_info internal g @ shared_info internal g @ infos_from gs internal Flag_Unique"
| "infos_from (g # gs) internal Flag_NonUnique = shared_info internal g @ infos_from gs internal Flag_Unique"

fun group_rest :: "edge_group_iter \<Rightarrow> edge_group_iter_info list" where
  "group_rest it = (case egi_set it of
     ES_Null \<Rightarrow> [] | ES st \<Rightarrow> infos_from (drop (egi_i it) (es_groups st)) (egi_internal it) (egi_flag it))"

lemma group_next_loop_list:
  "infos_from (drop i gs) internal flag = (case group_next_loop gs internal flag i of
     (None, flag', i') \<Rightarrow> [] | (Some r, flag', i') \<Rightarrow> r # infos_from (drop i' gs) internal flag')"
proof (induction gs internal flag i rule: group_next_loop.induct)
  case (1 gs internal flag i)
  show ?case
  proof (cases "i < length gs")
    case False
    then show ?thesis by (subst group_next_loop.simps) simp
  next
    case True
    then have d: "drop i gs = gs ! i # drop (i + 1) gs" by (simp add: Cons_nth_drop_Suc)
    show ?thesis
    proof (cases flag)
      case Flag_All
      then show ?thesis
        using "1.IH"(1) True d by (subst group_next_loop.simps) (simp add: Let_def all_info_def)
    next
      case Flag_Unique
      then show ?thesis
        using "1.IH"(2) True d
        by (subst group_next_loop.simps) (simp add: Let_def unique_info_def shared_info_def)
    next
      case Flag_NonUnique
      then show ?thesis
        using "1.IH"(3) True d
        by (subst group_next_loop.simps) (simp add: Let_def unique_info_def shared_info_def)
    qed
  qed
qed

interpretation giter: iterator edge_set_group_iter_next group_rest
proof
  fix it it' :: edge_group_iter and x
  show "edge_set_group_iter_next it = (None, it') \<Longrightarrow> group_rest it = []"
    by (cases "egi_set it") (auto simp: edge_set_group_iter_next_def
      group_next_loop_list [of "egi_i it"] split: prod.splits)
  show "edge_set_group_iter_next it = (Some x, it') \<Longrightarrow> group_rest it = x # group_rest it'"
    by (cases "egi_set it") (auto simp: edge_set_group_iter_next_def
      group_next_loop_list [of "egi_i it"] split: prod.splits)
qed

lemma shared_loop_symset:
  assumes "length seen = 4" and "length internal = 4"
  shows "symset (shared_loop cs seen internal) =
    symset internal \<union> {c. count_list cs c \<ge> (if c \<in> symset seen then 1 else 2)}"
  using assms
proof (induction cs arbitrary: seen internal)
  case (Cons d cs)
  show ?case
  proof (cases "d \<in> symset seen")
    case True
    then show ?thesis
      using Cons.IH [of seen "SYMBOLS_SET internal d"] Cons.prems
      by (auto simp: symset_SYMBOLS_SET split: if_splits)
  next
    case False
    then show ?thesis
      using Cons.IH [of "SYMBOLS_SET seen d" internal] Cons.prems
      by (auto simp: symset_SYMBOLS_SET split: if_splits)
  qed
qed auto

lemma count_list_distinct: "distinct xs \<Longrightarrow> count_list xs x = of_bool (x \<in> set xs)"
  by (induction xs) auto

lemma count_list_concat_append [simp]: "count_list (xs @ ys) x = count_list xs x + count_list ys x"
  by (induction xs) auto

text \<open>A label is shared when it is in two groups.\<close>

lemma group_iter_shared:
  assumes "groups_ok (es_groups st)"
  shows "symset (egi_internal (edge_set_group_iter_reset (ES st) EDGE_GROUP_ITER_UNIQUE)) =
    {c. \<exists>s s'. s \<noteq> s' \<and> (c, s) \<in> es_edges (ES st) \<and> (c, s') \<in> es_edges (ES st)}"
proof -
  let ?cs = "\<lambda>gs. concat (map (\<lambda>g. map of_nat (group_bits (eg_symbols g))) gs) :: octet list"
  have d: "distinct (map of_nat (group_bits S) :: octet list)" for S
  proof -
    have "inj_on (of_nat :: nat \<Rightarrow> octet) (unat ` symset S)" by (auto simp: inj_on_def)
    then show ?thesis by (simp add: distinct_map asc_distinct group_bits_asc set_group_bits)
  qed
  have one: "count_list (map of_nat (group_bits S)) c = of_bool (c \<in> symset S)" for S and c :: octet
    using count_list_distinct [OF d, of S c] unfolding map_of_nat_group_bits by simp
  have none: "count_list (?cs gs) c = 0 \<longleftrightarrow> (\<forall>s. (c, s) \<notin> groups_edges gs)" for gs c
    by (induction gs) (auto simp: one group_edges_iff)
  have "count_list (?cs gs) c \<ge> 2 \<longleftrightarrow> (\<exists>s s'. s \<noteq> s' \<and> (c, s) \<in> groups_edges gs \<and> (c, s') \<in> groups_edges gs)"
    if "groups_ok gs" for gs c
    using that
  proof (induction gs)
    case (Cons g gs)
    have ne: "s \<noteq> eg_to g" if "(c, s) \<in> groups_edges gs" for s
      using Cons.prems that by (auto simp: groups_ok_Cons groups_edges_iff)
    show ?case
    proof (cases "c \<in> symset (eg_symbols g)")
      case True
      then have "count_list (?cs (g # gs)) c \<ge> 2 \<longleftrightarrow> count_list (?cs gs) c \<noteq> 0" by (simp add: one) linarith
      also have "\<dots> \<longleftrightarrow> (\<exists>s. (c, s) \<in> groups_edges gs)" unfolding none by blast
      finally show ?thesis using True ne by (auto simp: group_edges_iff)
    qed (use Cons in \<open>simp add: one groups_ok_Cons group_edges_iff\<close>)
  qed simp
  then show ?thesis
    using assms by (simp add: edge_set_group_iter_reset_def shared_loop_symset)
qed

section \<open>Labels that lead into one class\<close>

lemma ec_labels_loop_wp:
  assumes "\<forall>g \<in> set gs. length (eg_symbols g) = 4 \<and> eg_to g < n \<and> eg_to g < length ecs" and "length labels = 4"
  shows "wp (ec_labels_loop gs n ecs k labels) (\<lambda>r. length r = 4 \<and>
    symset r = symset labels \<union> {c. \<exists>s. (c, s) \<in> groups_edges gs \<and> ecs ! s = k})"
  using assms
proof (induction gs arbitrary: labels)
  case (Cons g gs)
  define labels' where "labels' = (if ecs ! eg_to g = k then symbols_or labels (eg_symbols g) else labels)"
  have l: "length labels' = 4" "symset labels' = symset labels \<union> {c. (c, eg_to g) \<in> group_edges g \<and> ecs ! eg_to g = k}"
    using Cons.prems by (auto simp: labels'_def symset_or group_edges_iff)
  have "wp (ec_labels_loop gs n ecs k labels') (\<lambda>r. length r = 4 \<and>
      symset r = symset labels' \<union> {c. \<exists>s. (c, s) \<in> groups_edges gs \<and> ecs ! s = k})"
    by (rule Cons.IH) (use Cons.prems l in auto)
  then show ?case
    using Cons.prems
    by (simp add: wp_simps labels'_def [symmetric]) (erule wp_mono, auto simp: l group_edges_iff)
qed simp

text \<open>
  For the first destination with the label, every label that leads to a state of the same
  class as that destination.
\<close>

lemma edge_set_check_edges_with_EC_mapping_wp:
  assumes "es_inv es" and "\<forall>t \<in> es_tos es. t < n \<and> t < length ecs"
  shows "wp (edge_set_check_edges_with_EC_mapping es c n ecs) (\<lambda>r. case r of
      None \<Rightarrow> \<forall>s. (c, s) \<notin> es_edges es
    | Some (t, labels) \<Rightarrow> (c, t) \<in> es_edges es \<and>
        symset labels = {d. \<exists>s. (d, s) \<in> es_edges es \<and> ecs ! s = ecs ! t})"
proof (cases es)
  case (ES st)
  show ?thesis
  proof (cases "find (\<lambda>eg. SYMBOLS_GET (eg_symbols eg) c) (es_groups st)")
    case None
    then have "\<forall>s. (c, s) \<notin> groups_edges (es_groups st)" by (auto simp: find_None_iff groups_edges_iff)
    then show ?thesis unfolding ES edge_set_check_edges_with_EC_mapping.simps None by simp
  next
    case (Some g)
    then have g: "g \<in> set (es_groups st)" "c \<in> symset (eg_symbols g)" by (auto simp: find_Some_iff)
    have all: "\<forall>g \<in> set (es_groups st). length (eg_symbols g) = 4 \<and> eg_to g < n \<and> eg_to g < length ecs"
      using assms groups_ok_group by (auto simp: ES)
    have "wp (ec_labels_loop (es_groups st) n ecs (ecs ! eg_to g) symbols_zero) (\<lambda>r. length r = 4 \<and>
        symset r = symset symbols_zero \<union> {d. \<exists>s. (d, s) \<in> groups_edges (es_groups st) \<and> ecs ! s = ecs ! eg_to g})"
      by (rule ec_labels_loop_wp [OF all]) simp
    moreover have "(c, eg_to g) \<in> groups_edges (es_groups st)" unfolding groups_edges_iff using g by blast
    ultimately show ?thesis
      using g all unfolding ES edge_set_check_edges_with_EC_mapping.simps Some option.case
      by (simp add: wp_simps) (erule wp_mono, simp)
  qed
qed simp

end
