(* ===== verification/Hash_Table.thy ===== *)
theory Hash_Table
  imports Fsm_Prelude
begin

unbundle bit_operations_syntax

text \<open>
  The hashing of \<open>include/adt/hash.h\<close> and the open addressing that the end ids
  (\<open>src/libfsm/endids.c\<close>), the eager outputs (\<open>src/libfsm/eager_output.c\<close>) and the
  capture actions (\<open>src/libfsm/capture.c\<close>) share: a power-of-two array of buckets, probed
  linearly from the hash of the key, add-only, rehashed into an array twice as long when
  half full. The locale \<open>hash_table\<close> proves the probing once; the three tables are its
  interpretations.
\<close>

section \<open>Hashing\<close>

definition hash_id :: "u64 \<Rightarrow> u64" where
  "hash_id k =
     (let x = k + 1;
          x = x XOR drop_bit 12 x;
          x = x XOR push_bit 25 x;
          x = x XOR drop_bit 27 x in
      x * 2685821657736338717)"

definition hash_ids :: "fsm_state_t list \<Rightarrow> u64" where
  "hash_ids ids = foldl (\<lambda>h k. hash_id (h XOR of_nat k)) 0 ids"

definition hash_state :: "fsm_state_t \<Rightarrow> u64" where
  "hash_state s = hash_id (of_nat s)"

section \<open>Probing\<close>

text \<open>\<open>(hash + i) & mask\<close>, for \<open>i\<close> from 0 to the number of buckets.\<close>

definition slot_index :: "u64 \<Rightarrow> nat \<Rightarrow> nat \<Rightarrow> nat" where
  "slot_index h n i = unat ((h + of_nat i) AND (of_nat n - 1))"

definition probes :: "u64 \<Rightarrow> nat \<Rightarrow> nat list" where
  "probes h n = map (slot_index h n) [0..<n]"

text \<open>The assertion that a number of buckets is a power of two.\<close>

definition mask_ok :: "nat \<Rightarrow> bool" where
  "mask_ok n \<longleftrightarrow> ((of_nat n - 1) AND of_nat n :: u64) = 0"

lemma mask_ok_pow2:
  assumes "k < 64"
  shows "mask_ok (2 ^ k)"
proof -
  have "((of_nat (2 ^ k) - 1) AND of_nat (2 ^ k) :: u64) = mask k AND push_bit k 1"
    by (simp add: mask_eq_exp_minus_1 push_bit_of_1)
  also have "\<dots> = 0" by (rule bit_eqI) (auto simp: bit_simps)
  finally show ?thesis by (simp add: mask_ok_def)
qed

lemma slot_index_mod:
  assumes "k < 64"
  shows "slot_index h (2 ^ k) i = (unat h + i) mod 2 ^ k"
proof -
  have "(of_nat (2 ^ k) - 1 :: u64) = mask k" by (simp add: mask_eq_exp_minus_1)
  then have "slot_index h (2 ^ k) i = unat (take_bit k (h + of_nat i))"
    by (simp add: slot_index_def take_bit_eq_mask)
  also have "\<dots> = unat (h + of_nat i) mod 2 ^ k"
    unfolding unsigned_take_bit_eq unfolding take_bit_eq_mod ..
  also have "\<dots> = (unat h + i) mod 2 ^ 64 mod 2 ^ k"
    by (simp add: unat_word_ariths unsigned_of_nat take_bit_eq_mod mod_simps)
  also have "\<dots> = (unat h + i) mod 2 ^ k"
    by (rule mod_mod_cancel, rule le_imp_power_dvd) (use assms in simp)
  finally show ?thesis .
qed

lemma set_probes:
  assumes "k < 64"
  shows "set (probes h (2 ^ k)) = {..<2 ^ k}"
proof -
  have "j \<in> (\<lambda>i. (unat h + i) mod 2 ^ k) ` {..<2 ^ k}" if "j < 2 ^ k" for j
  proof -
    let ?n = "2 ^ k :: nat" and ?h = "unat h mod 2 ^ k"
    let ?i = "(j + ?n - ?h) mod ?n"
    have "?h < ?n" by simp
    have "(unat h + ?i) mod ?n = (?h + (j + ?n - ?h)) mod ?n" by (simp add: mod_simps)
    also have "?h + (j + ?n - ?h) = j + ?n" using \<open>?h < ?n\<close> by linarith
    also have "(j + ?n) mod ?n = j" using that by simp
    finally show ?thesis by (intro image_eqI [of _ _ ?i]) simp_all
  qed
  then show ?thesis
    using assms by (auto simp: probes_def slot_index_mod atLeast0LessThan)
qed

section \<open>Open addressing\<close>

text \<open>
  The bucket a search for \<open>k\<close> stops at: the first one on its way that is empty or holds
  \<open>k\<close>. A table is in order when the search for the key of any bucket stops at that bucket.
\<close>

definition ht_find :: "('b \<Rightarrow> 'k option) \<Rightarrow> ('k \<Rightarrow> u64) \<Rightarrow> 'b list \<Rightarrow> 'k \<Rightarrow> nat option" where
  "ht_find key h bs k =
     find (\<lambda>j. key (bs ! j) = None \<or> key (bs ! j) = Some k) (probes (h k) (length bs))"

text \<open>The loop that looks for an empty bucket only.\<close>

definition ht_free :: "('b \<Rightarrow> 'k option) \<Rightarrow> ('k \<Rightarrow> u64) \<Rightarrow> 'b list \<Rightarrow> 'k \<Rightarrow> nat option" where
  "ht_free key h bs k = find (\<lambda>j. key (bs ! j) = None) (probes (h k) (length bs))"

definition ht_used :: "('b \<Rightarrow> 'k option) \<Rightarrow> 'b list \<Rightarrow> nat" where
  "ht_used key bs = length (filter (\<lambda>b. key b \<noteq> None) bs)"

definition ht_ok :: "('b \<Rightarrow> 'k option) \<Rightarrow> ('k \<Rightarrow> u64) \<Rightarrow> 'b list \<Rightarrow> bool" where
  "ht_ok key h bs \<longleftrightarrow> (\<exists>n < 64. length bs = 2 ^ n) \<and>
     (\<forall>j < length bs. \<forall>k. key (bs ! j) = Some k \<longrightarrow> ht_find key h bs k = Some j)"

text \<open>What a search for a key reads: the bucket that holds it, if there is one.\<close>

definition ht_lookup :: "('b \<Rightarrow> 'k option) \<Rightarrow> ('k \<Rightarrow> u64) \<Rightarrow> 'b list \<Rightarrow> 'k \<Rightarrow> 'b option" where
  "ht_lookup key h bs k =
     (case ht_find key h bs k of
        None \<Rightarrow> None
      | Some j \<Rightarrow> if key (bs ! j) = None then None else Some (bs ! j))"

definition ht_live :: "('b \<Rightarrow> 'k option) \<Rightarrow> 'b list \<Rightarrow> 'b set" where
  "ht_live key bs = {b \<in> set bs. key b \<noteq> None}"

text \<open>
  Moving the buckets of one array into another, one after the other: \<open>f\<close> says what becomes
  of a bucket, \<open>None\<close> that it is left behind. The assertion that a place was found is in
  the code wherever this is used.
\<close>

fun rehash ::
  "('b \<Rightarrow> 'k option) \<Rightarrow> ('k \<Rightarrow> u64) \<Rightarrow> ('b \<Rightarrow> 'b option) \<Rightarrow> 'b list \<Rightarrow> 'b list \<Rightarrow> 'b list option" where
  "rehash key h f [] dst = Some dst"
| "rehash key h f (b # src) dst =
     (case f b of
        None \<Rightarrow> rehash key h f src dst
      | Some b' \<Rightarrow>
          (case key b' of
             None \<Rightarrow> rehash key h f src dst
           | Some k \<Rightarrow>
               do { j \<leftarrow> ht_free key h dst k; rehash key h f src (dst[j := b']) }))"

lemma find_same:
  assumes "find P xs = Some j" and "\<And>i. \<not> P i \<Longrightarrow> \<not> Q i" and "Q j"
  shows "find Q xs = Some j"
  using assms by (induction xs) (auto split: if_splits)

lemma find_other:
  assumes "find P xs = Some j" and "\<And>i. i \<noteq> l \<Longrightarrow> Q i = P i" and "P l" and "l \<noteq> j"
  shows "find Q xs = Some j"
  using assms(1)
proof (induction xs)
  case (Cons a xs)
  show ?case
  proof (cases "P a")
    case True
    then show ?thesis using Cons.prems assms(2) [of j] assms(4) by simp
  next
    case False
    then show ?thesis using Cons assms(2) [of a] assms(3) by auto
  qed
qed simp

lemma set_map_filter_Some: "set (List.map_filter g xs) = {k. \<exists>x \<in> set xs. g x = Some k}"
  by (induction xs) (auto simp: map_filter_simps split: option.split)

lemma distinct_map_filter:
  "sorted_wrt (\<lambda>x y. g x = None \<or> g x \<noteq> g y) xs \<Longrightarrow> distinct (List.map_filter g xs)"
  by (induction xs) (auto simp: map_filter_simps set_map_filter_Some split: option.splits)

lemma length_filter_mono: "(\<And>x. x \<in> set xs \<Longrightarrow> P x \<Longrightarrow> Q x) \<Longrightarrow> length (filter P xs) \<le> length (filter Q xs)"
  by (induction xs) (auto intro: le_SucI)

locale hash_table =
  fixes key :: "'b \<Rightarrow> 'k option" and h :: "'k \<Rightarrow> u64" and empty :: 'b
  assumes key_empty: "key empty = None"
begin

lemma ok_length: "ht_ok key h bs \<Longrightarrow> \<exists>n < 64. length bs = 2 ^ n"
  by (simp add: ht_ok_def)

lemma probes_in:
  assumes "ht_ok key h bs"
  shows "set (probes (h k) (length bs)) = {..<length bs}"
  using ok_length [OF assms] set_probes by auto

lemma find_in:
  assumes "ht_ok key h bs" and "ht_find key h bs k = Some j"
  shows "j < length bs \<and> (key (bs ! j) = None \<or> key (bs ! j) = Some k)"
proof -
  have "j \<in> set (probes (h k) (length bs))" "key (bs ! j) = None \<or> key (bs ! j) = Some k"
    using assms(2) by (auto simp: ht_find_def find_Some_iff)
  then show ?thesis using probes_in [OF assms(1)] by blast
qed

lemma find_present:
  "ht_ok key h bs \<Longrightarrow> b \<in> set bs \<Longrightarrow> key b = Some k \<Longrightarrow> \<exists>j. ht_find key h bs k = Some j \<and> bs ! j = b"
  by (auto simp: in_set_conv_nth ht_ok_def)

lemma find_absent:
  assumes "ht_ok key h bs" and "\<forall>b \<in> set bs. key b \<noteq> Some k" and "ht_find key h bs k = Some j"
  shows "key (bs ! j) = None"
  using find_in [OF assms(1,3)] assms(2) by auto

text \<open>A table that is not full always has a bucket for a key.\<close>

lemma find_ex:
  assumes "ht_ok key h bs" and "ht_used key bs < length bs"
  shows "\<exists>j. ht_find key h bs k = Some j"
proof -
  have "\<exists>b \<in> set bs. key b = None"
    using assms(2) unfolding ht_used_def by (metis (mono_tags) filter_True less_irrefl)
  then obtain j where "j < length bs" "key (bs ! j) = None" by (auto simp: in_set_conv_nth)
  then have "ht_find key h bs k \<noteq> None"
    unfolding ht_find_def find_None_iff using probes_in [OF assms(1)] by auto
  then show ?thesis by blast
qed

lemma distinct_keys:
  assumes "ht_ok key h bs" and "i < length bs" and "j < length bs"
    and "key (bs ! i) = Some k" and "key (bs ! j) = Some k"
  shows "i = j"
proof -
  have "ht_find key h bs k = Some i" "ht_find key h bs k = Some j"
    using assms unfolding ht_ok_def by blast+
  then show ?thesis by simp
qed

lemma ok_empty: "n < 64 \<Longrightarrow> ht_ok key h (replicate (2 ^ n) empty)"
  by (auto simp: ht_ok_def key_empty)

lemma used_empty: "ht_used key (replicate n empty) = 0"
  by (simp add: ht_used_def key_empty)

lemma ok_insert:
  assumes "ht_ok key h bs" and "ht_find key h bs k = Some j" and "key (bs ! j) = None" and "key b = Some k"
  shows "ht_ok key h (bs[j := b])"
proof -
  have j: "j < length bs" using find_in [OF assms(1,2)] by simp
  have "ht_find key h (bs[j := b]) k' = Some i"
    if i: "i < length bs" "key (bs[j := b] ! i) = Some k'" for i k'
  proof (cases "i = j")
    case True
    then have "k' = k" using i assms(4) j by simp
    then show ?thesis
      using assms(2) unfolding ht_find_def length_list_update True
      by (rule_tac find_same) (use j assms(3,4) in \<open>auto simp: nth_list_update\<close>)
  next
    case False
    then have "key (bs ! i) = Some k'" using i by simp
    then have "ht_find key h bs k' = Some i" using assms(1) i by (simp add: ht_ok_def)
    then show ?thesis
      unfolding ht_find_def length_list_update
      by (rule find_other [of _ _ _ j]) (use assms(3) False in auto)
  qed
  then show ?thesis using assms(1) by (auto simp: ht_ok_def)
qed

lemma ok_update:
  assumes "ht_ok key h bs" and "j < length bs" and "key b = key (bs ! j)"
  shows "ht_ok key h (bs[j := b])"
proof -
  have "key (bs[j := b] ! i) = key (bs ! i)" for i
    using assms(2,3) by (cases "i = j") auto
  then show ?thesis using assms(1) by (simp add: ht_ok_def ht_find_def)
qed

lemma used_insert:
  assumes "j < length bs" and "key (bs ! j) = None" and "key b \<noteq> None"
  shows "ht_used key (bs[j := b]) = ht_used key bs + 1"
proof -
  have "ht_used key bs = ht_used key (take j bs @ bs ! j # drop (Suc j) bs)"
    using id_take_nth_drop [OF assms(1)] by simp
  then show ?thesis
    using assms by (simp add: ht_used_def upd_conv_take_nth_drop)
qed

lemma used_le: "ht_used key bs \<le> length bs"
  by (simp add: ht_used_def)

text \<open>For a key that is not there yet, looking for an empty bucket is the same search.\<close>

lemma free_find:
  assumes "\<forall>b \<in> set bs. key b \<noteq> Some k" and "ht_ok key h bs"
  shows "ht_free key h bs k = ht_find key h bs k"
proof -
  have "find (\<lambda>j. key (bs ! j) = None) xs = find (\<lambda>j. key (bs ! j) = None \<or> key (bs ! j) = Some k) xs"
    if "set xs \<subseteq> {..<length bs}" for xs
    using that assms(1) by (induction xs) auto
  then show ?thesis
    unfolding ht_free_def ht_find_def using probes_in [OF assms(2)] by simp
qed

lemma lookup_iff:
  assumes "ht_ok key h bs"
  shows "ht_lookup key h bs k = Some b \<longleftrightarrow> b \<in> set bs \<and> key b = Some k"
proof
  assume "ht_lookup key h bs k = Some b"
  then obtain j where "ht_find key h bs k = Some j" "b = bs ! j" "key b \<noteq> None"
    by (auto simp: ht_lookup_def split: option.splits if_splits)
  then show "b \<in> set bs \<and> key b = Some k" using find_in [OF assms, of k j] by auto
next
  assume "b \<in> set bs \<and> key b = Some k"
  then show "ht_lookup key h bs k = Some b"
    using find_present [OF assms, of b k] by (auto simp: ht_lookup_def)
qed

lemma lookup_None:
  "ht_ok key h bs \<Longrightarrow> ht_lookup key h bs k = None \<longleftrightarrow> (\<forall>b \<in> set bs. key b \<noteq> Some k)"
  using lookup_iff [of bs k] by (metis not_None_eq)

lemma live_insert:
  assumes "j < length bs" and "key (bs ! j) = None" and "key b \<noteq> None"
  shows "ht_live key (bs[j := b]) = insert b (ht_live key bs)"
proof -
  have "set (bs[j := b]) = insert b (set (take j bs) \<union> set (drop (Suc j) bs))"
    using assms(1) by (simp add: upd_conv_take_nth_drop)
  moreover have "set bs = insert (bs ! j) (set (take j bs) \<union> set (drop (Suc j) bs))"
    using arg_cong [OF id_take_nth_drop [OF assms(1)], of set] by simp
  ultimately show ?thesis using assms(2,3) by (auto simp: ht_live_def)
qed

lemma live_update:
  assumes "ht_ok key h bs" and "j < length bs" and "key (bs ! j) = Some k" and "key b = Some k"
  shows "ht_live key (bs[j := b]) = insert b (ht_live key bs - {bs ! j})"
proof -
  have distinct_keys_at: "i = j" if "i < length bs" "bs ! i = bs ! j" for i
    using distinct_keys [OF assms(1) that(1) assms(2)] that(2) assms(3) by simp
  have "set (bs[j := b]) - {b} = set bs - {bs ! j} - {b}"
  proof (intro set_eqI iffI)
    fix x assume x: "x \<in> set (bs[j := b]) - {b}"
    then obtain i where "i < length bs" "x = bs[j := b] ! i" by (auto simp: in_set_conv_nth)
    then show "x \<in> set bs - {bs ! j} - {b}"
      using x distinct_keys_at by (cases "i = j") auto
  next
    fix x assume x: "x \<in> set bs - {bs ! j} - {b}"
    then obtain i where "i < length bs" "x = bs ! i" by (auto simp: in_set_conv_nth)
    moreover from this have "i \<noteq> j" using x by auto
    ultimately show "x \<in> set (bs[j := b]) - {b}"
      using x by (metis DiffD2 DiffI length_list_update nth_list_update_neq nth_mem)
  qed
  moreover have "b \<in> set (bs[j := b])" using assms(2) by (rule set_update_memI)
  ultimately show ?thesis using assms(4) by (auto simp: ht_live_def)
qed

lemma used_update:
  assumes "j < length bs" and "key b = key (bs ! j)"
  shows "ht_used key (bs[j := b]) = ht_used key bs"
proof -
  have "ht_used key bs = ht_used key (take j bs @ bs ! j # drop (Suc j) bs)"
    using id_take_nth_drop [OF assms(1)] by simp
  then show ?thesis
    using assms by (simp add: ht_used_def upd_conv_take_nth_drop)
qed

text \<open>Moving buckets with different keys into an array with room for them.\<close>

lemma rehash_wp:
  assumes "ht_ok key h dst" and "distinct (List.map_filter (\<lambda>b. Option.bind (f b) key) src)"
    and "\<forall>b \<in> set dst. \<forall>k. key b = Some k \<longrightarrow> k \<notin> set (List.map_filter (\<lambda>b. Option.bind (f b) key) src)"
    and "ht_used key dst + length (List.map_filter (\<lambda>b. Option.bind (f b) key) src) \<le> length dst"
  shows "wp (rehash key h f src dst) (\<lambda>dst'. ht_ok key h dst' \<and> length dst' = length dst \<and>
    ht_used key dst' = ht_used key dst + length (List.map_filter (\<lambda>b. Option.bind (f b) key) src) \<and>
    ht_live key dst' = ht_live key dst \<union> {b'. \<exists>b \<in> set src. f b = Some b' \<and> key b' \<noteq> None})"
  using assms
proof (induction src arbitrary: dst)
  case Nil
  then show ?case by (simp add: map_filter_simps)
next
  case (Cons b src)
  show ?case
  proof (cases "Option.bind (f b) key")
    case None
    then have "\<not> (\<exists>b'. f b = Some b' \<and> key b' \<noteq> None)" by auto
    moreover have "rehash key h f (b # src) dst = rehash key h f src dst"
      using None by (auto split: option.split)
    ultimately show ?thesis
      using Cons.IH [of dst] Cons.prems None by (auto simp: map_filter_simps elim!: wp_mono)
  next
    case (Some k)
    then obtain b' where b': "f b = Some b'" "key b' = Some k" by (cases "f b") auto
    have fresh: "\<forall>c \<in> set dst. key c \<noteq> Some k"
      using Cons.prems(3) Some by (auto simp: map_filter_simps)
    obtain j where j: "ht_find key h dst k = Some j"
      using find_ex [OF Cons.prems(1)] Cons.prems(4) Some by (auto simp: map_filter_simps)
    have jl: "j < length dst" "key (dst ! j) = None"
      using find_in [OF Cons.prems(1) j] find_absent [OF Cons.prems(1) fresh j] by auto
    let ?dst = "dst[j := b']"
    have upd: "set ?dst \<subseteq> insert b' (set dst)" by (rule set_update_subset_insert)
    have "wp (rehash key h f src ?dst) (\<lambda>dst'. ht_ok key h dst' \<and> length dst' = length ?dst \<and>
      ht_used key dst' = ht_used key ?dst + length (List.map_filter (\<lambda>b. Option.bind (f b) key) src) \<and>
      ht_live key dst' = ht_live key ?dst \<union> {b'. \<exists>b \<in> set src. f b = Some b' \<and> key b' \<noteq> None})"
    proof (rule Cons.IH)
      show "ht_ok key h ?dst" by (rule ok_insert [OF Cons.prems(1) j jl(2) b'(2)])
      show "\<forall>c \<in> set ?dst. \<forall>k'. key c = Some k' \<longrightarrow>
          k' \<notin> set (List.map_filter (\<lambda>b. Option.bind (f b) key) src)"
        using upd b'(2) Cons.prems(2,3) Some by (fastforce simp: map_filter_simps)
    qed (use Cons.prems Some used_insert [OF jl, of b'] b'(2) in \<open>auto simp: map_filter_simps\<close>)
    then show ?thesis
      using b' j Some free_find [OF fresh Cons.prems(1)] used_insert [OF jl, of b'] live_insert [OF jl, of b']
      by (auto simp: map_filter_simps elim!: wp_mono)
  qed
qed

lemma distinct_moved:
  assumes "ht_ok key h bs"
    and "\<And>b c k. b \<in> set bs \<Longrightarrow> c \<in> set bs \<Longrightarrow> g b = Some k \<Longrightarrow> g c = Some k \<Longrightarrow>
      key b \<noteq> None \<and> key b = key c"
  shows "distinct (List.map_filter g bs)"
proof -
  have "sorted_wrt (\<lambda>x y. g x = None \<or> g x \<noteq> g y) bs"
    unfolding sorted_wrt_iff_nth_less
  proof (intro allI impI)
    fix i j assume ij: "i < j" "j < length bs"
    show "g (bs ! i) = None \<or> g (bs ! i) \<noteq> g (bs ! j)"
    proof (rule ccontr)
      assume "\<not> (g (bs ! i) = None \<or> g (bs ! i) \<noteq> g (bs ! j))"
      then obtain k where "g (bs ! i) = Some k" "g (bs ! j) = Some k" by (cases "g (bs ! j)") auto
      then obtain k' where "key (bs ! i) = Some k'" "key (bs ! j) = Some k'"
        using assms(2) [of "bs ! i" "bs ! j" k] ij by (cases "key (bs ! j)") auto
      then show False using distinct_keys [OF assms(1), of i j k'] ij by simp
    qed
  qed
  then show ?thesis by (rule distinct_map_filter)
qed

lemma length_moved: "length (List.map_filter key bs) = ht_used key bs"
  by (simp add: List.map_filter_def ht_used_def)

lemma lookup_live:
  "ht_ok key h bs \<Longrightarrow> ht_lookup key h bs k = Some b \<longleftrightarrow> b \<in> ht_live key bs \<and> key b = Some k"
  by (auto simp: lookup_iff ht_live_def)

text \<open>What is found depends on the buckets in use, not on where they are.\<close>

lemma lookup_cong:
  assumes "ht_ok key h bs" and "ht_ok key h bs'" and "ht_live key bs' = ht_live key bs"
  shows "ht_lookup key h bs' k = ht_lookup key h bs k"
proof -
  have "ht_lookup key h bs' k = Some b \<longleftrightarrow> ht_lookup key h bs k = Some b" for b
    using assms by (simp add: lookup_live)
  then show ?thesis by (metis not_None_eq)
qed

end

text \<open>A table read as a map: what storing a bucket at the place a search found does to it.\<close>

context hash_table
begin

lemma lookup_eqI:
  assumes "ht_ok key h bs" and "\<And>b. b \<in> ht_live key bs \<and> key b = Some k \<longleftrightarrow> r = Some b"
  shows "ht_lookup key h bs k = r"
  using lookup_live [OF assms(1), of k] assms(2) by (metis not_None_eq)

lemma store_old:
  assumes "ht_ok key h bs" and "j < length bs" and "key (bs ! j) = Some k" and "key b = Some k"
  shows "ht_ok key h (bs[j := b])" and "ht_used key (bs[j := b]) = ht_used key bs"
    and "ht_lookup key h (bs[j := b]) = (ht_lookup key h bs)(k \<mapsto> b)"
proof -
  show ok: "ht_ok key h (bs[j := b])" by (rule ok_update [OF assms(1,2)]) (use assms in simp)
  show "ht_used key (bs[j := b]) = ht_used key bs" by (rule used_update [OF assms(2)]) (use assms in simp)
  have at_j: "c = bs ! j" if "c \<in> ht_live key bs" "key c = Some k" for c
    using that distinct_keys [OF assms(1) _ assms(2) _ assms(3)] by (auto simp: ht_live_def in_set_conv_nth)
  show "ht_lookup key h (bs[j := b]) = (ht_lookup key h bs)(k \<mapsto> b)"
  proof
    fix i
    show "ht_lookup key h (bs[j := b]) i = ((ht_lookup key h bs)(k \<mapsto> b)) i"
    proof (rule lookup_eqI [OF ok])
      fix c
      show "c \<in> ht_live key (bs[j := b]) \<and> key c = Some i \<longleftrightarrow> ((ht_lookup key h bs)(k \<mapsto> b)) i = Some c"
      proof (cases "i = k")
        case True
        then show ?thesis unfolding live_update [OF assms] using at_j [of c] assms(4) by auto
      next
        case False
        then have "c \<noteq> b" "c \<noteq> bs ! j" if "key c = Some i" using that assms(3,4) by auto
        then have "c \<in> ht_live key (bs[j := b]) \<and> key c = Some i \<longleftrightarrow> c \<in> ht_live key bs \<and> key c = Some i"
          unfolding live_update [OF assms] by blast
        then show ?thesis using False lookup_live [OF assms(1), of i c] by simp
      qed
    qed
  qed
qed

lemma store_new:
  assumes "ht_ok key h bs" and "ht_find key h bs k = Some j" and "key (bs ! j) = None" and "key b = Some k"
  shows "ht_ok key h (bs[j := b])" and "ht_used key (bs[j := b]) = ht_used key bs + 1"
    and "ht_lookup key h (bs[j := b]) = (ht_lookup key h bs)(k \<mapsto> b)" and "ht_lookup key h bs k = None"
proof -
  have j: "j < length bs" using find_in [OF assms(1,2)] by simp
  show ok: "ht_ok key h (bs[j := b])" by (rule ok_insert [OF assms])
  show "ht_used key (bs[j := b]) = ht_used key bs + 1" by (rule used_insert [OF j assms(3)]) (use assms in simp)
  show none: "ht_lookup key h bs k = None" using assms(2,3) by (simp add: ht_lookup_def)
  have live: "ht_live key (bs[j := b]) = insert b (ht_live key bs)"
    by (rule live_insert [OF j assms(3)]) (use assms in simp)
  show "ht_lookup key h (bs[j := b]) = (ht_lookup key h bs)(k \<mapsto> b)"
  proof
    fix i
    show "ht_lookup key h (bs[j := b]) i = ((ht_lookup key h bs)(k \<mapsto> b)) i"
    proof (rule lookup_eqI [OF ok])
      fix c
      show "c \<in> ht_live key (bs[j := b]) \<and> key c = Some i \<longleftrightarrow> ((ht_lookup key h bs)(k \<mapsto> b)) i = Some c"
      proof (cases "i = k")
        case True
        then show ?thesis unfolding live using lookup_live [OF assms(1), of k c] none assms(4) by auto
      next
        case False
        then have "c \<noteq> b" if "key c = Some i" using that assms(4) by auto
        then have "c \<in> ht_live key (bs[j := b]) \<and> key c = Some i \<longleftrightarrow> c \<in> ht_live key bs \<and> key c = Some i"
          unfolding live by blast
        then show ?thesis using False lookup_live [OF assms(1), of i c] by simp
      qed
    qed
  qed
qed

text \<open>
  All buckets of an array moved into an empty one with room for them: nothing is lost, and
  the search for the place of each succeeds.
\<close>

lemma rehash_into_empty:
  assumes "ht_ok key h bs" and "m < 64" and "ht_used key bs \<le> 2 ^ m"
    and "\<And>b b'. b \<in> set bs \<Longrightarrow> f b = Some b' \<Longrightarrow> key b' \<noteq> None \<Longrightarrow> key b \<noteq> None"
    and "\<And>b c b' c' k. b \<in> set bs \<Longrightarrow> c \<in> set bs \<Longrightarrow> f b = Some b' \<Longrightarrow> f c = Some c' \<Longrightarrow>
      key b' = Some k \<Longrightarrow> key c' = Some k \<Longrightarrow> key b = key c"
  shows "wp (rehash key h f bs (replicate (2 ^ m) empty)) (\<lambda>bs'. ht_ok key h bs' \<and> length bs' = 2 ^ m \<and>
    ht_used key bs' \<le> ht_used key bs \<and>
    ht_live key bs' = {b'. \<exists>b \<in> set bs. f b = Some b' \<and> key b' \<noteq> None})"
proof -
  let ?g = "\<lambda>b. Option.bind (f b) key"
  have some: "\<exists>b'. f b = Some b' \<and> key b' = Some k" if "?g b = Some k" for b k
    using that by (cases "f b") auto
  have dist: "distinct (List.map_filter ?g bs)"
  proof (rule distinct_moved [OF assms(1)])
    fix b c k assume bc: "b \<in> set bs" "c \<in> set bs" "?g b = Some k" "?g c = Some k"
    obtain b' c' where "f b = Some b'" "key b' = Some k" "f c = Some c'" "key c' = Some k"
      using some [OF bc(3)] some [OF bc(4)] by blast
    then show "key b \<noteq> None \<and> key b = key c" using assms(4) [of b b'] assms(5) [of b c b' c' k] bc by auto
  qed
  have "length (List.map_filter ?g bs) = length (filter (\<lambda>b. ?g b \<noteq> None) bs)" by (simp add: List.map_filter_def)
  also have "\<dots> \<le> ht_used key bs"
  proof -
    have "b \<in> set bs \<Longrightarrow> ?g b \<noteq> None \<Longrightarrow> key b \<noteq> None" for b
      using some [of b] assms(4) [of b] by fastforce
    then show ?thesis unfolding ht_used_def by (rule length_filter_mono)
  qed
  finally have le: "length (List.map_filter ?g bs) \<le> ht_used key bs" .
  have "wp (rehash key h f bs (replicate (2 ^ m) empty)) (\<lambda>dst'. ht_ok key h dst' \<and>
      length dst' = length (replicate (2 ^ m) empty) \<and>
      ht_used key dst' = ht_used key (replicate (2 ^ m) empty) + length (List.map_filter ?g bs) \<and>
      ht_live key dst' = ht_live key (replicate (2 ^ m) empty) \<union> {b'. \<exists>b \<in> set bs. f b = Some b' \<and> key b' \<noteq> None})"
    by (rule rehash_wp [OF ok_empty [OF assms(2)] dist])
      (use le assms(3) in \<open>auto simp: used_empty key_empty\<close>)
  moreover have "ht_live key (replicate (2 ^ m) empty) = {}" by (auto simp: ht_live_def key_empty)
  ultimately show ?thesis using le by (auto elim!: wpE simp: used_empty)
qed

end

section \<open>Renumbering\<close>

text \<open>
  A mapping from old to new state numbers, as compaction makes them: states that are kept
  get different numbers, the others \<open>FSM_STATE_REMAP_NO_STATE\<close>.
\<close>

definition remap_inj :: "fsm_state_t list \<Rightarrow> bool" where
  "remap_inj mapping \<longleftrightarrow>
     inj_on ((!) mapping) {s. s < length mapping \<and> mapping ! s \<noteq> FSM_STATE_REMAP_NO_STATE}"

lemma distinct_probes: "n < 64 \<Longrightarrow> distinct (probes h (2 ^ n))"
  using set_probes [of n h] by (intro card_distinct) (simp add: probes_def)

end
