(* ===== verification/Endids.thy ===== *)
theory Endids
  imports Hash_Table "HOL-Library.Multiset"
begin

unbundle bit_operations_syntax

text \<open>
  The end ids of \<open>src/libfsm/endids.c\<close>: an open-addressing hash table from states to
  ascending arrays of ids. The definitions take and return the table
  (\<open>struct endid_info\<close>); the functions that also read the automaton are in \<open>Fsm_Meta\<close>.
  The lemmas show that the table is the map it stands for through insertion, growth and
  compaction, and where compaction leaves the number of used buckets wrong.
\<close>

section \<open>The table\<close>

type_synonym fsm_end_id_t = nat

definition BUCKET_NO_STATE :: fsm_state_t where
  "BUCKET_NO_STATE = 2 ^ 32 - 1"

definition DEF_BUCKET_COUNT :: nat where
  "DEF_BUCKET_COUNT = 4"

definition DEF_BUCKET_ID_COUNT :: nat where
  "DEF_BUCKET_ID_COUNT = 16"

record end_info_ids =
  id_list :: "fsm_end_id_t list"  \<comment> \<open>\<open>ids[0] .. ids[count - 1]\<close>\<close>
  id_ceil :: nat

record endid_info_bucket =
  eb_state :: fsm_state_t
  eb_ids :: end_info_ids

record endid_info =
  en_buckets :: "endid_info_bucket list"
  en_used :: nat

definition no_ids :: end_info_ids where
  "no_ids = \<lparr>id_list = [], id_ceil = 0\<rparr>"

text \<open>An empty bucket; its \<open>ids\<close> pointer is never read.\<close>

definition eb_empty :: endid_info_bucket where
  "eb_empty = \<lparr>eb_state = BUCKET_NO_STATE, eb_ids = no_ids\<rparr>"

definition eb_key :: "endid_info_bucket \<Rightarrow> fsm_state_t option" where
  "eb_key b = (if eb_state b = BUCKET_NO_STATE then None else Some (eb_state b))"

definition fsm_endid_init :: "alloc \<Rightarrow> endid_info option \<times> alloc" where
  "fsm_endid_init al =
     (let (ok, al) = f_malloc al in
      if \<not> ok then (None, al)
      else let (ok, al) = f_malloc al in
           if \<not> ok then (None, al)
           else (Some \<lparr>en_buckets = replicate DEF_BUCKET_COUNT eb_empty, en_used = 0\<rparr>, al))"

definition grow_endid_buckets :: "alloc \<Rightarrow> endid_info \<Rightarrow> (bool \<times> endid_info \<times> alloc) option" where
  "grow_endid_buckets al info =
     do { let old_count = length (en_buckets info);
          let new_count = 2 * old_count mod 2 ^ 32;
          c_assert (new_count > old_count);
          c_assert (mask_ok new_count);
          let (ok, al) = f_malloc al;
          if \<not> ok then Some (False, info, al)
          else do {
            bs \<leftarrow> rehash eb_key hash_state (\<lambda>b. if eb_state b = BUCKET_NO_STATE then None else Some b)
              (en_buckets info) (replicate new_count eb_empty);
            c_assert (ht_used eb_key (en_buckets info) = en_used info);
            Some (True, info\<lparr>en_buckets := bs\<rparr>, al) } }"

text \<open>
  The bucket for a state, by its index: the one that has it, or an empty one in a table
  with room. \<open>None\<close> in the result is the null pointer returned when growing fails.
\<close>

definition endid_find_bucket ::
  "alloc \<Rightarrow> endid_info \<Rightarrow> fsm_state_t \<Rightarrow> (nat option \<times> endid_info \<times> alloc) option" where
  "endid_find_bucket al ei state =
     do { c_assert (mask_ok (length (en_buckets ei)));
          j \<leftarrow> ht_find eb_key hash_state (en_buckets ei) state;
          if eb_state (en_buckets ei ! j) = state then Some (Some j, ei, al)
          else if en_used ei = length (en_buckets ei) div 2 then
            do { (ok, ei, al) \<leftarrow> grow_endid_buckets al ei;
                 if \<not> ok then Some (None, ei, al)
                 else do {
                   c_assert (mask_ok (length (en_buckets ei)));
                   j \<leftarrow> ht_find eb_key hash_state (en_buckets ei) state;
                   if eb_state (en_buckets ei ! j) = state then Some (Some j, ei, al)
                   else do { c_assert (en_used ei \<noteq> length (en_buckets ei) div 2);
                             Some (Some j, ei, al) } } }
          else Some (Some j, ei, al) }"

section \<open>Ids of a state\<close>

function bisect_loop :: "fsm_end_id_t \<Rightarrow> fsm_end_id_t list \<Rightarrow> int \<Rightarrow> int \<Rightarrow> nat option" where
  "bisect_loop itm ids lo hi =
     (if lo \<le> hi then
        let mid = (lo + hi) div 2; v = ids ! nat mid in
        if itm = v then Some (nat mid)
        else if itm < v then bisect_loop itm ids lo (mid - 1)
        else bisect_loop itm ids (mid + 1) hi
      else do {
        c_assert (lo = hi + 1);
        c_assert (0 \<le> hi);
        x \<leftarrow> c_nth ids (nat hi);
        c_assert (x < itm);
        y \<leftarrow> c_nth ids (nat lo);
        c_assert (y \<ge> itm);
        Some (nat lo) })"
  by pat_completeness auto
termination
  by (relation "measure (\<lambda>(itm, ids, lo, hi). nat (hi - lo + 1))") auto

declare bisect_loop.simps [simp del]

definition bisect_left_sorted_ids :: "fsm_end_id_t \<Rightarrow> fsm_end_id_t list \<Rightarrow> nat option" where
  "bisect_left_sorted_ids itm ids =
     (if ids = [] then Some 0
      else if itm < ids ! 0 then Some 0
      else if itm > ids ! (length ids - 1) then Some (length ids)
      else bisect_loop itm ids 0 (int (length ids) - 1))"

text \<open>The insertion into the array of a state that has one.\<close>

definition ids_insert :: "alloc \<Rightarrow> end_info_ids \<Rightarrow> fsm_end_id_t \<Rightarrow> (bool \<times> end_info_ids \<times> alloc) option" where
  "ids_insert al ids k =
     do { (ok, ids, al) \<leftarrow>
            (if length (id_list ids) = id_ceil ids then
               do { let nceil = 2 * id_ceil ids mod 2 ^ 32;
                    c_assert (nceil > id_ceil ids);
                    let (ok, al) = f_realloc al;
                    Some (if ok then (True, ids\<lparr>id_ceil := nceil\<rparr>, al) else (False, ids, al)) }
             else Some (True, ids, al));
          if \<not> ok then Some (False, ids, al)
          else do {
            ind \<leftarrow> bisect_left_sorted_ids k (id_list ids);
            c_assert (ind \<le> length (id_list ids));
            if ind < length (id_list ids) \<and> id_list ids ! ind = k then Some (True, ids, al)
            else do {
              c_assert (length (id_list ids) < id_ceil ids);
              Some (True, ids\<lparr>id_list := take ind (id_list ids) @ k # drop ind (id_list ids)\<rparr>, al) } } }"

definition fsm_endid_set ::
  "alloc \<Rightarrow> endid_info \<Rightarrow> fsm_state_t \<Rightarrow> fsm_end_id_t \<Rightarrow> (bool \<times> endid_info \<times> alloc) option" where
  "fsm_endid_set al ei state k =
     do { (r, ei, al) \<leftarrow> endid_find_bucket al ei state;
          case r of
            None \<Rightarrow> Some (False, ei, al)
          | Some j \<Rightarrow>
              let b = en_buckets ei ! j in
              if eb_state b = BUCKET_NO_STATE then
                (let (ok, al) = f_realloc al in
                 if \<not> ok then Some (False, ei, al)
                 else Some (True, ei\<lparr>en_buckets := (en_buckets ei)[j :=
                     \<lparr>eb_state = state, eb_ids = \<lparr>id_list = [k], id_ceil = DEF_BUCKET_ID_COUNT\<rparr>\<rparr>],
                   en_used := en_used ei + 1\<rparr>, al))
              else if eb_state b = state then
                do { (ok, ids, al) \<leftarrow> ids_insert al (eb_ids b) k;
                     Some (ok, ei\<lparr>en_buckets := (en_buckets ei)[j := b\<lparr>eb_ids := ids\<rparr>]\<rparr>, al) }
              else None }"

datatype fsm_endid_bulk_op = FSM_ENDID_BULK_REPLACE | FSM_ENDID_BULK_APPEND

definition SIZE_MAX :: nat where
  "SIZE_MAX = 2 ^ 64 - 1"

text \<open>
  \<open>while (n < total_count && n <= limit) n *= 2\<close>. A ceiling that wrapped to 0 would never
  be doubled past the total; the callers below rule it out before they call.
\<close>

function double_until :: "nat \<Rightarrow> nat \<Rightarrow> nat \<Rightarrow> nat" where
  "double_until limit n total_count =
     (if 0 < n \<and> n < total_count \<and> n \<le> limit then double_until limit (n * 2) total_count else n)"
  by pat_completeness auto
termination
  by (relation "measure (\<lambda>(limit, n, total_count). total_count - n)") auto

declare double_until.simps [simp del]

text \<open>The removal of duplicates from a sorted array in place.\<close>

function dedup_ids :: "fsm_end_id_t list \<Rightarrow> nat \<Rightarrow> nat \<Rightarrow> fsm_end_id_t list \<times> nat" where
  "dedup_ids ids i j =
     (if i < length ids then
        if ids ! i \<noteq> ids ! (i - 1) then dedup_ids (ids[j := ids ! i]) (i + 1) (j + 1)
        else dedup_ids ids (i + 1) j
      else (ids, j))"
  by pat_completeness auto
termination
  by (relation "measure (\<lambda>(ids, i, j). length ids - i)") auto

declare dedup_ids.simps [simp del]

text \<open>
  The first \<open>n\<close> of the initialised elements \<open>a\<close> of the array are sorted and their duplicates
  removed. The new count is at least 1, also for \<open>n = 0\<close>: the first element then stays although
  it was not among the \<open>n\<close>, and where none is initialised the result is undefined.
\<close>

definition sort_unique :: "fsm_end_id_t list \<Rightarrow> nat \<Rightarrow> fsm_end_id_t list option" where
  "sort_unique a n =
     (let (ids, j) = dedup_ids (sort (take n a)) 1 1; a = ids @ drop n a in
      do { c_assert (j \<le> length a); Some (take j a) })"

definition fsm_endid_set_bulk ::
  "alloc \<Rightarrow> endid_info \<Rightarrow> fsm_state_t \<Rightarrow> fsm_end_id_t list \<Rightarrow> fsm_endid_bulk_op \<Rightarrow>
   (bool \<times> endid_info \<times> alloc) option" where
  "fsm_endid_set_bulk al ei state ids op =
     do { (r, ei, al) \<leftarrow> endid_find_bucket al ei state;
          case r of
            None \<Rightarrow> Some (False, ei, al)
          | Some j \<Rightarrow>
              let b = en_buckets ei ! j in
              if eb_state b = state then
                let old = eb_ids b;
                    prev = (if op = FSM_ENDID_BULK_REPLACE then [] else id_list old);
                    total_count = length ids + length prev;
                    grown = 2 * id_ceil old mod 2 ^ 32;
                    (ok, ceil, al) =
                      (if total_count > id_ceil old then
                         let new_ceil = double_until (SIZE_MAX div 2) grown total_count in
                         if new_ceil < total_count then (False, id_ceil old, al)
                         else let (ok, al) = f_realloc al in (ok, new_ceil mod 2 ^ 32, al)
                       else (True, id_ceil old, al)) in
                if total_count > id_ceil old \<and> grown = 0 then None
                else if \<not> ok then Some (False, ei, al)
                else do {
                  c_assert (total_count \<le> ceil);
                  new \<leftarrow> sort_unique (prev @ ids @ drop total_count (id_list old)) total_count;
                  Some (True, ei\<lparr>en_buckets := (en_buckets ei)[j :=
                    b\<lparr>eb_ids := \<lparr>id_list = new, id_ceil = ceil\<rparr>\<rparr>]\<rparr>, al) }
              else do {
                c_assert (eb_state b = BUCKET_NO_STATE);
                let n = double_until (SIZE_MAX div 2 - 1) DEF_BUCKET_ID_COUNT (length ids);
                if n < length ids then Some (False, ei, al)
                else
                  let (ok, al) = f_realloc al in
                  if \<not> ok then Some (False, ei, al)
                  else do {
                    new \<leftarrow> sort_unique ids (length ids);
                    Some (True, ei\<lparr>en_buckets := (en_buckets ei)[j :=
                        \<lparr>eb_state = state, eb_ids = \<lparr>id_list = new, id_ceil = n mod 2 ^ 32\<rparr>\<rparr>],
                      en_used := en_used ei + 1\<rparr>, al) } } }"

section \<open>Reading\<close>

definition fsm_endid_count :: "endid_info \<Rightarrow> fsm_state_t \<Rightarrow> nat option" where
  "fsm_endid_count ei state =
     do { c_assert (mask_ok (length (en_buckets ei)));
          j \<leftarrow> ht_find eb_key hash_state (en_buckets ei) state;
          Some (if eb_state (en_buckets ei ! j) = BUCKET_NO_STATE then 0
                else length (id_list (eb_ids (en_buckets ei ! j)))) }"

text \<open>The ids written to the caller's array of \<open>n\<close> elements, beside the result.\<close>

definition fsm_endid_get ::
  "endid_info \<Rightarrow> fsm_state_t \<Rightarrow> nat \<Rightarrow> (bool \<times> fsm_end_id_t list) option" where
  "fsm_endid_get ei end_state n =
     do { c_assert (mask_ok (length (en_buckets ei)));
          j \<leftarrow> ht_find eb_key hash_state (en_buckets ei) end_state;
          let b = en_buckets ei ! j;
          Some (if eb_state b = BUCKET_NO_STATE then (True, [])
                else if length (id_list (eb_ids b)) > n then (False, [])
                else (True, sort (id_list (eb_ids b)))) }"

text \<open>
  The three iterations call back with an accumulator \<open>'s\<close>. When the callback of
  \<open>fsm_endid_iter\<close> asks to stop, only the ids of the current state are left out.
\<close>

fun endid_iter_ids ::
  "(fsm_state_t \<Rightarrow> fsm_end_id_t \<Rightarrow> 's \<Rightarrow> (bool \<times> 's) option) \<Rightarrow> fsm_state_t \<Rightarrow> fsm_end_id_t list \<Rightarrow>
   's \<Rightarrow> 's option" where
  "endid_iter_ids cb state [] s = Some s"
| "endid_iter_ids cb state (k # ids) s =
     do { (go, s) \<leftarrow> cb state k s; if go then endid_iter_ids cb state ids s else Some s }"

fun endid_iter_buckets ::
  "(fsm_state_t \<Rightarrow> fsm_end_id_t \<Rightarrow> 's \<Rightarrow> (bool \<times> 's) option) \<Rightarrow> endid_info_bucket list \<Rightarrow> 's \<Rightarrow> 's option" where
  "endid_iter_buckets cb [] s = Some s"
| "endid_iter_buckets cb (b # bs) s =
     (if eb_state b = BUCKET_NO_STATE then endid_iter_buckets cb bs s
      else do { s \<leftarrow> endid_iter_ids cb (eb_state b) (id_list (eb_ids b)) s;
                endid_iter_buckets cb bs s })"

definition fsm_endid_iter ::
  "endid_info \<Rightarrow> (fsm_state_t \<Rightarrow> fsm_end_id_t \<Rightarrow> 's \<Rightarrow> (bool \<times> 's) option) \<Rightarrow> 's \<Rightarrow> 's option" where
  "fsm_endid_iter ei cb s = endid_iter_buckets cb (en_buckets ei) s"

definition fsm_endid_iter_bulk ::
  "nat \<Rightarrow> endid_info \<Rightarrow> (fsm_state_t \<Rightarrow> fsm_end_id_t list \<Rightarrow> 's \<Rightarrow> (bool \<times> 's) option) \<Rightarrow> 's \<Rightarrow>
   (bool \<times> 's) option" where
  "fsm_endid_iter_bulk state_count ei cb s =
     c_for (\<lambda>b s. if eb_state b = BUCKET_NO_STATE then Some (True, s)
                  else do { c_assert (eb_state b < state_count);
                            cb (eb_state b) (id_list (eb_ids b)) s })
       (en_buckets ei) s"

definition fsm_endid_iter_state ::
  "endid_info \<Rightarrow> fsm_state_t \<Rightarrow> (fsm_state_t \<Rightarrow> fsm_end_id_t \<Rightarrow> 's \<Rightarrow> (bool \<times> 's) option) \<Rightarrow> 's \<Rightarrow> 's option" where
  "fsm_endid_iter_state ei state cb s =
     do { c_assert (state \<noteq> BUCKET_NO_STATE);
          c_assert (mask_ok (length (en_buckets ei)));
          case ht_find eb_key hash_state (en_buckets ei) state of
            None \<Rightarrow> Some s
          | Some j \<Rightarrow>
              let b = en_buckets ei ! j in
              if eb_state b = BUCKET_NO_STATE then Some s
              else endid_iter_ids cb (eb_state b) (id_list (eb_ids b)) s }"

section \<open>Changing ids\<close>

text \<open>
  \<open>fsm_mapendids\<close> with a callback that gets a state and its ids, and returns whether to
  go on, the array as it left it, and the number of ids it wrote.
\<close>

fun mapendids_loop ::
  "(fsm_state_t \<Rightarrow> fsm_end_id_t list \<Rightarrow> bool \<times> fsm_end_id_t list \<times> nat) \<Rightarrow> endid_info_bucket list \<Rightarrow>
   (bool \<times> endid_info_bucket list) option" where
  "mapendids_loop remap [] = Some (True, [])"
| "mapendids_loop remap (b # bs) =
     (if eb_state b = BUCKET_NO_STATE
      then do { (ok, bs) \<leftarrow> mapendids_loop remap bs; Some (ok, b # bs) }
      else
        let (ret, ids, nwritten) = remap (eb_state b) (id_list (eb_ids b)) in
        do { ids \<leftarrow>
               (if nwritten > 0 then
                  do { c_assert (nwritten \<le> length (id_list (eb_ids b)));
                       if nwritten > 1 then sort_unique ids nwritten
                       else Some (take nwritten ids) }
                else Some ids);
             let b = b\<lparr>eb_ids := (eb_ids b)\<lparr>id_list := ids\<rparr>\<rparr>;
             if \<not> ret then Some (False, b # bs)
             else do { (ok, bs) \<leftarrow> mapendids_loop remap bs; Some (ok, b # bs) } })"

definition fsm_mapendids ::
  "endid_info \<Rightarrow> (fsm_state_t \<Rightarrow> fsm_end_id_t list \<Rightarrow> bool \<times> fsm_end_id_t list \<times> nat) \<Rightarrow>
   (bool \<times> endid_info) option" where
  "fsm_mapendids ei remap =
     do { (ok, bs) \<leftarrow> mapendids_loop remap (en_buckets ei); Some (ok, ei\<lparr>en_buckets := bs\<rparr>) }"

definition incr_remap :: "int \<Rightarrow> fsm_state_t \<Rightarrow> fsm_end_id_t list \<Rightarrow> bool \<times> fsm_end_id_t list \<times> nat" where
  "incr_remap delta state ids =
     (True, map (\<lambda>k. nat ((int k + delta) mod 2 ^ 32)) ids, length ids)"

definition fsm_increndids :: "endid_info \<Rightarrow> int \<Rightarrow> endid_info option" where
  "fsm_increndids ei delta =
     (if delta = 0 then Some ei
      else do { (ok, ei) \<leftarrow> fsm_mapendids ei (incr_remap delta); Some ei })"

definition fsm_endid_compact ::
  "alloc \<Rightarrow> endid_info \<Rightarrow> fsm_state_t list \<Rightarrow> (bool \<times> endid_info \<times> alloc) option" where
  "fsm_endid_compact al ei mapping =
     (if mapping = [0..<length mapping] then Some (True, ei, al)
      else
        let (ok, al) = f_malloc al in
        if \<not> ok then Some (False, ei, al)
        else do {
          c_assert (mask_ok (length (en_buckets ei)));
          c_assert (list_all (\<lambda>b. eb_state b = BUCKET_NO_STATE \<or> eb_state b < length mapping) (en_buckets ei));
          bs \<leftarrow> rehash eb_key hash_state
            (\<lambda>b. if eb_state b = BUCKET_NO_STATE then None
                 else if mapping ! eb_state b = FSM_STATE_REMAP_NO_STATE then None
                 else Some (b\<lparr>eb_state := mapping ! eb_state b\<rparr>))
            (en_buckets ei) (replicate (length (en_buckets ei)) eb_empty);
          Some (True, ei\<lparr>en_buckets := bs\<rparr>, al) })"

section \<open>The table as a map\<close>

interpretation eht: hash_table eb_key hash_state eb_empty
  by unfold_locales (simp add: eb_key_def eb_empty_def)

definition ids_ok :: "end_info_ids \<Rightarrow> bool" where
  "ids_ok ids \<longleftrightarrow> asc (id_list ids) \<and> id_list ids \<noteq> [] \<and> length (id_list ids) \<le> id_ceil ids"

definition endid_tab :: "endid_info \<Rightarrow> bool" where
  "endid_tab ei \<longleftrightarrow> ht_ok eb_key hash_state (en_buckets ei) \<and>
     (\<forall>b \<in> ht_live eb_key (en_buckets ei). ids_ok (eb_ids b))"

text \<open>The number of used buckets, kept beside the array, and room for the searches to end.\<close>

definition endid_inv :: "endid_info \<Rightarrow> bool" where
  "endid_inv ei \<longleftrightarrow> endid_tab ei \<and> en_used ei = ht_used eb_key (en_buckets ei) \<and>
     2 * en_used ei \<le> length (en_buckets ei) \<and> 4 \<le> length (en_buckets ei)"

definition endid_ids :: "endid_info \<Rightarrow> fsm_state_t \<Rightarrow> fsm_end_id_t list" where
  "endid_ids ei s =
     (case ht_lookup eb_key hash_state (en_buckets ei) s of
        None \<Rightarrow> [] | Some b \<Rightarrow> id_list (eb_ids b))"

lemma eb_key_Some: "eb_key b = Some s \<longleftrightarrow> eb_state b = s \<and> s \<noteq> BUCKET_NO_STATE"
  by (auto simp: eb_key_def)

lemma eb_key_None: "eb_key b = None \<longleftrightarrow> eb_state b = BUCKET_NO_STATE"
  by (simp add: eb_key_def)

lemma endid_ids_eq:
  assumes "endid_tab ei" and "endid_tab ei'"
    and "ht_live eb_key (en_buckets ei') = ht_live eb_key (en_buckets ei)"
  shows "endid_ids ei' = endid_ids ei"
  unfolding endid_ids_def
  using assms eht.lookup_cong [of "en_buckets ei" "en_buckets ei'"] by (simp add: endid_tab_def)

lemma endid_ids_Some:
  "endid_tab ei \<Longrightarrow> b \<in> ht_live eb_key (en_buckets ei) \<Longrightarrow> endid_ids ei (eb_state b) = id_list (eb_ids b)"
  using eht.lookup_live [of "en_buckets ei" "eb_state b" b]
  by (auto simp: endid_ids_def endid_tab_def ht_live_def eb_key_def split: if_splits)

lemma endid_ids_None:
  "endid_tab ei \<Longrightarrow> \<forall>b \<in> ht_live eb_key (en_buckets ei). eb_state b \<noteq> s \<Longrightarrow> endid_ids ei s = []"
  using eht.lookup_live [of "en_buckets ei" s]
  by (cases "ht_lookup eb_key hash_state (en_buckets ei) s") (auto simp: endid_ids_def endid_tab_def eb_key_Some)

section \<open>Ids of a state\<close>

lemma bisect_loop_wp:
  assumes "asc ids" and "0 \<le> lo" and "lo \<le> hi + 1" and "hi < int (length ids)"
    and "\<forall>i. int i < lo \<longrightarrow> i < length ids \<longrightarrow> ids ! i < k" and "\<forall>i. hi < int i \<longrightarrow> i < length ids \<longrightarrow> k < ids ! i"
    and "ids \<noteq> []" and "ids ! 0 \<le> k" and "k \<le> ids ! (length ids - 1)"
  shows "wp (bisect_loop k ids lo hi) (insertion_point ids k)"
  using assms
proof (induction k ids lo hi rule: bisect_loop.induct)
  case (1 k ids lo hi)
  note prems = "1.prems"
  show ?case
  proof (cases "lo \<le> hi")
    case False
    then have lo: "lo = hi + 1" using prems(3) by simp
    have hi: "0 \<le> hi"
    proof (rule ccontr)
      assume "\<not> 0 \<le> hi"
      then have "k < ids ! 0" using prems(6) prems(7) by simp
      with prems(8) show False by simp
    qed
    have "lo < int (length ids)"
    proof (rule ccontr)
      assume "\<not> lo < int (length ids)"
      moreover have "length ids - 1 < length ids" using prems(7) by simp
      ultimately have "ids ! (length ids - 1) < k" using prems(5) by auto
      with prems(9) show False by simp
    qed
    then have b: "nat lo < length ids" "nat hi < length ids" using hi lo by auto
    have "ids ! nat hi < k" using prems(5) hi lo b by simp
    moreover have "k < ids ! nat lo" using prems(6) hi lo b by simp
    moreover have "insertion_point ids k (nat lo)"
      unfolding insertion_point_def using b prems(5,6) hi lo by (auto simp: nat_le_iff intro: less_imp_le)
    ultimately show ?thesis
      using False lo hi b by (subst bisect_loop.simps) (simp add: wp_simps)
  next
    case True
    let ?m = "(lo + hi) div 2"
    have m: "lo \<le> ?m" "?m \<le> hi" "0 \<le> ?m" using True prems(2) by auto
    have mn: "nat ?m < length ids" using m prems(4) by simp
    consider "k = ids ! nat ?m" | "k < ids ! nat ?m" | "k > ids ! nat ?m" by linarith
    then show ?thesis
    proof cases
      case 1
      then have "insertion_point ids k (nat ?m)"
        unfolding insertion_point_def
        using mn asc_nth_less [OF prems(1)] asc_nth_mono [OF prems(1)] by auto
      then show ?thesis using True 1 by (subst bisect_loop.simps) (simp add: Let_def)
    next
      case 2
      have "k < ids ! i" if "?m - 1 < int i" "i < length ids" for i
      proof -
        have "ids ! nat ?m \<le> ids ! i" using that m by (intro asc_nth_mono [OF prems(1)]) auto
        with 2 show ?thesis by simp
      qed
      then have "wp (bisect_loop k ids lo (?m - 1)) (insertion_point ids k)"
        by (intro "1.IH"(1) [OF True refl refl less_imp_neq [OF 2] 2]) (use m prems in auto)
      then show ?thesis using True 2 by (subst bisect_loop.simps) (simp add: Let_def)
    next
      case 3
      have "ids ! i < k" if "int i < ?m + 1" "i < length ids" for i
      proof -
        have "ids ! i \<le> ids ! nat ?m" using that m mn by (intro asc_nth_mono [OF prems(1)]) auto
        with 3 show ?thesis by simp
      qed
      then have "wp (bisect_loop k ids (?m + 1) hi) (insertion_point ids k)"
        by (intro "1.IH"(2) [OF True refl refl less_imp_neq [OF 3, symmetric] order_less_not_sym [OF 3]])
          (use m prems in auto)
      then show ?thesis using True 3 by (subst bisect_loop.simps) (simp add: Let_def)
    qed
  qed
qed

lemma bisect_left_wp:
  assumes "asc ids"
  shows "wp (bisect_left_sorted_ids k ids) (insertion_point ids k)"
proof -
  consider "ids = []" | "ids \<noteq> []" "k < ids ! 0" | "ids \<noteq> []" "ids ! 0 \<le> k" "k > ids ! (length ids - 1)"
    | "ids \<noteq> []" "ids ! 0 \<le> k" "k \<le> ids ! (length ids - 1)" by fastforce
  then show ?thesis
  proof cases
    case 1
    then show ?thesis by (simp add: bisect_left_sorted_ids_def insertion_point_def)
  next
    case 2
    have "k < ids ! i" if "i < length ids" for i
      using asc_nth_mono [OF assms, of 0 i] that 2 by simp
    then show ?thesis using 2 by (auto simp: bisect_left_sorted_ids_def insertion_point_def intro: less_imp_le)
  next
    case 3
    have "ids ! i < k" if "i < length ids" for i
      using asc_nth_mono [OF assms, of i "length ids - 1"] that 3 by fastforce
    then show ?thesis using 3 by (auto simp: bisect_left_sorted_ids_def insertion_point_def)
  next
    case 4
    have "wp (bisect_loop k ids 0 (int (length ids) - 1)) (insertion_point ids k)"
      by (rule bisect_loop_wp) (use 4 assms in auto)
    then show ?thesis using 4 by (simp add: bisect_left_sorted_ids_def)
  qed
qed

lemma ids_insert_wp:
  assumes "ids_ok ids" and "length (id_list ids) < 2 ^ 31"
  shows "wp (ids_insert al ids k) (\<lambda>(ok, ids', al'). ids_ok ids' \<and>
    set (id_list ids') = (if ok then insert k (set (id_list ids)) else set (id_list ids)) \<and>
    (al = [] \<longrightarrow> ok \<and> al' = []))"
proof -
  have asc: "asc (id_list ids)" and ne: "id_list ids \<noteq> []" and len: "length (id_list ids) \<le> id_ceil ids"
    using assms by (auto simp: ids_ok_def)
  obtain i where i: "bisect_left_sorted_ids k (id_list ids) = Some i" "insertion_point (id_list ids) k i"
    using bisect_left_wp [OF asc] by (rule wpE)
  have mem: "k \<in> set (id_list ids) \<longleftrightarrow> i < length (id_list ids) \<and> id_list ids ! i = k"
    by (rule insertion_point_mem [OF asc i(2)])
  have ile: "i \<le> length (id_list ids)" using i(2) by (simp add: insertion_point_def)
  have store: "ids_ok (ids\<lparr>id_ceil := c, id_list := take i (id_list ids) @ k # drop i (id_list ids)\<rparr>)"
    if "k \<notin> set (id_list ids)" "length (id_list ids) < c" for c
    using insertion_point_insert [OF asc i(2) that(1)] that(2) ile by (auto simp: ids_ok_def)
  note set_ins = set_insert_at [of i "id_list ids" k]
  obtain ok al' where al: "f_realloc al = (ok, al')" by (cases "f_realloc al")
  have nil: "al = [] \<longrightarrow> ok \<and> al' = []" using al by auto
  show ?thesis
  proof (cases "length (id_list ids) = id_ceil ids")
    case False
    then have "length (id_list ids) < id_ceil ids" using len by simp
    then show ?thesis
      using False i mem ile store [of "id_ceil ids"] set_ins assms
      by (cases "k \<in> set (id_list ids)") (auto simp: ids_insert_def wp_simps insert_absorb)
  next
    case True
    have pos: "0 < id_ceil ids" using True ne by (metis length_greater_0_conv)
    have dbl: "2 * id_ceil ids mod 2 ^ 32 = 2 * id_ceil ids" using True assms(2) by (intro mod_less) simp
    show ?thesis
    proof (cases ok)
      case False
      then show ?thesis using True pos dbl al nil assms by (auto simp: ids_insert_def wp_simps)
    next
      case ok: True
      have "ids_ok (ids\<lparr>id_ceil := 2 * id_ceil ids\<rparr>)" using assms by (simp add: ids_ok_def)
      then show ?thesis
        using True pos dbl al nil ok i mem ile store [of "2 * id_ceil ids"] set_ins
        by (cases "k \<in> set (id_list ids)") (auto simp: ids_insert_def wp_simps insert_absorb)
    qed
  qed
qed

section \<open>Growth and search\<close>

lemma keep_key: "(\<lambda>b. Option.bind (if eb_state b = BUCKET_NO_STATE then None else Some b) eb_key) = eb_key"
  by (auto simp: eb_key_def)

lemma grow_endid_buckets_wp:
  assumes "endid_inv ei" and "length (en_buckets ei) < 2 ^ 31"
  shows "wp (grow_endid_buckets al ei) (\<lambda>(ok, ei', al'). endid_inv ei' \<and>
    ht_live eb_key (en_buckets ei') = ht_live eb_key (en_buckets ei) \<and> en_used ei' = en_used ei \<and>
    (if ok then length (en_buckets ei') = 2 * length (en_buckets ei) else ei' = ei) \<and>
    (al = [] \<longrightarrow> ok \<and> al' = []))"
proof -
  let ?bs = "en_buckets ei" and ?f = "\<lambda>b. if eb_state b = BUCKET_NO_STATE then None else Some b"
  have tab: "endid_tab ei" and ok: "ht_ok eb_key hash_state ?bs" and used: "en_used ei = ht_used eb_key ?bs"
    "2 * en_used ei \<le> length ?bs" "4 \<le> length ?bs"
    using assms(1) by (auto simp: endid_inv_def endid_tab_def)
  obtain n where n: "n < 64" "length ?bs = 2 ^ n" using eht.ok_length [OF ok] by blast
  have "2 ^ n < (2 :: nat) ^ 31" using assms(2) n(2) by simp
  then have n31: "n < 31" by (rule power_less_imp_less_exp [rotated]) simp
  then have "2 ^ Suc n < (2 :: nat) ^ 32" by (intro power_strict_increasing) auto
  then have new: "2 * length ?bs mod 2 ^ 32 = 2 ^ Suc n" using n(2) by simp
  let ?dst = "replicate (2 ^ Suc n) eb_empty"
  have "wp (rehash eb_key hash_state ?f ?bs ?dst) (\<lambda>dst'. ht_ok eb_key hash_state dst' \<and> length dst' = length ?dst \<and>
    ht_used eb_key dst' = ht_used eb_key ?dst + length (List.map_filter (\<lambda>b. Option.bind (?f b) eb_key) ?bs) \<and>
    ht_live eb_key dst' = ht_live eb_key ?dst \<union> {b'. \<exists>b \<in> set ?bs. ?f b = Some b' \<and> eb_key b' \<noteq> None})"
  proof (rule eht.rehash_wp)
    show "ht_ok eb_key hash_state ?dst" by (rule eht.ok_empty) (use n31 in simp)
    show "distinct (List.map_filter (\<lambda>b. Option.bind (?f b) eb_key) ?bs)"
      unfolding keep_key by (rule eht.distinct_moved [OF ok]) simp
    show "\<forall>b \<in> set ?dst. \<forall>k. eb_key b = Some k \<longrightarrow> k \<notin> set (List.map_filter (\<lambda>b. Option.bind (?f b) eb_key) ?bs)"
      by (simp add: eht.key_empty)
    show "ht_used eb_key ?dst + length (List.map_filter (\<lambda>b. Option.bind (?f b) eb_key) ?bs) \<le> length ?dst"
      unfolding keep_key eht.length_moved using used n(2) by (simp add: eht.used_empty)
  qed
  moreover have "ht_live eb_key ?dst = {}" by (auto simp: ht_live_def eht.key_empty)
  moreover have "{b'. \<exists>b \<in> set ?bs. ?f b = Some b' \<and> eb_key b' \<noteq> None} = ht_live eb_key ?bs"
    by (auto simp: ht_live_def eb_key_def split: if_splits)
  ultimately obtain bs where run: "rehash eb_key hash_state ?f ?bs ?dst = Some bs"
    and bs: "ht_ok eb_key hash_state bs" "length bs = 2 * length ?bs"
      "ht_used eb_key bs = en_used ei" "ht_live eb_key bs = ht_live eb_key ?bs"
    unfolding keep_key eht.length_moved using used n(2) by (auto simp: eht.used_empty elim!: wpE)
  obtain okm al' where al: "f_malloc al = (okm, al')" by (cases "f_malloc al")
  have nil: "al = [] \<longrightarrow> okm \<and> al' = []" using al by auto
  have "mask_ok (2 ^ Suc n)" by (rule mask_ok_pow2) (use n31 in simp)
  moreover have "length ?bs < 2 ^ Suc n" using n(2) by simp
  ultimately show ?thesis
    unfolding grow_endid_buckets_def Let_def new
    using run bs al nil used tab assms(1)
    by (cases okm) (auto simp: wp_simps endid_inv_def endid_tab_def simp del: power_Suc)
qed

lemma endid_find_bucket_wp:
  assumes "endid_inv ei" and "s < BUCKET_NO_STATE" and "length (en_buckets ei) < 2 ^ 31"
  shows "wp (endid_find_bucket al ei s) (\<lambda>(r, ei', al'). endid_inv ei' \<and>
    ht_live eb_key (en_buckets ei') = ht_live eb_key (en_buckets ei) \<and>
    length (en_buckets ei') \<le> max (length (en_buckets ei)) (4 * en_used ei) \<and> en_used ei' = en_used ei \<and>
    (al = [] \<longrightarrow> r \<noteq> None \<and> al' = []) \<and>
    (case r of None \<Rightarrow> True
     | Some j \<Rightarrow> ht_find eb_key hash_state (en_buckets ei') s = Some j \<and> j < length (en_buckets ei') \<and>
         (eb_state (en_buckets ei' ! j) = s \<or>
          eb_state (en_buckets ei' ! j) = BUCKET_NO_STATE \<and> 2 * en_used ei' + 2 \<le> length (en_buckets ei'))))"
proof -
  have find: "\<exists>j. ht_find eb_key hash_state (en_buckets e) s = Some j \<and> j < length (en_buckets e) \<and>
      mask_ok (length (en_buckets e)) \<and> even (length (en_buckets e)) \<and>
      (eb_state (en_buckets e ! j) = s \<or> eb_state (en_buckets e ! j) = BUCKET_NO_STATE)"
    if "endid_inv e" for e
  proof -
    have ok: "ht_ok eb_key hash_state (en_buckets e)" using that by (simp add: endid_inv_def endid_tab_def)
    obtain n where n: "n < 64" "length (en_buckets e) = 2 ^ n" using eht.ok_length [OF ok] by blast
    have "2 \<le> length (en_buckets e)" using that by (simp add: endid_inv_def)
    then have "0 < n" using n by (cases n) auto
    have "ht_used eb_key (en_buckets e) < length (en_buckets e)" using that by (auto simp: endid_inv_def)
    then obtain j where "ht_find eb_key hash_state (en_buckets e) s = Some j" using eht.find_ex [OF ok] by blast
    with eht.find_in [OF ok this] show ?thesis
      using mask_ok_pow2 [OF n(1)] n \<open>0 < n\<close> by (auto simp: eb_key_def split: if_splits)
  qed
  obtain j where j: "ht_find eb_key hash_state (en_buckets ei) s = Some j" "j < length (en_buckets ei)"
    "mask_ok (length (en_buckets ei))" "even (length (en_buckets ei))"
    "eb_state (en_buckets ei ! j) = s \<or> eb_state (en_buckets ei ! j) = BUCKET_NO_STATE"
    using find [OF assms(1)] by blast
  show ?thesis
  proof (cases "eb_state (en_buckets ei ! j) = s \<or> en_used ei \<noteq> length (en_buckets ei) div 2")
    case True
    moreover have "2 * en_used ei \<le> length (en_buckets ei)" using assms(1) by (simp add: endid_inv_def)
    moreover have "2 * (length (en_buckets ei) div 2) = length (en_buckets ei)" using j(4) by simp
    ultimately show ?thesis
      using j assms(1) by (auto simp: endid_find_bucket_def wp_simps)
  next
    case False
    obtain ok ei' al' where run: "grow_endid_buckets al ei = Some (ok, ei', al')"
      and g: "endid_inv ei'" "ht_live eb_key (en_buckets ei') = ht_live eb_key (en_buckets ei)"
        "en_used ei' = en_used ei" "al = [] \<longrightarrow> ok \<and> al' = []"
        "if ok then length (en_buckets ei') = 2 * length (en_buckets ei) else ei' = ei"
      using grow_endid_buckets_wp [OF assms(1,3), of al] by (auto elim!: wpE3)
    show ?thesis
    proof (cases ok)
      case fail: False
      then show ?thesis using False j run g by (auto simp: endid_find_bucket_def wp_simps)
    next
      case True
      obtain i where i: "ht_find eb_key hash_state (en_buckets ei') s = Some i" "i < length (en_buckets ei')"
        "mask_ok (length (en_buckets ei'))"
        "eb_state (en_buckets ei' ! i) = s \<or> eb_state (en_buckets ei' ! i) = BUCKET_NO_STATE"
        using find [OF g(1)] by blast
      have "en_used ei' \<noteq> length (en_buckets ei') div 2" "2 * en_used ei' + 2 \<le> length (en_buckets ei')"
        "length (en_buckets ei') = 2 * length (en_buckets ei)"
        using False True g(3,5) j(2,4) assms(1) by (auto simp: endid_inv_def)
      then show ?thesis
        using False True j run g i by (auto simp: endid_find_bucket_def wp_simps)
    qed
  qed
qed

section \<open>Setting an id\<close>

lemma live_eq_state:
  assumes "ht_ok eb_key hash_state bs" and "b \<in> ht_live eb_key bs" and "c \<in> ht_live eb_key bs" and "eb_state b = eb_state c"
  shows "b = c"
proof -
  obtain s where s: "eb_key b = Some s" "eb_key c = Some s"
    using assms(2-4) by (auto simp: ht_live_def eb_key_def split: if_splits)
  then have "ht_lookup eb_key hash_state bs s = Some b" "ht_lookup eb_key hash_state bs s = Some c"
    using assms eht.lookup_live by auto
  then show ?thesis by simp
qed

text \<open>What is left to show when one bucket has changed.\<close>

lemma endid_update:
  assumes "endid_tab ei" and "ht_ok eb_key hash_state bs" and "ids_ok ids" and "s \<noteq> BUCKET_NO_STATE"
    and "ht_live eb_key bs = insert \<lparr>eb_state = s, eb_ids = ids\<rparr> {b \<in> ht_live eb_key (en_buckets ei). eb_state b \<noteq> s}"
  shows "endid_tab (ei\<lparr>en_buckets := bs, en_used := u\<rparr>)"
    and "endid_ids (ei\<lparr>en_buckets := bs, en_used := u\<rparr>) = (endid_ids ei)(s := id_list ids)"
proof -
  let ?ei = "ei\<lparr>en_buckets := bs, en_used := u\<rparr>" and ?b = "\<lparr>eb_state = s, eb_ids = ids\<rparr>"
  show tab: "endid_tab ?ei" using assms by (auto simp: endid_tab_def)
  show "endid_ids ?ei = (endid_ids ei)(s := id_list ids)"
  proof
    fix t
    show "endid_ids ?ei t = ((endid_ids ei)(s := id_list ids)) t"
    proof (cases "t = s")
      case True
      have "?b \<in> ht_live eb_key (en_buckets ?ei)" using assms(5) by simp
      from endid_ids_Some [OF tab this] show ?thesis using True by simp
    next
      case ne: False
      show ?thesis
      proof (cases "\<exists>b \<in> ht_live eb_key (en_buckets ei). eb_state b = t")
        case True
        then obtain b where b: "b \<in> ht_live eb_key (en_buckets ei)" "eb_state b = t" by blast
        then have "b \<in> ht_live eb_key (en_buckets ?ei)" using ne assms(5) by simp
        then show ?thesis
          using endid_ids_Some [OF tab] endid_ids_Some [OF assms(1) b(1)] b(2) ne by force
      next
        case False
        then have "endid_ids ei t = []" using endid_ids_None [OF assms(1)] by blast
        moreover have "endid_ids ?ei t = []"
          by (rule endid_ids_None [OF tab]) (use False ne assms(5) in auto)
        ultimately show ?thesis using ne by simp
      qed
    qed
  qed
qed

lemma endid_store_old:
  assumes "endid_inv ei" and "ht_find eb_key hash_state (en_buckets ei) s = Some j" and "s < BUCKET_NO_STATE"
    and "eb_state (en_buckets ei ! j) = s" and "ids_ok ids"
  defines "ei' \<equiv> ei\<lparr>en_buckets := (en_buckets ei)[j := (en_buckets ei ! j)\<lparr>eb_ids := ids\<rparr>]\<rparr>"
  shows "endid_inv ei'" and "endid_ids ei' = (endid_ids ei)(s := id_list ids)"
proof -
  let ?bs = "en_buckets ei" and ?b = "(en_buckets ei ! j)\<lparr>eb_ids := ids\<rparr>"
  have ok: "ht_ok eb_key hash_state ?bs" and tab: "endid_tab ei" using assms(1) by (auto simp: endid_inv_def endid_tab_def)
  have j: "j < length ?bs" using eht.find_in [OF ok assms(2)] by simp
  have key: "eb_key (?bs ! j) = Some s" "eb_key ?b = Some s" using assms(3,4) by (auto simp: eb_key_Some)
  have ok': "ht_ok eb_key hash_state (?bs[j := ?b])" using eht.ok_update [OF ok j] key by simp
  have "ht_live eb_key (?bs[j := ?b]) = insert ?b (ht_live eb_key ?bs - {?bs ! j})"
    by (rule eht.live_update [OF ok j key])
  also have "ht_live eb_key ?bs - {?bs ! j} = {b \<in> ht_live eb_key ?bs. eb_state b \<noteq> s}"
    using live_eq_state [OF ok, of _ "?bs ! j"] j key assms(4) by (auto simp: ht_live_def)
  finally have live: "ht_live eb_key (?bs[j := ?b]) =
      insert \<lparr>eb_state = s, eb_ids = ids\<rparr> {b \<in> ht_live eb_key ?bs. eb_state b \<noteq> s}"
    using assms(4) by (cases "?bs ! j") simp
  note upd = endid_update [OF tab ok' assms(5) _ live, of "en_used ei"]
  have ei': "ei' = ei\<lparr>en_buckets := ?bs[j := ?b], en_used := en_used ei\<rparr>" by (simp add: ei'_def)
  show "endid_ids ei' = (endid_ids ei)(s := id_list ids)" using upd(2) assms(3) unfolding ei' by simp
  have "endid_tab ei'" using upd(1) assms(3) unfolding ei' by simp
  moreover have "ht_used eb_key (?bs[j := ?b]) = ht_used eb_key ?bs"
    by (rule eht.used_update [OF j]) (use key in simp)
  ultimately show "endid_inv ei'"
    using assms(1) unfolding endid_inv_def by (simp add: ei'_def)
qed

lemma endid_store_new:
  assumes "endid_inv ei" and "ht_find eb_key hash_state (en_buckets ei) s = Some j" and "s < BUCKET_NO_STATE"
    and "eb_state (en_buckets ei ! j) = BUCKET_NO_STATE" and "2 * en_used ei + 2 \<le> length (en_buckets ei)"
    and "ids_ok ids"
  defines "ei' \<equiv> ei\<lparr>en_buckets := (en_buckets ei)[j := \<lparr>eb_state = s, eb_ids = ids\<rparr>], en_used := en_used ei + 1\<rparr>"
  shows "endid_inv ei'" and "endid_ids ei' = (endid_ids ei)(s := id_list ids)" and "endid_ids ei s = []"
proof -
  let ?bs = "en_buckets ei" and ?b = "\<lparr>eb_state = s, eb_ids = ids\<rparr>"
  have ok: "ht_ok eb_key hash_state ?bs" and tab: "endid_tab ei" using assms(1) by (auto simp: endid_inv_def endid_tab_def)
  have j: "j < length ?bs" using eht.find_in [OF ok assms(2)] by simp
  have key: "eb_key (?bs ! j) = None" "eb_key ?b = Some s" using assms(3,4) by (auto simp: eb_key_Some eb_key_None)
  have ok': "ht_ok eb_key hash_state (?bs[j := ?b])" by (rule eht.ok_insert [OF ok assms(2) key])
  have none: "ht_lookup eb_key hash_state ?bs s = None" using assms(2) key by (simp add: ht_lookup_def)
  then show "endid_ids ei s = []" by (simp add: endid_ids_def)
  have "\<forall>b \<in> set ?bs. eb_key b \<noteq> Some s" using none eht.lookup_None [OF ok] by simp
  then have "{b \<in> ht_live eb_key ?bs. eb_state b \<noteq> s} = ht_live eb_key ?bs"
    using assms(3) by (auto simp: ht_live_def eb_key_Some)
  then have live: "ht_live eb_key (?bs[j := ?b]) = insert ?b {b \<in> ht_live eb_key ?bs. eb_state b \<noteq> s}"
    using eht.live_insert [OF j key(1), of ?b] key(2) by simp
  note upd = endid_update [OF tab ok' assms(6) _ live, of "en_used ei + 1"]
  show "endid_ids ei' = (endid_ids ei)(s := id_list ids)" using upd(2) assms(3) unfolding ei'_def by simp
  have "endid_tab ei'" using upd(1) assms(3) unfolding ei'_def by simp
  moreover have "ht_used eb_key (?bs[j := ?b]) = ht_used eb_key ?bs + 1"
    by (rule eht.used_insert [OF j key(1)]) (use key in simp)
  ultimately show "endid_inv ei'"
    using assms(1,5) unfolding endid_inv_def by (simp add: ei'_def)
qed

text \<open>
  Setting an id: on success exactly that id is added to exactly that state, on failure
  nothing changes, and it only fails when the allocator does. The bound on the number of
  buckets keeps its doubling within \<open>unsigned\<close>.
\<close>

definition endid_added ::
  "alloc \<Rightarrow> endid_info \<Rightarrow> fsm_state_t \<Rightarrow> fsm_end_id_t set \<Rightarrow> bool \<times> endid_info \<times> alloc \<Rightarrow> bool" where
  "endid_added al ei s K = (\<lambda>(ok, ei', al'). endid_inv ei' \<and>
     (\<forall>t. set (endid_ids ei' t) = (if ok \<and> t = s then K \<union> set (endid_ids ei t) else set (endid_ids ei t))) \<and>
     length (en_buckets ei') \<le> max (length (en_buckets ei)) (4 * en_used ei) \<and> en_used ei' \<le> en_used ei + 1 \<and>
     (al = [] \<longrightarrow> ok \<and> al' = []))"

lemma fsm_endid_set_wp:
  assumes "endid_inv ei" and "s < BUCKET_NO_STATE" and "length (en_buckets ei) < 2 ^ 31"
    and "length (endid_ids ei s) < 2 ^ 31"
  shows "wp (fsm_endid_set al ei s k) (endid_added al ei s {k})"
proof -
  obtain r ei1 al1 where run: "endid_find_bucket al ei s = Some (r, ei1, al1)"
    and inv1: "endid_inv ei1" and live: "ht_live eb_key (en_buckets ei1) = ht_live eb_key (en_buckets ei)"
    and len: "length (en_buckets ei1) \<le> max (length (en_buckets ei)) (4 * en_used ei)" "en_used ei1 = en_used ei" and nil: "al = [] \<longrightarrow> r \<noteq> None \<and> al1 = []"
    and r: "case r of None \<Rightarrow> True
     | Some j \<Rightarrow> ht_find eb_key hash_state (en_buckets ei1) s = Some j \<and> j < length (en_buckets ei1) \<and>
         (eb_state (en_buckets ei1 ! j) = s \<or>
          eb_state (en_buckets ei1 ! j) = BUCKET_NO_STATE \<and> 2 * en_used ei1 + 2 \<le> length (en_buckets ei1))"
    using endid_find_bucket_wp [OF assms(1-3), of al] by (auto elim!: wpE3)
  have same: "endid_ids ei1 = endid_ids ei"
    by (rule endid_ids_eq) (use assms(1) inv1 live in \<open>auto simp: endid_inv_def\<close>)
  show ?thesis
  proof (cases r)
    case None
    then show ?thesis using run inv1 same len nil by (simp add: fsm_endid_set_def endid_added_def)
  next
    case (Some j)
    note r = r [unfolded Some option.case]
    show ?thesis
    proof (cases "eb_state (en_buckets ei1 ! j) = s")
      case True
      let ?ids = "eb_ids (en_buckets ei1 ! j)"
      have live_j: "en_buckets ei1 ! j \<in> ht_live eb_key (en_buckets ei1)"
        using r True assms(2) by (auto simp: ht_live_def eb_key_def)
      then have ok: "ids_ok ?ids" and ids: "endid_ids ei1 s = id_list ?ids"
        using inv1 endid_ids_Some [of ei1] True by (auto simp: endid_inv_def endid_tab_def)
      obtain ok ids' al' where ins: "ids_insert al1 ?ids k = Some (ok, ids', al')"
        and post: "ids_ok ids'" "set (id_list ids') = (if ok then insert k (set (id_list ?ids)) else set (id_list ?ids))"
          "al1 = [] \<longrightarrow> ok \<and> al' = []"
        using ids_insert_wp [OF ok, of al1 k] assms(4) ids same by (auto elim!: wpE3)
      note st = endid_store_old [OF inv1 conjunct1 [OF r] assms(2) True post(1)]
      show ?thesis
        using run Some True assms(2) ins st post len nil ids same
        by (auto simp: fsm_endid_set_def endid_added_def)
    next
      case False
      then have new: "eb_state (en_buckets ei1 ! j) = BUCKET_NO_STATE" "2 * en_used ei1 + 2 \<le> length (en_buckets ei1)"
        using r by auto
      obtain ok al' where al: "f_realloc al1 = (ok, al')" by (cases "f_realloc al1")
      have nil1: "al1 = [] \<longrightarrow> ok \<and> al' = []" using al by auto
      have "ids_ok \<lparr>id_list = [k], id_ceil = DEF_BUCKET_ID_COUNT\<rparr>"
        by (simp add: ids_ok_def DEF_BUCKET_ID_COUNT_def)
      note st = endid_store_new [OF inv1 conjunct1 [OF r] assms(2) new this]
      show ?thesis
        using run Some new al nil nil1 len same inv1 st
        by (cases ok) (auto simp: fsm_endid_set_def endid_added_def)
    qed
  qed
qed

section \<open>Reading ids\<close>

lemma endid_find_ids:
  assumes "endid_inv ei" and "s < BUCKET_NO_STATE"
  obtains j where "ht_find eb_key hash_state (en_buckets ei) s = Some j"
    and "mask_ok (length (en_buckets ei))"
    and "if eb_state (en_buckets ei ! j) = BUCKET_NO_STATE then endid_ids ei s = []
      else endid_ids ei s = id_list (eb_ids (en_buckets ei ! j)) \<and> eb_state (en_buckets ei ! j) = s"
proof -
  have ok: "ht_ok eb_key hash_state (en_buckets ei)" using assms(1) by (simp add: endid_inv_def endid_tab_def)
  obtain n where n: "n < 64" "length (en_buckets ei) = 2 ^ n" using eht.ok_length [OF ok] by blast
  have "ht_used eb_key (en_buckets ei) < length (en_buckets ei)" using assms(1) by (auto simp: endid_inv_def)
  then obtain j where j: "ht_find eb_key hash_state (en_buckets ei) s = Some j" using eht.find_ex [OF ok] by blast
  have "eb_key (en_buckets ei ! j) = None \<or> eb_key (en_buckets ei ! j) = Some s"
    using eht.find_in [OF ok j] by simp
  then show thesis
    using that [OF j] mask_ok_pow2 [OF n(1)] n(2) j
    by (auto simp: endid_ids_def ht_lookup_def eb_key_def split: if_splits)
qed

lemma fsm_endid_count_wp:
  assumes "endid_inv ei" and "s < BUCKET_NO_STATE"
  shows "wp (fsm_endid_count ei s) (\<lambda>n. n = length (endid_ids ei s))"
  using assms by (rule endid_find_ids) (auto simp: fsm_endid_count_def wp_simps split: if_splits)

lemma endid_ids_asc: "endid_inv ei \<Longrightarrow> asc (endid_ids ei s)"
  using eht.lookup_live [of "en_buckets ei" s]
  by (auto simp: endid_ids_def endid_inv_def endid_tab_def ids_ok_def split: option.split)

lemma fsm_endid_get_wp:
  assumes "endid_inv ei" and "s < BUCKET_NO_STATE"
  shows "wp (fsm_endid_get ei s n) (\<lambda>(ok, ids). ok = (length (endid_ids ei s) \<le> n) \<and> (ok \<longrightarrow> ids = endid_ids ei s))"
  using endid_ids_asc [OF assms(1), of s] assms
  by (rule_tac endid_find_ids [OF assms]) (auto simp: fsm_endid_get_def wp_simps sorted_sort_id asc_sorted split: if_splits)

section \<open>Setting many ids\<close>

lemma dedup_ids_take:
  assumes "length a = length xs" and "0 < i" and "i \<le> length xs" and "j \<le> i"
    and "take j a = remdups_adj (take i xs)" and "\<forall>k. i - 1 \<le> k \<longrightarrow> k < length xs \<longrightarrow> a ! k = xs ! k"
  shows "case dedup_ids a i j of (a', j') \<Rightarrow> take j' a' = remdups_adj xs \<and> j' \<le> length a'"
  using assms
proof (induction a i j rule: dedup_ids.induct)
  case (1 a i j)
  note prems = "1.prems"
  show ?case
  proof (cases "i < length xs")
    case False
    then show ?thesis using prems by (subst dedup_ids.simps) simp
  next
    case True
    have nth: "a ! (i - 1) = xs ! (i - 1)" "a ! i = xs ! i" using prems True by auto
    note take = remdups_adj_take_Suc [OF prems(2) True]
    show ?thesis
    proof (cases "xs ! (i - 1) = xs ! i")
      case eq: True
      then have "dedup_ids a i j = dedup_ids a (i + 1) j"
        using True nth prems by (subst dedup_ids.simps) simp
      then show ?thesis
        using "1.IH"(2) True eq nth prems take by auto
    next
      case neq: False
      then have step: "dedup_ids a i j = dedup_ids (a[j := a ! i]) (i + 1) (j + 1)"
        using True nth prems by (subst dedup_ids.simps) simp
      have "j < length a" using prems True by simp
      then have "take (j + 1) (a[j := a ! i]) = remdups_adj (take (i + 1) xs)"
        using take neq nth prems by (simp add: take_Suc_conv_app_nth)
      moreover have "\<forall>k. i + 1 - 1 \<le> k \<longrightarrow> k < length xs \<longrightarrow> a[j := a ! i] ! k = xs ! k"
        using prems by (auto simp: nth_list_update)
      ultimately show ?thesis
        unfolding step using "1.IH"(1) True neq nth prems by simp
    qed
  qed
qed

lemma sort_unique_eq:
  assumes "ids \<noteq> []"
  shows "sort_unique (ids @ rest) (length ids) = Some (remdups_adj (sort ids))"
proof -
  have "sort ids \<noteq> []" using assms by (metis set_empty set_sort)
  then have "take 1 (sort ids) = remdups_adj (take 1 (sort ids))" by (cases "sort ids") auto
  then have "case dedup_ids (sort ids) 1 1 of (a', j') \<Rightarrow> take j' a' = remdups_adj (sort ids) \<and> j' \<le> length a'"
    by (intro dedup_ids_take) (use \<open>sort ids \<noteq> []\<close> in \<open>auto simp: Suc_le_eq\<close>)
  then show ?thesis by (auto simp: sort_unique_def c_assert_def split: prod.splits)
qed

lemma sort_unique_none: "sort_unique a 0 = (if a = [] then None else Some [hd a])"
  by (cases a) (simp_all add: sort_unique_def c_assert_def dedup_ids.simps)

lemma ids_ok_sorted:
  assumes "ids \<noteq> []" and "length ids \<le> n"
  shows "ids_ok \<lparr>id_list = remdups_adj (sort ids), id_ceil = n\<rparr>"
proof -
  have "length (remdups_adj (sort ids)) \<le> length (sort ids)" by (rule remdups_adj_length)
  moreover have "remdups_adj (sort ids) \<noteq> []" using assms(1) by (metis remdups_adj_set set_empty set_sort)
  ultimately show ?thesis using assms(2) by (simp add: ids_ok_def asc_remdups_adj)
qed

lemma double_until_ge:
  "0 < n \<Longrightarrow> m \<le> limit + 1 \<Longrightarrow> m \<le> double_until limit n m"
  by (induction limit n m rule: double_until.induct) (subst double_until.simps, auto)

lemma double_until_less: "double_until limit n m < max (Suc n) (2 * m)"
proof (induction limit n m rule: double_until.induct)
  case (1 limit n m)
  then show ?case by (subst double_until.simps) (auto simp: max_def split: if_splits)
qed

lemmas double_until_limits = SIZE_MAX_def DEF_BUCKET_ID_COUNT_def

text \<open>The bulk operation with ids to set, on a state with or without ids.\<close>

definition bulk_prev :: "fsm_endid_bulk_op \<Rightarrow> fsm_end_id_t list \<Rightarrow> fsm_end_id_t list" where
  "bulk_prev op ids = (if op = FSM_ENDID_BULK_REPLACE then [] else ids)"

lemma fsm_endid_set_bulk_wp:
  assumes "endid_inv ei" and "s < BUCKET_NO_STATE" and "length (en_buckets ei) < 2 ^ 31"
    and "ids \<noteq> []" and "length ids + length (endid_ids ei s) \<le> 2 ^ 31"
  shows "wp (fsm_endid_set_bulk al ei s ids op) (\<lambda>(ok, ei', al'). endid_inv ei' \<and>
    endid_ids ei' = (if ok then (endid_ids ei)(s := remdups_adj (sort (bulk_prev op (endid_ids ei s) @ ids)))
      else endid_ids ei) \<and>
    length (en_buckets ei') \<le> max (length (en_buckets ei)) (4 * en_used ei) \<and> en_used ei' \<le> en_used ei + 1 \<and>
    (al = [] \<longrightarrow> ok \<and> al' = []))"
proof -
  obtain r ei1 al1 where run: "endid_find_bucket al ei s = Some (r, ei1, al1)"
    and inv1: "endid_inv ei1" and live: "ht_live eb_key (en_buckets ei1) = ht_live eb_key (en_buckets ei)"
    and len: "length (en_buckets ei1) \<le> max (length (en_buckets ei)) (4 * en_used ei)" "en_used ei1 = en_used ei" and nil: "al = [] \<longrightarrow> r \<noteq> None \<and> al1 = []"
    and r: "case r of None \<Rightarrow> True
     | Some j \<Rightarrow> ht_find eb_key hash_state (en_buckets ei1) s = Some j \<and> j < length (en_buckets ei1) \<and>
         (eb_state (en_buckets ei1 ! j) = s \<or>
          eb_state (en_buckets ei1 ! j) = BUCKET_NO_STATE \<and> 2 * en_used ei1 + 2 \<le> length (en_buckets ei1))"
    using endid_find_bucket_wp [OF assms(1-3), of al] by (auto elim!: wpE3)
  have same: "endid_ids ei1 = endid_ids ei"
    by (rule endid_ids_eq) (use assms(1) inv1 live in \<open>auto simp: endid_inv_def\<close>)
  show ?thesis
  proof (cases r)
    case None
    then show ?thesis using run inv1 same len nil by (simp add: fsm_endid_set_bulk_def)
  next
    case (Some j)
    note r = r [unfolded Some option.case]
    obtain ok al' where al: "f_realloc al1 = (ok, al')" by (cases "f_realloc al1")
    have nil1: "al1 = [] \<longrightarrow> ok \<and> al' = []" using al by auto
    show ?thesis
    proof (cases "eb_state (en_buckets ei1 ! j) = s")
      case True
      let ?b = "en_buckets ei1 ! j"
      let ?prev = "bulk_prev op (id_list (eb_ids ?b))"
      have live_j: "?b \<in> ht_live eb_key (en_buckets ei1)"
        using r True assms(2) by (auto simp: ht_live_def eb_key_def)
      then have idok: "ids_ok (eb_ids ?b)" using inv1 by (auto simp: endid_inv_def endid_tab_def)
      then have ceil: "0 < id_ceil (eb_ids ?b)" by (cases "id_list (eb_ids ?b)") (auto simp: ids_ok_def)
      have ids: "endid_ids ei s = id_list (eb_ids ?b)"
        using inv1 endid_ids_Some [OF _ live_j] True same by (simp add: endid_inv_def)
      then have tot: "length ids + length ?prev \<le> 2 ^ 31" using assms(5) by (simp add: bulk_prev_def)
      let ?n = "double_until (SIZE_MAX div 2) (2 * id_ceil (eb_ids ?b)) (length ids + length ?prev)"
      have n: "length ids + length ?prev \<le> ?n"
        using ceil tot by (intro double_until_ge) (auto simp: double_until_limits)
      have st: "endid_inv (ei1\<lparr>en_buckets := (en_buckets ei1)[j := ?b\<lparr>eb_ids :=
            \<lparr>id_list = remdups_adj (sort (?prev @ ids)), id_ceil = c\<rparr>\<rparr>]\<rparr>) \<and>
          endid_ids (ei1\<lparr>en_buckets := (en_buckets ei1)[j := ?b\<lparr>eb_ids :=
            \<lparr>id_list = remdups_adj (sort (?prev @ ids)), id_ceil = c\<rparr>\<rparr>]\<rparr>)
          = (endid_ids ei)(s := remdups_adj (sort (?prev @ ids)))"
        if "length ids + length ?prev \<le> c" for c
        using endid_store_old [OF inv1 conjunct1 [OF r] assms(2) True ids_ok_sorted [of "?prev @ ids" c]]
          assms(4) that same by simp
      have su: "sort_unique (?prev @ ids @ rest) (length ids + length ?prev) = Some (remdups_adj (sort (?prev @ ids)))" for rest
        using sort_unique_eq [of "?prev @ ids" rest] assms(4) by (simp add: add.commute)
      show ?thesis
      proof (cases "length ids + length ?prev > id_ceil (eb_ids ?b)")
        case big: True
        have dbl: "2 * id_ceil (eb_ids ?b) mod 2 ^ 32 = 2 * id_ceil (eb_ids ?b)"
          using big tot by (intro mod_less) simp
        have "?n < 2 ^ 32"
          using double_until_less [of "SIZE_MAX div 2" "2 * id_ceil (eb_ids ?b)" "length ids + length ?prev"] big tot
          by simp
        then have trunc: "?n mod 2 ^ 32 = ?n" by (rule mod_less)
        show ?thesis
          using run Some True al nil nil1 len same inv1 st [OF n] su n big ids dbl trunc ceil
          by (cases ok) (simp_all add: fsm_endid_set_bulk_def c_assert_def Let_def flip: bulk_prev_def)
      next
        case False
        then show ?thesis
          using run Some True nil len st [of "id_ceil (eb_ids ?b)"] su ids
          by (simp add: fsm_endid_set_bulk_def c_assert_def Let_def flip: bulk_prev_def)
      qed
    next
      case False
      then have new: "eb_state (en_buckets ei1 ! j) = BUCKET_NO_STATE" "2 * en_used ei1 + 2 \<le> length (en_buckets ei1)"
        using r by auto
      let ?n = "double_until (SIZE_MAX div 2 - 1) DEF_BUCKET_ID_COUNT (length ids)"
      have n: "length ids \<le> ?n"
        using assms(5) by (intro double_until_ge) (auto simp: double_until_limits)
      have "?n < 2 ^ 32"
        using double_until_less [of "SIZE_MAX div 2 - 1" DEF_BUCKET_ID_COUNT "length ids"] assms(5)
        by (simp add: DEF_BUCKET_ID_COUNT_def max_def split: if_splits)
      then have trunc: "?n mod 2 ^ 32 = ?n" by (rule mod_less)
      note st = endid_store_new [OF inv1 conjunct1 [OF r] assms(2) new ids_ok_sorted [OF assms(4) n]]
      have none: "endid_ids ei s = []" using st(3) same by simp
      show ?thesis
        using run Some False new al nil nil1 len same inv1 st n trunc none sort_unique_eq [OF assms(4), of "[]"]
        by (cases ok) (simp_all add: fsm_endid_set_bulk_def c_assert_def Let_def bulk_prev_def)
    qed
  qed
qed

lemma endid_ids_live_ne:
  "endid_tab ei \<Longrightarrow> b \<in> ht_live eb_key (en_buckets ei) \<Longrightarrow> endid_ids ei (eb_state b) \<noteq> []"
  by (simp add: endid_ids_Some) (simp add: endid_tab_def ids_ok_def)

text \<open>
  Without an id to set, a state with ids keeps the first of them under
  \<open>FSM_ENDID_BULK_REPLACE\<close>, and all of them otherwise; a state without ids would get one that
  was never written.
\<close>

lemma fsm_endid_set_bulk_none:
  assumes "endid_inv ei" and "s < BUCKET_NO_STATE" and "length (en_buckets ei) < 2 ^ 31"
  shows "if endid_ids ei s = []
    then (al = [] \<longrightarrow> fsm_endid_set_bulk al ei s [] op = None) \<and>
      (\<forall>ei' al'. fsm_endid_set_bulk al ei s [] op \<noteq> Some (True, ei', al'))
    else wp (fsm_endid_set_bulk al ei s [] op) (\<lambda>(ok, ei', al'). endid_inv ei' \<and> (al = [] \<longrightarrow> ok) \<and>
      endid_ids ei' = (if ok then (endid_ids ei)(s := if op = FSM_ENDID_BULK_REPLACE then [hd (endid_ids ei s)]
        else endid_ids ei s) else endid_ids ei))"
proof -
  obtain r ei1 al1 where run: "endid_find_bucket al ei s = Some (r, ei1, al1)"
    and inv1: "endid_inv ei1" and live: "ht_live eb_key (en_buckets ei1) = ht_live eb_key (en_buckets ei)"
    and nil: "al = [] \<longrightarrow> r \<noteq> None \<and> al1 = []"
    and r: "case r of None \<Rightarrow> True
     | Some j \<Rightarrow> ht_find eb_key hash_state (en_buckets ei1) s = Some j \<and> j < length (en_buckets ei1) \<and>
         (eb_state (en_buckets ei1 ! j) = s \<or>
          eb_state (en_buckets ei1 ! j) = BUCKET_NO_STATE \<and> 2 * en_used ei1 + 2 \<le> length (en_buckets ei1))"
    using endid_find_bucket_wp [OF assms(1-3), of al] by (auto elim!: wpE3)
  have same: "endid_ids ei1 = endid_ids ei"
    by (rule endid_ids_eq) (use assms(1) inv1 live in \<open>auto simp: endid_inv_def\<close>)
  show ?thesis
  proof (cases r)
    case None
    then show ?thesis using run inv1 same nil by (simp add: fsm_endid_set_bulk_def)
  next
    case (Some j)
    note r = r [unfolded Some option.case]
    show ?thesis
    proof (cases "eb_state (en_buckets ei1 ! j) = s")
      case True
      let ?b = "en_buckets ei1 ! j"
      let ?old = "id_list (eb_ids ?b)" and ?c = "id_ceil (eb_ids ?b)"
      let ?new = "if op = FSM_ENDID_BULK_REPLACE then [hd ?old] else ?old"
      have live_j: "?b \<in> ht_live eb_key (en_buckets ei1)"
        using r True assms(2) by (auto simp: ht_live_def eb_key_def)
      then have idok: "ids_ok (eb_ids ?b)" using inv1 by (auto simp: endid_inv_def endid_tab_def)
      have ids: "endid_ids ei s = ?old"
        using inv1 endid_ids_Some [OF _ live_j] True same by (simp add: endid_inv_def)
      have old: "asc ?old" "?old \<noteq> []" "length ?old \<le> ?c" using idok by (auto simp: ids_ok_def)
      have "remdups_adj (sort ?old) = ?old"
        using old(1) by (simp add: sorted_sort_id asc_sorted remdups_adj_distinct asc_distinct)
      then have "sort_unique ?old (length ?old) = Some ?old" using sort_unique_eq [OF old(2), of "[]"] by simp
      then have run': "fsm_endid_set_bulk al ei s [] op = Some (True, ei1\<lparr>en_buckets := (en_buckets ei1)[j :=
          ?b\<lparr>eb_ids := \<lparr>id_list = ?new, id_ceil = ?c\<rparr>\<rparr>]\<rparr>, al1)"
        using run Some True old by (simp add: fsm_endid_set_bulk_def c_assert_def Let_def sort_unique_none)
      have "0 < ?c" using old(2,3) by (cases ?old) auto
      then have "ids_ok \<lparr>id_list = ?new, id_ceil = ?c\<rparr>" using old by (auto simp: ids_ok_def Suc_le_eq)
      from endid_store_old [OF inv1 conjunct1 [OF r] assms(2) True this]
      show ?thesis using run' ids old same by simp
    next
      case False
      then have "eb_state (en_buckets ei1 ! j) = BUCKET_NO_STATE" "2 * en_used ei1 + 2 \<le> length (en_buckets ei1)"
        using r by auto
      note st = endid_store_new [OF inv1 conjunct1 [OF r] assms(2) this, of "\<lparr>id_list = [0], id_ceil = 1\<rparr>"]
      have none: "endid_ids ei s = []" using st(3) same by (simp add: ids_ok_def)
      show ?thesis
        using run Some False nil none \<open>eb_state _ = _\<close>
        by (cases "f_realloc al1") (auto simp: fsm_endid_set_bulk_def c_assert_def Let_def sort_unique_none split: Option.bind_splits if_splits)
    qed
  qed
qed

section \<open>Compaction\<close>

definition moved_bucket :: "fsm_state_t list \<Rightarrow> endid_info_bucket \<Rightarrow> endid_info_bucket option" where
  "moved_bucket mapping b =
     (if eb_state b = BUCKET_NO_STATE then None
      else if mapping ! eb_state b = FSM_STATE_REMAP_NO_STATE then None
      else Some (b\<lparr>eb_state := mapping ! eb_state b\<rparr>))"

lemma moved_key:
  "Option.bind (moved_bucket mapping b) eb_key = Some t \<longleftrightarrow>
     eb_key b \<noteq> None \<and> mapping ! eb_state b = t \<and> t \<noteq> FSM_STATE_REMAP_NO_STATE"
  by (auto simp: moved_bucket_def eb_key_def BUCKET_NO_STATE_def FSM_STATE_REMAP_NO_STATE_def)

lemma length_map_filter_le: "length (List.map_filter g xs) \<le> length (filter (\<lambda>x. g x \<noteq> None) xs)"
  by (simp add: List.map_filter_def)

text \<open>
  After a renumbering of the states the ids of a kept state are found under its new number
  and no other state has any. The count of used buckets is not touched, so it stays right
  only when no state with ids was dropped.
\<close>

lemma fsm_endid_compact_wp:
  assumes "endid_inv ei" and "remap_inj mapping"
    and "\<forall>b \<in> ht_live eb_key (en_buckets ei). eb_state b < length mapping"
  shows "wp (fsm_endid_compact al ei mapping) (\<lambda>(ok, ei', al').
    endid_tab ei' \<and> en_used ei' = en_used ei \<and> length (en_buckets ei') = length (en_buckets ei) \<and>
    ht_used eb_key (en_buckets ei') \<le> en_used ei \<and>
    (if ok then
       (\<forall>s < length mapping. mapping ! s \<noteq> FSM_STATE_REMAP_NO_STATE \<longrightarrow> endid_ids ei' (mapping ! s) = endid_ids ei s) \<and>
       (\<forall>t. (\<forall>s < length mapping. mapping ! s \<noteq> t) \<longrightarrow> endid_ids ei' t = [])
     else ei' = ei) \<and> (al = [] \<longrightarrow> ok \<and> al' = []))"
proof -
  let ?bs = "en_buckets ei" and ?f = "moved_bucket mapping"
  have tab: "endid_tab ei" and ok: "ht_ok eb_key hash_state ?bs" and used: "en_used ei = ht_used eb_key ?bs"
    using assms(1) by (auto simp: endid_inv_def endid_tab_def)
  show ?thesis
  proof (cases "mapping = [0..<length mapping]")
    case True
    have "mapping ! s = s" if "s < length mapping" for s using that by (subst True) simp
    moreover have "endid_ids ei t = []" if "\<forall>s < length mapping. mapping ! s \<noteq> t" for t
      by (rule endid_ids_None [OF tab]) (use that assms(3) calculation in auto)
    ultimately show ?thesis using True tab used by (auto simp: fsm_endid_compact_def)
  next
    case False
    obtain okm al' where al: "f_malloc al = (okm, al')" by (cases "f_malloc al")
    then have nil: "al = [] \<longrightarrow> okm \<and> al' = []" by auto
    obtain n where n: "n < 64" "length ?bs = 2 ^ n" using eht.ok_length [OF ok] by blast
    let ?dst = "replicate (length ?bs) eb_empty"
    let ?keys = "List.map_filter (\<lambda>b. Option.bind (?f b) eb_key) ?bs"
    have okd: "ht_ok eb_key hash_state ?dst" using eht.ok_empty [OF n(1)] n(2) by simp
    have dist: "distinct ?keys"
    proof (rule eht.distinct_moved [OF ok])
      fix b c t
      assume "b \<in> set ?bs" "c \<in> set ?bs" "Option.bind (?f b) eb_key = Some t" "Option.bind (?f c) eb_key = Some t"
      moreover from this have "eb_state b = eb_state c"
        using assms(2,3) unfolding moved_key remap_inj_def by (auto simp: ht_live_def inj_on_def)
      ultimately show "eb_key b \<noteq> None \<and> eb_key b = eb_key c" by (auto simp: moved_key eb_key_def)
    qed
    have "length ?keys \<le> length (filter (\<lambda>b. Option.bind (?f b) eb_key \<noteq> None) ?bs)"
      by (rule length_map_filter_le)
    also have "\<dots> \<le> ht_used eb_key ?bs"
      unfolding ht_used_def
    proof (rule length_filter_mono)
      fix b assume "Option.bind (?f b) eb_key \<noteq> None"
      then obtain t where "Option.bind (?f b) eb_key = Some t" by blast
      then show "eb_key b \<noteq> None" using moved_key by metis
    qed
    finally have le: "length ?keys \<le> ht_used eb_key ?bs" .
    have lek: "length ?keys \<le> length ?bs" using le eht.used_le [of ?bs] by linarith
    have emp: "ht_live eb_key ?dst = {}" by (auto simp: ht_live_def eht.key_empty)
    obtain bs' where re: "rehash eb_key hash_state ?f ?bs ?dst = Some bs'"
      and ok': "ht_ok eb_key hash_state bs'" and len': "length bs' = length ?bs"
      and used': "ht_used eb_key bs' = length ?keys"
      and live: "ht_live eb_key bs' = {b'. \<exists>b \<in> set ?bs. ?f b = Some b' \<and> eb_key b' \<noteq> None}"
      using eht.rehash_wp [OF okd dist] lek eht.used_empty [of "length ?bs"] emp
      by (auto elim!: wpE simp: eht.key_empty)
    let ?ei = "ei\<lparr>en_buckets := bs'\<rparr>"
    have live': "ht_live eb_key bs' = {b\<lparr>eb_state := mapping ! eb_state b\<rparr> |b. b \<in> ht_live eb_key ?bs \<and>
        mapping ! eb_state b \<noteq> FSM_STATE_REMAP_NO_STATE}"
      unfolding live by (auto simp: moved_bucket_def ht_live_def eb_key_def
          BUCKET_NO_STATE_def FSM_STATE_REMAP_NO_STATE_def split: if_splits)
    have tab': "endid_tab ?ei" using tab ok' live' by (auto simp: endid_tab_def)
    have kept: "endid_ids ?ei (mapping ! s) = endid_ids ei s"
      if s: "s < length mapping" "mapping ! s \<noteq> FSM_STATE_REMAP_NO_STATE" for s
    proof (cases "\<exists>b \<in> ht_live eb_key ?bs. eb_state b = s")
      case True
      then obtain b where b: "b \<in> ht_live eb_key ?bs" "eb_state b = s" by blast
      then have "b\<lparr>eb_state := mapping ! s\<rparr> \<in> ht_live eb_key (en_buckets ?ei)" using s live' by auto
      from endid_ids_Some [OF tab' this] endid_ids_Some [OF tab b(1)] b(2) show ?thesis by simp
    next
      case False
      then have "endid_ids ei s = []" by (intro endid_ids_None [OF tab]) blast
      moreover have "endid_ids ?ei (mapping ! s) = []"
        using False s assms(2,3) unfolding remap_inj_def
        by (intro endid_ids_None [OF tab']) (auto simp: live' inj_on_def)
      ultimately show ?thesis by simp
    qed
    have others: "endid_ids ?ei t = []" if "\<forall>s < length mapping. mapping ! s \<noteq> t" for t
      by (rule endid_ids_None [OF tab']) (use that assms(3) live' in auto)
    have inb: "list_all (\<lambda>b. eb_state b = BUCKET_NO_STATE \<or> eb_state b < length mapping) ?bs"
      using assms(3) by (auto simp: list_all_iff ht_live_def eb_key_def)
    show ?thesis
      using False al nil n mask_ok_pow2 [OF n(1)] inb re used used' le len' tab tab' kept others
      by (cases okm) (simp_all add: fsm_endid_compact_def c_assert_def flip: moved_bucket_def)
  qed
qed

lemma endid_used_card:
  assumes "endid_tab ei"
  shows "ht_used eb_key (en_buckets ei) = card {s. endid_ids ei s \<noteq> []}"
proof -
  let ?bs = "en_buckets ei"
  let ?keys = "List.map_filter (\<lambda>b. Option.bind (Some b) eb_key) ?bs"
  have ok: "ht_ok eb_key hash_state ?bs" using assms by (simp add: endid_tab_def)
  have "distinct ?keys" by (rule eht.distinct_moved [OF ok]) auto
  then have "length ?keys = card (set ?keys)" by (simp add: distinct_card)
  moreover have "length ?keys = ht_used eb_key ?bs" by (simp add: List.map_filter_def ht_used_def)
  moreover have "set ?keys = {s. endid_ids ei s \<noteq> []}"
  proof (intro set_eqI iffI)
    fix s assume "s \<in> set ?keys"
    then obtain b where "b \<in> ht_live eb_key ?bs" "eb_state b = s"
      by (auto simp: set_map_filter_Some ht_live_def eb_key_Some)
    then show "s \<in> {s. endid_ids ei s \<noteq> []}" using endid_ids_live_ne [OF assms] by blast
  next
    fix s assume "s \<in> {s. endid_ids ei s \<noteq> []}"
    then obtain b where "b \<in> ht_live eb_key ?bs" "eb_state b = s" using endid_ids_None [OF assms] by blast
    then show "s \<in> set ?keys" by (auto simp: set_map_filter_Some ht_live_def eb_key_def split: if_splits)
  qed
  ultimately show ?thesis by simp
qed

text \<open>
  A compaction that drops a state with ids leaves \<open>buckets_used\<close> above the number of used
  buckets. The next growth of the table then fails its assertion that it moved as many.
\<close>

lemma stale_used_grow: "ht_used eb_key (en_buckets ei) \<noteq> en_used ei \<Longrightarrow> grow_endid_buckets [] ei = None"
  by (simp add: grow_endid_buckets_def c_assert_def Let_def split: Option.bind_splits)

lemma stale_used_set:
  assumes "endid_tab ei" and "ht_used eb_key (en_buckets ei) \<noteq> en_used ei" and "2 * en_used ei = length (en_buckets ei)"
    and "s < BUCKET_NO_STATE" and "endid_ids ei s = []"
  shows "fsm_endid_set [] ei s k = None"
proof -
  have "endid_find_bucket [] ei s = None"
  proof (cases "ht_find eb_key hash_state (en_buckets ei) s")
    case (Some j)
    have "j < length (en_buckets ei)" using assms(1) eht.find_in Some by (auto simp: endid_tab_def)
    then have "eb_state (en_buckets ei ! j) \<noteq> s"
      using endid_ids_live_ne [OF assms(1), of "en_buckets ei ! j"] assms(4,5) by (auto simp: ht_live_def eb_key_def)
    moreover have "en_used ei = length (en_buckets ei) div 2" using assms(3) by linarith
    ultimately show ?thesis
      using Some stale_used_grow [OF assms(2)] by (simp add: endid_find_bucket_def)
  qed (simp add: endid_find_bucket_def)
  then show ?thesis by (simp add: fsm_endid_set_def)
qed

lemma fsm_endid_compact_stale:
  assumes "endid_inv ei" and "remap_inj mapping" and "\<forall>s. endid_ids ei s \<noteq> [] \<longrightarrow> s < length mapping"
    and "endid_ids ei d \<noteq> []" and "mapping ! d = FSM_STATE_REMAP_NO_STATE"
  shows "wp (fsm_endid_compact al ei mapping) (\<lambda>(ok, ei', al'). endid_tab ei' \<and> (al = [] \<longrightarrow> ok) \<and>
    en_used ei' = en_used ei \<and> length (en_buckets ei') = length (en_buckets ei) \<and>
    (ok \<longrightarrow> ht_used eb_key (en_buckets ei') < en_used ei))"
proof -
  have tab: "endid_tab ei" using assms(1) by (simp add: endid_inv_def)
  have lim: "\<forall>b \<in> ht_live eb_key (en_buckets ei). eb_state b < length mapping"
    using assms(3) endid_ids_live_ne [OF tab] by blast
  let ?S = "{s. endid_ids ei s \<noteq> []}"
  have fin: "finite ?S" by (rule finite_subset [of _ "{..<length mapping}"]) (use assms(3) in auto)
  have used: "card ?S = en_used ei" using assms(1) endid_used_card [OF tab] by (simp add: endid_inv_def)
  have no: "endid_ids ei' FSM_STATE_REMAP_NO_STATE = []" if "endid_tab ei'" for ei'
    by (rule endid_ids_None [OF that])
      (auto simp: ht_live_def eb_key_def BUCKET_NO_STATE_def FSM_STATE_REMAP_NO_STATE_def)
  show ?thesis
  proof (rule wp_mono [OF fsm_endid_compact_wp [OF assms(1,2) lim]], clarify, intro conjI)
    fix ok ei' al'
    assume tab': "endid_tab ei'" and ids: "if ok then
       (\<forall>s < length mapping. mapping ! s \<noteq> FSM_STATE_REMAP_NO_STATE \<longrightarrow> endid_ids ei' (mapping ! s) = endid_ids ei s) \<and>
       (\<forall>t. (\<forall>s < length mapping. mapping ! s \<noteq> t) \<longrightarrow> endid_ids ei' t = [])
     else ei' = ei"
    show "ok \<longrightarrow> ht_used eb_key (en_buckets ei') < en_used ei"
    proof
      assume ok: ok
      have "{t. endid_ids ei' t \<noteq> []} \<subseteq> (!) mapping ` (?S - {d})"
      proof
        fix t assume t: "t \<in> {t. endid_ids ei' t \<noteq> []}"
        then have "t \<noteq> FSM_STATE_REMAP_NO_STATE" using no [OF tab'] by auto
        moreover obtain s where "s < length mapping" "mapping ! s = t" using t ids ok by auto
        ultimately show "t \<in> (!) mapping ` (?S - {d})" using t ids ok assms(5) by auto
      qed
      then have "card {t. endid_ids ei' t \<noteq> []} \<le> card (?S - {d})"
        using fin by (meson card_image_le card_mono finite_Diff finite_imageI le_trans)
      also have "\<dots> < card ?S" using fin assms(4) by (intro psubset_card_mono) auto
      finally show "ht_used eb_key (en_buckets ei') < en_used ei"
        using used endid_used_card [OF tab'] by simp
    qed
  qed auto
qed

section \<open>A table at work\<close>

text \<open>The table of a new automaton.\<close>

lemma new_endids:
  "endid_inv \<lparr>en_buckets = replicate DEF_BUCKET_COUNT eb_empty, en_used = 0\<rparr>"
  "ht_live eb_key (replicate DEF_BUCKET_COUNT eb_empty) = {}"
  using eht.ok_empty [of 2]
  by (auto simp: endid_inv_def endid_tab_def eht.used_empty ht_live_def eht.key_empty DEF_BUCKET_COUNT_def)

lemma new_endids_none: "endid_ids \<lparr>en_buckets = replicate DEF_BUCKET_COUNT eb_empty, en_used = 0\<rparr> s = []"
  using endid_ids_None [of "\<lparr>en_buckets = replicate DEF_BUCKET_COUNT eb_empty, en_used = 0\<rparr>" s] new_endids
  by (simp add: endid_inv_def)

lemma hash_values:
  "hash_state 0 = 5180492295206395165" "hash_state (Suc 0) = 10360984590412790330"
  by (simp_all add: hash_state_def hash_id_def)

lemma probes_4_8:
  "probes (hash_state 0) 4 = [1, 2, 3, 0]" "probes (hash_state (Suc 0)) 4 = [2, 3, 0, 1]"
  "probes (hash_state 0) 8 = [5, 6, 7, 0, 1, 2, 3, 4]"
  "probes (hash_state (Suc 0)) 8 = [2, 3, 4, 5, 6, 7, 0, 1]"
  by (simp_all add: probes_def hash_values slot_index_def upt_rec)

lemma masks_4_8: "mask_ok 4" "mask_ok 8"
  by (simp_all add: mask_ok_def)

text \<open>A new table in which one and then two states were given an id: half of its buckets are used.\<close>

definition one_endid :: endid_info where
  "one_endid =
     \<lparr>en_buckets = [eb_empty, \<lparr>eb_state = 0, eb_ids = \<lparr>id_list = [7], id_ceil = DEF_BUCKET_ID_COUNT\<rparr>\<rparr>,
        eb_empty, eb_empty], en_used = 1\<rparr>"

definition two_endids :: endid_info where
  "two_endids =
     \<lparr>en_buckets = [eb_empty, \<lparr>eb_state = 0, eb_ids = \<lparr>id_list = [7], id_ceil = DEF_BUCKET_ID_COUNT\<rparr>\<rparr>,
        \<lparr>eb_state = 1, eb_ids = \<lparr>id_list = [9], id_ceil = DEF_BUCKET_ID_COUNT\<rparr>\<rparr>, eb_empty], en_used = 2\<rparr>"

lemmas endid_table_eval =
  fsm_endid_set_def endid_find_bucket_def grow_endid_buckets_def DEF_BUCKET_COUNT_def ht_find_def ht_free_def
  probes_4_8 masks_4_8 eb_key_def eb_empty_def c_assert_def two_endids_def one_endid_def
  BUCKET_NO_STATE_def FSM_STATE_REMAP_NO_STATE_def

lemma replicate_4: "replicate 4 x = [x, x, x, x]" "Suc (Suc 0) = 2"
  by (simp_all add: eval_nat_numeral)

lemma two_endids_built:
  "fsm_endid_set [] \<lparr>en_buckets = replicate DEF_BUCKET_COUNT eb_empty, en_used = 0\<rparr> 0 7 =
     Some (True, one_endid, [])"
  "fsm_endid_set [] one_endid 1 9 = Some (True, two_endids, [])"
  by (simp_all add: endid_table_eval replicate_4 Let_def)

lemma two_endids_inv: "endid_inv two_endids"
  and two_endids_states: "endid_ids two_endids s \<noteq> [] \<longleftrightarrow> s < 2"
  and two_endids_ids: "length (endid_ids two_endids 1) = 1"
proof -
  let ?e = "\<lparr>en_buckets = replicate DEF_BUCKET_COUNT eb_empty, en_used = 0\<rparr>"
  have e: "endid_inv ?e \<and> (\<forall>s. endid_ids ?e s = [])"
    using new_endids new_endids_none by blast
  then have "endid_added [] ?e 0 {7} (True, one_endid, [])"
    using fsm_endid_set_wp [of ?e 0 "[]" 7] unfolding two_endids_built wp_Some
    by (simp add: DEF_BUCKET_COUNT_def BUCKET_NO_STATE_def)
  then have o: "endid_inv one_endid \<and> (\<forall>s. set (endid_ids one_endid s) = (if s = 0 then {7} else {}))"
    using e by (simp add: endid_added_def)
  then have "set (endid_ids one_endid 1) = {}" by simp
  then have "endid_added [] one_endid 1 {9} (True, two_endids, [])"
    using fsm_endid_set_wp [of one_endid 1 "[]" 9] o unfolding two_endids_built wp_Some
    by (simp add: one_endid_def BUCKET_NO_STATE_def)
  then have t: "endid_inv two_endids \<and> (\<forall>s. set (endid_ids two_endids s) = (if s = 1 then {9} else if s = 0 then {7} else {}))"
    using o by (auto simp: endid_added_def)
  then show "endid_inv two_endids" by simp
  have "set (endid_ids two_endids s) \<noteq> {} \<longleftrightarrow> s < 2" using t by auto
  then show "endid_ids two_endids s \<noteq> [] \<longleftrightarrow> s < 2" by simp
  have "endid_tab two_endids" using t by (simp add: endid_inv_def)
  moreover have "\<lparr>eb_state = 1, eb_ids = \<lparr>id_list = [9], id_ceil = DEF_BUCKET_ID_COUNT\<rparr>\<rparr> \<in> ht_live eb_key (en_buckets two_endids)"
    by (simp add: ht_live_def two_endids_def eb_key_def BUCKET_NO_STATE_def)
  ultimately have "endid_ids two_endids 1 = [9]" by (auto dest!: endid_ids_Some)
  then show "length (endid_ids two_endids 1) = 1" by simp
qed

end
