(* ===== verification/Eager_Output.thy ===== *)
theory Eager_Output
  imports Hash_Table
begin

text \<open>
  The eager outputs of \<open>src/libfsm/eager_output.c\<close>: an open-addressing hash table from
  states to arrays of output ids, in the order they were set and without duplicates. The
  definitions take and return the table; what they do to the states of the automaton is in
  \<open>Fsm_Meta\<close>, which calls them. The callback and its argument in \<open>struct eager_output_info\<close>
  are stored for the generated code only and are left out.
\<close>

section \<open>The table\<close>

type_synonym fsm_output_id_t = nat

definition DEF_EAGER_BUCKET_COUNT :: nat where
  "DEF_EAGER_BUCKET_COUNT = 4"

definition DEF_ENTRY_CEIL :: nat where
  "DEF_ENTRY_CEIL = 2"

record eager_output_entry =
  ee_ids :: "fsm_output_id_t list"  \<comment> \<open>\<open>ids[0] .. ids[used - 1]\<close>\<close>
  ee_ceil :: nat

record eager_output_bucket =
  ob_state :: fsm_state_t
  ob_entry :: "eager_output_entry option"

record eager_output_info =
  eo_buckets :: "eager_output_bucket list"
  eo_used :: nat

definition ob_empty :: eager_output_bucket where
  "ob_empty = \<lparr>ob_state = 0, ob_entry = None\<rparr>"

definition ob_key :: "eager_output_bucket \<Rightarrow> fsm_state_t option" where
  "ob_key b = (case ob_entry b of None \<Rightarrow> None | Some e \<Rightarrow> Some (ob_state b))"

definition fsm_eager_output_init :: "alloc \<Rightarrow> eager_output_info option \<times> alloc" where
  "fsm_eager_output_init al =
     (let (ok, al) = f_calloc al in
      if \<not> ok then (None, al)
      else let (ok, al) = f_calloc al in
           if \<not> ok then (None, al)
           else (Some \<lparr>eo_buckets = replicate DEF_EAGER_BUCKET_COUNT ob_empty, eo_used = 0\<rparr>, al))"

text \<open>
  A bucket that found no place would be lost without notice: \<open>rehash\<close> gives \<open>None\<close> then, and
  the lemmas below show that it never happens. The lemma \<open>rehash_into_empty\<close> also covers the
  assertion that no bucket on the way has the same state.
\<close>

definition grow_htab :: "alloc \<Rightarrow> eager_output_info \<Rightarrow> (bool \<times> eager_output_info \<times> alloc) option" where
  "grow_htab al htab =
     do { let nbucket_count = 2 * length (eo_buckets htab);
          c_assert (nbucket_count \<noteq> 0);
          let (ok, al) = f_calloc al;
          if \<not> ok then Some (False, htab, al)
          else do {
            c_assert (mask_ok nbucket_count);
            bs \<leftarrow> rehash ob_key hash_state (\<lambda>b. if ob_entry b = None then None else Some b)
              (eo_buckets htab) (replicate nbucket_count ob_empty);
            Some (True, htab\<lparr>eo_buckets := bs\<rparr>, al) } }"

text \<open>
  Adding an id to the entry of a bucket. The middle result says whether the id was written,
  upon which the caller marks the state.
\<close>

definition entry_add ::
  "alloc \<Rightarrow> eager_output_entry \<Rightarrow> fsm_output_id_t \<Rightarrow> (bool \<times> bool \<times> eager_output_entry \<times> alloc) option" where
  "entry_add al e k =
     (let (ok, e, al) =
        (if length (ee_ids e) = ee_ceil e then
           let nceil = 2 * ee_ceil e mod 2 ^ 32;
               (ok, al) = f_realloc al in
           if ok then (True, e\<lparr>ee_ceil := nceil\<rparr>, al) else (False, e, al)
         else (True, e, al)) in
      if \<not> ok then Some (False, False, e, al)
      else if k \<in> set (ee_ids e) then Some (True, False, e, al)
      else do { c_assert (length (ee_ids e) < ee_ceil e);
                Some (True, True, e\<lparr>ee_ids := ee_ids e @ [k]\<rparr>, al) })"

definition eager_set ::
  "alloc \<Rightarrow> eager_output_info \<Rightarrow> fsm_state_t \<Rightarrow> fsm_output_id_t \<Rightarrow>
   (bool \<times> bool \<times> eager_output_info \<times> alloc) option" where
  "eager_set al info state k =
     do { c_assert (length (eo_buckets info) > 0);
          (ok, info, al) \<leftarrow>
            (if eo_used info \<ge> length (eo_buckets info) div 2 then grow_htab al info
             else Some (True, info, al));
          if \<not> ok then Some (False, False, info, al)
          else do {
            c_assert (mask_ok (length (eo_buckets info)));
            case ht_find ob_key hash_state (eo_buckets info) state of
              None \<Rightarrow> Some (True, False, info, al)
            | Some j \<Rightarrow>
                let b = eo_buckets info ! j;
                    (ok, e, info, al) =
                      (case ob_entry b of
                         Some e \<Rightarrow> (True, e, info, al)
                       | None \<Rightarrow>
                           let (ok, al) = f_calloc al;
                               e = \<lparr>ee_ids = [], ee_ceil = DEF_ENTRY_CEIL\<rparr> in
                           if \<not> ok then (False, e, info, al)
                           else (True, e, info\<lparr>eo_buckets := (eo_buckets info)[j :=
                                   \<lparr>ob_state = state, ob_entry = Some e\<rparr>],
                                 eo_used := eo_used info + 1\<rparr>, al)) in
                if \<not> ok then Some (False, False, info, al)
                else do {
                  (ok, wrote, e, al) \<leftarrow> entry_add al e k;
                  Some (ok, wrote, info\<lparr>eo_buckets := (eo_buckets info)[j :=
                    \<lparr>ob_state = state, ob_entry = Some e\<rparr>]\<rparr>, al) } } }"

definition fsm_eager_output_has_eager_output :: "eager_output_info \<Rightarrow> bool" where
  "fsm_eager_output_has_eager_output info =
     list_ex (\<lambda>b. case ob_entry b of None \<Rightarrow> False | Some e \<Rightarrow> length (ee_ids e) > 0) (eo_buckets info)"

section \<open>Reading\<close>

text \<open>
  The iterations call back with an accumulator \<open>'s\<close>. The one over a state goes on to the
  next bucket after the one it was looking for, up to the first empty one; \<open>marked\<close> is the
  flag of the states that the assertion reads.
\<close>

fun iter_ids ::
  "(fsm_state_t \<Rightarrow> fsm_output_id_t \<Rightarrow> 's \<Rightarrow> bool \<times> 's) \<Rightarrow> fsm_state_t \<Rightarrow> fsm_output_id_t list \<Rightarrow> 's \<Rightarrow> bool \<times> 's" where
  "iter_ids cb state [] s = (True, s)"
| "iter_ids cb state (k # ks) s =
     (let (go, s) = cb state k s in if go then iter_ids cb state ks s else (False, s))"

fun iter_state_loop ::
  "(fsm_state_t \<Rightarrow> fsm_output_id_t \<Rightarrow> 's \<Rightarrow> bool \<times> 's) \<Rightarrow> (fsm_state_t \<Rightarrow> bool) \<Rightarrow> fsm_state_t \<Rightarrow>
   eager_output_bucket list \<Rightarrow> 's \<Rightarrow> 's option" where
  "iter_state_loop cb marked state [] s = Some s"
| "iter_state_loop cb marked state (b # bs) s =
     (case ob_entry b of
        None \<Rightarrow> Some s
      | Some e \<Rightarrow>
          if ob_state b \<noteq> state then iter_state_loop cb marked state bs s
          else do { c_assert (length (ee_ids e) = 0 \<or> marked state);
                    let (go, s) = iter_ids cb state (ee_ids e) s;
                    if go then iter_state_loop cb marked state bs s else Some s })"

definition fsm_eager_output_iter_state ::
  "eager_output_info \<Rightarrow> (fsm_state_t \<Rightarrow> bool) \<Rightarrow> fsm_state_t \<Rightarrow>
   (fsm_state_t \<Rightarrow> fsm_output_id_t \<Rightarrow> 's \<Rightarrow> bool \<times> 's) \<Rightarrow> 's \<Rightarrow> 's option" where
  "fsm_eager_output_iter_state info marked state cb s =
     do { c_assert (mask_ok (length (eo_buckets info)));
          iter_state_loop cb marked state
            (map (\<lambda>j. eo_buckets info ! j) (probes (hash_state state) (length (eo_buckets info)))) s }"

definition fsm_eager_output_count ::
  "eager_output_info \<Rightarrow> (fsm_state_t \<Rightarrow> bool) \<Rightarrow> fsm_state_t \<Rightarrow> nat option" where
  "fsm_eager_output_count info marked state =
     fsm_eager_output_iter_state info marked state (\<lambda>_ _ n. (True, n + 1)) 0"

definition append_cb ::
  "nat \<Rightarrow> fsm_state_t \<Rightarrow> fsm_output_id_t \<Rightarrow> bool \<times> fsm_output_id_t list \<Rightarrow>
   bool \<times> bool \<times> fsm_output_id_t list" where
  "append_cb ceil state k env =
     (let (ok, buf) = env in
      if length buf = ceil then (False, False, buf) else (True, ok, buf @ [k]))"

definition fsm_eager_output_get ::
  "eager_output_info \<Rightarrow> (fsm_state_t \<Rightarrow> bool) \<Rightarrow> fsm_state_t \<Rightarrow> nat \<Rightarrow> (bool \<times> fsm_output_id_t list) option" where
  "fsm_eager_output_get info marked state buf_count =
     do { (ok, buf) \<leftarrow> fsm_eager_output_iter_state info marked state (append_cb buf_count) (True, []);
          Some (ok, sort buf) }"

definition fsm_eager_output_iter_all ::
  "eager_output_info \<Rightarrow> (fsm_state_t \<Rightarrow> bool) \<Rightarrow>
   (fsm_state_t \<Rightarrow> fsm_output_id_t \<Rightarrow> 's \<Rightarrow> (bool \<times> 's) option) \<Rightarrow> 's \<Rightarrow> 's option" where
  "fsm_eager_output_iter_all info marked cb s =
     do { (_, s) \<leftarrow> c_for (\<lambda>b s.
              case ob_entry b of
                None \<Rightarrow> Some (True, s)
              | Some e \<Rightarrow> do { c_assert (length (ee_ids e) = 0 \<or> marked (ob_state b));
                               c_for (cb (ob_state b)) (ee_ids e) s })
            (eo_buckets info) s;
          Some s }"

section \<open>Compaction\<close>

definition fsm_eager_output_compact ::
  "alloc \<Rightarrow> eager_output_info \<Rightarrow> fsm_state_t list \<Rightarrow> (bool \<times> eager_output_info \<times> alloc) option" where
  "fsm_eager_output_compact al info mapping =
     (if mapping = [0..<length mapping] then Some (True, info, al)
      else
        let (ok, al) = f_calloc al in
        if \<not> ok then Some (False, info, al)
        else do {
          c_assert (mask_ok (length (eo_buckets info)));
          c_assert (list_all (\<lambda>b. ob_entry b = None \<or> ob_state b < length mapping) (eo_buckets info));
          bs \<leftarrow> rehash ob_key hash_state
            (\<lambda>b. if ob_entry b = None then None
                 else if mapping ! ob_state b = FSM_STATE_REMAP_NO_STATE then None
                 else Some (b\<lparr>ob_state := mapping ! ob_state b\<rparr>))
            (eo_buckets info) (replicate (length (eo_buckets info)) ob_empty);
          Some (True, info\<lparr>eo_buckets := bs\<rparr>, al) })"

section \<open>The table as a map\<close>

interpretation oht: hash_table ob_key hash_state ob_empty
  by unfold_locales (simp add: ob_key_def ob_empty_def)

definition entry_ok :: "eager_output_entry \<Rightarrow> bool" where
  "entry_ok e \<longleftrightarrow> ee_ids e \<noteq> [] \<and> distinct (ee_ids e) \<and> length (ee_ids e) \<le> ee_ceil e \<and> 0 < ee_ceil e"

definition eager_tab :: "eager_output_info \<Rightarrow> fsm_state_t \<rightharpoonup> eager_output_bucket" where
  "eager_tab info = ht_lookup ob_key hash_state (eo_buckets info)"

text \<open>
  \<open>buckets_used\<close> bounds the number of buckets in use from above: compaction does not lower
  it, and here no assertion compares the two.
\<close>

definition eager_inv :: "eager_output_info \<Rightarrow> bool" where
  "eager_inv info \<longleftrightarrow> ht_ok ob_key hash_state (eo_buckets info) \<and>
     (\<forall>b \<in> ht_live ob_key (eo_buckets info). \<forall>e. ob_entry b = Some e \<longrightarrow> entry_ok e) \<and>
     ht_used ob_key (eo_buckets info) \<le> eo_used info \<and>
     2 * eo_used info \<le> length (eo_buckets info) \<and> 4 \<le> length (eo_buckets info)"

definition eager_ids :: "eager_output_info \<Rightarrow> fsm_state_t \<Rightarrow> fsm_output_id_t list" where
  "eager_ids info s =
     (case eager_tab info s of
        None \<Rightarrow> [] | Some b \<Rightarrow> (case ob_entry b of None \<Rightarrow> [] | Some e \<Rightarrow> ee_ids e))"

lemma ob_key_Some: "ob_key b = Some s \<longleftrightarrow> ob_state b = s \<and> ob_entry b \<noteq> None"
  by (auto simp: ob_key_def split: option.split)

lemma ob_key_None: "ob_key b = None \<longleftrightarrow> ob_entry b = None"
  by (simp add: ob_key_def split: option.split)

lemma eager_ids_live:
  assumes "ht_ok ob_key hash_state (eo_buckets info)"
    and "ht_live ob_key (eo_buckets info') = ht_live ob_key (eo_buckets info)"
    and "ht_ok ob_key hash_state (eo_buckets info')"
  shows "eager_ids info' = eager_ids info"
  using oht.lookup_cong [OF assms(1,3,2)] by (simp add: eager_ids_def eager_tab_def fun_eq_iff)

lemma eager_pow2:
  assumes "eager_inv info"
  obtains n where "n < 64" and "length (eo_buckets info) = 2 ^ n" and "mask_ok (length (eo_buckets info))"
  using assms oht.ok_length [of "eo_buckets info"] mask_ok_pow2 by (auto simp: eager_inv_def)

lemma grow_htab_wp:
  assumes "eager_inv info" and "length (eo_buckets info) < 2 ^ 62"
  shows "wp (grow_htab al info) (\<lambda>(ok, info', al'). eager_inv info' \<and> eager_ids info' = eager_ids info \<and>
    eo_used info' = eo_used info \<and>
    length (eo_buckets info') = (if ok then 2 * length (eo_buckets info) else length (eo_buckets info)) \<and>
    (al = [] \<longrightarrow> ok \<and> al' = []))"
proof -
  let ?bs = "eo_buckets info"
  have ok: "ht_ok ob_key hash_state ?bs" using assms(1) by (simp add: eager_inv_def)
  obtain n where n: "n < 64" "length ?bs = 2 ^ n" using eager_pow2 [OF assms(1)] by blast
  have n': "Suc n < 64"
    using assms(2) n(2) power_less_imp_less_exp [rotated, of "2 :: nat" n 62] by simp
  obtain a al' where al: "f_calloc al = (a, al')" by (cases "f_calloc al")
  have nil: "al = [] \<longrightarrow> a \<and> al' = []" using al by auto
  have len: "2 * length ?bs = 2 ^ Suc n" using n(2) by simp
  let ?keep = "\<lambda>b. if ob_entry b = None then None else Some b"
  have "wp (rehash ob_key hash_state ?keep ?bs (replicate (2 ^ Suc n) ob_empty)) (\<lambda>bs'.
      ht_ok ob_key hash_state bs' \<and> length bs' = 2 ^ Suc n \<and> ht_used ob_key bs' \<le> ht_used ob_key ?bs \<and>
      ht_live ob_key bs' = {b'. \<exists>b \<in> set ?bs. ?keep b = Some b' \<and> ob_key b' \<noteq> None})"
    by (rule oht.rehash_into_empty [OF ok n'])
      (use oht.used_le [of ?bs] n(2) in \<open>auto split: if_splits\<close>)
  then obtain bs' where re: "rehash ob_key hash_state ?keep ?bs (replicate (2 ^ Suc n) ob_empty) = Some bs'"
    and ok': "ht_ok ob_key hash_state bs'" and len': "length bs' = 2 ^ Suc n"
    and used: "ht_used ob_key bs' \<le> ht_used ob_key ?bs"
    and live: "ht_live ob_key bs' = {b'. \<exists>b \<in> set ?bs. ?keep b = Some b' \<and> ob_key b' \<noteq> None}"
    by (rule wpE) blast
  have live': "ht_live ob_key bs' = ht_live ob_key ?bs"
    unfolding live by (auto simp: ht_live_def ob_key_None split: if_splits)
  have "eager_ids (info\<lparr>eo_buckets := bs'\<rparr>) = eager_ids info"
    by (rule eager_ids_live) (use ok ok' live' in auto)
  moreover have "eager_inv (info\<lparr>eo_buckets := bs'\<rparr>)"
    using assms(1) ok' used live' len' n(2) by (auto simp: eager_inv_def)
  ultimately show ?thesis
    using al nil re len len' mask_ok_pow2 [OF n'] assms(1) n(2)
    by (cases a) (simp_all add: grow_htab_def c_assert_def)
qed

lemma entry_add_wp:
  assumes "entry_ok e" and "length (ee_ids e) < 2 ^ 31"
  shows "wp (entry_add al e k) (\<lambda>(ok, wrote, e', al'). entry_ok e' \<and>
    set (ee_ids e') = (if ok then insert k (set (ee_ids e)) else set (ee_ids e)) \<and>
    (ok \<longrightarrow> wrote = (k \<notin> set (ee_ids e))) \<and> (\<not> ok \<longrightarrow> \<not> wrote) \<and> (al = [] \<longrightarrow> ok \<and> al' = []))"
proof -
  obtain a al' where al: "f_realloc al = (a, al')" by (cases "f_realloc al")
  have nil: "al = [] \<longrightarrow> a \<and> al' = []" using al by auto
  have dbl: "2 * ee_ceil e mod 2 ^ 32 = 2 * ee_ceil e" if "length (ee_ids e) = ee_ceil e"
    using assms(2) that by (intro mod_less) simp
  show ?thesis
    using assms al nil dbl
    by (cases "length (ee_ids e) = ee_ceil e"; cases a) (auto simp: entry_add_def entry_ok_def c_assert_def)
qed

lemma eager_store:
  assumes "eager_inv info" and "ht_find ob_key hash_state (eo_buckets info) s = Some j" and "entry_ok e"
    and "if ob_entry (eo_buckets info ! j) = None then u = eo_used info + 1 \<and> 2 * u \<le> length (eo_buckets info)
      else u = eo_used info"
  defines "info' \<equiv> info\<lparr>eo_used := u, eo_buckets := (eo_buckets info)[j := \<lparr>ob_state = s, ob_entry = Some e\<rparr>]\<rparr>"
  shows "eager_inv info'" and "eager_ids info' = (eager_ids info)(s := ee_ids e)"
proof -
  let ?bs = "eo_buckets info" and ?b = "\<lparr>ob_state = s, ob_entry = Some e\<rparr>"
  have ok: "ht_ok ob_key hash_state ?bs" using assms(1) by (simp add: eager_inv_def)
  have j: "j < length ?bs" "ob_key (?bs ! j) = None \<or> ob_key (?bs ! j) = Some s" using oht.find_in [OF ok assms(2)] by auto
  have key: "ob_key ?b = Some s" by (simp add: ob_key_Some)
  have *: "ht_ok ob_key hash_state (?bs[j := ?b]) \<and>
      ht_used ob_key (?bs[j := ?b]) = ht_used ob_key ?bs + (if ob_entry (?bs ! j) = None then 1 else 0) \<and>
      ht_lookup ob_key hash_state (?bs[j := ?b]) = (ht_lookup ob_key hash_state ?bs)(s \<mapsto> ?b)"
  proof (cases "ob_entry (?bs ! j) = None")
    case True
    then show ?thesis using oht.store_new [OF ok assms(2) _ key] by (simp add: ob_key_None)
  next
    case False
    then have "ob_key (?bs ! j) = Some s" using j(2) by (auto simp: ob_key_None)
    from oht.store_old [OF ok j(1) this key] False show ?thesis by simp
  qed
  then show "eager_ids info' = (eager_ids info)(s := ee_ids e)"
    by (simp add: eager_ids_def eager_tab_def info'_def fun_eq_iff)
  have entries: "entry_ok e'" if b: "b \<in> ht_live ob_key (?bs[j := ?b])" "ob_entry b = Some e'" for b e'
  proof -
    have "ob_key b = Some (ob_state b)" using b(2) by (simp add: ob_key_Some)
    then have "ht_lookup ob_key hash_state (?bs[j := ?b]) (ob_state b) = Some b"
      using oht.lookup_live * b(1) by metis
    then have "b = ?b \<or> ht_lookup ob_key hash_state ?bs (ob_state b) = Some b"
      using * by (auto split: if_splits)
    then show ?thesis
    proof
      assume "ht_lookup ob_key hash_state ?bs (ob_state b) = Some b"
      then have "b \<in> ht_live ob_key ?bs" using oht.lookup_live [OF ok] by blast
      then show ?thesis using assms(1) b(2) unfolding eager_inv_def by blast
    qed (use b(2) assms(3) in simp)
  qed
  then show "eager_inv info'" using * assms(1,4) by (auto simp: eager_inv_def info'_def split: if_splits)
qed

definition eager_added ::
  "alloc \<Rightarrow> eager_output_info \<Rightarrow> fsm_state_t \<Rightarrow> fsm_output_id_t \<Rightarrow> bool \<times> bool \<times> eager_output_info \<times> alloc \<Rightarrow> bool" where
  "eager_added al info s k = (\<lambda>(ok, wrote, info', al'). eager_inv info' \<and>
     (\<forall>t. set (eager_ids info' t) =
        (if ok \<and> t = s then insert k (set (eager_ids info s)) else set (eager_ids info t))) \<and>
     wrote = (ok \<and> k \<notin> set (eager_ids info s)) \<and>
     length (eo_buckets info') \<le> max (length (eo_buckets info)) (4 * eo_used info) \<and> eo_used info' \<le> eo_used info + 1 \<and>
     (al = [] \<longrightarrow> ok \<and> al' = []))"

lemma eager_find:
  assumes "eager_inv info"
  obtains j where "ht_find ob_key hash_state (eo_buckets info) s = Some j"
    and "eager_ids info s = (case ob_entry (eo_buckets info ! j) of None \<Rightarrow> [] | Some e \<Rightarrow> ee_ids e)"
    and "\<And>e. ob_entry (eo_buckets info ! j) = Some e \<Longrightarrow> entry_ok e"
proof -
  have ok: "ht_ok ob_key hash_state (eo_buckets info)" using assms by (simp add: eager_inv_def)
  have "ht_used ob_key (eo_buckets info) < length (eo_buckets info)" using assms by (auto simp: eager_inv_def)
  then obtain j where j: "ht_find ob_key hash_state (eo_buckets info) s = Some j" using oht.find_ex [OF ok] by blast
  have "eager_ids info s = (case ob_entry (eo_buckets info ! j) of None \<Rightarrow> [] | Some e \<Rightarrow> ee_ids e)"
    using j by (auto simp: eager_ids_def eager_tab_def ht_lookup_def ob_key_None split: option.splits)
  moreover have "entry_ok e" if "ob_entry (eo_buckets info ! j) = Some e" for e
  proof -
    have "eo_buckets info ! j \<in> ht_live ob_key (eo_buckets info)"
      using oht.find_in [OF ok j] that by (auto simp: ht_live_def ob_key_None)
    then show ?thesis using assms that unfolding eager_inv_def by blast
  qed
  ultimately show thesis using that j by blast
qed

lemma eager_set_wp:
  assumes "eager_inv info" and "length (eo_buckets info) < 2 ^ 62" and "length (eager_ids info s) < 2 ^ 31"
  shows "wp (eager_set al info s k) (eager_added al info s k)"
proof -
  let ?grown = "if eo_used info \<ge> length (eo_buckets info) div 2 then grow_htab al info else Some (True, info, al)"
  have ne: "0 < length (eo_buckets info)" using assms(1) by (auto simp: eager_inv_def simp del: length_greater_0_conv)
  have half: "2 * (length (eo_buckets info) div 2) = length (eo_buckets info)"
  proof -
    obtain n where n: "length (eo_buckets info) = 2 ^ n" using eager_pow2 [OF assms(1)] by blast
    have "n \<noteq> 0" using assms(1) n by (cases n) (auto simp: eager_inv_def)
    then show ?thesis using n by simp
  qed
  have "wp ?grown (\<lambda>(ok, info', al'). eager_inv info' \<and> eager_ids info' = eager_ids info \<and>
      (ok \<longrightarrow> 2 * eo_used info' + 2 \<le> length (eo_buckets info')) \<and>
      length (eo_buckets info') \<le> max (length (eo_buckets info)) (4 * eo_used info) \<and> eo_used info' = eo_used info \<and> (al = [] \<longrightarrow> ok \<and> al' = []))"
    using assms(1) half by (auto simp: eager_inv_def intro!: wp_mono3 [OF grow_htab_wp [OF assms(1,2)]] split: if_splits)
  then obtain a info1 al1 where g: "?grown = Some (a, info1, al1)" and inv1: "eager_inv info1"
    and same: "eager_ids info1 = eager_ids info" and room: "a \<longrightarrow> 2 * eo_used info1 + 2 \<le> length (eo_buckets info1)"
    and len: "length (eo_buckets info1) \<le> max (length (eo_buckets info)) (4 * eo_used info)" "eo_used info1 = eo_used info" and nil: "al = [] \<longrightarrow> a \<and> al1 = []"
    by (rule wpE3) auto
  obtain n where mask: "mask_ok (length (eo_buckets info1))" using eager_pow2 [OF inv1] by blast
  obtain j where j: "ht_find ob_key hash_state (eo_buckets info1) s = Some j"
    and ids: "eager_ids info1 s = (case ob_entry (eo_buckets info1 ! j) of None \<Rightarrow> [] | Some e \<Rightarrow> ee_ids e)"
    and eok: "\<And>e. ob_entry (eo_buckets info1 ! j) = Some e \<Longrightarrow> entry_ok e"
    using eager_find [OF inv1] by metis
  note run = eager_set_def g c_assert_def ne mask j
  show ?thesis
  proof (cases a)
    case False
    then show ?thesis using ne inv1 same len nil by (simp add: run eager_added_def)
  next
    case True
    show ?thesis
    proof (cases "ob_entry (eo_buckets info1 ! j)")
      case (Some e)
      have "entry_ok e" "length (ee_ids e) < 2 ^ 31" using eok Some ids same assms(3) by auto
      then obtain ok wrote e' al' where add: "entry_add al1 e k = Some (ok, wrote, e', al')" and e': "entry_ok e'"
        and post: "set (ee_ids e') = (if ok then insert k (set (ee_ids e)) else set (ee_ids e))"
          "ok \<longrightarrow> wrote = (k \<notin> set (ee_ids e))" "\<not> ok \<longrightarrow> \<not> wrote" "al1 = [] \<longrightarrow> ok \<and> al' = []"
        by (auto elim!: wpE dest!: entry_add_wp [of e al1 k])
      have "eager_inv (info1\<lparr>eo_buckets := (eo_buckets info1)[j := \<lparr>ob_state = s, ob_entry = Some e'\<rparr>]\<rparr>)"
        "eager_ids (info1\<lparr>eo_buckets := (eo_buckets info1)[j := \<lparr>ob_state = s, ob_entry = Some e'\<rparr>]\<rparr>) =
           (eager_ids info1)(s := ee_ids e')"
        using eager_store [OF inv1 j e', of "eo_used info1"] Some by simp_all
      then show ?thesis
        using True ne Some add post len nil same ids by (auto simp: run eager_added_def)
    next
      case None
      obtain b al2 where al2: "f_calloc al1 = (b, al2)" by (cases "f_calloc al1")
      have nil2: "al1 = [] \<longrightarrow> b \<and> al2 = []" using al2 by auto
      let ?e = "\<lparr>ee_ids = [], ee_ceil = DEF_ENTRY_CEIL\<rparr>"
      let ?e' = "\<lparr>ee_ids = [k], ee_ceil = DEF_ENTRY_CEIL\<rparr>"
      have add: "entry_add al2 ?e k = Some (True, True, ?e', al2)"
        by (simp add: entry_add_def DEF_ENTRY_CEIL_def c_assert_def)
      have e': "entry_ok ?e'" by (simp add: entry_ok_def DEF_ENTRY_CEIL_def)
      note st = eager_store [OF inv1 j e', of "eo_used info1 + 1"]
      show ?thesis
      proof (cases b)
        case False
        then show ?thesis using True ne None al2 nil nil2 same inv1 len by (simp add: run eager_added_def Let_def)
      next
        case b: True
        then show ?thesis
          using True ne None al2 nil nil2 same inv1 len add st room ids
          by (auto simp: run eager_added_def Let_def)
      qed
    qed
  qed
qed

section \<open>Iteration\<close>

lemma iter_state_loop_absent:
  "\<forall>b \<in> set bs. ob_key b \<noteq> Some s \<Longrightarrow> iter_state_loop cb marked s bs x = Some x"
  by (induction bs) (auto simp: ob_key_Some split: option.split)

lemma iter_state_loop_find:
  assumes "distinct js" and "set js \<subseteq> {..<length bs}" and "ht_ok ob_key hash_state bs"
    and "\<And>b e. b \<in> set bs \<Longrightarrow> ob_key b = Some s \<Longrightarrow> ob_entry b = Some e \<Longrightarrow> ee_ids e = [] \<or> marked s"
  shows "iter_state_loop cb marked s (map (\<lambda>j. bs ! j) js) x =
    (case find (\<lambda>j. ob_key (bs ! j) = None \<or> ob_key (bs ! j) = Some s) js of
       None \<Rightarrow> Some x
     | Some j \<Rightarrow> (case ob_entry (bs ! j) of None \<Rightarrow> Some x | Some e \<Rightarrow> Some (snd (iter_ids cb s (ee_ids e) x))))"
  using assms(1,2)
proof (induction js)
  case (Cons j js)
  have j: "bs ! j \<in> set bs" "j < length bs" using Cons.prems by auto
  show ?case
  proof (cases "ob_entry (bs ! j)")
    case None
    then show ?thesis by (simp add: ob_key_None)
  next
    case (Some e)
    show ?thesis
    proof (cases "ob_state (bs ! j) = s")
      case False
      then show ?thesis using Some Cons by (simp add: ob_key_def)
    next
      case True
      then have key: "ob_key (bs ! j) = Some s" using Some by (simp add: ob_key_def)
      have "\<forall>b \<in> set (map (\<lambda>j. bs ! j) js). ob_key b \<noteq> Some s"
      proof
        fix b assume "b \<in> set (map (\<lambda>j. bs ! j) js)"
        then obtain i where i: "i \<in> set js" "b = bs ! i" by auto
        then have "i < length bs" "i \<noteq> j" using Cons.prems by auto
        then show "ob_key b \<noteq> Some s" using oht.distinct_keys [OF assms(3) _ j(2) _ key, of i] i(2) by blast
      qed
      then have rest: "iter_state_loop cb marked s (map (\<lambda>j. bs ! j) js) y = Some y" for y
        by (rule iter_state_loop_absent)
      show ?thesis
        using Some True key rest assms(4) [OF j(1) key Some]
        by (auto simp: c_assert_def split: prod.split)
    qed
  qed
qed simp

lemma fsm_eager_output_iter_state_eq:
  assumes "eager_inv info" and "eager_ids info s \<noteq> [] \<longrightarrow> marked s"
  shows "fsm_eager_output_iter_state info marked s cb x = Some (snd (iter_ids cb s (eager_ids info s) x))"
proof -
  let ?bs = "eo_buckets info"
  have ok: "ht_ok ob_key hash_state ?bs" using assms(1) by (simp add: eager_inv_def)
  obtain n where n: "n < 64" "length ?bs = 2 ^ n" "mask_ok (length ?bs)" using eager_pow2 [OF assms(1)] by blast
  obtain j where j: "ht_find ob_key hash_state ?bs s = Some j"
    and ids: "eager_ids info s = (case ob_entry (?bs ! j) of None \<Rightarrow> [] | Some e \<Rightarrow> ee_ids e)"
    using eager_find [OF assms(1)] by metis
  have mk: "ee_ids e = [] \<or> marked s" if b: "b \<in> set ?bs" "ob_key b = Some s" "ob_entry b = Some e" for b e
  proof -
    have "ht_lookup ob_key hash_state ?bs s = Some b" using b oht.lookup_iff [OF ok] by simp
    then have "eager_ids info s = ee_ids e" using b(3) by (simp add: eager_ids_def eager_tab_def)
    then show ?thesis using assms(2) by auto
  qed
  have "iter_state_loop cb marked s (map (\<lambda>j. ?bs ! j) (probes (hash_state s) (length ?bs))) x =
      (case ob_entry (?bs ! j) of None \<Rightarrow> Some x | Some e \<Rightarrow> Some (snd (iter_ids cb s (ee_ids e) x)))"
    using iter_state_loop_find [of "probes (hash_state s) (length ?bs)" ?bs s marked cb x] mk ok
      distinct_probes [OF n(1), of "hash_state s"] j set_probes [OF n(1), of "hash_state s"] n(2)
    by (simp add: ht_find_def)
  then show ?thesis
    using ids n(3) by (auto simp: fsm_eager_output_iter_state_def c_assert_def split: option.splits)
qed

lemma iter_ids_count: "iter_ids (\<lambda>_ _ n. (True, Suc n)) s ks n = (True, n + length ks)"
  by (induction ks arbitrary: n) auto

lemma iter_ids_append:
  "length buf \<le> ceil \<Longrightarrow> snd (iter_ids (append_cb ceil) s ks (True, buf)) =
     (if length buf + length ks \<le> ceil then (True, buf @ ks) else (False, buf @ take (ceil - length buf) ks))"
proof (induction ks arbitrary: buf)
  case (Cons k ks)
  show ?case
  proof (cases "length buf = ceil")
    case False
    then have "ceil - length buf = Suc (ceil - length (buf @ [k]))" using Cons.prems by simp
    then show ?thesis using Cons.IH [of "buf @ [k]"] Cons.prems False by (simp add: append_cb_def)
  qed (simp add: append_cb_def)
qed simp

lemma fsm_eager_output_count_eq:
  assumes "eager_inv info" and "eager_ids info s \<noteq> [] \<longrightarrow> marked s"
  shows "fsm_eager_output_count info marked s = Some (length (eager_ids info s))"
  using assms by (simp add: fsm_eager_output_count_def fsm_eager_output_iter_state_eq [of info s marked] iter_ids_count)

lemma fsm_eager_output_get_eq:
  assumes "eager_inv info" and "eager_ids info s \<noteq> [] \<longrightarrow> marked s" and "length (eager_ids info s) \<le> n"
  shows "fsm_eager_output_get info marked s n = Some (True, sort (eager_ids info s))"
  using assms by (simp add: fsm_eager_output_get_def fsm_eager_output_iter_state_eq [of info s marked] iter_ids_append)

section \<open>Compaction keeps the map\<close>

definition moved_output :: "fsm_state_t list \<Rightarrow> eager_output_bucket \<Rightarrow> eager_output_bucket option" where
  "moved_output mapping b =
     (if ob_entry b = None then None
      else if mapping ! ob_state b = FSM_STATE_REMAP_NO_STATE then None
      else Some (b\<lparr>ob_state := mapping ! ob_state b\<rparr>))"

lemma eager_ids_Some:
  assumes "ht_ok ob_key hash_state (eo_buckets info)" and "b \<in> ht_live ob_key (eo_buckets info)"
    and "ob_entry b = Some e" and "ob_state b = s"
  shows "eager_ids info s = ee_ids e"
  using oht.lookup_live [OF assms(1), of s b] assms by (simp add: eager_ids_def eager_tab_def ob_key_Some)

lemma eager_ids_None:
  assumes "ht_ok ob_key hash_state (eo_buckets info)" and "\<forall>b \<in> ht_live ob_key (eo_buckets info). ob_state b \<noteq> s"
  shows "eager_ids info s = []"
  using oht.lookup_live [OF assms(1), of s] assms(2)
  by (cases "eager_tab info s") (auto simp: eager_ids_def eager_tab_def ob_key_Some)

lemma fsm_eager_output_compact_wp:
  assumes "eager_inv info" and "remap_inj mapping"
    and "\<forall>b \<in> ht_live ob_key (eo_buckets info). ob_state b < length mapping"
  shows "wp (fsm_eager_output_compact al info mapping) (\<lambda>(ok, info', al'). eager_inv info' \<and>
    (if ok then
       (\<forall>s < length mapping. mapping ! s \<noteq> FSM_STATE_REMAP_NO_STATE \<longrightarrow> eager_ids info' (mapping ! s) = eager_ids info s) \<and>
       (\<forall>t. (\<forall>s < length mapping. mapping ! s \<noteq> t) \<longrightarrow> eager_ids info' t = [])
     else info' = info) \<and> (al = [] \<longrightarrow> ok \<and> al' = []))"
proof -
  let ?bs = "eo_buckets info" and ?f = "moved_output mapping"
  have ok: "ht_ok ob_key hash_state ?bs" using assms(1) by (simp add: eager_inv_def)
  show ?thesis
  proof (cases "mapping = [0..<length mapping]")
    case True
    have "mapping ! s = s" if "s < length mapping" for s using that by (subst True) simp
    moreover have "eager_ids info t = []" if "\<forall>s < length mapping. mapping ! s \<noteq> t" for t
      by (rule eager_ids_None [OF ok]) (use that assms(3) calculation in auto)
    ultimately show ?thesis using True assms(1) by (auto simp: fsm_eager_output_compact_def)
  next
    case False
    obtain a al' where al: "f_calloc al = (a, al')" by (cases "f_calloc al")
    then have nil: "al = [] \<longrightarrow> a \<and> al' = []" by auto
    obtain n where n: "n < 64" "length ?bs = 2 ^ n" "mask_ok (length ?bs)" using eager_pow2 [OF assms(1)] by blast
    have "wp (rehash ob_key hash_state ?f ?bs (replicate (2 ^ n) ob_empty)) (\<lambda>bs'.
        ht_ok ob_key hash_state bs' \<and> length bs' = 2 ^ n \<and> ht_used ob_key bs' \<le> ht_used ob_key ?bs \<and>
        ht_live ob_key bs' = {b'. \<exists>b \<in> set ?bs. ?f b = Some b' \<and> ob_key b' \<noteq> None})"
    proof (rule oht.rehash_into_empty [OF ok n(1)])
      show "ht_used ob_key ?bs \<le> 2 ^ n" using oht.used_le [of ?bs] n(2) by simp
      fix b c b' c' k
      assume *: "b \<in> set ?bs" "c \<in> set ?bs" "?f b = Some b'" "?f c = Some c'" "ob_key b' = Some k" "ob_key c' = Some k"
      then have "b \<in> ht_live ob_key ?bs" "c \<in> ht_live ob_key ?bs"
        by (auto simp: moved_output_def ht_live_def ob_key_None split: if_splits)
      then have "ob_state b < length mapping" "ob_state c < length mapping" using assms(3) by auto
      moreover have "mapping ! ob_state b = k" "mapping ! ob_state c = k" "k \<noteq> FSM_STATE_REMAP_NO_STATE"
        using * by (auto simp: moved_output_def ob_key_Some split: if_splits)
      ultimately have "ob_state b = ob_state c" 
        using inj_onD [OF assms(2) [unfolded remap_inj_def], of "ob_state b" "ob_state c"] by simp
      then show "ob_key b = ob_key c" using * by (auto simp: ob_key_def moved_output_def split: if_splits option.splits)
    qed (auto simp: moved_output_def ob_key_None split: if_splits)
    then obtain bs' where re: "rehash ob_key hash_state ?f ?bs (replicate (2 ^ n) ob_empty) = Some bs'"
      and ok': "ht_ok ob_key hash_state bs'" and len: "length bs' = 2 ^ n"
      and used: "ht_used ob_key bs' \<le> ht_used ob_key ?bs"
      and live: "ht_live ob_key bs' = {b'. \<exists>b \<in> set ?bs. ?f b = Some b' \<and> ob_key b' \<noteq> None}"
      by (rule wpE) blast
    let ?info = "info\<lparr>eo_buckets := bs'\<rparr>"
    have live': "ht_live ob_key bs' = {b\<lparr>ob_state := mapping ! ob_state b\<rparr> |b. b \<in> ht_live ob_key ?bs \<and>
        mapping ! ob_state b \<noteq> FSM_STATE_REMAP_NO_STATE}"
      unfolding live by (auto simp: moved_output_def ht_live_def ob_key_def split: if_splits option.splits)
    have inv': "eager_inv ?info" using assms(1) ok' len n(2) used live' by (auto simp: eager_inv_def)
    have kept: "eager_ids ?info (mapping ! s) = eager_ids info s"
      if s: "s < length mapping" "mapping ! s \<noteq> FSM_STATE_REMAP_NO_STATE" for s
    proof (cases "\<exists>b \<in> ht_live ob_key ?bs. ob_state b = s")
      case True
      then obtain b where b: "b \<in> ht_live ob_key ?bs" "ob_state b = s" by blast
      then obtain e where e: "ob_entry b = Some e" by (auto simp: ht_live_def ob_key_None)
      have "b\<lparr>ob_state := mapping ! s\<rparr> \<in> ht_live ob_key (eo_buckets ?info)" using b s live' by auto
      from eager_ids_Some [OF _ this] eager_ids_Some [OF ok b(1) e b(2)] ok' e show ?thesis by simp
    next
      case False
      then have "eager_ids info s = []" by (intro eager_ids_None [OF ok]) blast
      moreover have "eager_ids ?info (mapping ! s) = []"
        using False s assms(2,3) ok' unfolding remap_inj_def
        by (intro eager_ids_None) (auto simp: live' inj_on_def)
      ultimately show ?thesis by simp
    qed
    have others: "eager_ids ?info t = []" if "\<forall>s < length mapping. mapping ! s \<noteq> t" for t
      by (rule eager_ids_None) (use that assms(3) live' ok' in auto)
    have inb: "list_all (\<lambda>b. ob_entry b = None \<or> ob_state b < length mapping) ?bs"
      using assms(3) by (auto simp: list_all_iff ht_live_def ob_key_None)
    show ?thesis
      using False al nil n inb re assms(1) inv' kept others
      by (cases a) (simp_all add: fsm_eager_output_compact_def c_assert_def flip: moved_output_def)
  qed
qed

end
