(* ===== verification/Capture.thy ===== *)
theory Capture
  imports Hash_Table
begin

unbundle bit_operations_syntax

text \<open>
  The capture actions of \<open>src/libfsm/capture.c\<close>: an open-addressing hash table of pairs of a
  state and an action, hashed by the state, so that one state can have several actions; and
  the positions of the captures while an automaton runs. The definitions take and return the
  table; the flag of a state that says whether it has actions belongs to the automaton, and
  is set in \<open>Fsm_Merge\<close>.
\<close>

section \<open>The table\<close>

datatype capture_action_type =
  CAPTURE_ACTION_START | CAPTURE_ACTION_EXTEND | CAPTURE_ACTION_COMMIT_ZERO_STEP | CAPTURE_ACTION_COMMIT

definition CAPTURE_NO_STATE :: fsm_state_t where
  "CAPTURE_NO_STATE = 2 ^ 32 - 1"

definition DEF_CAPTURE_ACTION_BUCKET_COUNT :: nat where
  "DEF_CAPTURE_ACTION_BUCKET_COUNT = 32"

record fsm_capture_action =
  ca_type :: capture_action_type
  ca_id :: nat
  ca_to :: fsm_state_t

record fsm_capture_action_bucket =
  cb_state :: fsm_state_t
  cb_action :: fsm_capture_action

record fsm_capture_info =
  ci_max :: nat
  ci_buckets :: "fsm_capture_action_bucket list"
  ci_used :: nat

text \<open>An empty bucket; its action is never read.\<close>

definition cb_empty :: fsm_capture_action_bucket where
  "cb_empty = \<lparr>cb_state = CAPTURE_NO_STATE,
     cb_action = \<lparr>ca_type = CAPTURE_ACTION_START, ca_id = 0, ca_to = CAPTURE_NO_STATE\<rparr>\<rparr>"

definition cb_key :: "fsm_capture_action_bucket \<Rightarrow> (fsm_state_t \<times> fsm_capture_action) option" where
  "cb_key b = (if cb_state b = CAPTURE_NO_STATE then None else Some (cb_state b, cb_action b))"

definition cb_hash :: "fsm_state_t \<times> fsm_capture_action \<Rightarrow> u64" where
  "cb_hash k = hash_state (fst k)"

definition capture_none :: fsm_capture_info where
  "capture_none = \<lparr>ci_max = 0, ci_buckets = [], ci_used = 0\<rparr>"

definition fsm_capture_init :: "alloc \<Rightarrow> fsm_capture_info option \<times> alloc" where
  "fsm_capture_init al = (let (ok, al) = f_malloc al in (if ok then Some capture_none else None, al))"

definition fsm_countcaptures :: "fsm_capture_info \<Rightarrow> nat" where
  "fsm_countcaptures ci = (if ci_used ci = 0 then 0 else (ci_max ci + 1) mod 2 ^ 32)"

definition fsm_capture_has_captures :: "fsm_capture_info \<Rightarrow> bool" where
  "fsm_capture_has_captures ci \<longleftrightarrow> ci_used ci > 0"

definition init_capture_action_htab ::
  "alloc \<Rightarrow> fsm_capture_info \<Rightarrow> (bool \<times> fsm_capture_info \<times> alloc) option" where
  "init_capture_action_htab al ci =
     (if length (ci_buckets ci) > 0 then Some (True, ci, al)
      else do {
        c_assert (ci_used ci = 0);
        let (ok, al) = f_malloc al;
        Some (if ok then (True, ci\<lparr>ci_buckets := replicate DEF_CAPTURE_ACTION_BUCKET_COUNT cb_empty\<rparr>, al)
              else (False, ci, al)) })"

definition grow_capture_action_buckets ::
  "alloc \<Rightarrow> fsm_capture_info \<Rightarrow> (bool \<times> fsm_capture_info \<times> alloc) option" where
  "grow_capture_action_buckets al ci =
     do { let ncount = 2 * length (ci_buckets ci) mod 2 ^ 32;
          c_assert (ncount \<noteq> 0);
          let (ok, al) = f_malloc al;
          if \<not> ok then Some (False, ci, al)
          else do {
            bs \<leftarrow> rehash cb_key cb_hash (\<lambda>b. if cb_state b = CAPTURE_NO_STATE then None else Some b)
              (ci_buckets ci) (replicate ncount cb_empty);
            c_assert (ht_used cb_key bs = ci_used ci);
            Some (True, ci\<lparr>ci_buckets := bs\<rparr>, al) } }"

text \<open>
  \<open>count\<close> is the number of states and \<open>marked\<close> the flag of the states that the assertion for a
  duplicate reads. The middle result says whether the action was added, upon which the caller
  sets that flag.
\<close>

definition add_capture_action ::
  "alloc \<Rightarrow> nat \<Rightarrow> (fsm_state_t \<Rightarrow> bool) \<Rightarrow> fsm_capture_info \<Rightarrow> fsm_state_t \<Rightarrow> fsm_capture_action \<Rightarrow>
   (bool \<times> bool \<times> fsm_capture_info \<times> alloc) option" where
  "add_capture_action al statecount marked ci state action =
     do { c_assert (state < statecount);
          c_assert (ca_to action = CAPTURE_NO_STATE \<or> ca_to action < statecount);
          (ok, ci, al) \<leftarrow>
            (if length (ci_buckets ci) = 0 then init_capture_action_htab al ci
             else if ci_used ci \<ge> length (ci_buckets ci) div 2 then grow_capture_action_buckets al ci
             else Some (True, ci, al));
          if \<not> ok then Some (False, False, ci, al)
          else do {
            j \<leftarrow> ht_find cb_key cb_hash (ci_buckets ci) (state, action);
            if cb_state (ci_buckets ci ! j) = CAPTURE_NO_STATE then
              Some (True, True,
                ci\<lparr>ci_buckets := (ci_buckets ci)[j := \<lparr>cb_state = state, cb_action = action\<rparr>],
                   ci_used := ci_used ci + 1, ci_max := max (ci_max ci) (ca_id action)\<rparr>, al)
            else do {
              c_assert (marked state);
              c_assert (ci_max ci \<ge> ca_id action);
              Some (True, False, ci, al) } } }"

definition rebase_id :: "nat \<Rightarrow> fsm_capture_action_bucket \<Rightarrow> fsm_capture_action_bucket" where
  "rebase_id base b =
     (if cb_state b = CAPTURE_NO_STATE then b
      else b\<lparr>cb_action := (cb_action b)\<lparr>ca_id := (ca_id (cb_action b) + base) mod 2 ^ 32\<rparr>\<rparr>)"

definition fsm_capture_rebase_capture_id :: "fsm_capture_info \<Rightarrow> nat \<Rightarrow> fsm_capture_info" where
  "fsm_capture_rebase_capture_id ci base =
     (let bs = map (rebase_id base) (ci_buckets ci) in
      ci\<lparr>ci_buckets := bs,
         ci_max := foldl (\<lambda>m b. if cb_state b = CAPTURE_NO_STATE then m else max m (ca_id (cb_action b))) (ci_max ci) bs\<rparr>)"

definition rebase_state :: "fsm_state_t \<Rightarrow> fsm_capture_action_bucket \<Rightarrow> fsm_capture_action_bucket" where
  "rebase_state base b =
     (if cb_state b = CAPTURE_NO_STATE then b
      else b\<lparr>cb_state := state_add (cb_state b) base,
             cb_action := (if ca_to (cb_action b) = CAPTURE_NO_STATE then cb_action b
               else (cb_action b)\<lparr>ca_to := state_add (ca_to (cb_action b)) base\<rparr>)\<rparr>)"

definition fsm_capture_rebase_capture_action_states :: "fsm_capture_info \<Rightarrow> fsm_state_t \<Rightarrow> fsm_capture_info" where
  "fsm_capture_rebase_capture_action_states ci base = ci\<lparr>ci_buckets := map (rebase_state base) (ci_buckets ci)\<rparr>"

text \<open>
  The iteration calls back with an accumulator; the callback says whether to go on.
\<close>

definition fsm_capture_action_iter ::
  "fsm_capture_info \<Rightarrow> (fsm_state_t \<Rightarrow> fsm_capture_action \<Rightarrow> 's \<Rightarrow> (bool \<times> 's) option) \<Rightarrow> 's \<Rightarrow> (bool \<times> 's) option" where
  "fsm_capture_action_iter ci cb s =
     c_for (\<lambda>b s. if cb_state b = CAPTURE_NO_STATE then Some (True, s) else cb (cb_state b) (cb_action b) s)
       (ci_buckets ci) s"

section \<open>Positions\<close>

text \<open>The pair \<open>pos[0]\<close>, \<open>pos[1]\<close> of a capture.\<close>

type_synonym fsm_capture = "u64 \<times> u64"

definition FSM_CAPTURE_NO_POS :: u64 where
  "FSM_CAPTURE_NO_POS = - 1"

definition COMMITTED_CAPTURE_FLAG :: u64 where
  "COMMITTED_CAPTURE_FLAG = (- 1) XOR drop_bit 1 (- 1)"

definition capture_action_step ::
  "fsm_capture_action \<Rightarrow> fsm_state_t \<Rightarrow> u64 \<Rightarrow> fsm_capture \<Rightarrow> fsm_capture" where
  "capture_action_step a next_state offset pos =
     (case ca_type a of
        CAPTURE_ACTION_START \<Rightarrow>
          if next_state = ca_to a \<and> fst pos = FSM_CAPTURE_NO_POS then (offset, snd pos) else pos
      | CAPTURE_ACTION_EXTEND \<Rightarrow>
          if fst pos \<noteq> FSM_CAPTURE_NO_POS \<and> snd pos AND COMMITTED_CAPTURE_FLAG = 0 \<and> next_state = ca_to a
          then (fst pos, offset) else pos
      | CAPTURE_ACTION_COMMIT_ZERO_STEP \<Rightarrow>
          (if fst pos = FSM_CAPTURE_NO_POS then offset else fst pos, offset OR COMMITTED_CAPTURE_FLAG)
      | CAPTURE_ACTION_COMMIT \<Rightarrow> (fst pos, offset OR COMMITTED_CAPTURE_FLAG))"

fun update_captures_loop ::
  "fsm_capture_action_bucket list \<Rightarrow> fsm_state_t \<Rightarrow> fsm_state_t \<Rightarrow> u64 \<Rightarrow> fsm_capture list \<Rightarrow> fsm_capture list option" where
  "update_captures_loop [] cur_state next_state offset captures = Some captures"
| "update_captures_loop (b # bs) cur_state next_state offset captures =
     (if cb_state b = CAPTURE_NO_STATE then Some captures
      else if cb_state b \<noteq> cur_state then update_captures_loop bs cur_state next_state offset captures
      else do {
        let k = ca_id (cb_action b);
        pos \<leftarrow> c_nth captures k;
        update_captures_loop bs cur_state next_state offset
          (captures[k := capture_action_step (cb_action b) next_state offset pos]) })"

definition fsm_capture_update_captures ::
  "nat \<Rightarrow> (fsm_state_t \<Rightarrow> bool) \<Rightarrow> fsm_capture_info \<Rightarrow> fsm_state_t \<Rightarrow> fsm_state_t \<Rightarrow> u64 \<Rightarrow> fsm_capture list \<Rightarrow>
   fsm_capture list option" where
  "fsm_capture_update_captures statecount marked ci cur_state next_state offset captures =
     do { c_assert (cur_state < statecount);
          c_assert (marked cur_state);
          update_captures_loop
            (map (\<lambda>j. ci_buckets ci ! j) (probes (hash_state cur_state) (length (ci_buckets ci))))
            cur_state next_state offset captures }"

definition finalize_capture :: "fsm_capture \<Rightarrow> fsm_capture" where
  "finalize_capture pos =
     (if fst pos = FSM_CAPTURE_NO_POS \<or> snd pos = FSM_CAPTURE_NO_POS \<or> snd pos AND COMMITTED_CAPTURE_FLAG = 0
      then (FSM_CAPTURE_NO_POS, FSM_CAPTURE_NO_POS)
      else (fst pos, snd pos AND NOT COMMITTED_CAPTURE_FLAG))"

definition fsm_capture_finalize_captures :: "nat \<Rightarrow> fsm_capture list \<Rightarrow> fsm_capture list option" where
  "fsm_capture_finalize_captures capture_count captures =
     do { c_assert (capture_count \<le> length captures);
          Some (map finalize_capture (take capture_count captures) @ drop capture_count captures) }"

section \<open>The table as a set of actions\<close>

interpretation cht: hash_table cb_key cb_hash cb_empty
  by unfold_locales (simp add: cb_key_def cb_empty_def)

definition capture_set :: "fsm_capture_info \<Rightarrow> (fsm_state_t \<times> fsm_capture_action) set" where
  "capture_set ci = {k. \<exists>b \<in> set (ci_buckets ci). cb_key b = Some k}"

definition capture_inv :: "fsm_capture_info \<Rightarrow> bool" where
  "capture_inv ci \<longleftrightarrow> ci_used ci = ht_used cb_key (ci_buckets ci) \<and>
     (\<forall>(s, a) \<in> capture_set ci. ca_id a \<le> ci_max ci) \<and>
     (ci_buckets ci = [] \<or> ht_ok cb_key cb_hash (ci_buckets ci) \<and>
        2 * ci_used ci \<le> length (ci_buckets ci) \<and> 32 \<le> length (ci_buckets ci))"

lemma cb_key_Some: "cb_key b = Some (s, a) \<longleftrightarrow> cb_state b = s \<and> cb_action b = a \<and> s \<noteq> CAPTURE_NO_STATE"
  by (auto simp: cb_key_def)

lemma cb_key_None: "cb_key b = None \<longleftrightarrow> cb_state b = CAPTURE_NO_STATE"
  by (simp add: cb_key_def)

lemma capture_set_live:
  "ht_live cb_key (ci_buckets ci') = ht_live cb_key (ci_buckets ci) \<Longrightarrow> capture_set ci' = capture_set ci"
  unfolding capture_set_def ht_live_def by (metis (mono_tags, lifting) mem_Collect_eq option.distinct(1))

lemma capture_inv_none: "capture_inv capture_none" "capture_set capture_none = {}"
  by (simp_all add: capture_inv_def capture_none_def capture_set_def ht_used_def)

lemma grow_capture_action_buckets_wp:
  assumes "capture_inv ci" and "ci_buckets ci \<noteq> []" and "length (ci_buckets ci) < 2 ^ 31"
  shows "wp (grow_capture_action_buckets al ci) (\<lambda>(ok, ci', al'). capture_inv ci' \<and> ci_buckets ci' \<noteq> [] \<and>
    capture_set ci' = capture_set ci \<and> ci_max ci' = ci_max ci \<and> ci_used ci' = ci_used ci \<and>
    length (ci_buckets ci') = (if ok then 2 * length (ci_buckets ci) else length (ci_buckets ci)) \<and>
    (al = [] \<longrightarrow> ok \<and> al' = []))"
proof -
  let ?bs = "ci_buckets ci"
  have ok: "ht_ok cb_key cb_hash ?bs" and used: "ci_used ci = ht_used cb_key ?bs"
    using assms(1,2) by (auto simp: capture_inv_def)
  obtain n where n: "n < 64" "length ?bs = 2 ^ n" using cht.ok_length [OF ok] by blast
  have n': "Suc n < 64"
    using assms(3) n(2) power_less_imp_less_exp [rotated, of "2 :: nat" n 31] by simp
  have len: "2 * length ?bs mod 2 ^ 32 = 2 ^ Suc n" using n(2) assms(3) by simp
  obtain a al' where al: "f_malloc al = (a, al')" by (cases "f_malloc al")
  have nil: "al = [] \<longrightarrow> a \<and> al' = []" using al by auto
  let ?keep = "\<lambda>b. if cb_state b = CAPTURE_NO_STATE then None else Some b"
  have bind: "(\<lambda>b. Option.bind (?keep b) cb_key) = cb_key" by (auto simp: fun_eq_iff cb_key_def)
  have dist: "distinct (List.map_filter (\<lambda>b. Option.bind (?keep b) cb_key) ?bs)"
    unfolding bind by (rule cht.distinct_moved [OF ok]) auto
  have emp: "ht_live cb_key (replicate k cb_empty) = {}" for k by (auto simp: ht_live_def cht.key_empty)
  have "wp (rehash cb_key cb_hash ?keep ?bs (replicate (2 ^ Suc n) cb_empty)) (\<lambda>dst'. ht_ok cb_key cb_hash dst' \<and>
      length dst' = length (replicate (2 ^ Suc n) cb_empty) \<and>
      ht_used cb_key dst' = ht_used cb_key (replicate (2 ^ Suc n) cb_empty) +
        length (List.map_filter (\<lambda>b. Option.bind (?keep b) cb_key) ?bs) \<and>
      ht_live cb_key dst' = ht_live cb_key (replicate (2 ^ Suc n) cb_empty) \<union>
        {b'. \<exists>b \<in> set ?bs. ?keep b = Some b' \<and> cb_key b' \<noteq> None})"
    by (rule cht.rehash_wp [OF cht.ok_empty [OF n'] dist])
      (use cht.used_le [of ?bs] n(2) in \<open>auto simp: cht.used_empty cht.key_empty bind cht.length_moved\<close>)
  then obtain bs' where re: "rehash cb_key cb_hash ?keep ?bs (replicate (2 ^ Suc n) cb_empty) = Some bs'"
    and ok': "ht_ok cb_key cb_hash bs'" and len': "length bs' = 2 ^ Suc n"
    and used': "ht_used cb_key bs' = ht_used cb_key ?bs"
    and live: "ht_live cb_key bs' = {b'. \<exists>b \<in> set ?bs. ?keep b = Some b' \<and> cb_key b' \<noteq> None}"
    by (rule wpE) (simp add: cht.used_empty bind cht.length_moved emp)
  have live': "ht_live cb_key bs' = ht_live cb_key ?bs"
    unfolding live by (auto simp: ht_live_def cb_key_None split: if_splits)
  have set': "capture_set (ci\<lparr>ci_buckets := bs'\<rparr>) = capture_set ci" by (rule capture_set_live) (simp add: live')
  have "capture_inv (ci\<lparr>ci_buckets := bs'\<rparr>)"
    using assms(1,2) ok' used' len' n(2) set' by (auto simp: capture_inv_def)
  then show ?thesis
    using al nil re len len' used used' assms(1,2) n(2) set'
    by (cases a) (auto simp: grow_capture_action_buckets_def c_assert_def)
qed

lemma init_capture_action_htab_wp:
  assumes "capture_inv ci" and "ci_buckets ci = []"
  shows "wp (init_capture_action_htab al ci) (\<lambda>(ok, ci', al'). capture_inv ci' \<and>
    capture_set ci' = capture_set ci \<and> ci_max ci' = ci_max ci \<and> ci_used ci' = 0 \<and>
    length (ci_buckets ci') = (if ok then 32 else 0) \<and> (al = [] \<longrightarrow> ok \<and> al' = []))"
proof -
  obtain a al' where al: "f_malloc al = (a, al')" by (cases "f_malloc al")
  have nil: "al = [] \<longrightarrow> a \<and> al' = []" using al by auto
  have used: "ci_used ci = 0" using assms by (simp add: capture_inv_def ht_used_def)
  have set: "capture_set ci = {}" using assms(2) by (simp add: capture_set_def)
  let ?ci = "ci\<lparr>ci_buckets := replicate DEF_CAPTURE_ACTION_BUCKET_COUNT cb_empty\<rparr>"
  have "capture_set ?ci = {}" by (auto simp: capture_set_def cht.key_empty)
  moreover have "capture_inv ?ci"
    using calculation cht.ok_empty [of 5] used
    by (simp add: capture_inv_def cht.used_empty DEF_CAPTURE_ACTION_BUCKET_COUNT_def)
  ultimately show ?thesis
    using assms al nil used set
    by (cases a) (simp_all add: init_capture_action_htab_def c_assert_def DEF_CAPTURE_ACTION_BUCKET_COUNT_def)
qed

text \<open>
  Adding an action: it is in the table afterwards and nothing else changes, or, when an
  allocation failed, nothing changes.
\<close>

lemma add_capture_action_wp:
  assumes inv: "capture_inv ci" and len: "length (ci_buckets ci) < 2 ^ 31"
    and s: "s < statecount" "statecount \<le> CAPTURE_NO_STATE" and to: "ca_to a = CAPTURE_NO_STATE \<or> ca_to a < statecount"
    and mk: "(s, a) \<in> capture_set ci \<longrightarrow> marked s"
  shows "wp (add_capture_action al statecount marked ci s a) (\<lambda>(ok, added, ci', al'). capture_inv ci' \<and>
    capture_set ci' = (if ok then insert (s, a) (capture_set ci) else capture_set ci) \<and>
    added = (ok \<and> (s, a) \<notin> capture_set ci) \<and>
    length (ci_buckets ci') \<le> max 32 (max (length (ci_buckets ci)) (4 * ci_used ci)) \<and>
    ci_used ci' \<le> ci_used ci + 1 \<and> ci_max ci' \<le> max (ci_max ci) (ca_id a) \<and> (al = [] \<longrightarrow> ok \<and> al' = []))"
proof -
  let ?first = "if ci_buckets ci = [] then init_capture_action_htab al ci
      else if ci_used ci \<ge> length (ci_buckets ci) div 2 then grow_capture_action_buckets al ci
      else Some (True, ci, al)"
  have "wp ?first (\<lambda>(ok, ci', al'). capture_inv ci' \<and> capture_set ci' = capture_set ci \<and> ci_max ci' = ci_max ci \<and>
      (ok \<longrightarrow> ci_buckets ci' \<noteq> [] \<and> 2 * ci_used ci' + 2 \<le> length (ci_buckets ci')) \<and>
      length (ci_buckets ci') \<le> max 32 (max (length (ci_buckets ci)) (4 * ci_used ci)) \<and> ci_used ci' = ci_used ci \<and> (al = [] \<longrightarrow> ok \<and> al' = []))"
  proof (cases "ci_buckets ci = []")
    case True
    then have "ci_used ci = 0" using inv by (simp add: capture_inv_def ht_used_def)
    with True show ?thesis by (auto intro!: wp_mono3 [OF init_capture_action_htab_wp [OF inv True]])
  next
    case False
    then have "2 * ci_used ci \<le> length (ci_buckets ci)" "32 \<le> length (ci_buckets ci)"
      using inv by (auto simp: capture_inv_def)
    moreover have "2 * (length (ci_buckets ci) div 2) = length (ci_buckets ci)"
    proof -
      obtain n where n: "length (ci_buckets ci) = 2 ^ n"
        using cht.ok_length [of "ci_buckets ci"] inv False by (auto simp: capture_inv_def)
      have "n \<noteq> 0" using calculation(2) n by (cases n) auto
      then show ?thesis using n by simp
    qed
    ultimately show ?thesis
      using False inv by (auto intro!: wp_mono3 [OF grow_capture_action_buckets_wp [OF inv False len]])
  qed
  then obtain ok1 ci1 al1 where first: "?first = Some (ok1, ci1, al1)" and inv1: "capture_inv ci1"
    and set1: "capture_set ci1 = capture_set ci"
    and room: "ok1 \<longrightarrow> ci_buckets ci1 \<noteq> [] \<and> 2 * ci_used ci1 + 2 \<le> length (ci_buckets ci1)"
    and len1: "length (ci_buckets ci1) \<le> max 32 (max (length (ci_buckets ci)) (4 * ci_used ci))"
      "ci_used ci1 = ci_used ci" "ci_max ci1 = ci_max ci" and nil: "al = [] \<longrightarrow> ok1 \<and> al1 = []"
    by (rule wpE3) auto
  note run = add_capture_action_def first c_assert_def s to
  show ?thesis
  proof (cases ok1)
    case False
    then show ?thesis using inv1 set1 len1 nil s to by (simp add: run)
  next
    case True
    let ?bs = "ci_buckets ci1" and ?b = "\<lparr>cb_state = s, cb_action = a\<rparr>"
    have ok: "ht_ok cb_key cb_hash ?bs" and used: "ci_used ci1 = ht_used cb_key ?bs"
      using inv1 room True by (auto simp: capture_inv_def)
    obtain j where j: "ht_find cb_key cb_hash ?bs (s, a) = Some j"
      using cht.find_ex [OF ok] room True used by force
    have jl: "j < length ?bs" "cb_key (?bs ! j) = None \<or> cb_key (?bs ! j) = Some (s, a)"
      using cht.find_in [OF ok j] by auto
    show ?thesis
    proof (cases "cb_state (?bs ! j) = CAPTURE_NO_STATE")
      case free: True
      then have none: "cb_key (?bs ! j) = None" by (simp add: cb_key_None)
      have key: "cb_key ?b = Some (s, a)" using s by (simp add: cb_key_Some)
      note st = cht.store_new [OF ok j none key]
      let ?ci = "ci1\<lparr>ci_buckets := ?bs[j := ?b], ci_used := ci_used ci1 + 1, ci_max := max (ci_max ci1) (ca_id a)\<rparr>"
      have live: "ht_live cb_key (?bs[j := ?b]) = insert ?b (ht_live cb_key ?bs)"
        by (rule cht.live_insert [OF jl(1) none]) (simp add: key)
      have set2: "capture_set ?ci = insert (s, a) (capture_set ci)"
      proof -
        have "capture_set c = the ` cb_key ` ht_live cb_key (ci_buckets c)" for c
          by (force simp: capture_set_def ht_live_def image_iff)
        then show ?thesis using live key set1 by simp
      qed
      have "(s, a) \<notin> capture_set ci"
        unfolding set1 [symmetric] using st(4) cht.lookup_None [OF ok] by (simp add: capture_set_def)
      moreover have "capture_inv ?ci"
        using inv1 st(1,2) room True used set1 set2 by (auto simp: capture_inv_def)
      ultimately show ?thesis
        using True free j len1 nil s to set2 by (simp add: run)
    next
      case False
      then have "cb_key (?bs ! j) = Some (s, a)" using jl(2) by (simp add: cb_key_None)
      then have mem: "(s, a) \<in> capture_set ci1" using jl(1) by (auto simp: capture_set_def)
      then have "ca_id a \<le> ci_max ci1" using inv1 by (auto simp: capture_inv_def)
      then show ?thesis
        using True False j mem mk set1 inv1 len1 nil s to by (auto simp: run)
    qed
  qed
qed

section \<open>Positions of finished captures\<close>

lemma bit_flag: "bit COMMITTED_CAPTURE_FLAG i \<longleftrightarrow> i = 63"
  by (auto simp: COMMITTED_CAPTURE_FLAG_def bit_simps)

lemma flag_clear:
  assumes "unat (offset :: u64) < 2 ^ 63 - 1"
  shows "\<not> bit offset 63" and "offset AND COMMITTED_CAPTURE_FLAG = 0"
proof -
  have "unat offset div 2 ^ 63 = 0" using assms by simp
  then have "\<not> bit (unat offset) 63" by (simp add: bit_iff_odd)
  then show low: "\<not> bit offset 63" by (simp add: bit_unsigned_iff)
  show "offset AND COMMITTED_CAPTURE_FLAG = 0" by (rule bit_eqI) (use low in \<open>auto simp: bit_and_iff bit_flag\<close>)
qed

text \<open>
  A committed position survives the final pass as the offset it was committed with, for
  every offset below \<open>2 ^ 63 - 1\<close>; one that was never committed is cleared.
\<close>

lemma finalize_committed:
  assumes "unat offset < 2 ^ 63 - 1" and "p \<noteq> FSM_CAPTURE_NO_POS"
  shows "finalize_capture (p, offset OR COMMITTED_CAPTURE_FLAG) = (p, offset)"
proof -
  note low = flag_clear(1) [OF assms(1)]
  have flag: "(offset OR COMMITTED_CAPTURE_FLAG) AND COMMITTED_CAPTURE_FLAG \<noteq> 0"
  proof
    assume "(offset OR COMMITTED_CAPTURE_FLAG) AND COMMITTED_CAPTURE_FLAG = 0"
    then have "bit ((offset OR COMMITTED_CAPTURE_FLAG) AND COMMITTED_CAPTURE_FLAG) 63 = bit (0 :: u64) 63" by simp
    then show False by (simp add: bit_flag bit_and_iff bit_or_iff)
  qed
  have "offset OR COMMITTED_CAPTURE_FLAG \<noteq> FSM_CAPTURE_NO_POS"
  proof
    assume all: "offset OR COMMITTED_CAPTURE_FLAG = FSM_CAPTURE_NO_POS"
    have "offset = mask 63"
    proof (rule bit_eqI)
      fix i
      assume "possible_bit TYPE(u64) i"
      then have "i < 64" by simp
      moreover have "bit (offset OR COMMITTED_CAPTURE_FLAG) i = bit FSM_CAPTURE_NO_POS i" using all by simp
      ultimately show "bit offset i = bit (mask 63 :: u64) i"
        using low by (cases "i = 63") (auto simp: bit_or_iff bit_flag FSM_CAPTURE_NO_POS_def bit_simps)
    qed
    then show False using assms(1) by (simp add: mask_eq_exp_minus_1)
  qed
  moreover have "(offset OR COMMITTED_CAPTURE_FLAG) AND NOT COMMITTED_CAPTURE_FLAG = offset"
    by (rule bit_eqI) (use low in \<open>auto simp: bit_simps bit_flag\<close>)
  ultimately show ?thesis using flag assms(2) by (simp add: finalize_capture_def)
qed

lemma finalize_uncommitted:
  "q AND COMMITTED_CAPTURE_FLAG = 0 \<Longrightarrow> finalize_capture (p, q) = (FSM_CAPTURE_NO_POS, FSM_CAPTURE_NO_POS)"
  by (simp add: finalize_capture_def)

end
