(* ===== verification/Automaton.thy ===== *)
theory Automaton
  imports Main
begin

text \<open>
  The specification side of the development: nondeterministic automata with epsilon moves as
  a start state, a labelled step relation and a set of end states, the runs of a step
  relation along a word, and the language of an automaton. It mentions nothing of the
  program; the components refine their automata to it.
\<close>

section \<open>Runs\<close>

text \<open>A label is a symbol or, for an epsilon move, \<open>None\<close>.\<close>

type_synonym ('s, 'c) lts = "'s \<Rightarrow> 'c option \<Rightarrow> 's \<Rightarrow> bool"

inductive run :: "('s, 'c) lts \<Rightarrow> 's \<Rightarrow> 'c list \<Rightarrow> 's \<Rightarrow> bool" for T where
  run_refl: "run T s [] s"
| run_eps: "T s None t \<Longrightarrow> run T t w u \<Longrightarrow> run T s w u"
| run_sym: "T s (Some c) t \<Longrightarrow> run T t w u \<Longrightarrow> run T s (c # w) u"

inductive_cases run_ConsE: "run T s (c # w) u"

lemma run_step: "T s (Some c) t \<Longrightarrow> run T s [c] t" and run_step_eps: "T s None t \<Longrightarrow> run T s [] t"
  by (blast intro: run.intros)+

lemma run_trans: "run T s u t \<Longrightarrow> run T t v r \<Longrightarrow> run T s (u @ v) r"
  by (induction rule: run.induct) (auto intro: run.intros)

lemma run_mono:
  assumes "run T s w t" and "\<And>s l t. T s l t \<Longrightarrow> T' s l t"
  shows "run T' s w t"
  using assms(1) by (induction rule: run.induct) (auto intro: run.intros assms(2))

lemma run_map:
  assumes "run T s w t" and "\<And>s l t. T s l t \<Longrightarrow> T' (f s) l (f t)"
  shows "run T' (f s) w (f t)"
  using assms(1) by (induction rule: run.induct) (auto intro: run.intros assms(2))

lemma run_in:
  assumes "run T s w t" and "s \<in> S" and "\<And>s l t. s \<in> S \<Longrightarrow> T s l t \<Longrightarrow> t \<in> S"
  shows "t \<in> S"
  using assms by (induction rule: run.induct) blast+

text \<open>A run only uses the steps from where it can get.\<close>

lemma run_within:
  assumes "run T s w t" and "s \<in> S" and "\<And>s l t. s \<in> S \<Longrightarrow> T s l t \<Longrightarrow> t \<in> S \<and> T' s l t"
  shows "run T' s w t"
  using assms by (induction rule: run.induct) (blast intro: run.intros)+

lemma run_ConsD:
  assumes "run T s w t" and "w = c # v"
  shows "\<exists>p q. run T s [] p \<and> T p (Some c) q \<and> run T q v t"
  using assms by (induction rule: run.induct) (blast intro: run.intros)+

lemma run_Cons_iff: "run T s (c # w) t \<longleftrightarrow> (\<exists>p q. run T s [] p \<and> T p (Some c) q \<and> run T q w t)"
proof
  assume "\<exists>p q. run T s [] p \<and> T p (Some c) q \<and> run T q w t"
  then obtain p q where "run T s [] p" "T p (Some c) q" "run T q w t" by blast
  then show "run T s (c # w) t" using run_trans [OF _ run_sym, of T s "[]" p c q w t] by simp
qed (rule run_ConsD, simp_all)

lemma run_appendD: "run T s (u @ v) r \<Longrightarrow> \<exists>t. run T s u t \<and> run T t v r"
proof (induction u arbitrary: s)
  case Nil
  then show ?case by (auto intro: run_refl)
next
  case (Cons c u)
  then obtain p q where p: "run T s [] p" "T p (Some c) q" "run T q (u @ v) r" by (auto simp: run_Cons_iff)
  then obtain t where "run T q u t" "run T t v r" using Cons.IH by blast
  then show ?case using p unfolding run_Cons_iff by blast
qed

lemma run_append_iff: "run T s (u @ v) r \<longleftrightarrow> (\<exists>t. run T s u t \<and> run T t v r)"
  using run_appendD run_trans by metis

text \<open>The states that epsilon moves reach.\<close>

lemma run_Nil_iff: "run T s [] t \<longleftrightarrow> (\<lambda>s t. T s None t)\<^sup>*\<^sup>* s t"
proof
  have "run T s w t \<Longrightarrow> w = [] \<Longrightarrow> (\<lambda>s t. T s None t)\<^sup>*\<^sup>* s t" for w
    by (induction rule: run.induct) (auto intro: converse_rtranclp_into_rtranclp)
  then show "run T s [] t \<Longrightarrow> (\<lambda>s t. T s None t)\<^sup>*\<^sup>* s t" by simp
  show "(\<lambda>s t. T s None t)\<^sup>*\<^sup>* s t \<Longrightarrow> run T s [] t"
    by (induction rule: converse_rtranclp_induct) (auto intro: run.intros)
qed

text \<open>Backwards along the same steps.\<close>

lemma run_snoc: "run T s w t \<Longrightarrow> T t (Some c) u \<Longrightarrow> run T s (w @ [c]) u"
  by (rule run_trans) (auto intro: run_step)

lemma run_snoc_eps: "run T s w t \<Longrightarrow> T t None u \<Longrightarrow> run T s w u"
  using run_trans [of T s w t "[]" u] run_step_eps [of T t u] by simp

lemma run_reverse: "run T s w t \<Longrightarrow> run (\<lambda>t l s. T s l t) t (rev w) s"
proof (induction rule: run.induct)
  case (run_refl s)
  show ?case using run.run_refl by simp
next
  case (run_eps s t w u)
  then show ?case by (auto intro: run_snoc_eps)
next
  case (run_sym s c t w u)
  then show ?case by (auto intro: run_snoc)
qed

lemma run_reverse_iff: "run (\<lambda>t l s. T s l t) t (rev w) s \<longleftrightarrow> run T s w t"
  using run_reverse [of T s w t] run_reverse [of "\<lambda>t l s. T s l t" t "rev w" s] by auto

text \<open>Reachability over any word.\<close>

lemma run_reach_iff: "(\<exists>w. run T s w t) \<longleftrightarrow> (\<lambda>p t. \<exists>l. T p l t)\<^sup>*\<^sup>* s t"
proof
  assume "\<exists>w. run T s w t"
  then obtain w where "run T s w t" by blast
  then show "(\<lambda>p t. \<exists>l. T p l t)\<^sup>*\<^sup>* s t"
    by (induction rule: run.induct) (auto intro: converse_rtranclp_into_rtranclp)
next
  assume "(\<lambda>p t. \<exists>l. T p l t)\<^sup>*\<^sup>* s t"
  then show "\<exists>w. run T s w t"
  proof (induction rule: converse_rtranclp_induct)
    case (step s p)
    then obtain l w where "T s l p" "run T p w t" by blast
    then show ?case by (cases l) (blast intro: run.intros)+
  qed (blast intro: run_refl)
qed

section \<open>Automata\<close>

record ('s, 'c) nfa =
  n_start :: "'s option"
  n_step :: "('s, 'c) lts"
  n_end :: "'s \<Rightarrow> bool"

lemma nfa_eqI:
  fixes A B :: "('s, 'c) nfa"
  assumes "n_start A = n_start B" and "\<And>s l t. n_step A s l t = n_step B s l t" and "\<And>s. n_end A s = n_end B s"
  shows "A = B"
  using assms by (intro nfa.equality) (auto simp: fun_eq_iff)

definition language :: "('s, 'c) nfa \<Rightarrow> 'c list set" where
  "language A = {w. \<exists>s e. n_start A = Some s \<and> run (n_step A) s w e \<and> n_end A e}"

lemma in_language: "w \<in> language A \<longleftrightarrow> (\<exists>s e. n_start A = Some s \<and> run (n_step A) s w e \<and> n_end A e)"
  by (simp add: language_def)

text \<open>The words that lead from one state to an end state.\<close>

definition lang_from :: "('s, 'c) nfa \<Rightarrow> 's \<Rightarrow> 'c list set" where
  "lang_from A s = {w. \<exists>e. run (n_step A) s w e \<and> n_end A e}"

lemma language_lang_from: "language A = (case n_start A of None \<Rightarrow> {} | Some s \<Rightarrow> lang_from A s)"
  by (auto simp: language_def lang_from_def split: option.split)

lemma lang_from_iff:
  "w \<in> lang_from A s \<longleftrightarrow> w = [] \<and> n_end A s \<or> (\<exists>t. n_step A s None t \<and> w \<in> lang_from A t) \<or>
     (\<exists>c v t. w = c # v \<and> n_step A s (Some c) t \<and> v \<in> lang_from A t)"
proof
  assume "w \<in> lang_from A s"
  then obtain e where "run (n_step A) s w e" "n_end A e" by (auto simp: lang_from_def)
  then show "w = [] \<and> n_end A s \<or> (\<exists>t. n_step A s None t \<and> w \<in> lang_from A t) \<or>
     (\<exists>c v t. w = c # v \<and> n_step A s (Some c) t \<and> v \<in> lang_from A t)"
    by (cases rule: run.cases) (auto simp: lang_from_def)
next
  assume "w = [] \<and> n_end A s \<or> (\<exists>t. n_step A s None t \<and> w \<in> lang_from A t) \<or>
     (\<exists>c v t. w = c # v \<and> n_step A s (Some c) t \<and> v \<in> lang_from A t)"
  then show "w \<in> lang_from A s" unfolding lang_from_def by (auto intro: run.intros)
qed

text \<open>
  Two automata that agree on everything a state of the first can reach, up to the names of
  the states, have the same words from there; from the start state, the same language.
\<close>

lemma lang_from_embed:
  assumes fwd: "\<And>s l t. s \<in> S \<Longrightarrow> n_step A s l t \<Longrightarrow> t \<in> S \<and> n_step B (f s) l (f t)"
    and bwd: "\<And>s l t'. s \<in> S \<Longrightarrow> n_step B (f s) l t' \<Longrightarrow> \<exists>t \<in> S. t' = f t \<and> n_step A s l t"
    and ends: "\<And>s. s \<in> S \<Longrightarrow> n_end B (f s) = n_end A s" and "s \<in> S"
  shows "lang_from B (f s) = lang_from A s"
proof -
  have to_b: "run (n_step B) (f s) w (f t) \<and> t \<in> S" if "run (n_step A) s w t" "s \<in> S" for s w t
    using that
  proof (induction rule: run.induct)
    case (run_refl s)
    then show ?case by (auto intro: run.intros)
  next
    case (run_eps s t w u)
    then show ?case using fwd [of s None t] by (auto intro: run.intros)
  next
    case (run_sym s c t w u)
    then show ?case using fwd [of s "Some c" t] by (auto intro: run.intros)
  qed
  have "\<exists>t \<in> S. t' = f t \<and> run (n_step A) s w t" if "run (n_step B) s' w t'" "s' = f s" "s \<in> S" for s s' w t'
    using that
  proof (induction arbitrary: s rule: run.induct)
    case (run_refl s')
    then show ?case by (auto intro: run.intros)
  next
    case (run_eps s' t' w u')
    then show ?case using bwd [of s None t'] by (blast intro: run.run_eps)
  next
    case (run_sym s' c t' w u')
    then show ?case using bwd [of s "Some c" t'] by (blast intro: run.run_sym)
  qed
  then have to_a: "\<exists>t \<in> S. t' = f t \<and> run (n_step A) s w t" if "run (n_step B) (f s) w t'" "s \<in> S" for s w t'
    using that by blast
  show ?thesis
    using to_a [OF _ assms(4)] to_b [OF _ assms(4)] ends unfolding lang_from_def by blast
qed

lemma language_embed:
  assumes "n_start B = map_option f (n_start A)" and "\<And>s. n_start A = Some s \<Longrightarrow> s \<in> S"
    and "\<And>s l t. s \<in> S \<Longrightarrow> n_step A s l t \<Longrightarrow> t \<in> S \<and> n_step B (f s) l (f t)"
    and "\<And>s l t'. s \<in> S \<Longrightarrow> n_step B (f s) l t' \<Longrightarrow> \<exists>t \<in> S. t' = f t \<and> n_step A s l t"
    and "\<And>s. s \<in> S \<Longrightarrow> n_end B (f s) = n_end A s"
  shows "language B = language A"
  using assms(1,2) lang_from_embed [of S A B f, OF assms(3-5)] by (auto simp: language_lang_from split: option.splits)

text \<open>The words from a set of states that no step leaves depend only on the steps in it.\<close>

lemma lang_from_within:
  assumes "\<And>s l t. s \<in> S \<Longrightarrow> n_step A s l t \<Longrightarrow> t \<in> S" and "\<And>s l t. s \<in> S \<Longrightarrow> n_step B s l t = n_step A s l t"
    and "\<And>s. s \<in> S \<Longrightarrow> n_end B s = n_end A s" and "s \<in> S"
  shows "lang_from B s = lang_from A s"
  by (rule lang_from_embed [where f = "\<lambda>s. s" and S = S]) (use assms in auto)

end
