(* ===== verification/Fsm_Core.thy ===== *)
theory Fsm_Core
  imports Automaton Edge_Set Endids Eager_Output Capture
begin

text \<open>
  The automaton itself: \<open>struct fsm\<close> and \<open>struct fsm_state\<close> of \<open>src/libfsm/internal.h\<close>, and the
  operations of \<open>fsm.c\<close>, \<open>state.c\<close>, \<open>edge.c\<close>, \<open>start.c\<close> and \<open>end.c\<close>. The invariant is that of
  the states and their edges; the lemmas refine every operation to what it does to the
  abstract automaton of \<open>Automaton\<close>.
\<close>

section \<open>The data\<close>

record fsm_state =
  st_edges :: edge_set
  st_epsilons :: state_set
  st_end :: bool
  st_has_capture_actions :: bool
  st_visited :: bool
  st_has_eager_outputs :: bool

record linkage_info =
  unanchored_start_loop :: fsm_state_t
  unanchored_end_loop :: fsm_state_t
  unanchored_end_loop_end :: fsm_state_t
  anchored_starts :: state_set
  anchored_ends :: state_set

text \<open>
  The array of states is \<open>f_states\<close> and, up to \<open>statealloc\<close>, unused elements. Of those only
  \<open>has_capture_actions\<close> is ever read again, by \<open>fsm_addstate\<close> leaving it as it is, and
  \<open>f_spare\<close> holds it.
\<close>

record fsm =
  f_states :: "fsm_state list"
  f_spare :: "bool list"
  f_endcount :: nat  \<comment> \<open>31 bits\<close>
  f_hasstart :: bool
  f_start :: fsm_state_t
  f_capture_info :: fsm_capture_info
  f_endid_info :: endid_info
  f_eager_output_info :: eager_output_info
  f_linkage_info :: "linkage_info option"

abbreviation statecount :: "fsm \<Rightarrow> nat" where
  "statecount f \<equiv> length (f_states f)"

definition statealloc :: "fsm \<Rightarrow> nat" where
  "statealloc f = length (f_states f) + length (f_spare f)"

definition FSM_DEFAULT_STATEALLOC :: nat where
  "FSM_DEFAULT_STATEALLOC = 128"

definition upd_state :: "fsm \<Rightarrow> fsm_state_t \<Rightarrow> (fsm_state \<Rightarrow> fsm_state) \<Rightarrow> fsm" where
  "upd_state f s g = f\<lparr>f_states := (f_states f)[s := g (f_states f ! s)]\<rparr>"

section \<open>Creation\<close>

text \<open>
  The allocations are, in order: the struct, the states, and those of the three tables. When
  one for the end ids or the eager outputs fails, the struct is released and then passed to
  \<open>fsm_capture_free\<close>, which reads it: the model gives \<open>None\<close>.
\<close>

definition fsm_new_statealloc :: "alloc \<Rightarrow> nat \<Rightarrow> (fsm option \<times> alloc) option" where
  "fsm_new_statealloc al n =
     (let n = (if n = 0 then FSM_DEFAULT_STATEALLOC else n);
          (ok, al) = f_malloc al in
      if \<not> ok then Some (None, al)
      else let (ok, al) = f_malloc al in
      if \<not> ok then Some (None, al)
      else let (ci, al) = fsm_capture_init al in
      case ci of None \<Rightarrow> Some (None, al) | Some ci \<Rightarrow>
        let (ei, al) = fsm_endid_init al in
        case ei of None \<Rightarrow> None | Some ei \<Rightarrow>
          let (eo, al) = fsm_eager_output_init al in
          case eo of None \<Rightarrow> None | Some eo \<Rightarrow>
            Some (Some \<lparr>f_states = [], f_spare = replicate n False, f_endcount = 0, f_hasstart = False,
              f_start = 0, f_capture_info = ci, f_endid_info = ei, f_eager_output_info = eo,
              f_linkage_info = None\<rparr>, al))"

definition fsm_new :: "alloc \<Rightarrow> (fsm option \<times> alloc) option" where
  "fsm_new al = fsm_new_statealloc al FSM_DEFAULT_STATEALLOC"

text \<open>With the same allocator on both sides, \<open>fsm_move\<close> replaces all fields.\<close>

definition fsm_move :: "fsm \<Rightarrow> fsm \<Rightarrow> fsm" where
  "fsm_move dst src = src"

definition fsm_countstates :: "fsm \<Rightarrow> nat" where
  "fsm_countstates f = statecount f mod 2 ^ 32"

definition fsm_countedges :: "fsm \<Rightarrow> nat" where
  "fsm_countedges f = foldl (\<lambda>n st. (n + edge_set_count (st_edges st)) mod 2 ^ 32) 0 (f_states f)"

section \<open>Start and end\<close>

definition fsm_clearstart :: "fsm \<Rightarrow> fsm" where
  "fsm_clearstart f = f\<lparr>f_hasstart := False\<rparr>"

definition fsm_setstart :: "fsm \<Rightarrow> fsm_state_t \<Rightarrow> fsm option" where
  "fsm_setstart f state =
     do { c_assert (state < statecount f); Some (f\<lparr>f_start := state, f_hasstart := True\<rparr>) }"

definition fsm_getstart :: "fsm \<Rightarrow> fsm_state_t option option" where
  "fsm_getstart f =
     (if \<not> f_hasstart f then Some None
      else do { c_assert (f_start f < statecount f); Some (Some (f_start f)) })"

text \<open>\<open>end\<close> is an \<open>int\<close> in the source: a value other than 0 and 1 changes nothing.\<close>

definition fsm_setend :: "fsm \<Rightarrow> fsm_state_t \<Rightarrow> int \<Rightarrow> fsm option" where
  "fsm_setend f state e =
     do { c_assert (state < statecount f);
          if st_end (f_states f ! state) = (e \<noteq> 0) then Some f
          else if e = 0 then
            do { c_assert (f_endcount f > 0);
                 Some ((upd_state f state (\<lambda>st. st\<lparr>st_end := False\<rparr>))\<lparr>f_endcount := f_endcount f - 1\<rparr>) }
          else if e = 1 then
            Some ((upd_state f state (\<lambda>st. st\<lparr>st_end := True\<rparr>))\<lparr>f_endcount := (f_endcount f + 1) mod 2 ^ 31\<rparr>)
          else Some f }"

definition fsm_isend :: "fsm \<Rightarrow> fsm_state_t \<Rightarrow> bool option" where
  "fsm_isend f state = do { c_assert (state < statecount f); Some (st_end (f_states f ! state)) }"

section \<open>States\<close>

definition new_state :: "bool \<Rightarrow> fsm_state" where
  "new_state flag = \<lparr>st_edges = ES_Null, st_epsilons = SS_Null, st_end = False,
     st_has_capture_actions = flag, st_visited = False, st_has_eager_outputs = False\<rparr>"

definition fsm_addstate :: "alloc \<Rightarrow> fsm \<Rightarrow> (fsm_state_t option \<times> fsm \<times> alloc) option" where
  "fsm_addstate al f =
     (if statecount f = FSM_STATE_REMAP_NO_STATE then Some (None, f, al)
      else
        let (ok, spare, al) =
          (if f_spare f = [] then
             let (ok, al) = f_realloc al in (ok, if ok then replicate (statecount f) False else [], al)
           else (True, f_spare f, al)) in
        if \<not> ok then Some (None, f, al)
        else case spare of
          [] \<Rightarrow> None
        | flag # spare \<Rightarrow>
            Some (Some (statecount f), f\<lparr>f_states := f_states f @ [new_state flag], f_spare := spare\<rparr>, al))"

definition fsm_addstate_bulk :: "alloc \<Rightarrow> fsm \<Rightarrow> nat \<Rightarrow> (bool \<times> fsm \<times> alloc) option" where
  "fsm_addstate_bulk al f n =
     (if statecount f + n \<le> statealloc f then
        Some (True, f\<lparr>f_states := f_states f @ map new_state (take n (f_spare f)),
                      f_spare := drop n (f_spare f)\<rparr>, al)
      else
        c_for (\<lambda>_ (f, al). do { (s, f, al) \<leftarrow> fsm_addstate al f; Some (s \<noteq> None, f, al) })
          [0..<n] (f, al))"

text \<open>
  Removal moves the last state into the gap. Neither \<open>start\<close> nor the three tables are
  renumbered.
\<close>

definition removestate_edges :: "fsm_state_t \<Rightarrow> fsm_state \<Rightarrow> fsm_state option" where
  "removestate_edges state st =
     do { eps \<leftarrow> state_set_remove (st_epsilons st) state;
          es \<leftarrow> (if st_edges st \<noteq> ES_Null then edge_set_remove_state (st_edges st) state else Some (st_edges st));
          Some (st\<lparr>st_epsilons := eps, st_edges := es\<rparr>) }"

definition removestate_renumber ::
  "fsm_state_t \<Rightarrow> fsm_state_t \<Rightarrow> nat \<Rightarrow> fsm \<times> alloc \<Rightarrow> (bool \<times> fsm \<times> alloc) option" where
  "removestate_renumber old new i = (\<lambda>(f, al).
     let st = f_states f ! i;
         st = st\<lparr>st_epsilons := state_set_replace (st_epsilons st) old new\<rparr> in
     do { (ok, es, al) \<leftarrow> edge_set_replace_state al (st_edges st) old new;
          Some (ok, f\<lparr>f_states := (f_states f)[i := st\<lparr>st_edges := es\<rparr>]\<rparr>, al) })"

definition fsm_removestate :: "alloc \<Rightarrow> fsm \<Rightarrow> fsm_state_t \<Rightarrow> (bool \<times> fsm \<times> alloc) option" where
  "fsm_removestate al f state =
     do { c_assert (state < statecount f);
          f \<leftarrow> fsm_setend f state 0;
          (_, f) \<leftarrow> c_for (\<lambda>i f. do { st \<leftarrow> removestate_edges state (f_states f ! i);
                                     Some (True, f\<lparr>f_states := (f_states f)[i := st]\<rparr>) })
            [0..<statecount f] f;
          start \<leftarrow> fsm_getstart f;
          let f = (if start = Some state then fsm_clearstart f else f);
          let last = statecount f - 1;
          (ok, f, al) \<leftarrow>
            (if state < last then
               c_for (removestate_renumber last state) [0..<last]
                 (f\<lparr>f_states := (f_states f)[state := f_states f ! last]\<rparr>, al)
             else Some (True, f, al));
          if \<not> ok then Some (False, f, al)
          else Some (True, f\<lparr>f_states := take last (f_states f),
                 f_spare := st_has_capture_actions (f_states f ! last) # f_spare f\<rparr>, al) }"

section \<open>Compaction\<close>

text \<open>The mapping from old to new numbers for the states the filter keeps, from number \<open>kept\<close> on.\<close>

fun compact_mapping :: "(fsm_state_t \<Rightarrow> bool) \<Rightarrow> fsm_state_t list \<Rightarrow> nat \<Rightarrow> fsm_state_t list" where
  "compact_mapping keep [] kept = []"
| "compact_mapping keep (i # is) kept =
     (if keep i then kept # compact_mapping keep is (kept + 1)
      else FSM_STATE_REMAP_NO_STATE # compact_mapping keep is kept)"

text \<open>
  The result of \<open>edge_set_compact\<close> is ignored: after a failing allocation the edges of the
  state keep their old numbers.
\<close>

definition compact_state ::
  "alloc \<Rightarrow> fsm_state_t list \<Rightarrow> fsm_state \<Rightarrow> (fsm_state \<times> alloc) option" where
  "compact_state al mapping st =
     do { eps \<leftarrow> state_set_compact (st_epsilons st) (c_nth mapping);
          (es, al) \<leftarrow>
            (if st_edges st \<noteq> ES_Null then
               do { (_, es, al) \<leftarrow> edge_set_compact al (st_edges st) (c_nth mapping); Some (es, al) }
             else Some (ES_Null, al));
          Some (st\<lparr>st_epsilons := eps, st_edges := es\<rparr>, al) }"

fun compact_edges_loop ::
  "fsm_state_t list \<Rightarrow> fsm_state list \<Rightarrow> nat \<Rightarrow> alloc \<Rightarrow> (fsm_state list \<times> alloc) option" where
  "compact_edges_loop mapping [] i al = Some ([], al)"
| "compact_edges_loop mapping (st # sts) i al =
     do { (st, al) \<leftarrow>
            (if mapping ! i = FSM_STATE_REMAP_NO_STATE then Some (st, al) else compact_state al mapping st);
          (sts, al) \<leftarrow> compact_edges_loop mapping sts (i + 1) al;
          Some (st # sts, al) }"

definition live_states :: "fsm_state_t list \<Rightarrow> 'a list \<Rightarrow> 'a list" where
  "live_states mapping sts = map fst (filter (\<lambda>(st, k). k \<noteq> FSM_STATE_REMAP_NO_STATE) (zip sts mapping))"

definition fsm_compact_states ::
  "alloc \<Rightarrow> fsm \<Rightarrow> (fsm_state_t \<Rightarrow> bool) \<Rightarrow> (bool \<times> nat \<times> fsm \<times> alloc) option" where
  "fsm_compact_states al f keep =
     (let (ok, al) = f_malloc al in
      if \<not> ok then Some (False, 0, f, al)
      else do {
        let orig = statecount f;
        let mapping = compact_mapping keep [0..<orig] 0;
        (_, f) \<leftarrow> c_for (\<lambda>i f. if keep i then Some (True, f)
                               else do { f \<leftarrow> fsm_setend f i 0; Some (True, f) }) [0..<orig] f;
        start \<leftarrow> fsm_getstart f;
        let (start, f) =
          (case start of
             None \<Rightarrow> (None, f)
           | Some s \<Rightarrow> if mapping ! s = FSM_STATE_REMAP_NO_STATE then (None, fsm_clearstart f) else (Some s, f));
        (sts, al) \<leftarrow> compact_edges_loop mapping (f_states f) 0 al;
        let kept = live_states mapping sts;
        let f = f\<lparr>f_states := kept,
                  f_spare := map st_has_capture_actions (drop (length kept) sts) @ f_spare f\<rparr>;
        (ok, ei, al) \<leftarrow> fsm_endid_compact al (f_endid_info f) mapping;
        let f = f\<lparr>f_endid_info := ei\<rparr>;
        if \<not> ok then Some (False, 0, f, al)
        else do {
          (ok, eo, al) \<leftarrow> fsm_eager_output_compact al (f_eager_output_info f) mapping;
          let f = f\<lparr>f_eager_output_info := eo\<rparr>;
          if \<not> ok then Some (False, 0, f, al)
          else do {
            f \<leftarrow> (if statecount f = 0 then Some (fsm_clearstart f)
                  else case start of None \<Rightarrow> Some f
                       | Some s \<Rightarrow> fsm_setstart f (mapping ! s));
            Some (True, orig - statecount f, f, al) } } })"

section \<open>Edges\<close>

definition fsm_addedge_epsilon ::
  "alloc \<Rightarrow> fsm \<Rightarrow> fsm_state_t \<Rightarrow> fsm_state_t \<Rightarrow> (bool \<times> fsm \<times> alloc) option" where
  "fsm_addedge_epsilon al f from to =
     do { c_assert (from < statecount f);
          c_assert (to < statecount f);
          (ok, eps, al) \<leftarrow> state_set_add al (st_epsilons (f_states f ! from)) to;
          Some (ok, upd_state f from (\<lambda>st. st\<lparr>st_epsilons := eps\<rparr>), al) }"

definition fsm_addedge_literal ::
  "alloc \<Rightarrow> fsm \<Rightarrow> fsm_state_t \<Rightarrow> fsm_state_t \<Rightarrow> octet \<Rightarrow> (bool \<times> fsm \<times> alloc) option" where
  "fsm_addedge_literal al f from to c =
     do { c_assert (from < statecount f);
          c_assert (to < statecount f);
          (ok, es, al) \<leftarrow> edge_set_add al (st_edges (f_states f ! from)) c to;
          Some (ok, upd_state f from (\<lambda>st. st\<lparr>st_edges := es\<rparr>), al) }"

definition fsm_addedge_any ::
  "alloc \<Rightarrow> fsm \<Rightarrow> fsm_state_t \<Rightarrow> fsm_state_t \<Rightarrow> (bool \<times> fsm \<times> alloc) option" where
  "fsm_addedge_any al f from to =
     do { c_assert (from < statecount f);
          c_assert (to < statecount f);
          c_for (\<lambda>i (f, al). fsm_addedge_literal al f from to (of_nat i)) [0..<256] (f, al) }"

section \<open>The abstract automaton\<close>

definition step_in :: "fsm_state list \<Rightarrow> (fsm_state_t, octet) lts" where
  "step_in sts s l t \<longleftrightarrow> s < length sts \<and>
     (case l of None \<Rightarrow> t \<in> ss_set (st_epsilons (sts ! s)) | Some c \<Rightarrow> (c, t) \<in> es_edges (st_edges (sts ! s)))"

definition fsm_step :: "fsm \<Rightarrow> (fsm_state_t, octet) lts" where
  "fsm_step f = step_in (f_states f)"

definition fsm_nfa :: "fsm \<Rightarrow> (fsm_state_t, octet) nfa" where
  "fsm_nfa f = \<lparr>n_start = (if f_hasstart f then Some (f_start f) else None), n_step = fsm_step f,
     n_end = (\<lambda>s. s < statecount f \<and> st_end (f_states f ! s))\<rparr>"

definition fsm_language :: "fsm \<Rightarrow> octet list set" where
  "fsm_language f = language (fsm_nfa f)"

text \<open>
  A well-formed automaton: the sets of every state are in order and lead to its states; an
  edge group that is left without symbols leads to state 0; the start state exists; and
  \<open>endcount\<close> counts the end states. The number of states is one that the 24-bit field of
  \<open>struct fsm_edge\<close> can tell apart.
\<close>

definition state_ok :: "nat \<Rightarrow> fsm_state \<Rightarrow> bool" where
  "state_ok n st \<longleftrightarrow> es_inv (st_edges st) \<and> es_tos (st_edges st) \<subseteq> insert 0 (snd ` es_edges (st_edges st)) \<and>
     snd ` es_edges (st_edges st) \<subseteq> {..<n} \<and> ss_inv (st_epsilons st) \<and> ss_set (st_epsilons st) \<subseteq> {..<n}"

definition fsm_inv :: "fsm \<Rightarrow> bool" where
  "fsm_inv f \<longleftrightarrow> (\<forall>st \<in> set (f_states f). state_ok (statecount f) st) \<and>
     statecount f \<le> edge_state_limit \<and> 0 < statealloc f \<and>
     (f_hasstart f \<longrightarrow> f_start f < statecount f) \<and>
     f_endcount f = length (filter st_end (f_states f))"

lemma state_ok_mono: "state_ok n st \<Longrightarrow> n \<le> m \<Longrightarrow> state_ok m st"
  by (auto simp: state_ok_def)

lemma state_ok_new: "state_ok n (new_state flag)"
  by (simp add: state_ok_def new_state_def)

lemma fsm_inv_state: "fsm_inv f \<Longrightarrow> s < statecount f \<Longrightarrow> state_ok (statecount f) (f_states f ! s)"
  by (simp add: fsm_inv_def)

lemma fsm_inv_limits:
  assumes "fsm_inv f"
  shows "statecount f \<le> 2 ^ 24" and "statecount f < state_limit" and "s < statecount f \<Longrightarrow> s < state_limit"
    and "f_endcount f \<le> statecount f"
  using assms by (auto simp: fsm_inv_def edge_state_limit_def state_limit_def)

lemma fsm_step_bounds:
  assumes "fsm_inv f" and "fsm_step f s l t"
  shows "s < statecount f" and "t < statecount f"
proof -
  show s: "s < statecount f" using assms(2) by (simp add: fsm_step_def step_in_def)
  show "t < statecount f"
    using assms(2) fsm_inv_state [OF assms(1) s] by (force simp: fsm_step_def step_in_def state_ok_def split: option.splits)
qed

text \<open>\<open>endcount\<close> when the flag of one state changes.\<close>

lemma count_update:
  assumes "s < length xs"
  shows "length (filter P (xs[s := x])) + (if P (xs ! s) then 1 else 0) = length (filter P xs) + (if P x then 1 else 0)"
  using arg_cong [OF id_take_nth_drop [OF assms], of "\<lambda>l. length (filter P l)"] assms
  by (simp add: upd_conv_take_nth_drop)

lemma step_in_cong:
  assumes "length sts' = length sts"
    and "\<And>i. i < length sts \<Longrightarrow> st_edges (sts' ! i) = st_edges (sts ! i) \<and> st_epsilons (sts' ! i) = st_epsilons (sts ! i)"
  shows "step_in sts' = step_in sts"
  using assms by (auto simp: step_in_def fun_eq_iff split: option.split)

lemma step_in_flags:
  assumes "st_edges st = st_edges (sts ! s)" and "st_epsilons st = st_epsilons (sts ! s)"
  shows "step_in (sts[s := st]) = step_in sts"
proof (rule step_in_cong)
  fix i assume "i < length sts"
  then show "st_edges (sts[s := st] ! i) = st_edges (sts ! i) \<and> st_epsilons (sts[s := st] ! i) = st_epsilons (sts ! i)"
    using assms by (cases "i = s") auto
qed simp

definition fsm_meta :: "fsm \<Rightarrow> fsm_capture_info \<times> endid_info \<times> eager_output_info \<times> linkage_info option" where
  "fsm_meta f = (f_capture_info f, f_endid_info f, f_eager_output_info f, f_linkage_info f)"

section \<open>Refinement of the basic operations\<close>

definition meta_ok :: "fsm \<Rightarrow> bool" where
  "meta_ok f \<longleftrightarrow> endid_inv (f_endid_info f) \<and>
     (\<forall>b \<in> ht_live eb_key (en_buckets (f_endid_info f)). eb_state b < statecount f) \<and>
     eager_inv (f_eager_output_info f) \<and>
     (\<forall>b \<in> ht_live ob_key (eo_buckets (f_eager_output_info f)). ob_state b < statecount f)"

text \<open>The tables of a new automaton.\<close>

lemma new_eager:
  "eager_inv \<lparr>eo_buckets = replicate DEF_EAGER_BUCKET_COUNT ob_empty, eo_used = 0\<rparr>"
  "ht_live ob_key (replicate DEF_EAGER_BUCKET_COUNT ob_empty) = {}"
  using oht.ok_empty [of 2]
  by (auto simp: eager_inv_def oht.used_empty ht_live_def oht.key_empty DEF_EAGER_BUCKET_COUNT_def)

definition fsm_blank :: "fsm \<Rightarrow> bool" where
  "fsm_blank f \<longleftrightarrow> f_states f = [] \<and> \<not> f_hasstart f \<and> (\<forall>s. endid_ids (f_endid_info f) s = []) \<and>
     (\<forall>s. eager_ids (f_eager_output_info f) s = []) \<and> f_capture_info f = capture_none \<and> f_linkage_info f = None"

lemma new_eager_none: "eager_ids \<lparr>eo_buckets = replicate DEF_EAGER_BUCKET_COUNT ob_empty, eo_used = 0\<rparr> s = []"
  using eager_ids_None [of "\<lparr>eo_buckets = replicate DEF_EAGER_BUCKET_COUNT ob_empty, eo_used = 0\<rparr>" s] new_eager
  by (simp add: eager_inv_def)

lemma fsm_new_statealloc_wp:
  "wp (fsm_new_statealloc [] n) (\<lambda>(r, al). al = [] \<and> (case r of None \<Rightarrow> False
     | Some f \<Rightarrow> fsm_inv f \<and> meta_ok f \<and> fsm_blank f \<and> statealloc f = (if n = 0 then 128 else n)))"
  using new_endids new_eager
  by (simp add: fsm_new_statealloc_def FSM_DEFAULT_STATEALLOC_def fsm_capture_init_def fsm_blank_def
      fsm_endid_init_def fsm_eager_output_init_def fsm_inv_def meta_ok_def statealloc_def
      new_endids_none new_eager_none)

lemma fsm_new_wp:
  "wp (fsm_new []) (\<lambda>(r, al). al = [] \<and> (case r of None \<Rightarrow> False | Some f \<Rightarrow> fsm_inv f \<and> meta_ok f \<and> fsm_blank f))"
  unfolding fsm_new_def by (rule wp_mono [OF fsm_new_statealloc_wp]) (auto split: option.splits)

lemma fsm_setstart_wp:
  assumes "fsm_inv f" and "s < statecount f"
  shows "wp (fsm_setstart f s) (\<lambda>f'. fsm_inv f' \<and> fsm_nfa f' = (fsm_nfa f)\<lparr>n_start := Some s\<rparr> \<and>
    f_states f' = f_states f \<and> fsm_meta f' = fsm_meta f)"
  using assms by (simp add: fsm_setstart_def c_assert_def fsm_inv_def fsm_nfa_def fsm_step_def fsm_meta_def statealloc_def)

lemma fsm_clearstart_nfa:
  "fsm_inv f \<Longrightarrow> fsm_inv (fsm_clearstart f)" "fsm_nfa (fsm_clearstart f) = (fsm_nfa f)\<lparr>n_start := None\<rparr>"
  by (simp_all add: fsm_clearstart_def fsm_inv_def fsm_nfa_def fsm_step_def statealloc_def)

lemma fsm_getstart_wp: "fsm_inv f \<Longrightarrow> fsm_getstart f = Some (n_start (fsm_nfa f))"
  by (simp add: fsm_getstart_def fsm_inv_def fsm_nfa_def c_assert_def)

lemma fsm_setend_wp:
  assumes inv: "fsm_inv f" and s: "s < statecount f" and e: "e = 0 \<or> e = 1"
  shows "wp (fsm_setend f s e) (\<lambda>f'. fsm_inv f' \<and> fsm_nfa f' = (fsm_nfa f)\<lparr>n_end := (n_end (fsm_nfa f))(s := (e = 1))\<rparr> \<and>
    fsm_meta f' = fsm_meta f \<and> statecount f' = statecount f)"
proof -
  let ?st = "f_states f ! s"
  have ok: "state_ok (statecount f) (?st\<lparr>st_end := b\<rparr>)" for b
    using fsm_inv_state [OF inv s] by (simp add: state_ok_def)
  have step: "step_in ((f_states f)[s := ?st\<lparr>st_end := b\<rparr>]) = step_in (f_states f)" for b
    by (rule step_in_flags) simp_all
  have count: "length (filter st_end ((f_states f)[s := ?st\<lparr>st_end := b\<rparr>])) =
      length (filter st_end (f_states f)) + (if b then 1 else 0) - (if st_end ?st then 1 else 0)" for b
    using count_update [OF s, of st_end "?st\<lparr>st_end := b\<rparr>"] by (auto split: if_splits)
  have ends: "length (filter st_end (f_states f)) = f_endcount f" using inv by (simp add: fsm_inv_def)
  have small: "f_endcount f + 1 < 2 ^ 31" using fsm_inv_limits [OF inv] by simp
  show ?thesis
  proof (cases "st_end ?st = (e \<noteq> 0)")
    case True
    then show ?thesis
      using inv s e by (auto simp: fsm_setend_def c_assert_def fsm_nfa_def fun_eq_iff)
  next
    case False
    have pos: "0 < f_endcount f" if "st_end ?st"
      using that s ends by (metis filter_empty_conv length_greater_0_conv nth_mem)
    have "fsm_inv (f\<lparr>f_states := (f_states f)[s := ?st\<lparr>st_end := (e = 1)\<rparr>], f_endcount :=
        (if e = 1 then f_endcount f + 1 else f_endcount f - 1)\<rparr>)"
      using inv s e False ok count ends
      by (auto simp: fsm_inv_def statealloc_def dest!: set_update_subset_insert [THEN subsetD])
    then show ?thesis
      using e False s pos small step
      by (auto simp: fsm_setend_def c_assert_def upd_state_def fsm_nfa_def fsm_step_def fsm_meta_def fun_eq_iff nth_list_update)
  qed
qed

text \<open>A state without edges at the end of the array changes nothing of the automaton.\<close>

lemma step_in_append_new: "step_in (sts @ map new_state flags) = step_in sts"
proof (intro ext)
  fix s l t
  have "(sts @ map new_state flags) ! s = (if s < length sts then sts ! s else new_state (flags ! (s - length sts)))"
    if "s < length sts + length flags"
    using that by (auto simp: nth_append)
  then show "step_in (sts @ map new_state flags) s l t = step_in sts s l t"
    by (auto simp: step_in_def new_state_def split: option.splits if_splits)
qed

lemma fsm_append_new:
  assumes "fsm_inv f" and "statecount f + length flags \<le> edge_state_limit" and "0 < statecount f + length flags + length spare"
  defines "f' \<equiv> f\<lparr>f_states := f_states f @ map new_state flags, f_spare := spare\<rparr>"
  shows "fsm_inv f'" and "fsm_nfa f' = fsm_nfa f"
proof -
  have "state_ok (statecount f + length flags) st" if "st \<in> set (f_states f) \<union> new_state ` set flags" for st
    using that assms(1) state_ok_mono [of "statecount f" st "statecount f + length flags"] state_ok_new
    by (auto simp: fsm_inv_def)
  then show "fsm_inv f'"
    using assms(1-3) by (auto simp: fsm_inv_def f'_def statealloc_def new_state_def)
  have "(f_states f @ map new_state flags) ! s = (if s < statecount f then f_states f ! s else new_state (flags ! (s - statecount f)))"
    if "s < statecount f + length flags" for s
    using that by (auto simp: nth_append)
  then show "fsm_nfa f' = fsm_nfa f"
    by (auto simp: fsm_nfa_def fsm_step_def f'_def step_in_append_new fun_eq_iff new_state_def split: if_splits)
qed

lemma fsm_addstate_wp:
  assumes inv: "fsm_inv f" and n: "statecount f < edge_state_limit"
  shows "wp (fsm_addstate al f) (\<lambda>(r, f', al'). fsm_inv f' \<and> fsm_nfa f' = fsm_nfa f \<and> fsm_meta f' = fsm_meta f \<and>
    (case r of None \<Rightarrow> f' = f | Some s \<Rightarrow> s = statecount f \<and> statecount f' = statecount f + 1) \<and>
    (al = [] \<longrightarrow> r \<noteq> None \<and> al' = []))"
proof -
  have big: "statecount f \<noteq> FSM_STATE_REMAP_NO_STATE"
    using n by (simp add: edge_state_limit_def FSM_STATE_REMAP_NO_STATE_def)
  obtain a al' where al: "f_realloc al = (a, al')" by (cases "f_realloc al")
  have nil: "al = [] \<longrightarrow> a \<and> al' = []" using al by auto
  have app: "fsm_inv (f\<lparr>f_states := f_states f @ [new_state flag], f_spare := spare\<rparr>)"
    "fsm_nfa (f\<lparr>f_states := f_states f @ [new_state flag], f_spare := spare\<rparr>) = fsm_nfa f" for flag spare
    using fsm_append_new [OF inv, of "[flag]" spare] n by simp_all
  show ?thesis
  proof (cases "f_spare f")
    case (Cons flag spare)
    then show ?thesis
      using big n app [of spare flag] by (simp add: fsm_addstate_def fsm_meta_def)
  next
    case Nil
    then have "0 < statecount f" using inv by (simp add: fsm_inv_def statealloc_def)
    then obtain m where m: "statecount f = Suc m" by (cases "statecount f") auto
    show ?thesis
      using Nil m big n app [of "replicate m False" False] al nil inv
      by (cases a) (simp_all add: fsm_addstate_def fsm_meta_def)
  qed
qed

lemma fsm_addstate_bulk_wp:
  assumes inv: "fsm_inv f" and n: "statecount f + n \<le> edge_state_limit"
  shows "wp (fsm_addstate_bulk al f n) (\<lambda>(ok, f', al'). fsm_inv f' \<and> fsm_nfa f' = fsm_nfa f \<and> fsm_meta f' = fsm_meta f \<and>
    (ok \<longrightarrow> statecount f' = statecount f + n) \<and> (al = [] \<longrightarrow> ok \<and> al' = []))"
proof (cases "statecount f + n \<le> statealloc f")
  case True
  then have "length (take n (f_spare f)) = n" by (simp add: statealloc_def)
  then show ?thesis
    using True n inv fsm_append_new [OF inv, of "take n (f_spare f)" "drop n (f_spare f)"]
    by (auto simp: fsm_addstate_bulk_def fsm_meta_def fsm_inv_def statealloc_def)
next
  case False
  let ?I = "\<lambda>ys (f', al' :: alloc). fsm_inv f' \<and> fsm_nfa f' = fsm_nfa f \<and> fsm_meta f' = fsm_meta f \<and>
      statecount f' = statecount f + length (ys :: nat list) \<and> (al = [] \<longrightarrow> al' = [])"
  let ?E = "\<lambda>(f', al' :: alloc). fsm_inv f' \<and> fsm_nfa f' = fsm_nfa f \<and> fsm_meta f' = fsm_meta f \<and> al \<noteq> []"
  have "wp (c_for (\<lambda>_ (f, al). do { (s, f, al) \<leftarrow> fsm_addstate al f; Some (s \<noteq> None, f, al) }) [0..<n] (f, al))
      (\<lambda>(ok, fa). if ok then ?I [0..<n] fa else ?E fa)"
  proof (rule wp_c_for)
    fix ys x zs fa
    assume xs: "[0..<n] = ys @ x # zs" and I: "?I ys fa"
    obtain f1 al1 where fa: "fa = (f1, al1)" by (cases fa)
    have "length [0..<n] = length (ys @ x # zs)" using xs by simp
    then have "statecount f1 < edge_state_limit" "fsm_inv f1" using I fa n by auto
    from fsm_addstate_wp [OF this(2,1), of al1]
    obtain r f2 al2 where "fsm_addstate al1 f1 = Some (r, f2, al2)" "fsm_inv f2" "fsm_nfa f2 = fsm_nfa f1"
      "fsm_meta f2 = fsm_meta f1" "case r of None \<Rightarrow> f2 = f1 | Some s \<Rightarrow> s = statecount f1 \<and> statecount f2 = statecount f1 + 1"
      "al1 = [] \<longrightarrow> r \<noteq> None \<and> al2 = []"
      by (rule wpE3) simp
    then show "wp (case fa of (f, al) \<Rightarrow> do { (s, f, al) \<leftarrow> fsm_addstate al f; Some (s \<noteq> None, f, al) })
        (\<lambda>(ok, fa'). if ok then ?I (ys @ [x]) fa' else ?E fa')"
      using I fa by (cases r) auto
  qed (use inv in auto)
  then show ?thesis
    unfolding fsm_addstate_bulk_def if_not_P [OF False] by (rule wp_mono2) (auto split: if_splits)
qed

section \<open>Refinement of the edge operations\<close>

definition add_step :: "'s \<Rightarrow> 'c option \<Rightarrow> 's \<Rightarrow> ('s, 'c) nfa \<Rightarrow> ('s, 'c) nfa" where
  "add_step p l q A = A\<lparr>n_step := (\<lambda>s k t. n_step A s k t \<or> s = p \<and> k = l \<and> t = q)\<rparr>"

lemma fsm_inv_upd:
  assumes "fsm_inv f" and "s < statecount f" and "state_ok (statecount f) st" and "st_end st = st_end (f_states f ! s)"
  shows "fsm_inv (f\<lparr>f_states := (f_states f)[s := st]\<rparr>)"
proof -
  have "length (filter st_end ((f_states f)[s := st])) = length (filter st_end (f_states f))"
    using count_update [OF assms(2), of st_end st] assms(4) by (simp split: if_splits)
  then show ?thesis
    using assms by (auto simp: fsm_inv_def statealloc_def dest!: set_update_subset_insert [THEN subsetD])
qed

lemma nfa_upd:
  assumes "s < statecount f" and "st_end st = st_end (f_states f ! s)"
  shows "fsm_nfa (f\<lparr>f_states := (f_states f)[s := st]\<rparr>) = (fsm_nfa f)\<lparr>n_step := (\<lambda>p l q.
    if p = s then (case l of None \<Rightarrow> q \<in> ss_set (st_epsilons st) | Some c \<Rightarrow> (c, q) \<in> es_edges (st_edges st))
    else fsm_step f p l q)\<rparr>"
  using assms by (auto simp: fsm_nfa_def fsm_step_def step_in_def fun_eq_iff nth_list_update split: option.splits)

lemma fsm_addedge_literal_wp:
  assumes inv: "fsm_inv f" and from_to: "from < statecount f" "to < statecount f"
  shows "wp (fsm_addedge_literal al f from to c) (\<lambda>(ok, f', al'). fsm_inv f' \<and> fsm_meta f' = fsm_meta f \<and>
    fsm_nfa f' = (if ok then add_step from (Some c) to (fsm_nfa f) else fsm_nfa f) \<and>
    statecount f' = statecount f \<and> (al = [] \<longrightarrow> ok \<and> al' = []))"
proof -
  let ?st = "f_states f ! from"
  have st: "state_ok (statecount f) ?st" by (rule fsm_inv_state [OF inv from_to(1)])
  have "es_inv (st_edges ?st)" "to < state_limit" using st fsm_inv_limits(3) [OF inv from_to(2)] by (auto simp: state_ok_def)
  from edge_set_add_wp [OF this, of al c]
  obtain ok es al' where add: "edge_set_add al (st_edges ?st) c to = Some (ok, es, al')" and es: "es_inv es"
    and edges: "es_edges es = (if ok then insert (c, to) (es_edges (st_edges ?st)) else es_edges (st_edges ?st))"
    and tos: "es_tos es = (if ok then insert to (es_tos (st_edges ?st)) else es_tos (st_edges ?st))"
    and nil: "al = [] \<longrightarrow> ok \<and> al' = []"
    by (rule wpE3) (auto simp: es_added_def)
  have "state_ok (statecount f) (?st\<lparr>st_edges := es\<rparr>)"
    using st es edges tos from_to(2) by (auto simp: state_ok_def)
  then have inv': "fsm_inv (f\<lparr>f_states := (f_states f)[from := ?st\<lparr>st_edges := es\<rparr>]\<rparr>)"
    by (intro fsm_inv_upd [OF inv from_to(1)]) simp_all
  have "fsm_nfa (f\<lparr>f_states := (f_states f)[from := ?st\<lparr>st_edges := es\<rparr>]\<rparr>) =
      (if ok then add_step from (Some c) to (fsm_nfa f) else fsm_nfa f)"
    using from_to edges
    by (subst nfa_upd [OF from_to(1)]) (auto simp: add_step_def fsm_nfa_def fsm_step_def step_in_def fun_eq_iff split: option.splits)
  then show ?thesis
    using add inv' nil from_to by (simp add: fsm_addedge_literal_def c_assert_def upd_state_def fsm_meta_def)
qed

lemma fsm_addedge_epsilon_wp:
  assumes inv: "fsm_inv f" and from_to: "from < statecount f" "to < statecount f"
  shows "wp (fsm_addedge_epsilon al f from to) (\<lambda>(ok, f', al'). fsm_inv f' \<and> fsm_meta f' = fsm_meta f \<and>
    (ok \<longrightarrow> fsm_nfa f' = add_step from None to (fsm_nfa f)) \<and>
    statecount f' = statecount f \<and> (al = [] \<longrightarrow> ok \<and> al' = []))"
proof -
  let ?st = "f_states f ! from"
  have st: "state_ok (statecount f) ?st" by (rule fsm_inv_state [OF inv from_to(1)])
  have "ss_inv (st_epsilons ?st)" "to < state_limit" using st fsm_inv_limits(3) [OF inv from_to(2)] by (auto simp: state_ok_def)
  from state_set_add_wp [OF this, of al]
  obtain ok eps al' where add: "state_set_add al (st_epsilons ?st) to = Some (ok, eps, al')" and eps: "ss_inv eps"
    and set: "if ok then ss_set eps = {to} \<union> ss_set (st_epsilons ?st) else ss_set eps \<subseteq> ss_set (st_epsilons ?st)"
    and nil: "al = [] \<longrightarrow> ok \<and> al' = []"
    by (rule wpE3) (auto simp: added_def)
  have "state_ok (statecount f) (?st\<lparr>st_epsilons := eps\<rparr>)"
    using st eps set from_to(2) by (auto simp: state_ok_def split: if_splits)
  then have inv': "fsm_inv (f\<lparr>f_states := (f_states f)[from := ?st\<lparr>st_epsilons := eps\<rparr>]\<rparr>)"
    by (intro fsm_inv_upd [OF inv from_to(1)]) simp_all
  have "fsm_nfa (f\<lparr>f_states := (f_states f)[from := ?st\<lparr>st_epsilons := eps\<rparr>]\<rparr>) = add_step from None to (fsm_nfa f)" if ok
    using from_to set that
    by (subst nfa_upd [OF from_to(1)]) (auto simp: add_step_def fsm_nfa_def fsm_step_def step_in_def fun_eq_iff split: option.splits)
  then show ?thesis
    using add inv' nil from_to by (simp add: fsm_addedge_epsilon_def c_assert_def upd_state_def fsm_meta_def)
qed

section \<open>Refinement of compaction\<close>

text \<open>The number a kept state gets: how many states before it are kept.\<close>

definition rank :: "(fsm_state_t \<Rightarrow> bool) \<Rightarrow> fsm_state_t \<Rightarrow> nat" where
  "rank keep i = length (filter keep [0..<i])"

lemma rank_le: "rank keep i \<le> i"
  using length_filter_le [of keep "[0..<i]"] by (simp add: rank_def)

lemma rank_Suc: "rank keep (Suc i) = rank keep i + (if keep i then 1 else 0)"
  by (simp add: rank_def)

lemma rank_mono: "i \<le> j \<Longrightarrow> rank keep i \<le> rank keep j"
  by (induction j rule: dec_induct) (auto simp: rank_Suc)

lemma rank_less: "i < j \<Longrightarrow> keep i \<Longrightarrow> rank keep i < rank keep j"
  using rank_mono [of "Suc i" j keep] by (simp add: rank_Suc)

lemma rank_inj: "keep i \<Longrightarrow> keep j \<Longrightarrow> rank keep i = rank keep j \<Longrightarrow> i = j"
  using rank_less [of i j keep] rank_less [of j i keep] by (cases i j rule: linorder_cases) auto

lemma kept_nth_rank: "i < n \<Longrightarrow> keep i \<Longrightarrow> filter keep [0..<n] ! rank keep i = i"
  and rank_bound: "i < n \<Longrightarrow> keep i \<Longrightarrow> rank keep i < length (filter keep [0..<n])"
proof -
  assume i: "i < n" "keep i"
  have "[0..<n] = [0..<i] @ i # [Suc i..<n]" 
    using upt_add_eq_append [of 0 i "n - i"] i(1) by (simp add: upt_conv_Cons)
  then have "filter keep [0..<n] = filter keep [0..<i] @ i # filter keep [Suc i..<n]" using i(2) by simp
  then show "filter keep [0..<n] ! rank keep i = i" "rank keep i < length (filter keep [0..<n])"
    by (simp_all add: rank_def nth_append)
qed

lemma kept_nth:
  assumes "j < length (filter keep [0..<n])"
  obtains i where "i < n" and "keep i" and "filter keep [0..<n] ! j = i" and "rank keep i = j"
proof -
  let ?i = "filter keep [0..<n] ! j"
  have i: "?i < n" "keep ?i" using nth_mem [OF assms] by auto
  have "filter keep [0..<n] ! rank keep ?i = ?i" "rank keep ?i < length (filter keep [0..<n])"
    using kept_nth_rank [of ?i n keep] rank_bound [of ?i n keep] i by auto
  then have "rank keep ?i = j" using assms by (metis distinct_filter distinct_upt nth_eq_iff_index_eq)
  then show thesis using that i by blast
qed

lemma compact_mapping_nth:
  "i < length xs \<Longrightarrow> compact_mapping keep xs k ! i =
     (if keep (xs ! i) then k + length (filter keep (take i xs)) else FSM_STATE_REMAP_NO_STATE)"
proof (induction xs arbitrary: i k)
  case (Cons x xs)
  then show ?case by (cases i) auto
qed simp

lemma length_compact_mapping [simp]: "length (compact_mapping keep xs k) = length xs"
  by (induction xs arbitrary: k) auto

lemma mapping_nth:
  "i < n \<Longrightarrow> compact_mapping keep [0..<n] 0 ! i = (if keep i then rank keep i else FSM_STATE_REMAP_NO_STATE)"
  by (simp add: compact_mapping_nth rank_def take_upt)

definition remap_of :: "(fsm_state_t \<Rightarrow> bool) \<Rightarrow> nat \<Rightarrow> fsm_state_t \<Rightarrow> fsm_state_t" where
  "remap_of keep n s = (if s < n \<and> keep s then rank keep s else FSM_STATE_REMAP_NO_STATE)"

lemma remap_of_kept:
  assumes "n \<le> edge_state_limit"
  shows "remap_of keep n s \<noteq> FSM_STATE_REMAP_NO_STATE \<longleftrightarrow> s < n \<and> keep s"
  using rank_le [of keep s] assms
  by (auto simp: remap_of_def FSM_STATE_REMAP_NO_STATE_def edge_state_limit_def)

lemma c_nth_mapping: "s < n \<Longrightarrow> c_nth (compact_mapping keep [0..<n] 0) s = Some (remap_of keep n s)"
  by (simp add: mapping_nth remap_of_def)

lemma remap_inj_mapping: "remap_inj (compact_mapping keep [0..<n] 0)"
  unfolding remap_inj_def
proof (rule inj_onI)
  let ?m = "compact_mapping keep [0..<n] 0"
  fix s t
  assume "s \<in> {s. s < length ?m \<and> ?m ! s \<noteq> FSM_STATE_REMAP_NO_STATE}"
    and "t \<in> {s. s < length ?m \<and> ?m ! s \<noteq> FSM_STATE_REMAP_NO_STATE}" and "?m ! s = ?m ! t"
  then have "keep s" "keep t" "rank keep s = rank keep t" by (auto simp: mapping_nth split: if_splits)
  then show "s = t" by (rule rank_inj)
qed

lemma compact_state_wp:
  assumes st: "state_ok n st" and n: "0 < n" "n \<le> edge_state_limit"
  shows "wp (compact_state [] (compact_mapping keep [0..<n] 0) st) (\<lambda>(st', al'). al' = [] \<and>
    state_ok (length (filter keep [0..<n])) st' \<and> st_end st' = st_end st \<and>
    st_has_capture_actions st' = st_has_capture_actions st \<and>
    ss_set (st_epsilons st') = rank keep ` {t \<in> ss_set (st_epsilons st). keep t} \<and>
    es_edges (st_edges st') = {(c, rank keep t) |c t. (c, t) \<in> es_edges (st_edges st) \<and> keep t})"
proof -
  let ?m = "compact_mapping keep [0..<n] 0" and ?f = "remap_of keep n" and ?k = "length (filter keep [0..<n])"
  have ss: "ss_inv (st_epsilons st)" "ss_set (st_epsilons st) \<subseteq> {..<n}"
    and es: "es_inv (st_edges st)" "snd ` es_edges (st_edges st) \<subseteq> {..<n}"
    and tos: "es_tos (st_edges st) \<subseteq> insert 0 (snd ` es_edges (st_edges st))"
    using st by (auto simp: state_ok_def)
  note kept = remap_of_kept [OF n(2), of keep]
  have "wp (state_set_compact (st_epsilons st) (c_nth ?m)) (\<lambda>ss'. ss_inv ss' \<and>
      ss_set ss' = ?f ` {s \<in> ss_set (st_epsilons st). ?f s \<noteq> FSM_STATE_REMAP_NO_STATE})"
  proof (rule state_set_compact_wp [OF ss(1)])
    show "\<forall>s \<in> ss_set (st_epsilons st). c_nth ?m s = Some (?f s)"
      using ss(2) c_nth_mapping by blast
    show "?f s \<le> s" if "?f s \<noteq> FSM_STATE_REMAP_NO_STATE" for s
      using that kept [of s] rank_le by (simp add: remap_of_def)
    show "?f s < ?f s'" if "s < s'" "?f s \<noteq> FSM_STATE_REMAP_NO_STATE" "?f s' \<noteq> FSM_STATE_REMAP_NO_STATE" for s s'
      using that kept rank_less by (simp add: remap_of_def)
  qed
  then obtain eps where eps: "state_set_compact (st_epsilons st) (c_nth ?m) = Some eps" "ss_inv eps"
    and eset: "ss_set eps = ?f ` {s \<in> ss_set (st_epsilons st). ?f s \<noteq> FSM_STATE_REMAP_NO_STATE}"
    by (rule wpE) blast
  have eset': "ss_set eps = rank keep ` {t \<in> ss_set (st_epsilons st). keep t}"
    unfolding eset kept using ss(2) by (auto simp: remap_of_def image_iff)
  then have ebound: "ss_set eps \<subseteq> {..<?k}" using ss(2) by (auto intro!: rank_bound)
  have tosn: "\<forall>t \<in> es_tos (st_edges st). t < n" using tos es(2) n(1) by blast
  have "wp (edge_set_compact [] (st_edges st) (c_nth ?m)) (es_compacted [] (st_edges st) ?f)"
  proof (rule edge_set_compact_wp [OF es(1)])
    show "\<forall>t \<in> es_tos (st_edges st). c_nth ?m t = Some (?f t)" using tosn c_nth_mapping by blast
    show "\<forall>t \<in> es_tos (st_edges st). ?f t \<le> FSM_STATE_REMAP_NO_STATE"
    proof
      fix t assume "t \<in> es_tos (st_edges st)"
      then have "rank keep t < n" using tosn rank_le [of keep t] le_less_trans by blast
      then show "?f t \<le> FSM_STATE_REMAP_NO_STATE"
        using n(2) by (simp add: remap_of_def edge_state_limit_def FSM_STATE_REMAP_NO_STATE_def)
    qed
  qed
  then obtain es' where run: "edge_set_compact [] (st_edges st) (c_nth ?m) = Some (True, es', [])" and es': "es_inv es'"
    and edges: "es_edges es' = {(c, ?f t) |c t. (c, t) \<in> es_edges (st_edges st) \<and> ?f t \<noteq> FSM_STATE_REMAP_NO_STATE}"
    and tos': "edge_set_empty (st_edges st) \<and> es' = st_edges st \<or>
      es_tos es' \<subseteq> insert 0 (?f ` es_tos (st_edges st) - {FSM_STATE_REMAP_NO_STATE})"
    by (rule wpE3) (auto simp: es_compacted_def)
  have tn: "t < n" if "(c, t) \<in> es_edges (st_edges st)" for c t using that es(2) by force
  have edges': "es_edges es' = {(c, rank keep t) |c t. (c, t) \<in> es_edges (st_edges st) \<and> keep t}"
    unfolding edges kept
  proof (intro Collect_cong ex_cong1)
    fix x c t show "(x = (c, ?f t) \<and> (c, t) \<in> es_edges (st_edges st) \<and> t < n \<and> keep t) =
        (x = (c, rank keep t) \<and> (c, t) \<in> es_edges (st_edges st) \<and> keep t)"
      using tn [of c t] by (auto simp: remap_of_def)
  qed
  have "snd ` es_edges es' \<subseteq> {..<?k}" unfolding edges' using tn by (auto intro!: rank_bound)
  moreover have "es_tos es' \<subseteq> insert 0 (snd ` es_edges es')"
    using tos'
  proof
    assume sub: "es_tos es' \<subseteq> insert 0 (?f ` es_tos (st_edges st) - {FSM_STATE_REMAP_NO_STATE})"
    have step: "?f t \<in> insert 0 (snd ` es_edges es')"
      if t: "t \<in> es_tos (st_edges st)" "?f t \<noteq> FSM_STATE_REMAP_NO_STATE" for t
    proof (cases "t = 0")
      case True
      then show ?thesis using t(2) kept [of t] rank_le [of keep 0] by (simp add: remap_of_def)
    next
      case False
      then obtain c where "(c, t) \<in> es_edges (st_edges st)" using t(1) tos by auto
      then have "(c, ?f t) \<in> es_edges es'" using t(2) unfolding edges by blast
      then show ?thesis by force
    qed
    show ?thesis
    proof
      fix x assume "x \<in> es_tos es'"
      then have "x = 0 \<or> (\<exists>t \<in> es_tos (st_edges st). x = ?f t \<and> ?f t \<noteq> FSM_STATE_REMAP_NO_STATE)" using sub by auto
      then show "x \<in> insert 0 (snd ` es_edges es')" using step by auto
    qed
  next
    assume "edge_set_empty (st_edges st) \<and> es' = st_edges st"
    then show ?thesis using tos by simp
  qed
  ultimately have ok: "state_ok ?k (st\<lparr>st_epsilons := eps, st_edges := es'\<rparr>)"
    using eps(2) ebound es' by (simp add: state_ok_def)
  show ?thesis
  proof (cases "st_edges st = ES_Null")
    case True
    then have "es' = ES_Null" using run by simp
    then show ?thesis using True eps(1) ok eset' by (simp add: compact_state_def)
  next
    case False
    then show ?thesis using eps(1) run ok eset' edges' by (simp add: compact_state_def)
  qed
qed

definition compacted_state :: "(fsm_state_t \<Rightarrow> bool) \<Rightarrow> nat \<Rightarrow> fsm_state \<Rightarrow> fsm_state \<Rightarrow> bool" where
  "compacted_state keep n st st' \<longleftrightarrow> state_ok (length (filter keep [0..<n])) st' \<and> st_end st' = st_end st \<and>
     ss_set (st_epsilons st') = rank keep ` {t \<in> ss_set (st_epsilons st). keep t} \<and>
     es_edges (st_edges st') = {(c, rank keep t) |c t. (c, t) \<in> es_edges (st_edges st) \<and> keep t}"

lemma compact_edges_loop_wp:
  assumes "\<forall>st \<in> set sts. state_ok n st" and "i + length sts \<le> n" and "n \<le> edge_state_limit"
  shows "wp (compact_edges_loop (compact_mapping keep [0..<n] 0) sts i []) (\<lambda>(sts', al'). al' = [] \<and>
    length sts' = length sts \<and> (\<forall>j < length sts. keep (i + j) \<longrightarrow> compacted_state keep n (sts ! j) (sts' ! j)))"
  using assms
proof (induction sts arbitrary: i)
  case (Cons st sts)
  let ?m = "compact_mapping keep [0..<n] 0"
  have i: "i < n" "0 < n" using Cons.prems by auto
  have "wp (if ?m ! i = FSM_STATE_REMAP_NO_STATE then Some (st, []) else compact_state [] ?m st)
      (\<lambda>(st', al'). al' = [] \<and> (keep i \<longrightarrow> compacted_state keep n st st'))"
  proof (cases "?m ! i = FSM_STATE_REMAP_NO_STATE")
    case True
    then have "\<not> keep i"
      using i remap_of_kept [OF Cons.prems(3), of keep i] by (simp add: mapping_nth remap_of_def split: if_splits)
    then show ?thesis using True by simp
  next
    case False
    have "state_ok n st" using Cons.prems by simp
    from compact_state_wp [OF this i(2) Cons.prems(3), of keep] show ?thesis
      unfolding if_not_P [OF False] by (rule wp_mono2) (auto simp: compacted_state_def)
  qed
  then obtain st' where one: "(if ?m ! i = FSM_STATE_REMAP_NO_STATE then Some (st, []) else compact_state [] ?m st) = Some (st', [])"
    and st': "keep i \<longrightarrow> compacted_state keep n st st'"
    by (rule wpE2) auto
  have "wp (compact_edges_loop ?m sts (i + 1) []) (\<lambda>(sts', al'). al' = [] \<and>
    length sts' = length sts \<and> (\<forall>j < length sts. keep (i + 1 + j) \<longrightarrow> compacted_state keep n (sts ! j) (sts' ! j)))"
    using Cons.prems by (intro Cons.IH) auto
  then obtain sts' where rest: "compact_edges_loop ?m sts (i + 1) [] = Some (sts', [])" "length sts' = length sts"
    and post: "\<forall>j < length sts. keep (i + 1 + j) \<longrightarrow> compacted_state keep n (sts ! j) (sts' ! j)"
    by (rule wpE2) auto
  have "compacted_state keep n ((st # sts) ! j) ((st' # sts') ! j)" if "j < Suc (length sts)" "keep (i + j)" for j
    using that st' post by (cases j) auto
  then show ?case using one rest by simp
qed simp

lemma live_states_eq:
  assumes "length sts = n" and "n \<le> edge_state_limit"
  shows "live_states (compact_mapping keep [0..<n] 0) sts = map (\<lambda>i. sts ! i) (filter keep [0..<n])"
proof -
  let ?m = "compact_mapping keep [0..<n] 0"
  have "zip sts ?m = map (\<lambda>i. (sts ! i, ?m ! i)) [0..<n]"
    using assms(1) by (intro nth_equalityI) auto
  moreover have "?m ! i \<noteq> FSM_STATE_REMAP_NO_STATE \<longleftrightarrow> keep i" if "i < n" for i
    using that remap_of_kept [OF assms(2), of keep i] by (auto simp: mapping_nth remap_of_def)
  then have "filter (\<lambda>i. ?m ! i \<noteq> FSM_STATE_REMAP_NO_STATE) [0..<n] = filter keep [0..<n]"
    by (intro filter_cong) auto
  ultimately show ?thesis
    by (simp add: live_states_def filter_map o_def)
qed

text \<open>What compaction makes of an automaton: its restriction to the kept states, renumbered.\<close>

definition compact_nfa :: "(nat \<Rightarrow> bool) \<Rightarrow> (nat, 'c) nfa \<Rightarrow> (nat, 'c) nfa" where
  "compact_nfa keep A =
     \<lparr>n_start = (case n_start A of None \<Rightarrow> None | Some s \<Rightarrow> if keep s then Some (rank keep s) else None),
      n_step = (\<lambda>a l b. \<exists>s t. keep s \<and> keep t \<and> a = rank keep s \<and> b = rank keep t \<and> n_step A s l t),
      n_end = (\<lambda>a. \<exists>s. keep s \<and> a = rank keep s \<and> n_end A s)\<rparr>"

lemma compacted_steps:
  assumes inv: "fsm_inv f" and len: "length sts = statecount f"
    and post: "\<forall>j < statecount f. keep j \<longrightarrow> compacted_state keep (statecount f) (f_states f ! j) (sts ! j)"
  defines "ks \<equiv> filter keep [0..<statecount f]"
  shows "step_in (map (\<lambda>i. sts ! i) ks) a l b \<longleftrightarrow>
      (\<exists>s t. keep s \<and> keep t \<and> a = rank keep s \<and> b = rank keep t \<and> fsm_step f s l t)" (is "?L \<longleftrightarrow> ?R")
    and "a < length ks \<and> st_end (map (\<lambda>i. sts ! i) ks ! a) \<longleftrightarrow>
      (\<exists>s. keep s \<and> a = rank keep s \<and> s < statecount f \<and> st_end (f_states f ! s))" (is "?L' \<longleftrightarrow> ?R'")
proof -
  have at: "rank keep s < length ks" "map (\<lambda>i. sts ! i) ks ! rank keep s = sts ! s"
    if "s < statecount f" "keep s" for s
    using that rank_bound [of s "statecount f" keep] kept_nth_rank [of s "statecount f" keep] by (auto simp: ks_def)
  have edge: "step_in (map (\<lambda>i. sts ! i) ks) (rank keep s) l b \<longleftrightarrow> (\<exists>t. keep t \<and> b = rank keep t \<and> fsm_step f s l t)"
    if s: "s < statecount f" "keep s" for s
  proof -
    have "compacted_state keep (statecount f) (f_states f ! s) (sts ! s)" using post s by blast
    then show ?thesis
      using at [OF s] s by (auto simp: step_in_def fsm_step_def compacted_state_def split: option.splits)
  qed
  show "?L \<longleftrightarrow> ?R"
  proof
    assume L: ?L
    then have "a < length ks" by (simp add: step_in_def)
    then obtain s where "s < statecount f" "keep s" "rank keep s = a"
      unfolding ks_def by (rule kept_nth)
    then show ?R using L edge by blast
  next
    assume ?R
    then obtain s t where s: "keep s" "keep t" "a = rank keep s" "b = rank keep t" "fsm_step f s l t" by blast
    then have "s < statecount f" using fsm_step_bounds [OF inv] by blast
    then show ?L using s edge by blast
  qed
  show "?L' \<longleftrightarrow> ?R'"
  proof
    assume L: ?L'
    then obtain s where s: "s < statecount f" "keep s" "rank keep s = a"
      unfolding ks_def using kept_nth by blast
    then have "compacted_state keep (statecount f) (f_states f ! s) (sts ! s)" using post by blast
    then show ?R' using L s at [OF s(1,2)] by (auto simp: compacted_state_def)
  next
    assume ?R'
    then obtain s where s: "keep s" "a = rank keep s" "s < statecount f" "st_end (f_states f ! s)" by blast
    then have "compacted_state keep (statecount f) (f_states f ! s) (sts ! s)" using post by blast
    then show ?L' using s at [OF s(3,1)] by (simp add: compacted_state_def)
  qed
qed

lemma unend_loop_wp:
  assumes inv: "fsm_inv f"
  shows "wp (c_for (\<lambda>i f. if keep i then Some (True, f) else do { f \<leftarrow> fsm_setend f i 0; Some (True, f) })
      [0..<statecount f] f) (\<lambda>(ok, f'). ok \<and> fsm_inv f' \<and> fsm_meta f' = fsm_meta f \<and> statecount f' = statecount f \<and>
    fsm_nfa f' = (fsm_nfa f)\<lparr>n_end := (\<lambda>s. n_end (fsm_nfa f) s \<and> keep s)\<rparr>)"
proof -
  let ?I = "\<lambda>ys f'. fsm_inv f' \<and> fsm_meta f' = fsm_meta f \<and> statecount f' = statecount f \<and>
    fsm_nfa f' = (fsm_nfa f)\<lparr>n_end := (\<lambda>s. n_end (fsm_nfa f) s \<and> (s \<in> set ys \<longrightarrow> keep s))\<rparr>"
  have "wp (c_for (\<lambda>i f. if keep i then Some (True, f) else do { f \<leftarrow> fsm_setend f i 0; Some (True, f) })
      [0..<statecount f] f) (\<lambda>(ok, f'). if ok then ?I [0..<statecount f] f' else False)"
  proof (rule wp_c_for)
    fix ys x zs f1
    assume xs: "[0..<statecount f] = ys @ x # zs" and I: "?I ys f1"
    have "x \<in> set [0..<statecount f]" unfolding xs by simp
    then have x: "x < statecount f1" using I by simp
    show "wp (if keep x then Some (True, f1) else do { f \<leftarrow> fsm_setend f1 x 0; Some (True, f) })
        (\<lambda>(ok, f'). if ok then ?I (ys @ [x]) f' else False)"
    proof (cases "keep x")
      case True
      then have "(\<lambda>s. n_end (fsm_nfa f) s \<and> (s \<in> set (ys @ [x]) \<longrightarrow> keep s)) =
          (\<lambda>s. n_end (fsm_nfa f) s \<and> (s \<in> set ys \<longrightarrow> keep s))" by auto
      then show ?thesis using True I by simp
    next
      case False
      from fsm_setend_wp [of f1 x 0] I x
      obtain f2 where f2: "fsm_setend f1 x 0 = Some f2" "fsm_inv f2" "fsm_meta f2 = fsm_meta f1" "statecount f2 = statecount f1"
        "fsm_nfa f2 = (fsm_nfa f1)\<lparr>n_end := (n_end (fsm_nfa f1))(x := False)\<rparr>"
        by (auto elim!: wpE)
      have "fsm_nfa f2 = (fsm_nfa f)\<lparr>n_end := (\<lambda>s. n_end (fsm_nfa f) s \<and> (s \<in> set (ys @ [x]) \<longrightarrow> keep s))\<rparr>"
        using I f2(5) False by (auto simp: fun_eq_iff)
      then show ?thesis using False I f2 by simp
    qed
  qed (use inv in simp)
  moreover have "(\<lambda>s. n_end (fsm_nfa f) s \<and> (s \<in> set [0..<statecount f] \<longrightarrow> keep s)) = (\<lambda>s. n_end (fsm_nfa f) s \<and> keep s)"
    by (auto simp: fsm_nfa_def)
  ultimately show ?thesis by (auto elim!: wp_mono split: if_splits)
qed

lemma kept_ends:
  assumes inv: "fsm_inv f" and ends: "\<And>s. s < statecount f \<Longrightarrow> st_end (f_states f ! s) \<Longrightarrow> keep s"
    and len: "length sts = statecount f"
    and post: "\<forall>j < statecount f. keep j \<longrightarrow> compacted_state keep (statecount f) (f_states f ! j) (sts ! j)"
  shows "length (filter st_end (map (\<lambda>i. sts ! i) (filter keep [0..<statecount f]))) = f_endcount f"
proof -
  have eq: "filter (\<lambda>i. keep i \<and> st_end (sts ! i)) [0..<statecount f] = filter (\<lambda>i. st_end (f_states f ! i)) [0..<statecount f]"
    using post ends by (intro filter_cong) (auto simp: compacted_state_def)
  have "length (filter st_end (map (\<lambda>i. sts ! i) (filter keep [0..<statecount f]))) =
      length (filter (\<lambda>i. st_end (sts ! i)) (filter keep [0..<statecount f]))"
    by (simp add: filter_map o_def)
  also have "\<dots> = length (filter (\<lambda>i. st_end (f_states f ! i)) [0..<statecount f])"
    by (simp add: eq)
  also have "\<dots> = length (filter st_end (map (\<lambda>i. f_states f ! i) [0..<statecount f]))"
    by (simp add: filter_map o_def)
  also have "\<dots> = f_endcount f" using inv by (simp add: map_nth fsm_inv_def)
  finally show ?thesis .
qed

lemma compacted_fsm:
  assumes inv: "fsm_inv f" and ends: "\<And>s. s < statecount f \<Longrightarrow> st_end (f_states f ! s) \<Longrightarrow> keep s"
    and len: "length sts = statecount f"
    and post: "\<forall>j < statecount f. keep j \<longrightarrow> compacted_state keep (statecount f) (f_states f ! j) (sts ! j)"
    and states: "f_states f' = map (\<lambda>i. sts ! i) (filter keep [0..<statecount f])"
    and spare: "f_spare f' = map st_has_capture_actions (drop (statecount f') sts) @ f_spare f"
    and endc: "f_endcount f' = f_endcount f"
    and start: "if f_hasstart f \<and> keep (f_start f) then f_hasstart f' \<and> f_start f' = rank keep (f_start f) else \<not> f_hasstart f'"
  shows "fsm_inv f'" and "fsm_nfa f' = compact_nfa keep (fsm_nfa f)"
proof -
  let ?ks = "filter keep [0..<statecount f]"
  have n': "statecount f' = length ?ks" using states by simp
  have "length ?ks \<le> length [0..<statecount f]" by (rule length_filter_le)
  then have le: "statecount f' \<le> statecount f" using n' by simp
  have "statealloc f' = statealloc f" using spare le len by (simp add: statealloc_def)
  moreover have "\<forall>st \<in> set (f_states f'). state_ok (statecount f') st"
    using states post n' by (auto simp: compacted_state_def)
  moreover have "f_endcount f' = length (filter st_end (f_states f'))"
    using kept_ends [OF inv ends len post] endc states by simp
  moreover have "f_start f' < statecount f'" if "f_hasstart f'"
    using that start inv rank_bound [of "f_start f" "statecount f" keep] n'
    by (auto simp: fsm_inv_def split: if_splits)
  ultimately show "fsm_inv f'" using inv le by (auto simp: fsm_inv_def)
  have step: "fsm_step f' = n_step (compact_nfa keep (fsm_nfa f))"
    using compacted_steps(1) [OF inv len post] states
    by (auto simp: fsm_step_def fsm_nfa_def compact_nfa_def fun_eq_iff)
  have end_eq: "(\<lambda>s. s < statecount f' \<and> st_end (f_states f' ! s)) = n_end (compact_nfa keep (fsm_nfa f))"
    unfolding states length_map using compacted_steps(2) [OF inv len post]
    by (simp add: fsm_nfa_def compact_nfa_def fun_eq_iff)
  have "(if f_hasstart f' then Some (f_start f') else None) = n_start (compact_nfa keep (fsm_nfa f))"
    using start by (simp add: fsm_nfa_def compact_nfa_def split: if_splits)
  then show "fsm_nfa f' = compact_nfa keep (fsm_nfa f)"
    using step end_eq by (simp add: fsm_nfa_def [of f'])
qed

text \<open>
  Compaction with an allocator that does not fail: the automaton is the restriction to the
  kept states, and the end ids and eager outputs follow the states to their new numbers.
\<close>

lemma fsm_compact_states_wp:
  assumes inv: "fsm_inv f" and meta: "meta_ok f"
  shows "wp (fsm_compact_states [] f keep) (\<lambda>(ok, removed, f', al'). ok \<and> al' = [] \<and> fsm_inv f' \<and>
    fsm_nfa f' = compact_nfa keep (fsm_nfa f) \<and> statecount f' = rank keep (statecount f) \<and>
    removed = statecount f - statecount f' \<and> endid_tab (f_endid_info f') \<and> eager_inv (f_eager_output_info f') \<and>
    (\<forall>s < statecount f. keep s \<longrightarrow>
       endid_ids (f_endid_info f') (rank keep s) = endid_ids (f_endid_info f) s \<and>
       eager_ids (f_eager_output_info f') (rank keep s) = eager_ids (f_eager_output_info f) s))"
proof -
  let ?n = "statecount f" and ?m = "compact_mapping keep [0..<statecount f] 0"
  have limit: "?n \<le> edge_state_limit" using inv by (simp add: fsm_inv_def)
  from unend_loop_wp [OF inv, of keep] obtain f1 where unend:
    "c_for (\<lambda>i f. if keep i then Some (True, f) else do { f \<leftarrow> fsm_setend f i 0; Some (True, f) }) [0..<?n] f = Some (True, f1)"
    and inv1: "fsm_inv f1" and meta1: "fsm_meta f1 = fsm_meta f" and n1: "statecount f1 = ?n"
    and nfa1: "fsm_nfa f1 = (fsm_nfa f)\<lparr>n_end := (\<lambda>s. n_end (fsm_nfa f) s \<and> keep s)\<rparr>"
    by (rule wpE2) auto
  have ends: "keep s" if "s < statecount f1" "st_end (f_states f1 ! s)" for s
    using that arg_cong [OF nfa1, of "\<lambda>A. n_end A s"] by (simp add: fsm_nfa_def)
  have compact1: "compact_nfa keep (fsm_nfa f1) = compact_nfa keep (fsm_nfa f)"
    unfolding nfa1 by (auto simp: compact_nfa_def fun_eq_iff)
  have getstart: "fsm_getstart f1 = Some (if f_hasstart f1 then Some (f_start f1) else None)"
    using fsm_getstart_wp [OF inv1] by (simp add: fsm_nfa_def)
  have start_n: "f_start f1 < ?n" if "f_hasstart f1" using that inv1 n1 by (simp add: fsm_inv_def)
  let ?live = "f_hasstart f1 \<and> keep (f_start f1)"
  have doomed: "?m ! f_start f1 = FSM_STATE_REMAP_NO_STATE \<longleftrightarrow> \<not> keep (f_start f1)" if "f_hasstart f1"
    using start_n [OF that] remap_of_kept [OF limit, of keep "f_start f1"] by (auto simp: mapping_nth remap_of_def)
  have "\<forall>st \<in> set (f_states f1). state_ok ?n st" using inv1 n1 by (simp add: fsm_inv_def)
  from compact_edges_loop_wp [OF this, of 0 keep] n1 limit
  obtain sts where loop: "compact_edges_loop ?m (f_states f1) 0 [] = Some (sts, [])" and len: "length sts = ?n"
    and post: "\<forall>j < ?n. keep j \<longrightarrow> compacted_state keep ?n (f_states f1 ! j) (sts ! j)"
    by (auto elim!: wpE2)
  let ?kept = "map (\<lambda>i. sts ! i) (filter keep [0..<?n])"
  let ?spare = "map st_has_capture_actions (drop (length ?kept) sts) @ f_spare f1"
  note live_eq = live_states_eq [OF len limit, of keep]
  have ei: "endid_inv (f_endid_info f1)" "\<forall>b \<in> ht_live eb_key (en_buckets (f_endid_info f1)). eb_state b < length ?m"
    and eo: "eager_inv (f_eager_output_info f1)" "\<forall>b \<in> ht_live ob_key (eo_buckets (f_eager_output_info f1)). ob_state b < length ?m"
    using meta meta1 by (auto simp: meta_ok_def fsm_meta_def)
  from fsm_endid_compact_wp [OF ei(1) remap_inj_mapping ei(2), of "[]"]
  obtain ei' where endids: "fsm_endid_compact [] (f_endid_info f1) ?m = Some (True, ei', [])" "endid_tab ei'"
    and ids: "\<forall>s < ?n. ?m ! s \<noteq> FSM_STATE_REMAP_NO_STATE \<longrightarrow> endid_ids ei' (?m ! s) = endid_ids (f_endid_info f1) s"
    by (rule wpE3) auto
  from fsm_eager_output_compact_wp [OF eo(1) remap_inj_mapping eo(2), of "[]"]
  obtain eo' where eager: "fsm_eager_output_compact [] (f_eager_output_info f1) ?m = Some (True, eo', [])" "eager_inv eo'"
    and outs: "\<forall>s < ?n. ?m ! s \<noteq> FSM_STATE_REMAP_NO_STATE \<longrightarrow> eager_ids eo' (?m ! s) = eager_ids (f_eager_output_info f1) s"
    by (rule wpE3) auto
  have mid: "?m ! s = rank keep s \<and> ?m ! s \<noteq> FSM_STATE_REMAP_NO_STATE" if "s < ?n" "keep s" for s
    using that remap_of_kept [OF limit, of keep s] by (simp add: mapping_nth remap_of_def)
  note steps = unend getstart loop live_eq endids(1) eager(1)
  have "\<exists>f'. fsm_compact_states [] f keep = Some (True, ?n - statecount f', f', []) \<and> f_states f' = ?kept \<and>
    f_spare f' = ?spare \<and> f_endcount f' = f_endcount f1 \<and> f_endid_info f' = ei' \<and> f_eager_output_info f' = eo' \<and>
    (if ?live then f_hasstart f' \<and> f_start f' = rank keep (f_start f1) else \<not> f_hasstart f')"
  proof (cases ?live)
    case True
    then have s: "f_start f1 < ?n" "keep (f_start f1)" using start_n by auto
    then have bound: "rank keep (f_start f1) < length (filter keep [0..<?n])" by (rule rank_bound)
    then have "filter keep [0..<?n] \<noteq> []" by auto
    then show ?thesis
      using True mid [OF s] bound steps by (simp add: fsm_compact_states_def Let_def fsm_setstart_def c_assert_def)
  next
    case False
    then show ?thesis
      using doomed steps
      by (cases "f_hasstart f1"; cases "filter keep [0..<?n] = []")
        (simp_all add: fsm_compact_states_def Let_def fsm_clearstart_def)
  qed
  then obtain f' where run: "fsm_compact_states [] f keep = Some (True, ?n - statecount f', f', [])"
    and f': "f_states f' = ?kept" "f_spare f' = ?spare" "f_endcount f' = f_endcount f1"
      "f_endid_info f' = ei'" "f_eager_output_info f' = eo'"
      "if ?live then f_hasstart f' \<and> f_start f' = rank keep (f_start f1) else \<not> f_hasstart f'"
    by blast
  have "fsm_inv f' \<and> fsm_nfa f' = compact_nfa keep (fsm_nfa f1)"
    using compacted_fsm [OF inv1, of keep sts f'] ends len post n1 f' by simp
  moreover have "endid_ids ei' (rank keep s) = endid_ids (f_endid_info f) s \<and>
      eager_ids eo' (rank keep s) = eager_ids (f_eager_output_info f) s" if "s < ?n" "keep s" for s
    using mid [OF that] ids outs that(1) meta1 by (auto simp: fsm_meta_def)
  moreover have "statecount f' = rank keep ?n" using f'(1) by (simp add: rank_def)
  ultimately show ?thesis
    using run f'(4,5) endids(2) eager(2) compact1 by simp
qed

section \<open>Compaction and the language\<close>

text \<open>
  When every state on the way from the start to an end is kept, the language stays the same.
\<close>

lemma compact_run_back:
  assumes "run (n_step (compact_nfa keep A)) a w b" and "a = rank keep s" and "keep s"
  shows "\<exists>t. keep t \<and> b = rank keep t \<and> run (n_step A) s w t"
  using assms
proof (induction arbitrary: s rule: run.induct)
  case (run_refl a)
  then show ?case by (auto intro: run.intros)
next
  case (run_eps a b w c)
  from run_eps.hyps(1) obtain s' t where t: "keep s'" "keep t" "a = rank keep s'" "b = rank keep t" "n_step A s' None t"
    by (auto simp: compact_nfa_def)
  then have "s' = s" using run_eps.prems rank_inj [of keep s' s] by simp
  then show ?case using run_eps.IH [OF t(4,2)] t(5) by (blast intro: run.run_eps)
next
  case (run_sym a c b w d)
  from run_sym.hyps(1) obtain s' t where t: "keep s'" "keep t" "a = rank keep s'" "b = rank keep t" "n_step A s' (Some c) t"
    by (auto simp: compact_nfa_def)
  then have "s' = s" using run_sym.prems rank_inj [of keep s' s] by simp
  then show ?case using run_sym.IH [OF t(4,2)] t(5) by (blast intro: run.run_sym)
qed

lemma compact_run:
  assumes "run (n_step A) s w e" and "\<And>p u v. run (n_step A) s u p \<Longrightarrow> run (n_step A) p v e \<Longrightarrow> keep p"
  shows "run (n_step (compact_nfa keep A)) (rank keep s) w (rank keep e)"
  using assms
proof (induction rule: run.induct)
  case (run_refl s)
  show ?case by (rule run.run_refl)
next
  case (run_eps s t w u)
  have "keep s" using run_eps.prems [of "[]" s w] run_eps.hyps by (blast intro: run.intros)
  moreover have kept: "keep p" if "run (n_step A) t x p" "run (n_step A) p v u" for p x v
    using run_eps.prems [of x p v] that run_eps.hyps(1) by (blast intro: run.run_eps)
  moreover have "keep t" using kept [of "[]" t w] run_eps.hyps by (blast intro: run.intros)
  ultimately have "n_step (compact_nfa keep A) (rank keep s) None (rank keep t)"
    using run_eps.hyps(1) by (auto simp: compact_nfa_def)
  moreover have "run (n_step (compact_nfa keep A)) (rank keep t) w (rank keep u)"
    by (rule run_eps.IH) (rule kept)
  ultimately show ?case by (rule run.run_eps)
next
  case (run_sym s c t w u)
  have "keep s" using run_sym.prems [of "[]" s "c # w"] run_sym.hyps by (blast intro: run.intros)
  moreover have kept: "keep p" if "run (n_step A) t x p" "run (n_step A) p v u" for p x v
    using run_sym.prems [of "c # x" p v] that run_sym.hyps(1) by (blast intro: run.run_sym)
  moreover have "keep t" using kept [of "[]" t w] run_sym.hyps by (blast intro: run.intros)
  ultimately have "n_step (compact_nfa keep A) (rank keep s) (Some c) (rank keep t)"
    using run_sym.hyps(1) by (auto simp: compact_nfa_def)
  moreover have "run (n_step (compact_nfa keep A)) (rank keep t) w (rank keep u)"
    by (rule run_sym.IH) (rule kept)
  ultimately show ?case by (rule run.run_sym)
qed

lemma compact_language:
  assumes "\<And>a p u v e. n_start A = Some a \<Longrightarrow> run (n_step A) a u p \<Longrightarrow> run (n_step A) p v e \<Longrightarrow> n_end A e \<Longrightarrow> keep p"
  shows "language (compact_nfa keep A) = language A"
proof (intro set_eqI iffI)
  fix w assume "w \<in> language (compact_nfa keep A)"
  then obtain a b where a: "n_start (compact_nfa keep A) = Some a" "run (n_step (compact_nfa keep A)) a w b"
    and b: "n_end (compact_nfa keep A) b" by (auto simp: in_language)
  then obtain s where s: "n_start A = Some s" "keep s" "a = rank keep s"
    by (auto simp: compact_nfa_def split: option.splits if_splits)
  obtain t where t: "keep t" "b = rank keep t" "run (n_step A) s w t" using compact_run_back [OF a(2) s(3,2)] by blast
  obtain s' where s': "keep s'" "b = rank keep s'" "n_end A s'" using b by (auto simp: compact_nfa_def)
  then have "s' = t" using t(1,2) rank_inj [of keep s' t] by simp
  then have "n_end A t" using s'(3) by simp
  then show "w \<in> language A" using s(1) t(3) by (auto simp: in_language)
next
  fix w assume "w \<in> language A"
  then obtain s e where s: "n_start A = Some s" "run (n_step A) s w e" "n_end A e" by (auto simp: in_language)
  have "keep s" "keep e" using assms [OF s(1) run_refl s(2,3)] assms [OF s(1,2) run_refl s(3)] by auto
  then have "n_start (compact_nfa keep A) = Some (rank keep s)" "n_end (compact_nfa keep A) (rank keep e)"
    using s by (auto simp: compact_nfa_def)
  moreover have "run (n_step (compact_nfa keep A)) (rank keep s) w (rank keep e)"
    by (rule compact_run [OF s(2)]) (rule assms [OF s(1) _ _ s(3)])
  ultimately show "w \<in> language (compact_nfa keep A)" by (auto simp: in_language)
qed

section \<open>Removal of a state\<close>

text \<open>
  The last state takes the place of a removed one, and \<open>start\<close> keeps its old number: when the
  start state was the last one, the automaton is left with a start state that does not exist,
  and \<open>fsm_getstart\<close> fails its assertion.
\<close>

lemma fsm_removestate_start:
  assumes "fsm_removestate al f s = Some (True, f', al')" and "f_hasstart f" and "f_start f = statecount f - 1"
    and "s < f_start f"
  shows "fsm_getstart f' = None"
proof -
  let ?P = "\<lambda>g. f_hasstart g \<and> f_start g = f_start f \<and> statecount g = statecount f"
  obtain f1 where f1: "fsm_setend f s 0 = Some f1" "?P f1" and s: "s < statecount f"
    using assms(1,2) unfolding fsm_removestate_def
    by (auto simp: bind_eq_Some_conv fsm_setend_def c_assert_def upd_state_def split: if_splits)
  obtain ok2 f2 where f2: "c_for (\<lambda>i f. do { st \<leftarrow> removestate_edges s (f_states f ! i);
                                     Some (True, f\<lparr>f_states := (f_states f)[i := st]\<rparr>) })
            [0..<statecount f1] f1 = Some (ok2, f2)"
    using assms(1) f1(1) s unfolding fsm_removestate_def by (auto simp: bind_eq_Some_conv c_assert_def)
  have P2: "?P f2"
    by (rule c_for_inv [OF f2, of ?P]) (use f1(2) in \<open>auto simp: bind_eq_Some_conv\<close>)
  have "fsm_getstart f2 = Some (Some (f_start f))"
    using P2 assms(3) s by (simp add: fsm_getstart_def c_assert_def)
  then obtain f3 al3 where f3: "c_for (removestate_renumber (statecount f - 1) s) [0..<statecount f - 1]
                 (f2\<lparr>f_states := (f_states f2)[s := f_states f2 ! (statecount f - 1)]\<rparr>, al) = Some (True, f3, al3)"
      and f': "f' = f3\<lparr>f_states := take (statecount f - 1) (f_states f3),
                 f_spare := st_has_capture_actions (f_states f3 ! (statecount f - 1)) # f_spare f3\<rparr>"
    using assms f1(1) f2 s P2 unfolding fsm_removestate_def
    by (auto simp: bind_eq_Some_conv c_assert_def Let_def split: if_splits)
  have "?P (fst (f3, al3))"
    by (rule c_for_inv [OF f3, of "\<lambda>fa. ?P (fst fa)"])
      (use P2 in \<open>auto simp: removestate_renumber_def bind_eq_Some_conv Let_def\<close>)
  then show ?thesis
    using f' assms(3) by (simp add: fsm_getstart_def c_assert_def)
qed

end
