(* ===== verification/Worklist.thy ===== *)
theory Worklist
  imports Fsm_Prelude "HOL-Library.Multiset"
begin

text \<open>
  Loops whose end is not given by a counter, and the graph searches of the library: a list of
  states still to be looked at, a flag \<open>visited\<close> per state, and a loop that takes a state off
  the list and adds its unvisited successors. The searches differ in what the list is, a
  stack or the queue of \<open>src/adt/queue.c\<close>; what they need of it is the locale \<open>worklist\<close>.
\<close>

section \<open>Loops\<close>

text \<open>
  \<open>c_loop body s\<close> repeats \<open>body\<close> from \<open>s\<close> until it leaves the loop with \<open>Inr\<close>. A loop that does
  not end is \<open>None\<close>, so a weakest precondition of it includes that it does.
\<close>

partial_function (option) c_loop :: "('s \<Rightarrow> ('s + 'r) option) \<Rightarrow> 's \<Rightarrow> 'r option" where
  [code]: "c_loop body s =
     (case body s of
        None \<Rightarrow> None
      | Some x \<Rightarrow> (case x of Inl s \<Rightarrow> c_loop body s | Inr r \<Rightarrow> Some r))"

lemma wp_c_loop:
  fixes m :: "'s \<Rightarrow> nat"
  assumes "I s"
    and step: "\<And>s. I s \<Longrightarrow> wp (body s) (\<lambda>x. case x of Inl s' \<Rightarrow> I s' \<and> m s' < m s | Inr r \<Rightarrow> Q r)"
  shows "wp (c_loop body s) Q"
  using assms(1)
proof (induction "m s" arbitrary: s rule: less_induct)
  case less
  from step [OF less.prems] obtain x where x: "body s = Some x"
    and "case x of Inl s' \<Rightarrow> I s' \<and> m s' < m s | Inr r \<Rightarrow> Q r"
    by (auto simp: wp_iff_ex)
  then show ?case using less.hyps by (subst c_loop.simps) (auto split: sum.splits)
qed

section \<open>Graph search\<close>

text \<open>
  The visited states \<open>V\<close> are reachable from those in \<open>S\<close>, which are among them, and \<open>V\<close> is closed
  under the edges \<open>E\<close> but for the states \<open>W\<close> still to be looked at.
\<close>

definition search_inv :: "('s \<Rightarrow> 's \<Rightarrow> bool) \<Rightarrow> 's set \<Rightarrow> 's set \<Rightarrow> 's set \<Rightarrow> bool" where
  "search_inv E S V W \<longleftrightarrow> S \<subseteq> V \<and> W \<subseteq> V \<and> (\<forall>t \<in> V. \<exists>s \<in> S. E\<^sup>*\<^sup>* s t) \<and> (\<forall>p \<in> V - W. \<forall>t. E p t \<longrightarrow> t \<in> V)"

lemma search_init: "search_inv E S S S"
  by (auto simp: search_inv_def)

lemma search_step:
  assumes "search_inv E S V W" and "p \<in> W" and "T = {t. E p t}"
  shows "search_inv E S (V \<union> T) (W - {p} \<union> (T - V))"
  unfolding search_inv_def
proof (intro conjI ballI allI impI)
  have p: "p \<in> V" using assms by (auto simp: search_inv_def)
  then obtain s where s: "s \<in> S" "E\<^sup>*\<^sup>* s p" using assms(1) by (auto simp: search_inv_def)
  show "S \<subseteq> V \<union> T" and "W - {p} \<union> (T - V) \<subseteq> V \<union> T"
    using assms(1) by (auto simp: search_inv_def)
  show "\<exists>s \<in> S. E\<^sup>*\<^sup>* s t" if "t \<in> V \<union> T" for t
    using that assms(1,3) s by (auto simp: search_inv_def intro: rtranclp.rtrancl_into_rtrancl)
  fix q t
  assume q: "q \<in> V \<union> T - (W - {p} \<union> (T - V))" and e: "E q t"
  show "t \<in> V \<union> T"
  proof (cases "q = p")
    case False
    then have "q \<in> V - W" using q by auto
    then show ?thesis using assms(1) e by (auto simp: search_inv_def)
  qed (use e assms(3) in auto)
qed

lemma search_done: "search_inv E S V {} \<Longrightarrow> V = {t. \<exists>s \<in> S. E\<^sup>*\<^sup>* s t}"
proof -
  assume inv: "search_inv E S V {}"
  have "t \<in> V" if "E\<^sup>*\<^sup>* s t" "s \<in> S" for s t
    using that by (induction rule: rtranclp_induct) (use inv in \<open>auto simp: search_inv_def\<close>)
  then show ?thesis using inv by (auto simp: search_inv_def)
qed

lemma search_done_single: "search_inv E {s} V {} \<Longrightarrow> V = {t. E\<^sup>*\<^sup>* s t}"
  using search_done [of E "{s}" V] by simp

text \<open>Each round finishes with one state, of which there are finitely many.\<close>

lemma search_finished: "p \<in> W \<Longrightarrow> W \<subseteq> V \<Longrightarrow> V \<union> S - (W - {p} \<union> (S - V)) = insert p (V - W)"
  by auto

lemma search_progress:
  assumes "V \<union> S \<subseteq> {..<n}" and "p \<in> W" and "W \<subseteq> V"
  shows "n - card (V \<union> S - (W - {p} \<union> (S - V))) < n - card (V - W)"
proof -
  have fin: "finite (V - W)" using assms(1) finite_subset by blast
  note search_finished [OF assms(2,3)]
  moreover have "card (insert p (V - W)) = Suc (card (V - W))" using fin assms(2) by simp
  moreover have "card (insert p (V - W)) \<le> card {..<n}"
    by (rule card_mono) (use assms in auto)
  ultimately show ?thesis by simp
qed

section \<open>The flags\<close>

definition vset :: "bool list \<Rightarrow> nat set" where
  "vset vis = {s. s < length vis \<and> vis ! s}"

lemma vset_replicate [simp]: "vset (replicate n False) = {}"
  by (simp add: vset_def)

lemma vset_bound: "vset vis \<subseteq> {..<length vis}" "finite (vset vis)"
  by (auto simp: vset_def)

lemma vset_update: "s < length vis \<Longrightarrow> vset (vis[s := True]) = insert s (vset vis)"
  by (auto simp: vset_def nth_list_update)

lemma vset_full: "s < length vis \<Longrightarrow> s \<notin> vset vis \<Longrightarrow> card (vset vis) < length vis"
  using psubset_card_mono [of "{..<length vis}" "vset vis"] by (auto simp: vset_def)

section \<open>Lists of states to look at\<close>

text \<open>
  \<open>push_unvisited push ts\<close> is the loop over the successors \<open>ts\<close> of a state: those that are not
  visited are marked and added to the list.
\<close>

definition push_unvisited ::
  "('q \<Rightarrow> nat \<Rightarrow> (bool \<times> 'q) option) \<Rightarrow> nat list \<Rightarrow> 'q \<times> bool list \<Rightarrow> (bool \<times> 'q \<times> bool list) option" where
  "push_unvisited push ts =
     c_for (\<lambda>t (q, vis). do { v \<leftarrow> c_nth vis t;
       if v then Some (True, q, vis)
       else do { (ok, q) \<leftarrow> push q t; Some (ok, q, if ok then vis[t := True] else vis) } }) ts"

locale worklist =
  fixes items :: "'q \<Rightarrow> nat list" and cap :: "'q \<Rightarrow> nat" and wl_inv :: "'q \<Rightarrow> bool"
    and push :: "'q \<Rightarrow> nat \<Rightarrow> (bool \<times> 'q) option" and pop :: "'q \<Rightarrow> (nat option \<times> 'q) option"
  assumes push_wp: "wl_inv q \<Longrightarrow> length (items q) < cap q \<Longrightarrow>
      wp (push q s) (\<lambda>(ok, q'). ok \<and> wl_inv q' \<and> cap q' = cap q \<and> mset (items q') = add_mset s (mset (items q)))"
    and pop_wp: "wl_inv q \<Longrightarrow>
      wp (pop q) (\<lambda>(r, q'). wl_inv q' \<and> cap q' = cap q \<and>
        (case r of None \<Rightarrow> items q = [] | Some s \<Rightarrow> mset (items q) = add_mset s (mset (items q'))))"
begin

lemma pop_Some:
  assumes "wl_inv q" and "distinct (items q)" and "pop q = Some (Some s, q')"
  shows "wl_inv q'" "cap q' = cap q" "s \<in> set (items q)" "set (items q') = set (items q) - {s}" "distinct (items q')"
proof -
  have m: "mset (items q) = mset (s # items q')" and q': "wl_inv q'" "cap q' = cap q"
    using pop_wp [OF assms(1)] assms(3) by simp_all
  show "wl_inv q'" "cap q' = cap q" by fact+
  have "distinct (s # items q')" using mset_eq_imp_distinct_iff [OF m] assms(2) by simp
  then show "distinct (items q')" and "s \<in> set (items q)" and "set (items q') = set (items q) - {s}"
    using mset_eq_setD [OF m] by auto
qed

definition ready :: "'q \<Rightarrow> bool list \<Rightarrow> bool" where
  "ready q vis \<longleftrightarrow> wl_inv q \<and> distinct (items q) \<and> set (items q) \<subseteq> vset vis \<and> length vis \<le> cap q"

lemma push_unvisited_wp:
  assumes "ready q vis" and "set ts \<subseteq> {..<length vis}"
  shows "wp (push_unvisited push ts (q, vis)) (\<lambda>(ok, q', vis'). ok \<and> ready q' vis' \<and> length vis' = length vis \<and>
    vset vis' = vset vis \<union> set ts \<and> set (items q') = set (items q) \<union> (set ts - vset vis))"
  using assms
proof (induction ts arbitrary: q vis)
  case (Cons t ts)
  have t: "t < length vis" using Cons.prems by simp
  show ?case
  proof (cases "vis ! t")
    case True
    then have v: "t \<in> vset vis" using t by (simp add: vset_def)
    have "wp (push_unvisited push ts (q, vis)) (\<lambda>(ok, q', vis'). ok \<and> ready q' vis' \<and> length vis' = length vis \<and>
        vset vis' = vset vis \<union> set ts \<and> set (items q') = set (items q) \<union> (set ts - vset vis))"
      using Cons by simp
    then show ?thesis
      using True t v by (simp add: push_unvisited_def c_nth_def) (erule wp_mono, auto)
  next
    case False
    then have v: "t \<notin> vset vis" by (simp add: vset_def)
    have "length (items q) = card (set (items q))" using Cons.prems(1) distinct_card [of "items q"] by (simp add: ready_def)
    also have "\<dots> \<le> card (vset vis)" using Cons.prems(1) vset_bound by (intro card_mono) (auto simp: ready_def)
    also have "\<dots> < cap q" using vset_full [OF t v] Cons.prems(1) by (simp add: ready_def)
    finally obtain q1 where run: "push q t = Some (True, q1)" and q1: "wl_inv q1" "cap q1 = cap q"
      and m: "mset (items q1) = mset (t # items q)"
      using push_wp [of q t] Cons.prems(1) by (auto simp: ready_def elim!: wpE2)
    let ?vis = "vis[t := True]"
    have s: "set (items q1) = insert t (set (items q))" using mset_eq_setD [OF m] by simp
    have "distinct (items q1)"
      using mset_eq_imp_distinct_iff [OF m] v Cons.prems(1) by (auto simp: ready_def)
    then have "ready q1 ?vis" using q1 s Cons.prems(1) t by (auto simp: ready_def vset_update)
    moreover have "set ts \<subseteq> {..<length ?vis}" using Cons.prems(2) by simp
    ultimately have "wp (push_unvisited push ts (q1, ?vis)) (\<lambda>(ok, q', vis'). ok \<and> ready q' vis' \<and> length vis' = length ?vis \<and>
        vset vis' = vset ?vis \<union> set ts \<and> set (items q') = set (items q1) \<union> (set ts - vset ?vis))"
      by (rule Cons.IH)
    then show ?thesis
      using False t v run by (simp add: push_unvisited_def c_nth_def) (erule wp_mono, auto simp: s vset_update)
  qed
qed (simp add: push_unvisited_def)

end

end
