(* ===== verification/Queue.thy ===== *)
theory Queue
  imports Worklist
begin

text \<open>
  The bounded queue of states of \<open>src/adt/queue.c\<close>: an array of fixed capacity with a read and a
  write offset. When the write offset is at the end, the items move to the front of the array.
\<close>

record queue =
  q_rd :: nat
  q_wr :: nat
  q_q :: "fsm_state_t list"  \<comment> \<open>as long as the capacity\<close>

abbreviation q_capacity :: "queue \<Rightarrow> nat" where
  "q_capacity q \<equiv> length (q_q q)"

definition queue_new :: "alloc \<Rightarrow> nat \<Rightarrow> queue option \<times> alloc" where
  "queue_new al max_capacity =
     (if max_capacity = 0 then (None, al)
      else let (ok, al) = f_malloc al in
        (if ok then Some \<lparr>q_rd = 0, q_wr = 0, q_q = replicate max_capacity 0\<rparr> else None, al))"

definition queue_push :: "queue \<Rightarrow> fsm_state_t \<Rightarrow> (bool \<times> queue) option" where
  "queue_push q state =
     do { c_assert (q_rd q \<le> q_wr q);
          c_assert (q_wr q \<le> q_capacity q);
          let (room, q) =
            (if q_wr q = q_capacity q then
               if q_rd q > 0 \<and> q_rd q < q_wr q then
                 (True, q\<lparr>q_q := drop (q_rd q) (q_q q) @ drop (q_capacity q - q_rd q) (q_q q),
                          q_wr := q_wr q - q_rd q, q_rd := 0\<rparr>)
               else (False, q)
             else (True, q));
          if \<not> room then Some (False, q)
          else Some (True, q\<lparr>q_q := (q_q q)[q_wr q := state], q_wr := q_wr q + 1\<rparr>) }"

definition queue_pop :: "queue \<Rightarrow> (fsm_state_t option \<times> queue) option" where
  "queue_pop q =
     do { c_assert (q_rd q \<le> q_wr q);
          c_assert (q_wr q \<le> q_capacity q);
          if q_rd q = q_wr q then Some (None, q)
          else do {
            state \<leftarrow> c_nth (q_q q) (q_rd q);
            let q = q\<lparr>q_rd := q_rd q + 1\<rparr>;
            Some (Some state, if q_rd q = q_wr q then q\<lparr>q_rd := 0, q_wr := 0\<rparr> else q) } }"

section \<open>First in, first out\<close>

text \<open>An empty queue has its offsets at the front.\<close>

definition queue_inv :: "queue \<Rightarrow> bool" where
  "queue_inv q \<longleftrightarrow> q_wr q \<le> q_capacity q \<and> 0 < q_capacity q \<and> (q_rd q < q_wr q \<or> q_rd q = 0 \<and> q_wr q = 0)"

definition queue_items :: "queue \<Rightarrow> fsm_state_t list" where
  "queue_items q = drop (q_rd q) (take (q_wr q) (q_q q))"

lemma queue_new_wp:
  "case queue_new al n of (None, al') \<Rightarrow> n = 0 \<or> al \<noteq> []
   | (Some q, al') \<Rightarrow> queue_inv q \<and> queue_items q = [] \<and> q_capacity q = n \<and> (al = [] \<longrightarrow> al' = [])"
  by (cases al) (auto simp: queue_new_def queue_inv_def queue_items_def split: prod.splits)

lemma take_Suc_update: "k < length xs \<Longrightarrow> take (Suc k) (xs[k := x]) = take k xs @ [x]"
  by (simp add: take_Suc_conv_app_nth)

text \<open>A push fails exactly on a full queue.\<close>

lemma queue_push_wp:
  assumes "queue_inv q"
  shows "wp (queue_push q s) (\<lambda>(ok, q'). queue_inv q' \<and> q_capacity q' = q_capacity q \<and>
    ok = (length (queue_items q) < q_capacity q) \<and> queue_items q' = (if ok then queue_items q @ [s] else queue_items q))"
proof (cases "q_wr q = q_capacity q")
  case True
  show ?thesis
  proof (cases "q_rd q > 0")
    case rd: True
    let ?q = "drop (q_rd q) (q_q q) @ drop (q_capacity q - q_rd q) (q_q q)"
    have "q_rd q < q_capacity q" using assms True by (auto simp: queue_inv_def)
    moreover have "take (Suc (q_capacity q - q_rd q)) (?q[q_capacity q - q_rd q := s]) = drop (q_rd q) (q_q q) @ [s]"
      using take_Suc_update [of "q_capacity q - q_rd q" ?q s] rd calculation by simp
    ultimately show ?thesis
      using rd True by (simp add: queue_push_def queue_inv_def queue_items_def c_assert_def Let_def, linarith)
  qed (use assms True in \<open>simp add: queue_push_def queue_inv_def queue_items_def c_assert_def Let_def\<close>)
next
  case False
  then have "q_wr q < q_capacity q" using assms by (simp add: queue_inv_def)
  then show ?thesis
    using assms False take_Suc_update [of "q_wr q" "q_q q" s]
    by (auto simp: queue_push_def queue_inv_def queue_items_def c_assert_def Let_def)
qed

lemma queue_pop_wp:
  assumes "queue_inv q"
  shows "wp (queue_pop q) (\<lambda>(r, q'). queue_inv q' \<and> q_capacity q' = q_capacity q \<and>
    (case r of None \<Rightarrow> queue_items q = [] \<and> q' = q | Some s \<Rightarrow> queue_items q = s # queue_items q'))"
proof (cases "q_rd q = q_wr q")
  case False
  then have r: "q_rd q < q_wr q" "q_wr q \<le> q_capacity q" using assms by (auto simp: queue_inv_def)
  have "drop (q_rd q) (take (q_wr q) (q_q q)) = q_q q ! q_rd q # drop (Suc (q_rd q)) (take (q_wr q) (q_q q))"
    using r Cons_nth_drop_Suc [of "q_rd q" "take (q_wr q) (q_q q)"] by simp
  then show ?thesis
    using r assms by (auto simp: queue_pop_def queue_inv_def queue_items_def c_assert_def c_nth_def Let_def)
qed (use assms in \<open>simp add: queue_pop_def queue_inv_def queue_items_def c_assert_def\<close>)

interpretation qwl: worklist queue_items q_capacity queue_inv queue_push queue_pop
proof
  fix q s
  show "wp (queue_push q s) (\<lambda>(ok, q'). ok \<and> queue_inv q' \<and> q_capacity q' = q_capacity q \<and>
      mset (queue_items q') = add_mset s (mset (queue_items q)))"
    if "queue_inv q" "length (queue_items q) < q_capacity q"
    by (rule wp_mono [OF queue_push_wp [OF that(1), of s]]) (use that(2) in auto)
  show "wp (queue_pop q) (\<lambda>(r, q'). queue_inv q' \<and> q_capacity q' = q_capacity q \<and>
      (case r of None \<Rightarrow> queue_items q = [] | Some s \<Rightarrow> mset (queue_items q) = add_mset s (mset (queue_items q'))))"
    if "queue_inv q"
    by (rule wp_mono [OF queue_pop_wp [OF that]]) (auto split: option.splits)
qed

end
