(* ===== verification/Fsm_Walk.thy ===== *)
theory Fsm_Walk
  imports Fsm_Core Worklist
begin

unbundle bit_operations_syntax

text \<open>
  Predicates on states (\<open>src/libfsm/pred\<close>), walks over the states of an automaton
  (\<open>src/libfsm/walk\<close>) and the two questions answered by them alone: \<open>fsm_empty\<close> and
  \<open>fsm_collate\<close>. A predicate is a function of the automaton and a state; \<open>None\<close> is its
  assertion that the state exists.
\<close>

section \<open>Loops over the edges of a state\<close>

text \<open>
  \<open>for (edge_set_reset(...); edge_set_next(...); )\<close> and the same for groups, over a set that the
  body leaves alone, are loops over the list of what the iterator gives. A group has at most
  256 edges, so the bounds are enough.
\<close>

fun es_group_count :: "edge_set \<Rightarrow> nat" where
  "es_group_count ES_Null = 0"
| "es_group_count (ES st) = length (es_groups st)"

definition edge_set_drain :: "edge_set \<Rightarrow> fsm_edge list" where
  "edge_set_drain es = drain (256 * es_group_count es) edge_set_next (edge_set_reset es)"

definition edge_group_drain :: "edge_set \<Rightarrow> edge_group_iter_info list" where
  "edge_group_drain es =
     drain (es_group_count es) edge_set_group_iter_next (edge_set_group_iter_reset es EDGE_GROUP_ITER_ALL)"

lemma edge_set_drain_list: "edge_set_drain es = edge_list es"
proof -
  have one: "length (group_list g 0) \<le> 256" for g
    using length_filter_le [of "label_bit (eg_symbols g)" "[0..<256]"] by (simp add: group_list_def)
  have "length (concat (map (\<lambda>g. group_list g 0) gs)) \<le> 256 * length gs" for gs
  proof (induction gs)
    case (Cons g gs)
    then show ?case using one [of g] by simp
  qed simp
  then have "length (edge_list es) \<le> 256 * es_group_count es" by (cases es) (simp_all add: edge_list_def)
  then show ?thesis
    unfolding edge_set_drain_def by (rule eiter.drain_all [of "edge_set_reset es", unfolded edge_rest_reset])
qed

lemma set_edge_set_drain:
  assumes "snd ` es_edges es \<subseteq> {..<n}" and "n \<le> edge_state_limit"
  shows "set (edge_set_drain es) = (\<lambda>(c, s). \<lparr>e_state = s, e_symbol = c\<rparr>) ` es_edges es"
proof -
  have "mk_edge s c = \<lparr>e_state = s, e_symbol = c\<rparr>" if "(c, s) \<in> es_edges es" for c s
    using that assms by (force simp: mk_edge_def)
  then show ?thesis unfolding edge_set_drain_list edge_list_set by (intro image_cong) auto
qed

lemma edge_group_drain_list:
  "edge_group_drain es = (case es of ES_Null \<Rightarrow> [] | ES st \<Rightarrow> concat (map all_info (es_groups st)))"
proof (cases es)
  case ES_Null
  then show ?thesis by (simp add: edge_group_drain_def)
next
  case (ES st)
  have from_0: "infos_from gs internal Flag_All = concat (map all_info gs)" for gs internal
    by (induction gs) simp_all
  have "length (concat (map all_info gs)) \<le> length gs" for gs
    by (induction gs) (auto simp: all_info_def)
  then show ?thesis
    using ES giter.drain_all [of "edge_set_group_iter_reset es EDGE_GROUP_ITER_ALL" "es_group_count es"]
    by (simp add: edge_group_drain_def edge_set_group_iter_reset_def from_0)
qed

section \<open>Predicates\<close>

type_synonym fsm_pred = "fsm \<Rightarrow> fsm_state_t \<Rightarrow> bool option"

definition fsm_epsilonsonly :: fsm_pred where
  "fsm_epsilonsonly f state =
     do { c_assert (state < statecount f);
          Some (\<not> state_set_empty (st_epsilons (f_states f ! state)) \<and> edge_set_empty (st_edges (f_states f ! state))) }"

definition fsm_hasepsilons :: fsm_pred where
  "fsm_hasepsilons f state =
     do { c_assert (state < statecount f); Some (\<not> state_set_empty (st_epsilons (f_states f ! state))) }"

definition fsm_hasincoming :: fsm_pred where
  "fsm_hasincoming f state =
     do { c_assert (state < statecount f);
          Some (list_ex (\<lambda>st. state_set_contains (st_epsilons st) state \<or>
            list_ex (\<lambda>info. gi_to info = state) (edge_group_drain (st_edges st))) (f_states f)) }"

definition fsm_hasoutgoing :: fsm_pred where
  "fsm_hasoutgoing f state =
     do { c_assert (state < statecount f);
          Some (\<not> state_set_empty (st_epsilons (f_states f ! state)) \<or> \<not> edge_set_empty (st_edges (f_states f ! state))) }"

definition fsm_isany :: fsm_pred where
  "fsm_isany f state = do { c_assert (state < statecount f); Some True }"

text \<open>\<open>struct bm bm; bm_clear(&bm);\<close> and the four words of a group's symbols put in.\<close>

definition bm_zero :: bm where
  "bm_zero = bm_clear \<lparr>bm_map = []\<rparr>"

definition bm_or_symbols :: "bm \<Rightarrow> symbols \<Rightarrow> bm" where
  "bm_or_symbols bm S = bm\<lparr>bm_map := foldl (\<lambda>m i. m[i := m ! i OR S ! i]) (bm_map bm) [0..<4]\<rparr>"

definition fsm_iscomplete :: fsm_pred where
  "fsm_iscomplete f state =
     do { c_assert (state < statecount f);
          (_, bm) \<leftarrow> c_for (\<lambda>info bm. do { c_assert (gi_to info < statecount f);
                                           Some (True, bm_or_symbols bm (gi_symbols info)) })
            (edge_group_drain (st_edges (f_states f ! state))) bm_zero;
          Some (bm_count bm = 256) }"

definition state_hasnondeterminism :: "fsm \<Rightarrow> fsm_state_t \<Rightarrow> bm \<Rightarrow> (bool \<times> bm) option" where
  "state_hasnondeterminism f state bm =
     do { c_assert (state < statecount f); edge_set_hasnondeterminism (st_edges (f_states f ! state)) bm }"

definition fsm_isdfa :: fsm_pred where
  "fsm_isdfa f state =
     do { c_assert (state < statecount f);
          start \<leftarrow> fsm_getstart f;
          if start = None then Some False
          else if \<not> state_set_empty (st_epsilons (f_states f ! state)) then Some False
          else do { (nondet, _) \<leftarrow> state_hasnondeterminism f state bm_zero; Some (\<not> nondet) } }"

text \<open>
  The recursion of \<open>state_epsilon_closure\<close> with the states still to be entered, in the calls
  that are open, as a list: entering a state puts its epsilon successors in front.
\<close>

definition epsilon_closure_body ::
  "fsm \<Rightarrow> fsm_state_t list \<times> state_set \<times> alloc \<Rightarrow>
   ((fsm_state_t list \<times> state_set \<times> alloc) + (bool \<times> state_set \<times> alloc)) option" where
  "epsilon_closure_body f = (\<lambda>(todo, closure, al).
     case todo of
       [] \<Rightarrow> Some (Inr (True, closure, al))
     | state # todo \<Rightarrow>
         do { c_assert (state < statecount f);
              if state_set_contains closure state then Some (Inl (todo, closure, al))
              else do {
                (ok, closure, al) \<leftarrow> state_set_add al closure state;
                if \<not> ok then Some (Inr (False, closure, al))
                else Some (Inl (state_set_drain (state_set_reset (st_epsilons (f_states f ! state))) @ todo, closure, al)) } })"

definition state_epsilon_closure ::
  "alloc \<Rightarrow> fsm \<Rightarrow> fsm_state_t \<Rightarrow> state_set \<Rightarrow> (bool \<times> state_set \<times> alloc) option" where
  "state_epsilon_closure al f state closure = c_loop (epsilon_closure_body f) ([state], closure, al)"

text \<open>The result is the \<open>int\<close> of the source: \<open>-1\<close> for a failing allocation.\<close>

definition fsm_hasnondeterminism :: "alloc \<Rightarrow> fsm \<Rightarrow> fsm_state_t \<Rightarrow> (int \<times> alloc) option" where
  "fsm_hasnondeterminism al f state =
     do { eps \<leftarrow> fsm_hasepsilons f state;
          if \<not> eps then do { (r, _) \<leftarrow> state_hasnondeterminism f state bm_zero; Some (of_bool r, al) }
          else do {
            (ok, ec, al) \<leftarrow> state_epsilon_closure al f state SS_Null;
            if \<not> ok then Some (-1, al)
            else do {
              (none, _) \<leftarrow> c_for (\<lambda>s bm. do { (r, bm) \<leftarrow> state_hasnondeterminism f s bm; Some (\<not> r, bm) })
                (state_set_drain (state_set_reset ec)) bm_zero;
              Some (of_bool (\<not> none), al) } } }"

section \<open>Walks\<close>

definition fsm_all :: "fsm \<Rightarrow> fsm_pred \<Rightarrow> bool option" where
  "fsm_all f predicate =
     do { (ok, _) \<leftarrow> c_for (\<lambda>i u. do { b \<leftarrow> predicate f i; Some (b, u) }) [0..<statecount f] (); Some ok }"

definition fsm_has :: "fsm \<Rightarrow> fsm_pred \<Rightarrow> bool option" where
  "fsm_has f predicate =
     do { (ok, _) \<leftarrow> c_for (\<lambda>i u. do { b \<leftarrow> predicate f i; Some (\<not> b, u) }) [0..<statecount f] (); Some (\<not> ok) }"

definition fsm_count :: "fsm \<Rightarrow> fsm_pred \<Rightarrow> nat option" where
  "fsm_count f predicate =
     do { (_, n) \<leftarrow> c_for (\<lambda>i n. do { b \<leftarrow> predicate f i; Some (True, (n + of_bool b) mod 2 ^ 32) })
            [0..<statecount f] 0;
          Some n }"

text \<open>The callbacks pass a value along, in place of \<open>opaque\<close>.\<close>

definition fsm_walk_states ::
  "fsm \<Rightarrow> 'a \<Rightarrow> (fsm \<Rightarrow> fsm_state_t \<Rightarrow> 'a \<Rightarrow> (bool \<times> 'a) option) \<Rightarrow> (bool \<times> 'a) option" where
  "fsm_walk_states f opaque callback = c_for (callback f) [0..<statecount f] opaque"

definition fsm_walk_edges ::
  "fsm \<Rightarrow> 'a \<Rightarrow> (fsm \<Rightarrow> fsm_state_t \<Rightarrow> fsm_state_t \<Rightarrow> octet \<Rightarrow> 'a \<Rightarrow> (bool \<times> 'a) option) \<Rightarrow>
   (fsm \<Rightarrow> fsm_state_t \<Rightarrow> fsm_state_t \<Rightarrow> 'a \<Rightarrow> (bool \<times> 'a) option) \<Rightarrow> (bool \<times> 'a) option" where
  "fsm_walk_edges f opaque callback_literal callback_epsilon =
     c_for (\<lambda>i a. do {
         (ok, a) \<leftarrow> c_for (\<lambda>e. callback_literal f i (e_state e) (e_symbol e))
           (edge_set_drain (st_edges (f_states f ! i))) a;
         if \<not> ok then Some (False, a)
         else c_for (callback_epsilon f i) (state_set_drain (state_set_reset (st_epsilons (f_states f ! i)))) a })
       [0..<statecount f] opaque"

text \<open>
  \<open>fsm_reachable\<close>: the array \<open>q\<close> of as many elements as there are states is a stack. The flags
  \<open>visited\<close> are cleared before and after; the model keeps them in a list of their own.
\<close>

record state_stack =
  sk_items :: "fsm_state_t list"  \<comment> \<open>the top first\<close>
  sk_size :: nat

definition stack_push :: "state_stack \<Rightarrow> fsm_state_t \<Rightarrow> (bool \<times> state_stack) option" where
  "stack_push q s = do { c_assert (length (sk_items q) < sk_size q); Some (True, q\<lparr>sk_items := s # sk_items q\<rparr>) }"

definition stack_pop :: "state_stack \<Rightarrow> (fsm_state_t option \<times> state_stack) option" where
  "stack_pop q = Some (case sk_items q of [] \<Rightarrow> (None, q) | s # ss \<Rightarrow> (Some s, q\<lparr>sk_items := ss\<rparr>))"

definition clear_visited :: "fsm \<Rightarrow> fsm" where
  "clear_visited f = f\<lparr>f_states := map (\<lambda>st. st\<lparr>st_visited := False\<rparr>) (f_states f)\<rparr>"

definition reachable_body ::
  "fsm \<Rightarrow> bool \<Rightarrow> fsm_pred \<Rightarrow> state_stack \<times> bool list \<Rightarrow> ((state_stack \<times> bool list) + bool) option" where
  "reachable_body f any predicate = (\<lambda>(q, vis).
     do { (r, q) \<leftarrow> stack_pop q;
          case r of
            None \<Rightarrow> Some (Inr (\<not> any))
          | Some state \<Rightarrow>
              do { b \<leftarrow> predicate f state;
                   if b = any then Some (Inr any)
                   else do {
                     (_, q, vis) \<leftarrow> push_unvisited stack_push (map e_state (edge_set_drain (st_edges (f_states f ! state)))) (q, vis);
                     (_, q, vis) \<leftarrow> push_unvisited stack_push
                       (state_set_drain (state_set_reset (st_epsilons (f_states f ! state)))) (q, vis);
                     Some (Inl (q, vis)) } } })"

text \<open>\<open>None\<close> as the inner result is the \<open>-1\<close> of a failing allocation.\<close>

definition fsm_reachable ::
  "alloc \<Rightarrow> fsm \<Rightarrow> fsm_state_t \<Rightarrow> bool \<Rightarrow> fsm_pred \<Rightarrow> (bool option \<times> fsm \<times> alloc) option" where
  "fsm_reachable al f state any predicate =
     do { c_assert (state < statecount f);
          let (ok, al) = f_malloc al;
          if \<not> ok then Some (None, clear_visited f, al)
          else do {
            r \<leftarrow> c_loop (reachable_body f any predicate)
              (\<lparr>sk_items = [state], sk_size = statecount f\<rparr>, (replicate (statecount f) False)[state := True]);
            Some (Some r, clear_visited f, al) } }"

definition fsm_reachableall ::
  "alloc \<Rightarrow> fsm \<Rightarrow> fsm_state_t \<Rightarrow> fsm_pred \<Rightarrow> (bool option \<times> fsm \<times> alloc) option" where
  "fsm_reachableall al f state predicate = fsm_reachable al f state False predicate"

definition fsm_reachableany ::
  "alloc \<Rightarrow> fsm \<Rightarrow> fsm_state_t \<Rightarrow> fsm_pred \<Rightarrow> (bool option \<times> fsm \<times> alloc) option" where
  "fsm_reachableany al f state predicate = fsm_reachable al f state True predicate"

text \<open>
  \<open>fsm_empty\<close> gives \<open>-1\<close> without a start state; a failing allocation in the search is not 0 and
  so counts as an end state that was found.
\<close>

definition fsm_empty :: "alloc \<Rightarrow> fsm \<Rightarrow> (int \<times> fsm \<times> alloc) option" where
  "fsm_empty al f =
     do { start \<leftarrow> fsm_getstart f;
          case start of
            None \<Rightarrow> Some (-1, f, al)
          | Some s \<Rightarrow> do { (r, f, al) \<leftarrow> fsm_reachableany al f s fsm_isend;
                           Some (if r = Some False then 1 else 0, f, al) } }"

definition fsm_collate :: "alloc \<Rightarrow> fsm \<Rightarrow> fsm_pred \<Rightarrow> (fsm_state_t option \<times> fsm \<times> alloc) option" where
  "fsm_collate al f predicate =
     do { n \<leftarrow> fsm_count f predicate;
          if n = 0 then Some (None, f, al)
          else if n = 1 then
            do { i \<leftarrow> c_loop (\<lambda>i. do { b \<leftarrow> predicate f i; Some (if b then Inr i else Inl (i + 1)) }) 0;
                 Some (Some i, f, al) }
          else do {
            (new, f, al) \<leftarrow> fsm_addstate al f;
            case new of
              None \<Rightarrow> Some (None, f, al)
            | Some new \<Rightarrow>
                do { (ok, f, al) \<leftarrow>
                       c_for (\<lambda>i (f, al).
                           if i = new then Some (True, f, al)
                           else do { b \<leftarrow> predicate f i;
                                     if \<not> b then Some (True, f, al) else fsm_addedge_epsilon al f i new })
                         [0..<statecount f] (f, al);
                     Some (if ok then Some new else None, f, al) } } }"

section \<open>The predicates\<close>

lemma fsm_isend_eq: "s < statecount f \<Longrightarrow> fsm_isend f s = Some (n_end (fsm_nfa f) s)"
  by (simp add: fsm_isend_def c_assert_def fsm_nfa_def)

lemma fsm_hasepsilons_eq:
  assumes "fsm_inv f" and "s < statecount f"
  shows "fsm_hasepsilons f s = Some (\<exists>t. fsm_step f s None t)"
  using fsm_inv_state [OF assms] assms(2)
  by (auto simp: fsm_hasepsilons_def c_assert_def state_ok_def state_set_empty_iff fsm_step_def step_in_def ex_in_conv)

lemma fsm_hasoutgoing_eq:
  assumes "fsm_inv f" and "s < statecount f"
  shows "fsm_hasoutgoing f s = Some (\<exists>l t. fsm_step f s l t)"
proof -
  have "(\<exists>l t. fsm_step f s l t) \<longleftrightarrow> (\<exists>t. fsm_step f s None t) \<or> (\<exists>c t. fsm_step f s (Some c) t)"
    by (metis not_Some_eq)
  then show ?thesis
    using fsm_inv_state [OF assms] assms(2)
    by (auto simp: fsm_hasoutgoing_def c_assert_def state_ok_def state_set_empty_iff edge_set_empty_iff fsm_step_def step_in_def ex_in_conv)
qed

lemma symbols_any_iff: "length S = 4 \<Longrightarrow> symbols_any S \<longleftrightarrow> symset S \<noteq> {}"
  unfolding symbols_any_def symset_empty_iff list_ex_iff by (simp add: Bex_set list_ex_length)

lemma edge_group_drain_edges:
  assumes "es_inv es"
  shows "(\<exists>info \<in> set (edge_group_drain es). gi_to info = t \<and> c \<in> symset (gi_symbols info)) \<longleftrightarrow> (c, t) \<in> es_edges es"
proof (cases es)
  case (ES st)
  have "c \<in> symset (eg_symbols g) \<Longrightarrow> symbols_any (eg_symbols g)" if "g \<in> set (es_groups st)" for g
    using assms that by (auto simp: ES groups_ok_def group_ok_def symbols_any_iff)
  then show ?thesis
    unfolding edge_group_drain_list by (fastforce simp: ES all_info_def groups_edges_iff)
qed (simp add: edge_group_drain_list)

lemma edge_group_drain_info:
  assumes "es_inv es" and "info \<in> set (edge_group_drain es)"
  shows "length (gi_symbols info) = 4" "\<exists>c. c \<in> symset (gi_symbols info)"
  using assms unfolding edge_group_drain_list
  by (cases es; auto simp: all_info_def symbols_any_iff groups_ok_def group_ok_def ex_in_conv split: if_splits)+

lemma fsm_hasincoming_eq:
  assumes "fsm_inv f" and "s < statecount f"
  shows "fsm_hasincoming f s = Some (\<exists>p l. fsm_step f p l s)"
proof -
  have lab: "list_ex (\<lambda>info. gi_to info = s) (edge_group_drain es) \<longleftrightarrow> (\<exists>c. (c, s) \<in> es_edges es)" if "es_inv es" for es
  proof -
    show ?thesis
      unfolding list_ex_iff edge_group_drain_edges [OF that, symmetric]
      using edge_group_drain_info(2) [OF that] by blast
  qed
  have one: "state_set_contains (st_epsilons st) s \<or> list_ex (\<lambda>info. gi_to info = s) (edge_group_drain (st_edges st)) \<longleftrightarrow>
      s \<in> ss_set (st_epsilons st) \<or> (\<exists>c. (c, s) \<in> es_edges (st_edges st))" if "st \<in> set (f_states f)" for st
    using assms(1) that lab [of "st_edges st"] by (simp add: fsm_inv_def state_ok_def state_set_contains_iff)
  have "(\<exists>p l. fsm_step f p l s) \<longleftrightarrow> (\<exists>p. fsm_step f p None s) \<or> (\<exists>p c. fsm_step f p (Some c) s)"
    by (metis not_Some_eq)
  also have "\<dots> \<longleftrightarrow> (\<exists>p < statecount f. s \<in> ss_set (st_epsilons (f_states f ! p)) \<or>
      (\<exists>c. (c, s) \<in> es_edges (st_edges (f_states f ! p))))"
    by (auto simp: fsm_step_def step_in_def)
  also have "\<dots> \<longleftrightarrow> (\<exists>st \<in> set (f_states f). s \<in> ss_set (st_epsilons st) \<or> (\<exists>c. (c, s) \<in> es_edges (st_edges st)))"
    by (simp only: Bex_set list_ex_length)
  finally show ?thesis
    using assms(2) one by (simp add: fsm_hasincoming_def c_assert_def list_ex_iff cong: bex_cong)
qed

lemma bm_zero_low [simp]: "bm_low bm_zero" "bm_chars bm_zero = {}"
  by (simp_all add: bm_zero_def)

lemma unat_octet_le: "unat (c :: octet) \<le> 255"
  using unat_octet [of c] by simp

lemma range_unat_octet: "range (unat :: octet \<Rightarrow> nat) = {..255}"
proof (intro equalityI subsetI)
  fix i :: nat
  assume "i \<in> {..255}"
  then have "i = unat (of_nat i :: octet)" by (simp add: unat_of_nat)
  then show "i \<in> range (unat :: octet \<Rightarrow> nat)" by (rule range_eqI)
qed (auto intro: unat_octet_le)

lemma bm_or_symbols_chars:
  assumes "bm_low bm" and "length S = 4"
  shows "bm_low (bm_or_symbols bm S) \<and> bm_chars (bm_or_symbols bm S) = bm_chars bm \<union> unat ` symset S"
proof -
  let ?m = "foldl (\<lambda>m i. m[i := m ! i OR S ! i]) (bm_map bm) [0..<4]"
  have len: "length (bm_map bm) = 32" using assms(1) by (simp add: bm_low_def bm_words_def)
  have m: "?m = (bm_map bm)[0 := bm_map bm ! 0 OR S ! 0, 1 := bm_map bm ! 1 OR S ! 1,
      2 := bm_map bm ! 2 OR S ! 2, 3 := bm_map bm ! 3 OR S ! 3]"
    by (simp add: upt_rec [of _ 4] numeral_eq_Suc)
  then have nth: "?m ! k = (if k < 4 then bm_map bm ! k OR S ! k else bm_map bm ! k)" if "k < 32" for k
    using that len by (auto simp: nth_list_update less_Suc_eq numeral_eq_Suc)
  have lm: "length ?m = 32" using len by (simp add: m)
  have "i \<in> bits ?m \<longleftrightarrow> i \<in> bits (bm_map bm) \<union> unat ` symset S" for i
  proof -
    have "i \<in> unat ` symset S \<longleftrightarrow> i < 256 \<and> bit (S ! (i div 64)) (i mod 64)"
    proof
      assume "i < 256 \<and> bit (S ! (i div 64)) (i mod 64)"
      then have "(of_nat i :: octet) \<in> symset S \<and> unat (of_nat i :: octet) = i"
        by (simp add: symset_def unat_of_nat)
      then show "i \<in> unat ` symset S" by (metis imageI)
    qed (auto simp: symset_def unat_octet)
    moreover have "i div 64 < 4 \<longleftrightarrow> i < 256" and "i div 64 < 32 \<longleftrightarrow> i < 64 * 32" by auto
    ultimately show ?thesis using len lm nth [of "i div 64"] by (auto simp: bits_def bit_or_iff)
  qed
  then show ?thesis
    using assms(1) lm unat_octet_le by (auto simp: bm_or_symbols_def bm_low_def bm_chars_def bm_words_def)
qed

lemma fsm_iscomplete_eq:
  assumes "fsm_inv f" and "s < statecount f"
  shows "fsm_iscomplete f s = Some (\<forall>c. \<exists>t. fsm_step f s (Some c) t)"
proof -
  let ?es = "st_edges (f_states f ! s)"
  let ?I = "\<lambda>infos bm. bm_low bm \<and> bm_chars bm = (\<Union>info \<in> set infos. unat ` symset (gi_symbols info))"
  have inv: "es_inv ?es" and to: "snd ` es_edges ?es \<subseteq> {..<statecount f}"
    using fsm_inv_state [OF assms] by (simp_all add: state_ok_def)
  have info: "length (gi_symbols info) = 4 \<and> gi_to info < statecount f" if i: "info \<in> set (edge_group_drain ?es)" for info
  proof -
    obtain c where "c \<in> symset (gi_symbols info)" using edge_group_drain_info(2) [OF inv i] by blast
    then have "(c, gi_to info) \<in> es_edges ?es" using edge_group_drain_edges [OF inv] i by blast
    then show ?thesis using to edge_group_drain_info(1) [OF inv i] by force
  qed
  have "wp (c_for (\<lambda>info bm. do { c_assert (gi_to info < statecount f); Some (True, bm_or_symbols bm (gi_symbols info)) })
      (edge_group_drain ?es) bm_zero) (\<lambda>(ok, bm). if ok then ?I (edge_group_drain ?es) bm else False)"
  proof (rule wp_c_for)
    fix ys x zs bm
    assume "edge_group_drain ?es = ys @ x # zs" and "?I ys bm"
    then show "wp (do { c_assert (gi_to x < statecount f); Some (True, bm_or_symbols bm (gi_symbols x)) })
        (\<lambda>(ok, bm). if ok then ?I (ys @ [x]) bm else False)"
      using info [of x] bm_or_symbols_chars [of bm "gi_symbols x"] by (auto simp: c_assert_def)
  qed simp
  then obtain ok bm where run: "c_for (\<lambda>info bm. do { c_assert (gi_to info < statecount f);
      Some (True, bm_or_symbols bm (gi_symbols info)) }) (edge_group_drain ?es) bm_zero = Some (ok, bm)"
    and bm: "?I (edge_group_drain ?es) bm"
    by (rule wpE2) (simp split: if_splits)
  have "bm_chars bm = {..255} \<longleftrightarrow> (\<forall>c :: octet. unat c \<in> bm_chars bm)"
  proof -
    have "bm_chars bm \<subseteq> range (unat :: octet \<Rightarrow> nat)"
      using conjunct1 [OF bm] unfolding range_unat_octet by (simp add: bm_low_def bm_chars_def)
    then show ?thesis unfolding range_unat_octet [symmetric] by blast
  qed
  moreover have "unat c \<in> bm_chars bm \<longleftrightarrow> (\<exists>t. (c, t) \<in> es_edges ?es)" for c :: octet
    using bm edge_group_drain_edges [OF inv, of _ c] by (fastforce simp: image_iff)
  ultimately show ?thesis
    using assms(2) run bm by (simp add: fsm_iscomplete_def c_assert_def bm_full_iff fsm_step_def step_in_def)
qed

lemma fsm_isdfa_eq:
  assumes "fsm_inv f" and "s < statecount f"
  shows "fsm_isdfa f s = Some (f_hasstart f \<and> (\<forall>t. \<not> fsm_step f s None t) \<and>
    (\<forall>c t t'. fsm_step f s (Some c) t \<longrightarrow> fsm_step f s (Some c) t' \<longrightarrow> t = t'))"
proof -
  let ?st = "f_states f ! s"
  have inv: "es_inv (st_edges ?st)" "ss_inv (st_epsilons ?st)" using fsm_inv_state [OF assms] by (simp_all add: state_ok_def)
  obtain r bm where run: "edge_set_hasnondeterminism (st_edges ?st) bm_zero = Some (r, bm)"
    and r: "r \<longleftrightarrow> \<not> es_deterministic (st_edges ?st)"
    using edge_set_hasnondeterminism_wp [OF inv(1) bm_zero_low(1)] by (auto elim!: wpE2)
  have "ss_list (st_epsilons ?st) = [] \<longleftrightarrow> (\<forall>t. \<not> fsm_step f s None t)"
    using assms(2) by (auto simp: fsm_step_def step_in_def set_empty [symmetric] simp del: set_empty)
  moreover have "es_deterministic (st_edges ?st) \<longleftrightarrow>
      (\<forall>c t t'. fsm_step f s (Some c) t \<longrightarrow> fsm_step f s (Some c) t' \<longrightarrow> t = t')"
    using assms(2) by (auto simp: es_deterministic_def fsm_step_def step_in_def)
  moreover have "n_start (fsm_nfa f) = None \<longleftrightarrow> \<not> f_hasstart f" by (simp add: fsm_nfa_def)
  ultimately show ?thesis
    using assms run r
    by (auto simp: fsm_isdfa_def c_assert_def fsm_getstart_wp state_set_empty_iff inv state_hasnondeterminism_def)
qed

section \<open>The walks\<close>

lemma fsm_all_eq:
  assumes "\<And>s. s < statecount f \<Longrightarrow> p f s = Some (P s)"
  shows "fsm_all f p = Some (\<forall>s < statecount f. P s)"
proof -
  have "c_for (\<lambda>i u. do { b \<leftarrow> p f i; Some (b, u) }) xs () = Some (\<forall>s \<in> set xs. P s, ())"
    if "set xs \<subseteq> {..<statecount f}" for xs
    using that assms by (induction xs) auto
  from this [of "[0..<statecount f]"] show ?thesis
    by (simp add: fsm_all_def lessThan_atLeast0 [symmetric] Ball_def)
qed

lemma fsm_has_eq:
  assumes "\<And>s. s < statecount f \<Longrightarrow> p f s = Some (P s)"
  shows "fsm_has f p = Some (\<exists>s < statecount f. P s)"
proof -
  have "c_for (\<lambda>i u. do { b \<leftarrow> p f i; Some (\<not> b, u) }) xs () = Some (\<forall>s \<in> set xs. \<not> P s, ())"
    if "set xs \<subseteq> {..<statecount f}" for xs
    using that assms by (induction xs) auto
  from this [of "[0..<statecount f]"] show ?thesis
    by (simp add: fsm_has_def lessThan_atLeast0 [symmetric] Ball_def)
qed

lemma fsm_count_eq:
  assumes "\<And>s. s < statecount f \<Longrightarrow> p f s = Some (P s)" and "statecount f < 2 ^ 32"
  shows "fsm_count f p = Some (length (filter P [0..<statecount f]))"
proof -
  have "c_for (\<lambda>i n. do { b \<leftarrow> p f i; Some (True, (n + of_bool b) mod 2 ^ 32) }) xs n =
      Some (True, n + length (filter P xs))"
    if "set xs \<subseteq> {..<statecount f}" "n + length xs < 2 ^ 32" for xs and n :: nat
    using that
  proof (induction xs arbitrary: n)
    case (Cons x xs)
    then show ?case using assms(1) [of x] Cons.IH [of "n + of_bool (P x)"] by simp
  qed simp
  from this [of "[0..<statecount f]" 0] show ?thesis
    using assms(2) by (simp add: fsm_count_def lessThan_atLeast0 [symmetric])
qed

section \<open>Search\<close>

text \<open>One step of the automaton under any label.\<close>

definition fsm_edge_rel :: "fsm \<Rightarrow> fsm_state_t \<Rightarrow> fsm_state_t \<Rightarrow> bool" where
  "fsm_edge_rel f p t \<longleftrightarrow> (\<exists>l. fsm_step f p l t)"

lemma state_set_successors:
  assumes "s < statecount f"
  shows "set (state_set_drain (state_set_reset (st_epsilons (f_states f ! s)))) = {t. fsm_step f s None t}"
  using assms by (auto simp: state_set_drain_list fsm_step_def step_in_def)

lemma edge_set_successors:
  assumes "fsm_inv f" and "s < statecount f"
  shows "set (map e_state (edge_set_drain (st_edges (f_states f ! s)))) = {t. \<exists>c. fsm_step f s (Some c) t}"
proof -
  have "set (edge_set_drain (st_edges (f_states f ! s))) =
      (\<lambda>(c, s). \<lparr>e_state = s, e_symbol = c\<rparr>) ` es_edges (st_edges (f_states f ! s))"
    by (rule set_edge_set_drain) (use fsm_inv_state [OF assms] assms(1) in \<open>auto simp: state_ok_def fsm_inv_def\<close>)
  then have "set (map e_state (edge_set_drain (st_edges (f_states f ! s)))) = snd ` es_edges (st_edges (f_states f ! s))"
    unfolding set_map by (simp add: image_image case_prod_beta)
  also have "\<dots> = {t. \<exists>c. (c, t) \<in> es_edges (st_edges (f_states f ! s))}" by force
  finally show ?thesis using assms(2) by (simp add: fsm_step_def step_in_def)
qed

lemma successors_bound:
  assumes "fsm_inv f"
  shows "fsm_edge_rel f p t \<Longrightarrow> p < statecount f \<and> t < statecount f"
  using fsm_step_bounds [OF assms] by (auto simp: fsm_edge_rel_def)

lemma reach_bound:
  assumes "fsm_inv f" and "s < statecount f" and "(fsm_edge_rel f)\<^sup>*\<^sup>* s t"
  shows "t < statecount f"
  using assms(3) by (induction rule: rtranclp_induct) (use assms(2) successors_bound [OF assms(1)] in auto)

interpretation skwl: worklist sk_items sk_size "\<lambda>_. True" stack_push stack_pop
  by unfold_locales (auto simp: stack_push_def stack_pop_def c_assert_def split: list.splits)

definition reach_inv :: "fsm \<Rightarrow> fsm_state_t \<Rightarrow> (fsm_state_t \<Rightarrow> bool) \<Rightarrow> state_stack \<times> bool list \<Rightarrow> bool" where
  "reach_inv f s P = (\<lambda>(q, vis). skwl.ready q vis \<and> length vis = statecount f \<and>
     search_inv (fsm_edge_rel f) {s} (vset vis) (set (sk_items q)) \<and> (\<forall>t \<in> vset vis - set (sk_items q). \<not> P t))"

lemma reachable_body_wp:
  assumes inv: "fsm_inv f" and p: "\<And>t. t < statecount f \<Longrightarrow> p f t = Some (P t)"
    and I: "reach_inv f s (\<lambda>t. P t = any) (q, vis)" and "s < statecount f"
  shows "wp (reachable_body f any p (q, vis)) (\<lambda>x. case x of
      Inl (q', vis') \<Rightarrow> reach_inv f s (\<lambda>t. P t = any) (q', vis') \<and>
        statecount f - card (vset vis' - set (sk_items q')) < statecount f - card (vset vis - set (sk_items q))
    | Inr r \<Rightarrow> (r = any) = (\<exists>t. (fsm_edge_rel f)\<^sup>*\<^sup>* s t \<and> P t = any))"
proof -
  have ready: "skwl.ready q vis" and len: "length vis = statecount f"
    and si: "search_inv (fsm_edge_rel f) {s} (vset vis) (set (sk_items q))"
    and no: "\<forall>t \<in> vset vis - set (sk_items q). P t \<noteq> any"
    using I by (auto simp: reach_inv_def)
  show ?thesis
  proof (cases "sk_items q")
    case Nil
    then have "vset vis = {t. (fsm_edge_rel f)\<^sup>*\<^sup>* s t}" using si by (intro search_done_single) simp
    then show ?thesis using Nil no by (auto simp: reachable_body_def stack_pop_def)
  next
    case (Cons t ts)
    have t: "t \<in> vset vis" "(fsm_edge_rel f)\<^sup>*\<^sup>* s t" using si Cons by (auto simp: search_inv_def)
    then have tn: "t < statecount f" using vset_bound(1) [of vis] len by auto
    let ?q = "q\<lparr>sk_items := ts\<rparr>"
    let ?S = "{u. fsm_edge_rel f t u}"
    have pop: "stack_pop q = Some (Some t, ?q)" using Cons by (simp add: stack_pop_def)
    show ?thesis
    proof (cases "P t = any")
      case True
      then show ?thesis using t by (auto simp: reachable_body_def pop p [OF tn])
    next
      case False
      have q: "set ts = set (sk_items q) - {t}" "skwl.ready ?q vis"
        using ready Cons by (auto simp: skwl.ready_def)
      define ts1 where "ts1 = map e_state (edge_set_drain (st_edges (f_states f ! t)))"
      define ts2 where "ts2 = state_set_drain (state_set_reset (st_epsilons (f_states f ! t)))"
      have S: "set ts1 \<union> set ts2 = ?S"
        unfolding ts1_def ts2_def edge_set_successors [OF inv tn] state_set_successors [OF tn] fsm_edge_rel_def
        by (auto intro: exI [of _ None]) (metis not_None_eq)
      have "?S \<subseteq> {..<statecount f}" using successors_bound [OF inv] by auto
      then have sub: "set ts1 \<subseteq> {..<length vis}" "set ts2 \<subseteq> {..<length vis}" using S len by auto
      obtain q1 vis1 where run1: "push_unvisited stack_push ts1 (?q, vis) = Some (True, q1, vis1)"
        and r1: "skwl.ready q1 vis1" "length vis1 = length vis" "vset vis1 = vset vis \<union> set ts1"
          "set (sk_items q1) = set ts \<union> (set ts1 - vset vis)"
        by (rule wpE3 [OF skwl.push_unvisited_wp [OF q(2) sub(1)]]) simp
      obtain q2 vis2 where run2: "push_unvisited stack_push ts2 (q1, vis1) = Some (True, q2, vis2)"
        and r2: "skwl.ready q2 vis2" "length vis2 = length vis1" "vset vis2 = vset vis1 \<union> set ts2"
          "set (sk_items q2) = set (sk_items q1) \<union> (set ts2 - vset vis1)"
        by (rule wpE3 [OF skwl.push_unvisited_wp [OF r1(1) sub(2) [folded r1(2)]]]) simp
      have tW: "t \<in> set (sk_items q)" and WV: "set (sk_items q) \<subseteq> vset vis"
        using Cons si by (auto simp: search_inv_def)
      have V: "vset vis2 = vset vis \<union> ?S" and W: "set (sk_items q2) = set (sk_items q) - {t} \<union> (?S - vset vis)"
        using r1 r2 S q(1) by auto
      have "search_inv (fsm_edge_rel f) {s} (vset vis2) (set (sk_items q2))"
        unfolding V W by (rule search_step [OF si]) (simp_all add: Cons)
      moreover have "vset vis2 - set (sk_items q2) = insert t (vset vis - set (sk_items q))"
        unfolding V W by (rule search_finished [OF tW WV])
      moreover have "statecount f - card (vset vis2 - set (sk_items q2)) < statecount f - card (vset vis - set (sk_items q))"
        unfolding V W by (rule search_progress [OF _ tW WV]) (use S sub vset_bound(1) [of vis] len in auto)
      ultimately show ?thesis
        using False no r1 r2 len by (simp add: reachable_body_def pop p [OF tn] ts1_def [symmetric] ts2_def [symmetric] run1 run2 reach_inv_def)
    qed
  qed
qed

lemma fsm_reachable_wp:
  assumes inv: "fsm_inv f" and p: "\<And>t. t < statecount f \<Longrightarrow> p f t = Some (P t)" and s: "s < statecount f"
  shows "wp (fsm_reachable al f s any p) (\<lambda>(r, f', al'). f' = clear_visited f \<and> (al = [] \<longrightarrow> r \<noteq> None \<and> al' = []) \<and>
    (case r of None \<Rightarrow> True | Some b \<Rightarrow> (b = any) = (\<exists>t. (fsm_edge_rel f)\<^sup>*\<^sup>* s t \<and> P t = any)))"
proof -
  let ?I = "reach_inv f s (\<lambda>t. P t = any)"
  let ?m = "\<lambda>(q, vis). statecount f - card (vset vis - set (sk_items q))"
  let ?vis = "(replicate (statecount f) False)[s := True]"
  have "vset ?vis = {s}" using s by (simp add: vset_update)
  then have init: "?I (\<lparr>sk_items = [s], sk_size = statecount f\<rparr>, ?vis)"
    using search_init [of "fsm_edge_rel f" "{s}"] by (simp add: reach_inv_def skwl.ready_def)
  have "wp (c_loop (reachable_body f any p) (\<lparr>sk_items = [s], sk_size = statecount f\<rparr>, ?vis))
      (\<lambda>r. (r = any) = (\<exists>t. (fsm_edge_rel f)\<^sup>*\<^sup>* s t \<and> P t = any))"
  proof (rule wp_c_loop [where I = ?I and m = ?m, OF init])
    fix qv
    assume "?I qv"
    then show "wp (reachable_body f any p qv) (\<lambda>x. case x of Inl qv' \<Rightarrow> ?I qv' \<and> ?m qv' < ?m qv
        | Inr r \<Rightarrow> (r = any) = (\<exists>t. (fsm_edge_rel f)\<^sup>*\<^sup>* s t \<and> P t = any))"
      using reachable_body_wp [of f p P s any "fst qv" "snd qv"] inv p s
      by (cases qv) (auto elim!: wp_mono split: sum.splits)
  qed
  then obtain r where "c_loop (reachable_body f any p) (\<lparr>sk_items = [s], sk_size = statecount f\<rparr>, ?vis) = Some r"
    and "(r = any) = (\<exists>t. (fsm_edge_rel f)\<^sup>*\<^sup>* s t \<and> P t = any)"
    by (auto simp: wp_iff_ex)
  then show ?thesis
    using s by (cases al) (auto simp: fsm_reachable_def c_assert_def)
qed

lemma fsm_language_empty_iff:
  "fsm_language f = {} \<longleftrightarrow> (\<forall>s t. n_start (fsm_nfa f) = Some s \<longrightarrow> (fsm_edge_rel f)\<^sup>*\<^sup>* s t \<longrightarrow> \<not> n_end (fsm_nfa f) t)"
proof -
  have "fsm_edge_rel f = (\<lambda>p t. \<exists>l. n_step (fsm_nfa f) p l t)" by (simp add: fun_eq_iff fsm_edge_rel_def fsm_nfa_def)
  then have "(\<exists>w. run (n_step (fsm_nfa f)) s w t) \<longleftrightarrow> (fsm_edge_rel f)\<^sup>*\<^sup>* s t" for s t
    by (simp add: run_reach_iff)
  then show ?thesis unfolding fsm_language_def language_def by blast
qed

lemma step_in_clear: "step_in (map (st_visited_update (\<lambda>_. b)) sts) = step_in sts"
  by (rule step_in_cong) simp_all

lemma clear_visited_sel [simp]:
  "fsm_nfa (clear_visited f) = fsm_nfa f" "statecount (clear_visited f) = statecount f" "fsm_meta (clear_visited f) = fsm_meta f"
  by (auto simp: clear_visited_def fsm_nfa_def fsm_step_def fsm_meta_def step_in_clear)

lemma clear_visited_inv [simp]: "fsm_inv (clear_visited f) = fsm_inv f"
  by (simp add: clear_visited_def fsm_inv_def state_ok_def statealloc_def filter_map comp_def)

lemma fsm_empty_wp:
  assumes inv: "fsm_inv f"
  shows "wp (fsm_empty al f) (\<lambda>(r, f', al'). fsm_inv f' \<and> fsm_nfa f' = fsm_nfa f \<and> fsm_meta f' = fsm_meta f \<and>
    (if \<not> f_hasstart f then r = -1
     else (al = [] \<longrightarrow> r = of_bool (fsm_language f = {})) \<and> (r = 1 \<longrightarrow> fsm_language f = {}) \<and> r \<in> {0, 1}))"
proof (cases "f_hasstart f")
  case True
  then have s: "n_start (fsm_nfa f) = Some (f_start f)" "f_start f < statecount f"
    using inv by (simp_all add: fsm_nfa_def fsm_inv_def)
  obtain r f' al' where run: "fsm_reachable al f (f_start f) True fsm_isend = Some (r, f', al')"
    and post: "f' = clear_visited f" "al = [] \<longrightarrow> r \<noteq> None"
      "case r of None \<Rightarrow> True | Some b \<Rightarrow> b = (\<exists>t. (fsm_edge_rel f)\<^sup>*\<^sup>* (f_start f) t \<and> n_end (fsm_nfa f) t)"
    by (rule wpE3 [OF fsm_reachable_wp [of f fsm_isend "n_end (fsm_nfa f)" "f_start f" al True, OF inv fsm_isend_eq s(2)]])
      (simp_all cong: option.case_cong)
  then show ?thesis
    using True s inv
    by (auto simp: fsm_empty_def fsm_getstart_wp fsm_reachableany_def fsm_language_empty_iff split: option.splits)
qed (use inv in \<open>simp add: fsm_empty_def fsm_getstart_wp fsm_nfa_def\<close>)

section \<open>Epsilon closure\<close>

definition fsm_eps_rel :: "fsm \<Rightarrow> fsm_state_t \<Rightarrow> fsm_state_t \<Rightarrow> bool" where
  "fsm_eps_rel f p t \<longleftrightarrow> fsm_step f p None t"

definition eps_closed :: "fsm \<Rightarrow> fsm_state_t \<Rightarrow> alloc \<Rightarrow> fsm_state_t list \<times> state_set \<times> alloc \<Rightarrow> bool" where
  "eps_closed f s al0 = (\<lambda>(todo, closure, al). ss_inv closure \<and> set todo \<subseteq> {..<statecount f} \<and>
     s \<in> ss_set closure \<union> set todo \<and> ss_set closure \<union> set todo \<subseteq> {t. (fsm_eps_rel f)\<^sup>*\<^sup>* s t} \<and>
     ss_set closure \<subseteq> {..<statecount f} \<and>
     (\<forall>p \<in> ss_set closure. \<forall>t. fsm_eps_rel f p t \<longrightarrow> t \<in> ss_set closure \<union> set todo) \<and> (al0 = [] \<longrightarrow> al = []))"

lemma state_epsilon_closure_wp:
  assumes inv: "fsm_inv f" and s: "s < statecount f"
  shows "wp (state_epsilon_closure al f s SS_Null) (\<lambda>(ok, closure, al'). ss_inv closure \<and>
    (ok \<longrightarrow> ss_set closure = {t. (fsm_eps_rel f)\<^sup>*\<^sup>* s t}) \<and> (al = [] \<longrightarrow> ok \<and> al' = []))"
  unfolding state_epsilon_closure_def
proof (rule wp_c_loop [where I = "eps_closed f s al"
      and m = "\<lambda>(todo, closure, al). (statecount f - card (ss_set closure)) * (statecount f + 1) + length todo"])
  show "eps_closed f s al ([s], SS_Null, al)" using s by (simp add: eps_closed_def)
  fix x
  assume I: "eps_closed f s al x"
  obtain todo C al1 where x: "x = (todo, C, al1)" by (cases x)
  let ?m = "\<lambda>(todo, closure, al :: alloc). (statecount f - card (ss_set closure)) * (statecount f + 1) + length todo"
  let ?Q = "\<lambda>(ok, closure, al'). ss_inv closure \<and> (ok \<longrightarrow> ss_set closure = {t. (fsm_eps_rel f)\<^sup>*\<^sup>* s t}) \<and> (al = [] \<longrightarrow> ok \<and> al' = [])"
  have C: "ss_inv C" "ss_set C \<subseteq> {..<statecount f}" using I by (auto simp: x eps_closed_def)
  show "wp (epsilon_closure_body f x) (\<lambda>r. case r of Inl y \<Rightarrow> eps_closed f s al y \<and> ?m y < ?m x | Inr z \<Rightarrow> ?Q z)"
  proof (cases todo)
    case Nil
    have "search_inv (fsm_eps_rel f) {s} (ss_set C) {}" using I Nil by (auto simp: x eps_closed_def search_inv_def)
    then have "ss_set C = {t. (fsm_eps_rel f)\<^sup>*\<^sup>* s t}" by (rule search_done_single)
    then show ?thesis using I Nil by (auto simp: x epsilon_closure_body_def eps_closed_def)
  next
    case (Cons t todo')
    then have t: "t < statecount f" "(fsm_eps_rel f)\<^sup>*\<^sup>* s t" using I by (auto simp: x eps_closed_def)
    let ?eps = "state_set_drain (state_set_reset (st_epsilons (f_states f ! t)))"
    have eps: "set ?eps = {u. fsm_eps_rel f t u}" by (simp add: state_set_successors [OF t(1)] fsm_eps_rel_def)
    show ?thesis
    proof (cases "t \<in> ss_set C")
      case True
      then show ?thesis
        using I Cons t(1) by (auto simp: x epsilon_closure_body_def eps_closed_def c_assert_def state_set_contains_iff)
    next
      case False
      have "t < state_limit" using fsm_inv_limits(3) [OF inv t(1)] .
      then obtain ok C' al2 where run: "state_set_add al1 C t = Some (ok, C', al2)" and post: "added al1 C {t} (ok, C', al2)"
        by (rule wpE3 [OF state_set_add_wp [OF C(1)]])
      have C': "ss_inv C'" "ok \<longrightarrow> ss_set C' = insert t (ss_set C)" "al1 = [] \<longrightarrow> ok \<and> al2 = []"
        using post by (auto simp: added_def)
      have len: "length ?eps \<le> statecount f"
      proof -
        have "distinct ?eps"
          using fsm_inv_state [OF inv t(1)] by (simp add: state_set_drain_list state_ok_def asc_distinct ss_list_asc)
        moreover have "set ?eps \<subseteq> {..<statecount f}"
          unfolding eps using fsm_step_bounds [OF inv] by (auto simp: fsm_eps_rel_def)
        ultimately show ?thesis using card_mono [of "{..<statecount f}" "set ?eps"] by (simp add: distinct_card)
      qed
      have "eps_closed f s al (?eps @ todo', C', al2) \<and> ?m (?eps @ todo', C', al2) < ?m x" if ok: ok
      proof
        show "eps_closed f s al (?eps @ todo', C', al2)"
          using I ok C' t Cons eps fsm_step_bounds [OF inv]
          by (auto simp: x eps_closed_def fsm_eps_rel_def intro: rtranclp.rtrancl_into_rtrancl)
        have "card (insert t (ss_set C)) = Suc (card (ss_set C))" using False by simp
        moreover have "card (insert t (ss_set C)) \<le> card {..<statecount f}" by (rule card_mono) (use C(2) t in auto)
        ultimately have "statecount f - card (ss_set C) = Suc (statecount f - card (ss_set C'))" using C'(2) ok by simp
        then show "?m (?eps @ todo', C', al2) < ?m x" using len Cons by (simp add: x)
      qed
      then show ?thesis
        using I C' Cons t(1) False C(1) run
        by (auto simp: x epsilon_closure_body_def eps_closed_def c_assert_def state_set_contains_iff)
    qed
  qed
qed

text \<open>
  A state is non-deterministic when two different transitions from its epsilon closure have
  the same label.
\<close>

definition closure_conflict :: "fsm \<Rightarrow> fsm_state_t set \<Rightarrow> bool" where
  "closure_conflict f S \<longleftrightarrow> (\<exists>c. \<exists>p \<in> S. \<exists>p' \<in> S. \<exists>t t'. fsm_step f p (Some c) t \<and> fsm_step f p' (Some c) t' \<and> (p, t) \<noteq> (p', t'))"

lemma closure_conflict_insert:
  "closure_conflict f (insert s S) \<longleftrightarrow> closure_conflict f S \<or>
     (\<exists>c t t'. fsm_step f s (Some c) t \<and> fsm_step f s (Some c) t' \<and> t \<noteq> t') \<or>
     (s \<notin> S \<and> (\<exists>c t t'. \<exists>p \<in> S. fsm_step f s (Some c) t \<and> fsm_step f p (Some c) t'))"
  unfolding closure_conflict_def by blast

lemma closure_conflict_mono: "closure_conflict f S \<Longrightarrow> S \<subseteq> T \<Longrightarrow> closure_conflict f T"
  unfolding closure_conflict_def by (meson subsetD)

lemma state_hasnondeterminism_wp:
  assumes "fsm_inv f" and "s < statecount f" and "bm_low bm" and "s \<notin> S"
    and "bm_chars bm = unat ` {c. \<exists>p \<in> S. \<exists>t. fsm_step f p (Some c) t}" and "\<not> closure_conflict f S"
  shows "wp (state_hasnondeterminism f s bm) (\<lambda>(r, bm'). bm_low bm' \<and> r = closure_conflict f (insert s S) \<and>
    (\<not> r \<longrightarrow> bm_chars bm' = unat ` {c. \<exists>p \<in> insert s S. \<exists>t. fsm_step f p (Some c) t}))"
proof -
  let ?es = "st_edges (f_states f ! s)"
  have inv: "es_inv ?es" using fsm_inv_state [OF assms(1,2)] by (simp add: state_ok_def)
  have step: "(c, t) \<in> es_edges ?es \<longleftrightarrow> fsm_step f s (Some c) t" for c t
    using assms(2) by (simp add: fsm_step_def step_in_def)
  have labels: "fst ` es_edges ?es = {c. \<exists>t. fsm_step f s (Some c) t}" using step by force
  have det: "es_deterministic ?es \<longleftrightarrow> \<not> (\<exists>c t t'. fsm_step f s (Some c) t \<and> fsm_step f s (Some c) t' \<and> t \<noteq> t')"
    unfolding es_deterministic_def step by blast
  have disj: "unat ` fst ` es_edges ?es \<inter> bm_chars bm = {} \<longleftrightarrow>
      \<not> (\<exists>c t t'. \<exists>p \<in> S. fsm_step f s (Some c) t \<and> fsm_step f p (Some c) t')"
  proof -
    have "unat ` fst ` es_edges ?es \<inter> bm_chars bm =
        unat ` ({c. \<exists>t. fsm_step f s (Some c) t} \<inter> {c. \<exists>p \<in> S. \<exists>t. fsm_step f p (Some c) t})"
      unfolding labels assms(5) by (rule image_Int [symmetric]) (auto simp: inj_def)
    also have "\<dots> = {} \<longleftrightarrow> (\<forall>c. (\<exists>t. fsm_step f s (Some c) t) \<longrightarrow> \<not> (\<exists>p \<in> S. \<exists>t. fsm_step f p (Some c) t))"
      unfolding image_is_empty disjoint_iff by simp
    finally show ?thesis by blast
  qed
  have chars: "unat ` fst ` es_edges ?es \<union> bm_chars bm = unat ` {c. \<exists>p \<in> insert s S. \<exists>t. fsm_step f p (Some c) t}"
    unfolding labels assms(5) image_Un [symmetric] by (rule arg_cong [where f = "image unat"]) blast
  show ?thesis
    using edge_set_hasnondeterminism_wp [OF inv assms(3)] assms(2,4,6)
    unfolding det disj chars
    by (auto simp: state_hasnondeterminism_def c_assert_def closure_conflict_insert elim!: wp_mono)
qed

lemma closure_loop_wp:
  assumes "fsm_inv f" and "distinct xs" and "set xs \<subseteq> {..<statecount f}"
  shows "wp (c_for (\<lambda>s bm. do { (r, bm) \<leftarrow> state_hasnondeterminism f s bm; Some (\<not> r, bm) }) xs bm_zero)
    (\<lambda>(none, bm). none = (\<not> closure_conflict f (set xs)))"
proof -
  let ?I = "\<lambda>ys bm. bm_low bm \<and> \<not> closure_conflict f (set ys) \<and>
    bm_chars bm = unat ` {c. \<exists>p \<in> set ys. \<exists>t. fsm_step f p (Some c) t}"
  have "wp (c_for (\<lambda>s bm. do { (r, bm) \<leftarrow> state_hasnondeterminism f s bm; Some (\<not> r, bm) }) xs bm_zero)
      (\<lambda>(none, bm). if none then ?I xs bm else closure_conflict f (set xs))"
  proof (rule wp_c_for)
    fix ys x zs bm
    assume xs: "xs = ys @ x # zs" and I: "?I ys bm"
    obtain r bm' where run: "state_hasnondeterminism f x bm = Some (r, bm')" and bm': "bm_low bm'"
      and r: "r = closure_conflict f (insert x (set ys))"
      and chars: "\<not> r \<longrightarrow> bm_chars bm' = unat ` {c. \<exists>p \<in> insert x (set ys). \<exists>t. fsm_step f p (Some c) t}"
      by (rule wpE2 [OF state_hasnondeterminism_wp [of f x bm "set ys"]]) (use xs I assms in auto)
    have "closure_conflict f (set xs)" if "closure_conflict f (insert x (set ys))"
      by (rule closure_conflict_mono [OF that]) (use xs in auto)
    then show "wp (do { (r, bm) \<leftarrow> state_hasnondeterminism f x bm; Some (\<not> r, bm) })
        (\<lambda>(none, bm). if none then ?I (ys @ [x]) bm else closure_conflict f (set xs))"
      using r bm' chars by (simp add: run)
  qed (simp add: closure_conflict_def)
  then show ?thesis by (rule wp_mono) (auto split: if_splits)
qed

lemma fsm_hasnondeterminism_wp:
  assumes inv: "fsm_inv f" and s: "s < statecount f"
  shows "wp (fsm_hasnondeterminism [] f s) (\<lambda>(r, al). al = [] \<and>
    r = of_bool (closure_conflict f {p. (fsm_eps_rel f)\<^sup>*\<^sup>* s p}))"
proof (cases "\<exists>t. fsm_step f s None t")
  case True
  then have eps: "fsm_hasepsilons f s = Some True" using fsm_hasepsilons_eq [OF assms] by simp
  obtain ec where run: "state_epsilon_closure [] f s SS_Null = Some (True, ec, [])"
    and ec: "ss_inv ec" "ss_set ec = {t. (fsm_eps_rel f)\<^sup>*\<^sup>* s t}"
    using state_epsilon_closure_wp [OF assms, of "[]"] by (auto elim!: wpE3)
  have "t < statecount f" if "(fsm_eps_rel f)\<^sup>*\<^sup>* s t" for t
    using that by (induction rule: rtranclp_induct) (use s fsm_step_bounds [OF inv] in \<open>auto simp: fsm_eps_rel_def\<close>)
  then have sub: "ss_set ec \<subseteq> {..<statecount f}" using ec(2) by auto
  obtain none bm where "c_for (\<lambda>s bm. do { (r, bm) \<leftarrow> state_hasnondeterminism f s bm; Some (\<not> r, bm) }) (ss_list ec) bm_zero =
      Some (none, bm)" and "none = (\<not> closure_conflict f (ss_set ec))"
    by (rule wpE2 [OF closure_loop_wp [OF inv asc_distinct [OF ss_list_asc [OF ec(1)]] sub]]) simp
  then show ?thesis by (simp add: fsm_hasnondeterminism_def eps run state_set_drain_list ec(2))
next
  case False
  then have eps: "fsm_hasepsilons f s = Some False" using fsm_hasepsilons_eq [OF assms] by simp
  have "{p. (fsm_eps_rel f)\<^sup>*\<^sup>* s p} = {s}"
    using False by (auto simp: fsm_eps_rel_def elim: converse_rtranclpE)
  moreover have "\<not> closure_conflict f {}" by (simp add: closure_conflict_def)
  ultimately show ?thesis
    using state_hasnondeterminism_wp [OF assms, of bm_zero "{}"]
    by (auto simp: fsm_hasnondeterminism_def eps elim!: wpE2)
qed

section \<open>Collation\<close>

lemma ends_count: "length (filter (n_end (fsm_nfa f)) [0..<statecount f]) = length (filter st_end (f_states f))"
proof -
  have "filter st_end (f_states f) = filter st_end (map (\<lambda>i. f_states f ! i) [0..<statecount f])" by (simp add: map_nth)
  also have "\<dots> = map (\<lambda>i. f_states f ! i) (filter (n_end (fsm_nfa f)) [0..<statecount f])"
    unfolding filter_map by (intro arg_cong [where f = "map _"] filter_cong) (auto simp: fsm_nfa_def)
  finally show ?thesis by simp
qed

lemma fsm_count_ends: "fsm_inv f \<Longrightarrow> fsm_count f fsm_isend = Some (f_endcount f)"
  using fsm_count_eq [of f fsm_isend "n_end (fsm_nfa f)"] fsm_isend_eq fsm_inv_limits [of f] ends_count [of f]
  by (simp add: fsm_inv_def state_limit_def)

lemma find_first_wp:
  assumes "\<And>s. s < statecount f \<Longrightarrow> p f s = Some (P s)" and "e < statecount f" and "P e"
  shows "wp (c_loop (\<lambda>i. do { b \<leftarrow> p f i; Some (if b then Inr i else Inl (i + 1)) }) 0) (\<lambda>i. i < statecount f \<and> P i)"
proof (rule wp_c_loop [where I = "\<lambda>i. i \<le> e" and m = "\<lambda>i. e - i"])
  fix i
  assume "i \<le> e"
  then show "wp (do { b \<leftarrow> p f i; Some (if b then Inr i else Inl (i + 1)) })
      (\<lambda>x. case x of Inl s' \<Rightarrow> s' \<le> e \<and> e - s' < e - i | Inr i \<Rightarrow> i < statecount f \<and> P i)"
    using assms by (cases "i = e") auto
qed simp

text \<open>The end states joined by epsilon edges to one state, unless there is only one.\<close>

definition join_ends :: "'s \<Rightarrow> ('s, 'c) nfa \<Rightarrow> ('s, 'c) nfa" where
  "join_ends e A = A\<lparr>n_step := (\<lambda>s l t. n_step A s l t \<or> n_end A s \<and> l = None \<and> t = e)\<rparr>"

lemma collate_loop_wp:
  assumes inv: "fsm_inv f" and e: "e < statecount f" and no: "\<not> n_end (fsm_nfa f) e"
  shows "wp (c_for (\<lambda>i (f, al). if i = e then Some (True, f, al)
        else do { b \<leftarrow> fsm_isend f i; if \<not> b then Some (True, f, al) else fsm_addedge_epsilon al f i e })
      [0..<statecount f] (f, [])) (\<lambda>(ok, f', al'). ok \<and> al' = [] \<and> fsm_inv f' \<and> fsm_meta f' = fsm_meta f \<and>
    statecount f' = statecount f \<and> fsm_nfa f' = join_ends e (fsm_nfa f))"
proof -
  define J where "J S = (fsm_nfa f)\<lparr>n_step := (\<lambda>s l t. fsm_step f s l t \<or> s \<in> S \<and> n_end (fsm_nfa f) s \<and> l = None \<and> t = e)\<rparr>" for S
  have J_end: "n_end (J S) = n_end (fsm_nfa f)" and J_none: "J {} = fsm_nfa f" for S by (simp_all add: J_def fsm_nfa_def)
  have J_same: "J (insert x S) = J S" if "\<not> n_end (fsm_nfa f) x" for x S
    by (rule nfa_eqI) (use that in \<open>auto simp: J_def\<close>)
  have J_add: "add_step x None e (J S) = J (insert x S)" if "n_end (fsm_nfa f) x" for x S
    by (rule nfa_eqI) (use that in \<open>auto simp: J_def add_step_def\<close>)
  have J_all: "J {0..<statecount f} = join_ends e (fsm_nfa f)"
    by (rule nfa_eqI) (auto simp: J_def join_ends_def fsm_nfa_def)
  let ?I = "\<lambda>ys (f', al' :: alloc). al' = [] \<and> fsm_inv f' \<and> fsm_meta f' = fsm_meta f \<and> statecount f' = statecount f \<and>
    fsm_nfa f' = J (set ys)"
  have "wp (c_for (\<lambda>i (f, al). if i = e then Some (True, f, al)
        else do { b \<leftarrow> fsm_isend f i; if \<not> b then Some (True, f, al) else fsm_addedge_epsilon al f i e })
      [0..<statecount f] (f, [])) (\<lambda>(ok, fa). if ok then ?I [0..<statecount f] fa else False)"
  proof (rule wp_c_for)
    show "?I [] (f, [])" using inv by (simp add: J_none)
    fix ys x zs fa
    assume xs: "[0..<statecount f] = ys @ x # zs" and I: "?I ys fa"
    then obtain f1 where fa: "fa = (f1, [])" and I1: "fsm_inv f1" "fsm_meta f1 = fsm_meta f" "statecount f1 = statecount f"
      and nfa1: "fsm_nfa f1 = J (set ys)"
      by (cases fa) auto
    have "x \<in> set [0..<statecount f]" unfolding xs by simp
    then have x: "x < statecount f1" using I1 by simp
    have isend: "fsm_isend f1 x = Some (n_end (fsm_nfa f) x)" using fsm_isend_eq [OF x] by (simp add: nfa1 J_end)
    show "wp (case fa of (f, al) \<Rightarrow> if x = e then Some (True, f, al)
        else do { b \<leftarrow> fsm_isend f x; if \<not> b then Some (True, f, al) else fsm_addedge_epsilon al f x e })
        (\<lambda>(ok, fa). if ok then ?I (ys @ [x]) fa else False)"
    proof (cases "x = e \<or> \<not> n_end (fsm_nfa f) x")
      case True
      then have "\<not> n_end (fsm_nfa f) x" using no by auto
      then show ?thesis using I1 no by (simp add: fa isend nfa1 J_same)
    next
      case False
      obtain f2 where run: "fsm_addedge_epsilon [] f1 x e = Some (True, f2, [])" and f2: "fsm_inv f2"
        "fsm_meta f2 = fsm_meta f1" "fsm_nfa f2 = add_step x None e (fsm_nfa f1)" "statecount f2 = statecount f1"
        using fsm_addedge_epsilon_wp [OF I1(1) x, of e "[]"] e I1(3) by (auto elim!: wpE3)
      then show ?thesis using False I1 J_add by (simp add: fa isend run nfa1)
    qed
  qed
  then show ?thesis by (auto simp: J_all elim!: wp_mono split: if_splits)
qed

lemma fsm_collate_wp:
  assumes inv: "fsm_inv f" and n: "statecount f < edge_state_limit"
  shows "wp (fsm_collate [] f fsm_isend) (\<lambda>(r, f', al'). al' = [] \<and> fsm_inv f' \<and> fsm_meta f' = fsm_meta f \<and>
    (case r of
       None \<Rightarrow> f_endcount f = 0 \<and> f' = f
     | Some e \<Rightarrow>
         if f_endcount f = 1 then f' = f \<and> (\<forall>s. n_end (fsm_nfa f) s \<longleftrightarrow> s = e)
         else f_endcount f > 1 \<and> e = statecount f \<and> statecount f' = statecount f + 1 \<and> fsm_nfa f' = join_ends e (fsm_nfa f)))"
proof -
  let ?P = "n_end (fsm_nfa f)"
  have cnt: "fsm_count f fsm_isend = Some (f_endcount f)" by (rule fsm_count_ends [OF inv])
  have ends: "f_endcount f = length (filter ?P [0..<statecount f])" using inv ends_count [of f] by (simp add: fsm_inv_def)
  consider "f_endcount f = 0" | "f_endcount f = 1" | "f_endcount f > 1" by linarith
  then show ?thesis
  proof cases
    case 1
    then show ?thesis using inv by (simp add: fsm_collate_def cnt)
  next
    case 2
    then obtain e where e: "filter ?P [0..<statecount f] = [e]" unfolding ends by (metis One_nat_def length_0_conv length_Suc_conv)
    have "?P s \<longleftrightarrow> s \<in> set (filter ?P [0..<statecount f])" for s by (auto simp: fsm_nfa_def)
    then have all: "?P s \<longleftrightarrow> s = e" for s unfolding e by simp
    have "wp (c_loop (\<lambda>i. do { b \<leftarrow> fsm_isend f i; Some (if b then Inr i else Inl (i + 1)) }) 0) (\<lambda>i. i < statecount f \<and> ?P i)"
      by (rule find_first_wp [where e = e]) (use all fsm_isend_eq in \<open>auto simp: fsm_nfa_def\<close>)
    then show ?thesis using 2 inv all by (auto simp: fsm_collate_def cnt wp_iff_ex)
  next
    case 3
    obtain f1 where run: "fsm_addstate [] f = Some (Some (statecount f), f1, [])" and f1: "fsm_inv f1"
      "fsm_nfa f1 = fsm_nfa f" "fsm_meta f1 = fsm_meta f" "statecount f1 = statecount f + 1"
      using fsm_addstate_wp [OF inv n, of "[]"] by (auto elim!: wpE3 split: option.splits)
    have "\<not> n_end (fsm_nfa f1) (statecount f)" unfolding f1(2) by (simp add: fsm_nfa_def)
    then show ?thesis
      using collate_loop_wp [OF f1(1), of "statecount f"] 3 f1 by (auto simp: fsm_collate_def cnt run elim!: wpE3)
  qed
qed

end
