(* ===== verification/Fsm_Merge.thy ===== *)
theory Fsm_Merge
  imports Fsm_Walk
begin

text \<open>
  Operations on the ids, outputs and capture actions of an automaton (the parts of
  \<open>src/libfsm/endids.c\<close>, \<open>eager_output.c\<close> and \<open>capture.c\<close> that involve its states), and the
  merging of two automata into one, \<open>merge.c\<close>. The merged automaton has the states of both
  side by side, with their edges, ids, outputs and capture actions.
\<close>

section \<open>Ids and outputs of an automaton\<close>

definition set_endid :: "alloc \<Rightarrow> fsm \<Rightarrow> fsm_state_t \<Rightarrow> fsm_end_id_t \<Rightarrow> (bool \<times> fsm \<times> alloc) option" where
  "set_endid al f state k =
     do { (ok, ei, al) \<leftarrow> fsm_endid_set al (f_endid_info f) state k; Some (ok, f\<lparr>f_endid_info := ei\<rparr>, al) }"

definition fsm_setendid :: "alloc \<Rightarrow> fsm \<Rightarrow> fsm_end_id_t \<Rightarrow> (bool \<times> fsm \<times> alloc) option" where
  "fsm_setendid al f k =
     c_for (\<lambda>i (f, al). do { e \<leftarrow> fsm_isend f i; if e then set_endid al f i k else Some (True, f, al) })
       [0..<statecount f] (f, al)"

text \<open>The callback of \<open>fsm_endid_carry\<close> keeps in \<open>ok\<close> that the last call did not fail.\<close>

definition fsm_endid_carry ::
  "alloc \<Rightarrow> fsm \<Rightarrow> state_set \<Rightarrow> fsm \<Rightarrow> fsm_state_t \<Rightarrow> (bool \<times> fsm \<times> alloc) option" where
  "fsm_endid_carry al src src_set dst dst_state =
     c_for (\<lambda>s (dst, al).
         do { e \<leftarrow> fsm_isend src s;
              if \<not> e then Some (True, dst, al)
              else fsm_endid_iter_state (f_endid_info src) s
                (\<lambda>_ k (ok, dst, al). do { (ok, dst, al) \<leftarrow> set_endid al dst dst_state k; Some (ok, ok, dst, al) })
                (True, dst, al) })
       (state_set_drain (state_set_reset src_set)) (dst, al)"

text \<open>Writing the flag of an allocated state past the last one has no effect that is read.\<close>

definition fsm_eager_output_set ::
  "alloc \<Rightarrow> fsm \<Rightarrow> fsm_state_t \<Rightarrow> fsm_output_id_t \<Rightarrow> (bool \<times> fsm \<times> alloc) option" where
  "fsm_eager_output_set al f state k =
     do { (ok, wrote, info, al) \<leftarrow> eager_set al (f_eager_output_info f) state k;
          let f = f\<lparr>f_eager_output_info := info\<rparr>;
          if \<not> wrote then Some (ok, f, al)
          else do {
            c_assert (state < statealloc f);
            Some (ok, if state < statecount f then upd_state f state (\<lambda>st. st\<lparr>st_has_eager_outputs := True\<rparr>) else f, al) } }"

definition fsm_eager_output_set_on_ends :: "alloc \<Rightarrow> fsm \<Rightarrow> fsm_output_id_t \<Rightarrow> (bool \<times> fsm \<times> alloc) option" where
  "fsm_eager_output_set_on_ends al f k =
     c_for (\<lambda>i (f, al). do { e \<leftarrow> fsm_isend f i; if e then fsm_eager_output_set al f i k else Some (True, f, al) })
       [0..<fsm_countstates f] (f, al)"

definition fsm_eager_output_state_has_eager_output :: fsm_pred where
  "fsm_eager_output_state_has_eager_output f state =
     do { c_assert (state < statecount f); Some (st_has_eager_outputs (f_states f ! state)) }"

definition fsm_capture_has_capture_actions :: fsm_pred where
  "fsm_capture_has_capture_actions f state =
     do { c_assert (state < statecount f); Some (st_has_capture_actions (f_states f ! state)) }"

definition fsm_capture_add_action ::
  "alloc \<Rightarrow> fsm \<Rightarrow> fsm_state_t \<Rightarrow> fsm_capture_action \<Rightarrow> (bool \<times> fsm \<times> alloc) option" where
  "fsm_capture_add_action al f state action =
     do { (ok, added, ci, al) \<leftarrow> add_capture_action al (statecount f)
            (\<lambda>s. st_has_capture_actions (f_states f ! s)) (f_capture_info f) state action;
          let f = f\<lparr>f_capture_info := ci\<rparr>;
          Some (ok, if added then upd_state f state (\<lambda>st. st\<lparr>st_has_capture_actions := True\<rparr>) else f, al) }"

section \<open>Merging\<close>

definition rebase_fsm_state :: "fsm_state_t \<Rightarrow> fsm_state \<Rightarrow> fsm_state" where
  "rebase_fsm_state base st =
     st\<lparr>st_epsilons := state_set_rebase (st_epsilons st) base, st_edges := edge_set_rebase (st_edges st) base\<rparr>"

definition copy_capture_actions :: "alloc \<Rightarrow> fsm \<Rightarrow> fsm_capture_info \<Rightarrow> (bool \<times> fsm \<times> alloc) option" where
  "copy_capture_actions al dst src =
     fsm_capture_action_iter src (\<lambda>state action (dst, al). fsm_capture_add_action al dst state action) (dst, al)"

definition merge_end_ids :: "alloc \<Rightarrow> fsm \<Rightarrow> fsm \<Rightarrow> fsm_state_t \<Rightarrow> (bool \<times> fsm \<times> alloc) option" where
  "merge_end_ids al dst src base_src =
     fsm_endid_iter_bulk (fsm_countstates src) (f_endid_info src)
       (\<lambda>state ids (dst, al).
          do { (ok, ei, al) \<leftarrow> fsm_endid_set_bulk al (f_endid_info dst) (state_add state base_src) ids FSM_ENDID_BULK_REPLACE;
               Some (ok, dst\<lparr>f_endid_info := ei\<rparr>, al) })
       (dst, al)"

definition copy_eager_output_ids :: "alloc \<Rightarrow> fsm \<Rightarrow> fsm \<Rightarrow> fsm_state_t \<Rightarrow> (bool \<times> fsm \<times> alloc) option" where
  "copy_eager_output_ids al dst src base_src =
     fsm_eager_output_iter_all (f_eager_output_info src) (\<lambda>s. st_has_eager_outputs (f_states src ! s))
       (\<lambda>state k (ok, dst, al).
          do { (ok, dst, al) \<leftarrow> fsm_eager_output_set al dst (state_add state base_src) k; Some (ok, ok, dst, al) })
       (True, dst, al)"

text \<open>
  \<open>src\<close> is emptied and released; the result is \<open>dst\<close> with the number of its first state that
  came from \<open>src\<close> and the number of its captures before.
\<close>

definition merge :: "alloc \<Rightarrow> fsm \<Rightarrow> fsm \<Rightarrow> ((fsm \<times> fsm_state_t \<times> nat) option \<times> alloc) option" where
  "merge al dst src =
     (let (ok, spare, al) =
        (if statealloc dst < statecount src + statecount dst then
           let (ok, al) = f_realloc al in (ok, [], al)
         else (True, drop (statecount src) (f_spare dst), al)) in
      if \<not> ok then Some (None, al)
      else do {
        let base_src = statecount dst mod 2 ^ 32;
        let capture_base_src = fsm_countcaptures (f_capture_info dst);
        let src = src\<lparr>f_states := map (rebase_fsm_state base_src) (f_states src),
            f_capture_info := fsm_capture_rebase_capture_action_states
              (fsm_capture_rebase_capture_id (f_capture_info src) capture_base_src) base_src\<rparr>;
        let dst = dst\<lparr>f_states := f_states dst @ f_states src, f_spare := spare,
            f_endcount := (f_endcount dst + f_endcount src) mod 2 ^ 31\<rparr>;
        (ok, dst, al) \<leftarrow> copy_capture_actions al dst (f_capture_info src);
        if \<not> ok then Some (None, al)
        else do {
          (ok, dst, al) \<leftarrow> merge_end_ids al dst src base_src;
          if \<not> ok then Some (None, al)
          else do {
            (ok, dst, al) \<leftarrow> copy_eager_output_ids al dst src base_src;
            if \<not> ok then Some (None, al)
            else Some (Some (fsm_clearstart dst, base_src, capture_base_src), al) } } })"

definition fsm_mergeab :: "alloc \<Rightarrow> fsm \<Rightarrow> fsm \<Rightarrow> ((fsm \<times> fsm_state_t) option \<times> alloc) option" where
  "fsm_mergeab al a b = do { (r, al) \<leftarrow> merge al a b; Some (map_option (\<lambda>(q, base, _). (q, base)) r, al) }"

record fsm_combine_info =
  base_a :: fsm_state_t
  base_b :: fsm_state_t
  capture_base_a :: nat
  capture_base_b :: nat

definition fsm_merge :: "alloc \<Rightarrow> fsm \<Rightarrow> fsm \<Rightarrow> ((fsm \<times> fsm_combine_info) option \<times> alloc) option" where
  "fsm_merge al a b =
     (if statealloc a > statealloc b \<or> statealloc a = statealloc b \<and> statecount a \<ge> statecount b then
        do { (r, al) \<leftarrow> merge al a b;
             Some (map_option (\<lambda>(q, base, cap).
               (q, \<lparr>base_a = 0, base_b = base, capture_base_a = 0, capture_base_b = cap\<rparr>)) r, al) }
      else
        do { (r, al) \<leftarrow> merge al b a;
             Some (map_option (\<lambda>(q, base, cap).
               (q, \<lparr>base_a = base, base_b = 0, capture_base_a = cap, capture_base_b = 0\<rparr>)) r, al) })"

section \<open>The graph and the rest of an automaton\<close>

text \<open>
  What the operations on ids, outputs and captures leave alone: everything but those tables and
  the flags of the states that go with them.
\<close>

definition state_core :: "fsm_state \<Rightarrow> edge_set \<times> state_set \<times> bool" where
  "state_core st = (st_edges st, st_epsilons st, st_end st)"

definition same_graph :: "fsm \<Rightarrow> fsm \<Rightarrow> bool" where
  "same_graph f f' \<longleftrightarrow> map state_core (f_states f') = map state_core (f_states f) \<and> statealloc f' = statealloc f \<and>
     f_endcount f' = f_endcount f \<and> f_hasstart f' = f_hasstart f \<and> f_start f' = f_start f \<and>
     f_linkage_info f' = f_linkage_info f"

lemma same_graph_refl [simp]: "same_graph f f"
  by (simp add: same_graph_def)

lemma same_graph_trans: "same_graph f f' \<Longrightarrow> same_graph f' f'' \<Longrightarrow> same_graph f f''"
  by (simp add: same_graph_def)

lemma same_graph_sel:
  assumes "same_graph f f'"
  shows "statecount f' = statecount f" "statealloc f' = statealloc f" "fsm_nfa f' = fsm_nfa f" "fsm_inv f' = fsm_inv f"
proof -
  have m: "map state_core (f_states f') = map state_core (f_states f)" using assms by (simp add: same_graph_def)
  show n: "statecount f' = statecount f" and "statealloc f' = statealloc f"
    using arg_cong [OF m, of length] assms by (simp_all add: same_graph_def)
  have core: "st_edges (f_states f' ! i) = st_edges (f_states f ! i) \<and> st_epsilons (f_states f' ! i) = st_epsilons (f_states f ! i) \<and>
      st_end (f_states f' ! i) = st_end (f_states f ! i)" if "i < statecount f" for i
    using arg_cong [OF m, of "\<lambda>xs. xs ! i"] that n by (simp add: state_core_def)
  have "fsm_step f' = fsm_step f" unfolding fsm_step_def by (rule step_in_cong) (use n core in auto)
  then show "fsm_nfa f' = fsm_nfa f"
    using assms core n by (intro nfa_eqI) (auto simp: fsm_nfa_def same_graph_def)
  have "length (filter st_end (f_states f')) = length (filter st_end (f_states f))"
  proof -
    have "filter (\<lambda>(_, _, e). e) (map state_core (f_states f)) = map state_core (filter st_end (f_states f))" for f
      unfolding filter_map by (simp add: comp_def state_core_def)
    from arg_cong [OF this [of f], of length] arg_cong [OF this [of f'], of length] m show ?thesis by simp
  qed
  moreover have "(\<forall>st \<in> set (f_states f'). state_ok k st) \<longleftrightarrow> (\<forall>st \<in> set (f_states f). state_ok k st)" for k
    using core n by (simp add: all_set_conv_all_nth state_ok_def)
  ultimately show "fsm_inv f' = fsm_inv f" using assms n by (auto simp: fsm_inv_def same_graph_def)
qed

lemma same_graph_tables:
  "same_graph f (f\<lparr>f_endid_info := ei\<rparr>)" "same_graph f (f\<lparr>f_eager_output_info := eo\<rparr>)" "same_graph f (f\<lparr>f_capture_info := ci\<rparr>)"
  by (simp_all add: same_graph_def statealloc_def)

lemma same_graph_upd:
  assumes "state_core (g (f_states f ! s)) = state_core (f_states f ! s)"
  shows "same_graph f (upd_state f s g)"
proof -
  have "map state_core ((f_states f)[s := g (f_states f ! s)]) = map state_core (f_states f)"
    using assms by (cases "s < statecount f") (simp_all add: map_update list_update_same_conv list_update_beyond)
  then show ?thesis by (simp add: same_graph_def upd_state_def statealloc_def)
qed

section \<open>Copying end ids\<close>

lemma endid_ids_live: "endid_tab ei \<Longrightarrow> endid_ids ei s \<noteq> [] \<longleftrightarrow> (\<exists>b \<in> ht_live eb_key (en_buckets ei). eb_state b = s)"
proof
  assume tab: "endid_tab ei" and "endid_ids ei s \<noteq> []"
  then show "\<exists>b \<in> ht_live eb_key (en_buckets ei). eb_state b = s" using endid_ids_None [OF tab, of s] by blast
next
  assume tab: "endid_tab ei" and "\<exists>b \<in> ht_live eb_key (en_buckets ei). eb_state b = s"
  then obtain b where b: "b \<in> ht_live eb_key (en_buckets ei)" "eb_state b = s" by blast
  then have "id_list (eb_ids b) \<noteq> []" using tab by (auto simp: endid_tab_def ids_ok_def)
  then show "endid_ids ei s \<noteq> []" using endid_ids_Some [OF tab b(1)] b(2) by simp
qed

lemma remdups_adj_sort_asc: "asc xs \<Longrightarrow> remdups_adj (sort xs) = (xs :: nat list)"
proof -
  assume "asc xs"
  then have "sorted xs" "distinct xs" by (auto simp: asc_distinct strict_sorted_imp_sorted)
  then show ?thesis by (simp add: sorted_sort_id remdups_adj_distinct)
qed

text \<open>The table of \<open>dst\<close> has room for one more entry per bucket of \<open>src\<close>.\<close>

definition endid_room :: "endid_info \<Rightarrow> nat \<Rightarrow> bool" where
  "endid_room ei k \<longleftrightarrow> length (en_buckets ei) < 2 ^ 31 \<and> 4 * (en_used ei + k) < 2 ^ 31"

definition merged_ids :: "nat \<Rightarrow> (nat \<Rightarrow> 'a list) \<Rightarrow> (nat \<Rightarrow> 'a list) \<Rightarrow> nat \<Rightarrow> 'a list" where
  "merged_ids base g h s = (if s < base then g s else h (s - base))"

lemma merge_end_ids_wp:
  assumes dst: "endid_inv (f_endid_info dst)" and none: "\<forall>s \<ge> base. endid_ids (f_endid_info dst) s = []"
    and src: "endid_inv (f_endid_info src)" and live: "\<forall>b \<in> ht_live eb_key (en_buckets (f_endid_info src)). eb_state b < statecount src"
    and n: "base + statecount src \<le> edge_state_limit"
    and room: "endid_room (f_endid_info dst) (length (en_buckets (f_endid_info src)))"
    and lim: "\<forall>s. length (endid_ids (f_endid_info src) s) \<le> 2 ^ 30"
  shows "wp (merge_end_ids [] dst src base) (\<lambda>(ok, dst', al'). ok \<and> al' = [] \<and>
    (\<exists>ei. dst' = dst\<lparr>f_endid_info := ei\<rparr> \<and> endid_inv ei \<and>
       endid_ids ei = merged_ids base (endid_ids (f_endid_info dst)) (endid_ids (f_endid_info src))))"
proof -
  let ?bs = "en_buckets (f_endid_info src)" and ?ids = "endid_ids (f_endid_info src)" and ?old = "endid_ids (f_endid_info dst)"
  let ?u = "en_used (f_endid_info dst)" and ?l = "length (en_buckets (f_endid_info dst))"
  define J where "J ys t = (if \<exists>b \<in> set ys. eb_state b \<noteq> BUCKET_NO_STATE \<and> eb_state b + base = t then ?ids (t - base) else ?old t)"
    for ys :: "endid_info_bucket list" and t
  let ?I = "\<lambda>ys (dst', al' :: alloc). al' = [] \<and> (\<exists>ei. dst' = dst\<lparr>f_endid_info := ei\<rparr> \<and> endid_inv ei \<and> endid_ids ei = J ys \<and>
      en_used ei \<le> ?u + length ys \<and> length (en_buckets ei) \<le> max ?l (4 * (?u + length ys)))"
  have tab: "endid_tab (f_endid_info src)" using src by (simp add: endid_inv_def)
  have n24: "statecount src \<le> 2 ^ 24" "base \<le> 2 ^ 24" using n by (auto simp: edge_state_limit_def)
  have "wp (merge_end_ids [] dst src base) (\<lambda>(ok, fa). if ok then ?I ?bs fa else False)"
    unfolding merge_end_ids_def fsm_endid_iter_bulk_def
  proof (rule wp_c_for)
    have "J [] = ?old" by (auto simp: J_def)
    then show "?I [] (dst, [])" using dst by (auto intro: exI [of _ "f_endid_info dst"])
    fix ys x zs fa
    assume bs: "?bs = ys @ x # zs" and I: "?I ys fa"
    obtain ei where fa: "fa = (dst\<lparr>f_endid_info := ei\<rparr>, [])" and ei: "endid_inv ei" "endid_ids ei = J ys"
      "en_used ei \<le> ?u + length ys" "length (en_buckets ei) \<le> max ?l (4 * (?u + length ys))"
      using I by (cases fa) auto
    show "wp (if eb_state x = BUCKET_NO_STATE then Some (True, fa)
        else do { c_assert (eb_state x < fsm_countstates src);
             (\<lambda>state ids (dst, al). do { (ok, ei, al) \<leftarrow> fsm_endid_set_bulk al (f_endid_info dst) (state_add state base) ids FSM_ENDID_BULK_REPLACE;
               Some (ok, dst\<lparr>f_endid_info := ei\<rparr>, al) }) (eb_state x) (id_list (eb_ids x)) fa })
        (\<lambda>(ok, fa). if ok then ?I (ys @ [x]) fa else False)"
    proof (cases "eb_state x = BUCKET_NO_STATE")
      case True
      then have "J (ys @ [x]) = J ys" by (auto simp: J_def fun_eq_iff)
      then show ?thesis using True ei by (auto simp: fa)
    next
      case False
      have x: "x \<in> ht_live eb_key ?bs" using False bs by (auto simp: ht_live_def eb_key_def)
      have sx: "eb_state x < statecount src" using live x by blast
      have ids: "id_list (eb_ids x) = ?ids (eb_state x)" using endid_ids_Some [OF tab x] by simp
      have ne: "?ids (eb_state x) \<noteq> []" using x tab unfolding ids [symmetric] by (auto simp: endid_tab_def ids_ok_def)
      let ?t = "eb_state x + base"
      have t: "state_add (eb_state x) base = ?t" "?t < BUCKET_NO_STATE"
        using sx n24 by (auto simp: state_add_def state_limit_def BUCKET_NO_STATE_def)
      have cnt: "eb_state x < fsm_countstates src" using sx n24 by (simp add: fsm_countstates_def)
      have len: "length (en_buckets ei) < 2 ^ 31"
        using ei(3,4) room bs by (auto simp: endid_room_def max_def split: if_splits)
      have two: "length (?ids (eb_state x)) + length (endid_ids ei ?t) \<le> 2 ^ 31"
        using lim [rule_format, of "eb_state x"] none by (auto simp: ei(2) J_def)
      obtain ei' where run: "fsm_endid_set_bulk [] ei ?t (?ids (eb_state x)) FSM_ENDID_BULK_REPLACE = Some (True, ei', [])"
        and ei': "endid_inv ei'" "endid_ids ei' = (endid_ids ei)(?t := remdups_adj (sort (?ids (eb_state x))))"
          "en_used ei' \<le> en_used ei + 1" "length (en_buckets ei') \<le> max (length (en_buckets ei)) (4 * en_used ei)"
        by (rule wpE3 [OF fsm_endid_set_bulk_wp [OF ei(1) t(2) len ne two, of "[]" FSM_ENDID_BULK_REPLACE]])
          (simp add: bulk_prev_def)
      have "endid_ids ei' = J (ys @ [x])"
        unfolding ei'(2) remdups_adj_sort_asc [OF endid_ids_asc [OF src]] ei(2)
        using False by (auto simp: J_def fun_eq_iff)
      moreover have "en_used ei' \<le> ?u + length (ys @ [x])" "length (en_buckets ei') \<le> max ?l (4 * (?u + length (ys @ [x])))"
        using ei ei'(3,4) by (auto simp: max_def split: if_splits)
      ultimately show ?thesis
        using False cnt run ei'(1) by (auto simp: fa c_assert_def ids t(1) intro!: exI [of _ ei'])
    qed
  qed
  moreover have "J ?bs = merged_ids base ?old ?ids"
  proof
    fix t
    have "(\<exists>b \<in> set ?bs. eb_state b \<noteq> BUCKET_NO_STATE \<and> eb_state b + base = t) \<longleftrightarrow>
        base \<le> t \<and> (\<exists>b \<in> ht_live eb_key ?bs. eb_state b = t - base)"
    proof -
      have "eb_state b \<noteq> BUCKET_NO_STATE \<and> eb_state b + base = t \<longleftrightarrow> base \<le> t \<and> eb_key b \<noteq> None \<and> eb_state b = t - base" for b
        by (auto simp: eb_key_def)
      then show ?thesis unfolding ht_live_def by simp blast
    qed
    then show "J ?bs t = merged_ids base ?old ?ids t"
      unfolding J_def merged_ids_def using endid_ids_live [OF tab, of "t - base"] none
      by (cases "t < base"; cases "?ids (t - base) = []") simp_all
  qed
  ultimately show ?thesis by (auto elim!: wp_mono split: if_splits)
qed

section \<open>Copying eager outputs\<close>

text \<open>The outputs in the order in which \<open>fsm_eager_output_iter_all\<close> meets them.\<close>

definition eager_pairs :: "eager_output_info \<Rightarrow> (fsm_state_t \<times> fsm_output_id_t) list" where
  "eager_pairs info = concat (map (\<lambda>b. case ob_entry b of None \<Rightarrow> [] | Some e \<Rightarrow> map (Pair (ob_state b)) (ee_ids e)) (eo_buckets info))"

lemma eager_ids_member:
  assumes "eager_inv info"
  shows "k \<in> set (eager_ids info s) \<longleftrightarrow>
    (\<exists>b \<in> set (eo_buckets info). ob_state b = s \<and> (\<exists>e. ob_entry b = Some e \<and> k \<in> set (ee_ids e)))"
proof -
  have ok: "ht_ok ob_key hash_state (eo_buckets info)" using assms by (simp add: eager_inv_def)
  have "k \<in> set (eager_ids info s) \<longleftrightarrow>
      (\<exists>b. ht_lookup ob_key hash_state (eo_buckets info) s = Some b \<and> (\<exists>e. ob_entry b = Some e \<and> k \<in> set (ee_ids e)))"
  proof (cases "ht_lookup ob_key hash_state (eo_buckets info) s")
    case (Some b)
    then show ?thesis by (cases "ob_entry b") (simp_all add: eager_ids_def eager_tab_def)
  qed (simp add: eager_ids_def eager_tab_def)
  then show ?thesis unfolding oht.lookup_iff [OF ok] ob_key_Some by auto
qed

lemma set_eager_pairs: "eager_inv info \<Longrightarrow> (s, k) \<in> set (eager_pairs info) \<longleftrightarrow> k \<in> set (eager_ids info s)"
proof -
  assume inv: "eager_inv info"
  have m: "(s, k) \<in> set (case ob_entry b of None \<Rightarrow> [] | Some e \<Rightarrow> map (Pair (ob_state b)) (ee_ids e)) \<longleftrightarrow>
      ob_state b = s \<and> (\<exists>e. ob_entry b = Some e \<and> k \<in> set (ee_ids e))" for b
    by (cases "ob_entry b") auto
  show ?thesis
    unfolding eager_ids_member [OF inv] eager_pairs_def set_concat set_map image_image UN_iff by (simp only: m)
qed

lemma eager_ids_distinct: "eager_inv info \<Longrightarrow> distinct (eager_ids info s)"
proof -
  assume inv: "eager_inv info"
  then have ok: "ht_ok ob_key hash_state (eo_buckets info)" by (simp add: eager_inv_def)
  show ?thesis
    using inv oht.lookup_live [OF ok, of s]
    by (auto simp: eager_ids_def eager_tab_def eager_inv_def entry_ok_def split: option.splits)
qed

lemma eager_iter_all_pairs:
  assumes inv: "eager_inv info" and mk: "\<And>s. eager_ids info s \<noteq> [] \<Longrightarrow> marked s"
  shows "fsm_eager_output_iter_all info marked cb x = do { (_, x) \<leftarrow> c_for (\<lambda>(s, k). cb s k) (eager_pairs info) x; Some x }"
proof -
  have "c_for (\<lambda>b x. case ob_entry b of None \<Rightarrow> Some (True, x)
        | Some e \<Rightarrow> do { c_assert (length (ee_ids e) = 0 \<or> marked (ob_state b)); c_for (cb (ob_state b)) (ee_ids e) x }) bs x =
      c_for (\<lambda>b. c_for (\<lambda>(s, k). cb s k) (case ob_entry b of None \<Rightarrow> [] | Some e \<Rightarrow> map (Pair (ob_state b)) (ee_ids e))) bs x"
    if "set bs \<subseteq> set (eo_buckets info)" for bs
    using that
  proof (induction bs arbitrary: x)
    case (Cons b bs)
    have "length (ee_ids e) = 0 \<or> marked (ob_state b)" if "ob_entry b = Some e" for e
    proof (cases "ee_ids e")
      case (Cons k ks)
      then have "k \<in> set (eager_ids info (ob_state b))" unfolding eager_ids_member [OF inv] using that \<open>set (b # bs) \<subseteq> _\<close> by auto
      then have "eager_ids info (ob_state b) \<noteq> []" by auto
      then show ?thesis using mk by blast
    qed simp
    then show ?case
      using Cons by (simp add: c_for_map c_assert_def split: option.splits cong: if_cong)
  qed simp
  then show ?thesis
    by (simp add: fsm_eager_output_iter_all_def eager_pairs_def c_for_concat c_for_map)
qed

definition eager_room :: "eager_output_info \<Rightarrow> nat \<Rightarrow> bool" where
  "eager_room info k \<longleftrightarrow> length (eo_buckets info) < 2 ^ 62 \<and> 4 * (eo_used info + k) < 2 ^ 62"

text \<open>Every state with an output has the flag that says so.\<close>

definition eager_marked :: "fsm \<Rightarrow> bool" where
  "eager_marked f \<longleftrightarrow> (\<forall>s. eager_ids (f_eager_output_info f) s \<noteq> [] \<longrightarrow> s < statecount f \<and> st_has_eager_outputs (f_states f ! s))"

definition other_meta :: "fsm \<Rightarrow> fsm_capture_info \<times> endid_info \<times> bool list" where
  "other_meta f = (f_capture_info f, f_endid_info f, map st_has_capture_actions (f_states f))"

lemma fsm_eager_output_set_wp:
  assumes inv: "eager_inv (f_eager_output_info f)" and room: "eager_room (f_eager_output_info f) 0"
    and len: "length (eager_ids (f_eager_output_info f) s) < 2 ^ 31" and s: "s < statecount f" and mk: "eager_marked f"
  shows "wp (fsm_eager_output_set al f s k) (\<lambda>(ok, f', al'). same_graph f f' \<and> other_meta f' = other_meta f \<and>
    eager_inv (f_eager_output_info f') \<and> eager_marked f' \<and>
    (\<forall>t. set (eager_ids (f_eager_output_info f') t) = set (eager_ids (f_eager_output_info f) t) \<union> (if ok \<and> t = s then {k} else {})) \<and>
    eo_used (f_eager_output_info f') \<le> eo_used (f_eager_output_info f) + 1 \<and>
    length (eo_buckets (f_eager_output_info f')) \<le> max (length (eo_buckets (f_eager_output_info f))) (4 * eo_used (f_eager_output_info f)) \<and>
    (al = [] \<longrightarrow> ok \<and> al' = []))"
proof -
  let ?eo = "f_eager_output_info f"
  have l62: "length (eo_buckets ?eo) < 2 ^ 62" using room by (simp add: eager_room_def)
  obtain ok wrote eo al' where run: "eager_set al ?eo s k = Some (ok, wrote, eo, al')"
    and post: "eager_added al ?eo s k (ok, wrote, eo, al')"
    by (rule wpE4 [OF eager_set_wp [OF inv l62 len]])
  let ?f = "f\<lparr>f_eager_output_info := eo\<rparr>"
  let ?f' = "if wrote then upd_state ?f s (\<lambda>st. st\<lparr>st_has_eager_outputs := True\<rparr>) else ?f"
  have res: "fsm_eager_output_set al f s k = Some (ok, ?f', al')"
    using s by (simp add: fsm_eager_output_set_def run c_assert_def statealloc_def Let_def)
  have g: "same_graph f ?f'"
    using same_graph_trans [OF same_graph_tables(2) same_graph_upd [where g = "\<lambda>st. st\<lparr>st_has_eager_outputs := True\<rparr>"]]
    by (simp add: same_graph_tables state_core_def)
  have eo: "f_eager_output_info ?f' = eo" by (simp add: upd_state_def)
  have ids: "set (eager_ids eo t) = set (eager_ids ?eo t) \<union> (if ok \<and> t = s then {k} else {})" for t
    using post by (auto simp: eager_added_def)
  have w: "wrote = (ok \<and> k \<notin> set (eager_ids ?eo s))" using post by (simp add: eager_added_def)
  have "t < statecount ?f' \<and> st_has_eager_outputs (f_states ?f' ! t)" if "eager_ids eo t \<noteq> []" for t
  proof (cases "eager_ids ?eo t = []")
    case True
    then have "ok" "t = s" "wrote" using that ids [of t] w by (auto split: if_splits)
    then show ?thesis using s by (simp add: upd_state_def)
  next
    case False
    then have "t < statecount f" "st_has_eager_outputs (f_states f ! t)" using mk by (auto simp: eager_marked_def)
    then show ?thesis using s by (cases "t = s") (simp_all add: upd_state_def)
  qed
  then have "eager_marked ?f'" unfolding eager_marked_def eo by blast
  moreover have "other_meta ?f' = other_meta f"
    using s by (simp add: other_meta_def upd_state_def map_update list_update_same_conv)
  ultimately show ?thesis
    using post g ids unfolding res wp_Some prod.case eo by (simp add: eager_added_def)
qed

definition new_outputs :: "(fsm_state_t \<Rightarrow> fsm_state_t) \<Rightarrow> (fsm_state_t \<times> fsm_output_id_t) list \<Rightarrow> fsm_state_t \<Rightarrow> fsm_output_id_t set" where
  "new_outputs g ps t = {k. \<exists>s. (s, k) \<in> set ps \<and> g s = t}"

lemma new_outputs_simps [simp]:
  "new_outputs g [] t = {}" "new_outputs g (ps @ [(s, k)]) t = new_outputs g ps t \<union> (if t = g s then {k} else {})"
  by (auto simp: new_outputs_def)

lemma finite_new_outputs: "finite (new_outputs g ps t)"
  by (rule finite_subset [of _ "snd ` set ps"]) (force simp: new_outputs_def)+

lemma eager_copy_loop_wp:
  assumes inv: "eager_inv (f_eager_output_info dst)" and mk: "eager_marked dst"
    and room: "eager_room (f_eager_output_info dst) (length ps)"
    and g: "\<And>s k. (s, k) \<in> set ps \<Longrightarrow> g s < statecount dst"
    and len: "\<And>t. card (set (eager_ids (f_eager_output_info dst) t) \<union> new_outputs g ps t) < 2 ^ 31"
  shows "wp (c_for (\<lambda>(s, k) (ok, dst, al). do { (ok, dst, al) \<leftarrow> fsm_eager_output_set al dst (g s) k; Some (ok, ok, dst, al) })
      ps (True, dst, [])) (\<lambda>(go, ok, dst', al'). go \<and> ok \<and> al' = [] \<and> same_graph dst dst' \<and> other_meta dst' = other_meta dst \<and>
    eager_inv (f_eager_output_info dst') \<and> eager_marked dst' \<and>
    (\<forall>t. set (eager_ids (f_eager_output_info dst') t) = set (eager_ids (f_eager_output_info dst) t) \<union> new_outputs g ps t))"
proof -
  let ?eo = "f_eager_output_info dst"
  let ?I = "\<lambda>ys (ok, dst', al' :: alloc). ok \<and> al' = [] \<and> same_graph dst dst' \<and> other_meta dst' = other_meta dst \<and>
    eager_inv (f_eager_output_info dst') \<and> eager_marked dst' \<and>
    (\<forall>t. set (eager_ids (f_eager_output_info dst') t) = set (eager_ids ?eo t) \<union> new_outputs g ys t) \<and>
    eo_used (f_eager_output_info dst') \<le> eo_used ?eo + length ys \<and>
    length (eo_buckets (f_eager_output_info dst')) \<le> max (length (eo_buckets ?eo)) (4 * (eo_used ?eo + length ys))"
  have "wp (c_for (\<lambda>(s, k) (ok, dst, al). do { (ok, dst, al) \<leftarrow> fsm_eager_output_set al dst (g s) k; Some (ok, ok, dst, al) })
      ps (True, dst, [])) (\<lambda>(go, x). if go then ?I ps x else False)"
  proof (rule wp_c_for)
    show "?I [] (True, dst, [])" using inv mk by simp
    fix ys p zs x
    assume ps: "ps = ys @ p # zs" and I: "?I ys x"
    obtain s k where p: "p = (s, k)" by (cases p)
    obtain d where x: "x = (True, d, [])" and d: "same_graph dst d" "other_meta d = other_meta dst"
      "eager_inv (f_eager_output_info d)" "eager_marked d"
      "\<forall>t. set (eager_ids (f_eager_output_info d) t) = set (eager_ids ?eo t) \<union> new_outputs g ys t"
      "eo_used (f_eager_output_info d) \<le> eo_used ?eo + length ys"
      "length (eo_buckets (f_eager_output_info d)) \<le> max (length (eo_buckets ?eo)) (4 * (eo_used ?eo + length ys))"
      using I by (cases x) auto
    have room': "eager_room (f_eager_output_info d) 0"
      using d(6,7) room by (auto simp: eager_room_def ps max_def split: if_splits)
    have gs: "g s < statecount d" using g [of s k] same_graph_sel(1) [OF d(1)] by (simp add: ps p)
    have "length (eager_ids (f_eager_output_info d) t) < 2 ^ 31" for t
    proof -
      have "new_outputs g ys t \<subseteq> new_outputs g ps t" by (auto simp: new_outputs_def ps)
      then have "card (set (eager_ids (f_eager_output_info d) t)) \<le> card (set (eager_ids ?eo t) \<union> new_outputs g ps t)"
        using d(5) by (intro card_mono) (auto simp: finite_new_outputs)
      then show ?thesis using len [of t] distinct_card [OF eager_ids_distinct [OF d(3)], of t] by simp
    qed
    then obtain d' where run: "fsm_eager_output_set [] d (g s) k = Some (True, d', [])"
      and d': "same_graph d d'" "other_meta d' = other_meta d" "eager_inv (f_eager_output_info d')" "eager_marked d'"
        "\<forall>t. set (eager_ids (f_eager_output_info d') t) = set (eager_ids (f_eager_output_info d) t) \<union> (if t = g s then {k} else {})"
        "eo_used (f_eager_output_info d') \<le> eo_used (f_eager_output_info d) + 1"
        "length (eo_buckets (f_eager_output_info d')) \<le> max (length (eo_buckets (f_eager_output_info d))) (4 * eo_used (f_eager_output_info d))"
      by (rule wpE3 [OF fsm_eager_output_set_wp [OF d(3) room' _ gs d(4), of "[]" k]]) simp
    show "wp ((case p of (s, k) \<Rightarrow> \<lambda>(ok, dst, al). do { (ok, dst, al) \<leftarrow> fsm_eager_output_set al dst (g s) k; Some (ok, ok, dst, al) }) x)
        (\<lambda>(go, x). if go then ?I (ys @ [p]) x else False)"
    proof -
      have "set (eager_ids (f_eager_output_info d') t) = set (eager_ids ?eo t) \<union> new_outputs g (ys @ [p]) t" for t
        using d(5) d'(5) by (simp add: p Un_assoc)
      moreover have "eo_used (f_eager_output_info d') \<le> eo_used ?eo + length (ys @ [p])"
        "length (eo_buckets (f_eager_output_info d')) \<le> max (length (eo_buckets ?eo)) (4 * (eo_used ?eo + length (ys @ [p])))"
        using d(6,7) d'(6,7) by (auto simp: max_def split: if_splits)
      ultimately show ?thesis
        using same_graph_trans [OF d(1) d'(1)] d(2) d'(2-4) by (simp add: x p run)
    qed
  qed
  then show ?thesis by (rule wp_mono) (auto split: if_splits)
qed

lemma other_meta_sel:
  "other_meta f' = other_meta f \<Longrightarrow> f_capture_info f' = f_capture_info f \<and> f_endid_info f' = f_endid_info f \<and>
     statecount f' = statecount f \<and> (\<forall>i < statecount f. st_has_capture_actions (f_states f' ! i) = st_has_capture_actions (f_states f ! i))"
  unfolding other_meta_def by (metis Pair_inject length_map nth_map)

section \<open>Copying capture actions\<close>

text \<open>Every state with an action is a state of the automaton and has the flag that says so; the actions lead to states.\<close>

definition capture_marked :: "fsm \<Rightarrow> bool" where
  "capture_marked f \<longleftrightarrow> (\<forall>(s, a) \<in> capture_set (f_capture_info f). s < statecount f \<and> st_has_capture_actions (f_states f ! s) \<and>
     (ca_to a = CAPTURE_NO_STATE \<or> ca_to a < statecount f))"

definition capture_room :: "fsm_capture_info \<Rightarrow> nat \<Rightarrow> bool" where
  "capture_room ci k \<longleftrightarrow> length (ci_buckets ci) < 2 ^ 31 \<and> 4 * (ci_used ci + k) < 2 ^ 31"

definition id_meta :: "fsm \<Rightarrow> eager_output_info \<times> endid_info \<times> bool list" where
  "id_meta f = (f_eager_output_info f, f_endid_info f, map st_has_eager_outputs (f_states f))"

lemma fsm_capture_add_action_wp:
  assumes inv: "capture_inv (f_capture_info f)" and mk: "capture_marked f" and room: "capture_room (f_capture_info f) 0"
    and s: "s < statecount f" "statecount f \<le> CAPTURE_NO_STATE" and to: "ca_to a = CAPTURE_NO_STATE \<or> ca_to a < statecount f"
  shows "wp (fsm_capture_add_action al f s a) (\<lambda>(ok, f', al'). same_graph f f' \<and> id_meta f' = id_meta f \<and>
    capture_inv (f_capture_info f') \<and> capture_marked f' \<and>
    capture_set (f_capture_info f') = capture_set (f_capture_info f) \<union> (if ok then {(s, a)} else {}) \<and>
    ci_used (f_capture_info f') \<le> ci_used (f_capture_info f) + 1 \<and>
    length (ci_buckets (f_capture_info f')) \<le> max 32 (max (length (ci_buckets (f_capture_info f))) (4 * ci_used (f_capture_info f))) \<and>
    (al = [] \<longrightarrow> ok \<and> al' = []))"
proof -
  let ?ci = "f_capture_info f" and ?mk = "\<lambda>s. st_has_capture_actions (f_states f ! s)"
  have len: "length (ci_buckets ?ci) < 2 ^ 31" using room by (simp add: capture_room_def)
  have m: "(s, a) \<in> capture_set ?ci \<longrightarrow> ?mk s" using mk by (auto simp: capture_marked_def)
  obtain ok added ci al' where run: "add_capture_action al (statecount f) ?mk ?ci s a = Some (ok, added, ci, al')"
    and ci: "capture_inv ci" "capture_set ci = (if ok then insert (s, a) (capture_set ?ci) else capture_set ?ci)"
      "added = (ok \<and> (s, a) \<notin> capture_set ?ci)"
      "length (ci_buckets ci) \<le> max 32 (max (length (ci_buckets ?ci)) (4 * ci_used ?ci))"
      "ci_used ci \<le> ci_used ?ci + 1" "al = [] \<longrightarrow> ok \<and> al' = []"
    by (rule wpE4 [OF add_capture_action_wp [where marked = ?mk, OF inv len s to m, of al]]) simp
  let ?f = "f\<lparr>f_capture_info := ci\<rparr>"
  define f' where "f' = (if added then upd_state ?f s (\<lambda>st. st\<lparr>st_has_capture_actions := True\<rparr>) else ?f)"
  have g: "same_graph f f'"
    using same_graph_trans [OF same_graph_tables(3) same_graph_upd [where g = "\<lambda>st. st\<lparr>st_has_capture_actions := True\<rparr>"]]
    by (simp add: f'_def same_graph_tables state_core_def)
  have c: "f_capture_info f' = ci" and n: "statecount f' = statecount f" by (simp_all add: f'_def upd_state_def)
  have flag: "st_has_capture_actions (f_states f' ! t)" if "t < statecount f" "?mk t \<or> added \<and> t = s" for t
    using that s by (cases "t = s") (auto simp: f'_def upd_state_def)
  have "t < statecount f \<and> st_has_capture_actions (f_states f' ! t) \<and> (ca_to b = CAPTURE_NO_STATE \<or> ca_to b < statecount f)"
    if "(t, b) \<in> capture_set ci" for t b
  proof (cases "(t, b) \<in> capture_set ?ci")
    case True
    then show ?thesis using mk flag by (auto simp: capture_marked_def)
  next
    case False
    then have "t = s" "b = a" "added" using that ci(2,3) by (auto split: if_splits)
    then show ?thesis using flag s to by simp
  qed
  then have "capture_marked f'" unfolding capture_marked_def c n by blast
  moreover have "id_meta f' = id_meta f"
    using s by (simp add: f'_def id_meta_def upd_state_def map_update list_update_same_conv)
  moreover have "fsm_capture_add_action al f s a = Some (ok, f', al')"
    by (simp add: fsm_capture_add_action_def run f'_def)
  ultimately show ?thesis
    using g ci(1,2,4-6) by (simp add: c)
qed

lemma copy_capture_actions_wp:
  assumes inv: "capture_inv (f_capture_info dst)" and mk: "capture_marked dst"
    and room: "capture_room (f_capture_info dst) (length (ci_buckets src))" and n: "statecount dst \<le> CAPTURE_NO_STATE"
    and src: "\<And>s a. (s, a) \<in> capture_set src \<Longrightarrow> s < statecount dst \<and> (ca_to a = CAPTURE_NO_STATE \<or> ca_to a < statecount dst)"
  shows "wp (copy_capture_actions [] dst src) (\<lambda>(ok, dst', al'). ok \<and> al' = [] \<and> same_graph dst dst' \<and> id_meta dst' = id_meta dst \<and>
    capture_inv (f_capture_info dst') \<and> capture_marked dst' \<and>
    capture_set (f_capture_info dst') = capture_set (f_capture_info dst) \<union> capture_set src)"
proof -
  let ?ci = "f_capture_info dst"
  define live where "live ys = {k. \<exists>b \<in> set ys. cb_key b = Some k}" for ys
  let ?I = "\<lambda>ys (dst', al' :: alloc). al' = [] \<and> same_graph dst dst' \<and> id_meta dst' = id_meta dst \<and>
    capture_inv (f_capture_info dst') \<and> capture_marked dst' \<and>
    capture_set (f_capture_info dst') = capture_set ?ci \<union> live ys \<and>
    ci_used (f_capture_info dst') \<le> ci_used ?ci + length ys \<and>
    length (ci_buckets (f_capture_info dst')) \<le> max 32 (max (length (ci_buckets ?ci)) (4 * (ci_used ?ci + length ys)))"
  have "wp (copy_capture_actions [] dst src) (\<lambda>(ok, x). if ok then ?I (ci_buckets src) x else False)"
    unfolding copy_capture_actions_def fsm_capture_action_iter_def
  proof (rule wp_c_for)
    show "?I [] (dst, [])" using inv mk by (simp add: live_def)
    fix ys b zs x
    assume bs: "ci_buckets src = ys @ b # zs" and I: "?I ys x"
    obtain d where x: "x = (d, [])" and d: "same_graph dst d" "id_meta d = id_meta dst"
      "capture_inv (f_capture_info d)" "capture_marked d" "capture_set (f_capture_info d) = capture_set ?ci \<union> live ys"
      "ci_used (f_capture_info d) \<le> ci_used ?ci + length ys"
      "length (ci_buckets (f_capture_info d)) \<le> max 32 (max (length (ci_buckets ?ci)) (4 * (ci_used ?ci + length ys)))"
      using I by (cases x) auto
    show "wp (if cb_state b = CAPTURE_NO_STATE then Some (True, x)
        else (case x of (dst, al) \<Rightarrow> fsm_capture_add_action al dst (cb_state b) (cb_action b)))
        (\<lambda>(ok, x). if ok then ?I (ys @ [b]) x else False)"
    proof (cases "cb_state b = CAPTURE_NO_STATE")
      case True
      then have "live (ys @ [b]) = live ys" by (auto simp: live_def cb_key_def)
      then show ?thesis using True d by (simp add: x)
    next
      case False
      then have key: "cb_key b = Some (cb_state b, cb_action b)" by (simp add: cb_key_def)
      then have l: "live (ys @ [b]) = live ys \<union> {(cb_state b, cb_action b)}" by (auto simp: live_def)
      have "(cb_state b, cb_action b) \<in> capture_set src" using key bs by (auto simp: capture_set_def)
      note s = src [OF this]
      have st: "cb_state b < statecount d" "statecount d \<le> CAPTURE_NO_STATE"
        "ca_to (cb_action b) = CAPTURE_NO_STATE \<or> ca_to (cb_action b) < statecount d"
        using s n same_graph_sel(1) [OF d(1)] by auto
      have room': "capture_room (f_capture_info d) 0"
        using d(6,7) room by (auto simp: capture_room_def bs max_def split: if_splits)
      obtain d' where run: "fsm_capture_add_action [] d (cb_state b) (cb_action b) = Some (True, d', [])"
        and d': "same_graph d d'" "id_meta d' = id_meta d" "capture_inv (f_capture_info d')" "capture_marked d'"
          "capture_set (f_capture_info d') = capture_set (f_capture_info d) \<union> {(cb_state b, cb_action b)}"
          "ci_used (f_capture_info d') \<le> ci_used (f_capture_info d) + 1"
          "length (ci_buckets (f_capture_info d')) \<le> max 32 (max (length (ci_buckets (f_capture_info d))) (4 * ci_used (f_capture_info d)))"
        by (rule wpE3 [OF fsm_capture_add_action_wp [OF d(3,4) room' st, of "[]"]]) simp
      have "ci_used (f_capture_info d') \<le> ci_used ?ci + length (ys @ [b])"
        "length (ci_buckets (f_capture_info d')) \<le> max 32 (max (length (ci_buckets ?ci)) (4 * (ci_used ?ci + length (ys @ [b]))))"
        using d(6,7) d'(6,7) by (auto simp: max_def split: if_splits)
      then show ?thesis
        using False same_graph_trans [OF d(1) d'(1)] d(2,5) d'(2-5) by (simp add: x run l Un_assoc)
    qed
  qed
  then show ?thesis by (rule wp_mono) (auto simp: live_def capture_set_def split: if_splits)
qed

definition rebase_capture :: "nat \<Rightarrow> nat \<Rightarrow> fsm_state_t \<times> fsm_capture_action \<Rightarrow> fsm_state_t \<times> fsm_capture_action" where
  "rebase_capture base cap = (\<lambda>(s, a). (s + base, a\<lparr>ca_id := ca_id a + cap,
     ca_to := if ca_to a = CAPTURE_NO_STATE then CAPTURE_NO_STATE else ca_to a + base\<rparr>))"

lemma capture_set_rebase:
  assumes "\<And>s a. (s, a) \<in> capture_set ci \<Longrightarrow> s + base < CAPTURE_NO_STATE \<and>
      (ca_to a = CAPTURE_NO_STATE \<or> ca_to a + base < CAPTURE_NO_STATE) \<and> ca_id a + cap < 2 ^ 32"
  shows "capture_set (fsm_capture_rebase_capture_action_states (fsm_capture_rebase_capture_id ci cap) base) =
    rebase_capture base cap ` capture_set ci"
proof -
  let ?r = "\<lambda>b. rebase_state base (rebase_id cap b)"
  have key: "cb_key (?r b) = map_option (rebase_capture base cap) (cb_key b)" if b: "b \<in> set (ci_buckets ci)" for b
  proof (cases "cb_key b")
    case None
    then show ?thesis by (simp add: cb_key_def rebase_id_def rebase_state_def split: if_splits)
  next
    case (Some k)
    then have "(cb_state b, cb_action b) \<in> capture_set ci" "k = (cb_state b, cb_action b)" "cb_state b \<noteq> CAPTURE_NO_STATE"
      using b by (auto simp: capture_set_def cb_key_def split: if_splits)
    note * = this assms [OF this(1)]
    have "cb_state b + base < 2 ^ 32" "ca_to (cb_action b) \<noteq> CAPTURE_NO_STATE \<Longrightarrow> ca_to (cb_action b) + base < 2 ^ 32"
      using * by (auto simp: CAPTURE_NO_STATE_def)
    then show ?thesis
      using * Some
      by (auto simp: rebase_id_def rebase_state_def rebase_capture_def cb_key_def state_add_def state_limit_def)
  qed
  show ?thesis
    unfolding capture_set_def fsm_capture_rebase_capture_action_states_def fsm_capture_rebase_capture_id_def Let_def
    using key by (force simp: image_iff)
qed

section \<open>The merged automaton\<close>

text \<open>
  No edge group of a state is left without symbols. \<open>edge_set_rebase\<close> also moves the target of
  such a group, and would turn the state 0 that \<open>edge_set_compact\<close> leaves in it into a state of
  the other automaton.
\<close>

definition fsm_tidy :: "fsm \<Rightarrow> bool" where
  "fsm_tidy f \<longleftrightarrow> (\<forall>st \<in> set (f_states f). es_tos (st_edges st) \<subseteq> snd ` es_edges (st_edges st))"

definition merged_nfa :: "nat \<Rightarrow> (nat, 'c) nfa \<Rightarrow> (nat, 'c) nfa \<Rightarrow> (nat, 'c) nfa" where
  "merged_nfa base A B = \<lparr>n_start = None,
     n_step = (\<lambda>s l t. if s < base then n_step A s l t else base \<le> t \<and> n_step B (s - base) l (t - base)),
     n_end = (\<lambda>s. if s < base then n_end A s else n_end B (s - base))\<rparr>"

lemma rebase_fsm_state_ok:
  assumes st: "state_ok n st" and tidy: "es_tos (st_edges st) \<subseteq> snd ` es_edges (st_edges st)" and n: "base + n \<le> edge_state_limit"
  shows "state_ok (base + n) (rebase_fsm_state base st)"
    and "es_edges (st_edges (rebase_fsm_state base st)) = (\<lambda>(c, s). (c, s + base)) ` es_edges (st_edges st)"
    and "ss_set (st_epsilons (rebase_fsm_state base st)) = (\<lambda>s. s + base) ` ss_set (st_epsilons st)"
    and "es_tos (st_edges (rebase_fsm_state base st)) \<subseteq> snd ` es_edges (st_edges (rebase_fsm_state base st))"
proof -
  have lim: "s + base < state_limit" if "s < n" for s
    using that n by (simp add: edge_state_limit_def state_limit_def)
  have tos: "\<forall>s \<in> es_tos (st_edges st). s + base < state_limit" and eps: "\<forall>s \<in> ss_set (st_epsilons st). s + base < state_limit"
    using st lim order_trans [OF tidy, of "{..<n}"] by (auto simp: state_ok_def)
  note es = edge_set_rebase_edges [OF _ tos] and ss = state_set_rebase_set [OF _ eps]
  have inv: "es_inv (st_edges st)" "ss_inv (st_epsilons st)" using st by (auto simp: state_ok_def)
  show e: "es_edges (st_edges (rebase_fsm_state base st)) = (\<lambda>(c, s). (c, s + base)) ` es_edges (st_edges st)"
    and p: "ss_set (st_epsilons (rebase_fsm_state base st)) = (\<lambda>s. s + base) ` ss_set (st_epsilons st)"
    using es ss inv by (simp_all add: rebase_fsm_state_def)
  show t: "es_tos (st_edges (rebase_fsm_state base st)) \<subseteq> snd ` es_edges (st_edges (rebase_fsm_state base st))"
  proof (cases "edge_set_empty (st_edges st)")
    case True
    then have "es_edges (st_edges st) = {}" using edge_set_empty_iff [OF inv(1)] by simp
    then have "es_tos (st_edges st) = {}" using tidy by simp
    then show ?thesis using es_tos_rebase [of "st_edges st" base] by (simp add: rebase_fsm_state_def)
  next
    case False
    then obtain s where s: "st_edges st = ES s" by (cases "st_edges st") auto
    have "es_tos (edge_set_rebase (st_edges st) base) = (\<lambda>t. state_add t base) ` es_tos (st_edges st)"
      using False unfolding s by (simp add: image_image del: edge_set_empty.simps)
    also have "\<dots> = (\<lambda>t. t + base) ` es_tos (st_edges st)"
      using tos by (intro image_cong) (auto simp: state_add_def)
    also have "\<dots> \<subseteq> (\<lambda>t. t + base) ` snd ` es_edges (st_edges st)" using tidy by (rule image_mono)
    also have "\<dots> = snd ` es_edges (st_edges (rebase_fsm_state base st))" unfolding e by (simp add: image_image case_prod_beta)
    finally show ?thesis by (simp add: rebase_fsm_state_def)
  qed
  have "snd ` es_edges (st_edges st) \<subseteq> {..<n}" "ss_set (st_epsilons st) \<subseteq> {..<n}" using st by (auto simp: state_ok_def)
  then have "snd ` es_edges (st_edges (rebase_fsm_state base st)) \<subseteq> {..<base + n}" 
    "ss_set (st_epsilons (rebase_fsm_state base st)) \<subseteq> {..<base + n}"
    unfolding e p by (auto simp: image_subset_iff)
  moreover have "es_inv (st_edges (rebase_fsm_state base st))" "ss_inv (st_epsilons (rebase_fsm_state base st))"
    using es(1) ss(1) inv by (simp_all add: rebase_fsm_state_def)
  ultimately show "state_ok (base + n) (rebase_fsm_state base st)"
    using t unfolding state_ok_def by (auto simp del: es_tos.simps)
qed

text \<open>The states of \<open>src\<close> after those of \<open>dst\<close>.\<close>

definition append_states :: "fsm \<Rightarrow> fsm \<Rightarrow> bool list \<Rightarrow> fsm" where
  "append_states dst src spare =
     dst\<lparr>f_states := f_states dst @ map (rebase_fsm_state (statecount dst)) (f_states src), f_spare := spare,
       f_endcount := (f_endcount dst + f_endcount src) mod 2 ^ 31\<rparr>"

lemma append_states_ok:
  assumes dst: "fsm_inv dst" and src: "fsm_inv src" "fsm_tidy src" and n: "statecount dst + statecount src \<le> edge_state_limit"
    and a: "0 < statecount dst + statecount src + length spare"
  shows "fsm_inv (append_states dst src spare)"
    and "fsm_nfa (append_states dst src spare) =
      (merged_nfa (statecount dst) (fsm_nfa dst) (fsm_nfa src))\<lparr>n_start := n_start (fsm_nfa dst)\<rparr>"
    and "fsm_tidy dst \<Longrightarrow> fsm_tidy (append_states dst src spare)"
proof -
  let ?b = "statecount dst" and ?r = "rebase_fsm_state (statecount dst)"
  have st: "state_ok (?b + statecount src) (?r s)" 
      "es_edges (st_edges (?r s)) = (\<lambda>(c, t). (c, t + ?b)) ` es_edges (st_edges s)"
      "ss_set (st_epsilons (?r s)) = (\<lambda>t. t + ?b) ` ss_set (st_epsilons s)"
      "es_tos (st_edges (?r s)) \<subseteq> snd ` es_edges (st_edges (?r s))" if "s \<in> set (f_states src)" for s
    using rebase_fsm_state_ok [of "statecount src" s ?b] src n that by (auto simp: fsm_inv_def fsm_tidy_def)
  show "fsm_tidy dst \<Longrightarrow> fsm_tidy (append_states dst src spare)"
    using st(4) unfolding fsm_tidy_def append_states_def by auto
  have e: "st_end (?r s) = st_end s" for s by (simp add: rebase_fsm_state_def)
  then have ends: "length (filter st_end (map ?r (f_states src))) = f_endcount src"
    using src(1) by (simp add: filter_map comp_def fsm_inv_def)
  have "f_endcount dst + f_endcount src < 2 ^ 31"
    using fsm_inv_limits(1,4) [OF dst] fsm_inv_limits(1,4) [OF src(1)] by simp
  moreover have "state_ok (?b + statecount src) s" if "s \<in> set (f_states dst)" for s
    using dst that by (auto simp: fsm_inv_def intro: state_ok_mono)
  ultimately show "fsm_inv (append_states dst src spare)"
    using dst st(1) ends n a by (auto simp: fsm_inv_def append_states_def statealloc_def simp del: filter_map)
  have step: "fsm_step (append_states dst src spare) s l t =
      (if s < ?b then fsm_step dst s l t else ?b \<le> t \<and> fsm_step src (s - ?b) l (t - ?b))" for s l t
  proof (cases "s < ?b")
    case True
    then show ?thesis by (simp add: fsm_step_def step_in_def append_states_def nth_append split: option.split)
  next
    case False
    have img: "x \<in> (\<lambda>y. y + ?b) ` A \<longleftrightarrow> ?b \<le> x \<and> x - ?b \<in> A" for x A
      by (auto intro: image_eqI [of _ _ "x - ?b"])
    have img2: "(c, x) \<in> (\<lambda>(c, y). (c, y + ?b)) ` A \<longleftrightarrow> ?b \<le> x \<and> (c, x - ?b) \<in> A" for c :: octet and x A
      by (auto intro: image_eqI [of _ _ "(c, x - ?b)"])
    show ?thesis
    proof (cases "s - ?b < statecount src")
      case True
      then show ?thesis
        using False st(2,3) [of "f_states src ! (s - ?b)"]
        by (auto simp: fsm_step_def step_in_def append_states_def nth_append img img2 split: option.split)
    next
      case False
      then show ?thesis using \<open>\<not> s < ?b\<close> by (auto simp: fsm_step_def step_in_def append_states_def)
    qed
  qed
  show "fsm_nfa (append_states dst src spare) =
      (merged_nfa (statecount dst) (fsm_nfa dst) (fsm_nfa src))\<lparr>n_start := n_start (fsm_nfa dst)\<rparr>"
    by (rule nfa_eqI) (auto simp: fsm_nfa_def merged_nfa_def step, auto simp: append_states_def nth_append e)
qed

section \<open>Well-formed automata with their tables\<close>

definition fsm_wf :: "fsm \<Rightarrow> bool" where
  "fsm_wf f \<longleftrightarrow> fsm_inv f \<and> fsm_tidy f \<and> meta_ok f \<and> eager_marked f \<and> capture_inv (f_capture_info f) \<and> capture_marked f"

lemma same_graph_tidy: "same_graph f f' \<Longrightarrow> fsm_tidy f' = fsm_tidy f"
proof -
  assume "same_graph f f'"
  then have m: "map state_core (f_states f') = map state_core (f_states f)" by (simp add: same_graph_def)
  have "fsm_tidy f \<longleftrightarrow> (\<forall>x \<in> set (map state_core (f_states f)). es_tos (fst x) \<subseteq> snd ` es_edges (fst x))" for f
    by (simp add: fsm_tidy_def state_core_def)
  then show ?thesis unfolding m [symmetric] by (metis m)
qed

lemma meta_ok_ids:
  assumes "meta_ok f"
  shows "endid_ids (f_endid_info f) s \<noteq> [] \<Longrightarrow> s < statecount f" and "eager_ids (f_eager_output_info f) s \<noteq> [] \<Longrightarrow> s < statecount f"
proof -
  show "endid_ids (f_endid_info f) s \<noteq> [] \<Longrightarrow> s < statecount f"
    using assms endid_ids_live [of "f_endid_info f" s] by (auto simp: meta_ok_def endid_inv_def)
  assume "eager_ids (f_eager_output_info f) s \<noteq> []"
  then obtain k where "k \<in> set (eager_ids (f_eager_output_info f) s)" by (metis list.set_sel(1))
  then show "s < statecount f"
    using assms eager_ids_member [of "f_eager_output_info f" k s] by (auto simp: meta_ok_def ht_live_def ob_key_def)
qed

lemma meta_okI:
  assumes ei: "endid_inv (f_endid_info f)" and eo: "eager_inv (f_eager_output_info f)"
    and ids: "\<And>s. endid_ids (f_endid_info f) s \<noteq> [] \<Longrightarrow> s < statecount f"
    and outs: "\<And>s. eager_ids (f_eager_output_info f) s \<noteq> [] \<Longrightarrow> s < statecount f"
  shows "meta_ok f"
proof -
  have "eb_state b < statecount f" if "b \<in> ht_live eb_key (en_buckets (f_endid_info f))" for b
    using that ids endid_ids_live [of "f_endid_info f" "eb_state b"] ei by (auto simp: endid_inv_def)
  moreover have "ob_state b < statecount f" if b: "b \<in> ht_live ob_key (eo_buckets (f_eager_output_info f))" for b
  proof -
    obtain e where e: "ob_entry b = Some e" using b by (auto simp: ht_live_def ob_key_def split: option.splits)
    then have "ee_ids e \<noteq> []" using eo b by (auto simp: eager_inv_def entry_ok_def)
    then obtain k where "k \<in> set (ee_ids e)" by (metis list.set_sel(1))
    then have "k \<in> set (eager_ids (f_eager_output_info f) (ob_state b))"
      unfolding eager_ids_member [OF eo] using b e by (auto simp: ht_live_def)
    then show ?thesis using outs by force
  qed
  ultimately show ?thesis using ei eo by (simp add: meta_ok_def)
qed

text \<open>The marks of the states stay good when states are appended.\<close>

lemma capture_marked_more:
  assumes "capture_marked f" and "f_capture_info f' = f_capture_info f" and "statecount f \<le> statecount f'"
    and "\<And>i. i < statecount f \<Longrightarrow> st_has_capture_actions (f_states f' ! i) = st_has_capture_actions (f_states f ! i)"
  shows "capture_marked f'"
  unfolding capture_marked_def
proof clarify
  fix s a
  assume "(s, a) \<in> capture_set (f_capture_info f')"
  then have *: "s < statecount f" "st_has_capture_actions (f_states f ! s)" "ca_to a = CAPTURE_NO_STATE \<or> ca_to a < statecount f"
    using assms(1) unfolding assms(2) by (auto simp: capture_marked_def)
  then show "s < statecount f' \<and> st_has_capture_actions (f_states f' ! s) \<and>
      (ca_to a = CAPTURE_NO_STATE \<or> ca_to a < statecount f')"
    using assms(3) assms(4) [of s] by auto
qed

lemma eager_marked_more:
  assumes "eager_marked f" and "f_eager_output_info f' = f_eager_output_info f" and "statecount f \<le> statecount f'"
    and "\<And>i. i < statecount f \<Longrightarrow> st_has_eager_outputs (f_states f' ! i) = st_has_eager_outputs (f_states f ! i)"
  shows "eager_marked f'"
  unfolding eager_marked_def
proof (intro allI impI)
  fix s
  assume "eager_ids (f_eager_output_info f') s \<noteq> []"
  then have "s < statecount f" "st_has_eager_outputs (f_states f ! s)"
    using assms(1) unfolding assms(2) by (auto simp: eager_marked_def)
  then show "s < statecount f' \<and> st_has_eager_outputs (f_states f' ! s)" using assms(3) assms(4) [of s] by auto
qed

lemma id_meta_sel:
  "id_meta f' = id_meta f \<Longrightarrow> f_eager_output_info f' = f_eager_output_info f \<and> f_endid_info f' = f_endid_info f \<and>
     statecount f' = statecount f \<and> (\<forall>i < statecount f. st_has_eager_outputs (f_states f' ! i) = st_has_eager_outputs (f_states f ! i))"
  unfolding id_meta_def by (metis Pair_inject length_map nth_map)

text \<open>There is room for what comes from \<open>src\<close>: no counter or index of the tables of \<open>dst\<close> wraps.\<close>

definition merge_room :: "fsm \<Rightarrow> fsm \<Rightarrow> bool" where
  "merge_room dst src \<longleftrightarrow> statecount dst + statecount src < edge_state_limit \<and>
     endid_room (f_endid_info dst) (length (en_buckets (f_endid_info src))) \<and>
     (\<forall>s. length (endid_ids (f_endid_info src) s) \<le> 2 ^ 30) \<and>
     eager_room (f_eager_output_info dst) (length (eager_pairs (f_eager_output_info src))) \<and>
     (\<forall>s. length (eager_ids (f_eager_output_info src) s) < 2 ^ 31 \<and> length (eager_ids (f_eager_output_info dst) s) < 2 ^ 31) \<and>
     capture_room (f_capture_info dst) (length (ci_buckets (f_capture_info src))) \<and>
     ci_max (f_capture_info dst) + ci_max (f_capture_info src) + 1 < 2 ^ 32"

text \<open>Ids, outputs and captures of a merged automaton.\<close>

definition merged_meta :: "nat \<Rightarrow> nat \<Rightarrow> fsm \<Rightarrow> fsm \<Rightarrow> fsm \<Rightarrow> bool" where
  "merged_meta base cap dst src q \<longleftrightarrow>
     endid_ids (f_endid_info q) = merged_ids base (endid_ids (f_endid_info dst)) (endid_ids (f_endid_info src)) \<and>
     (\<forall>s. set (eager_ids (f_eager_output_info q) s) =
        set (merged_ids base (eager_ids (f_eager_output_info dst)) (eager_ids (f_eager_output_info src)) s)) \<and>
     capture_set (f_capture_info q) = capture_set (f_capture_info dst) \<union> rebase_capture base cap ` capture_set (f_capture_info src)"

lemma copy_eager_output_ids_wp:
  assumes dst: "eager_inv (f_eager_output_info dst)" "eager_marked dst" and none: "\<forall>s \<ge> base. eager_ids (f_eager_output_info dst) s = []"
    and src: "eager_inv (f_eager_output_info src)" "eager_marked src"
    and n: "statecount dst = base + statecount src" "statecount dst \<le> edge_state_limit"
    and room: "eager_room (f_eager_output_info dst) (length (eager_pairs (f_eager_output_info src)))"
    and len: "\<And>s. length (eager_ids (f_eager_output_info src) s) < 2 ^ 31" "\<And>s. length (eager_ids (f_eager_output_info dst) s) < 2 ^ 31"
  shows "wp (copy_eager_output_ids [] dst src base) (\<lambda>(ok, dst', al'). ok \<and> al' = [] \<and> same_graph dst dst' \<and> other_meta dst' = other_meta dst \<and>
    eager_inv (f_eager_output_info dst') \<and> eager_marked dst' \<and>
    (\<forall>s. set (eager_ids (f_eager_output_info dst') s) =
       set (merged_ids base (eager_ids (f_eager_output_info dst)) (eager_ids (f_eager_output_info src)) s)))"
proof -
  let ?eo = "f_eager_output_info dst" and ?es = "f_eager_output_info src" and ?g = "\<lambda>s. state_add s base"
  let ?ps = "eager_pairs (f_eager_output_info src)"
  have g: "?g s = s + base \<and> s < statecount src" if "(s, k) \<in> set ?ps" for s k
  proof -
    have "eager_ids ?es s \<noteq> []" using that unfolding set_eager_pairs [OF src(1)] by auto
    then have "s < statecount src" using src(2) by (simp add: eager_marked_def)
    then show ?thesis using n by (simp add: state_add_def state_limit_def edge_state_limit_def)
  qed
  have new: "new_outputs ?g ?ps t = (if t < base then {} else set (eager_ids ?es (t - base)))" for t
  proof -
    have "(\<exists>s. (s, k) \<in> set ?ps \<and> ?g s = t) \<longleftrightarrow> base \<le> t \<and> (t - base, k) \<in> set ?ps" for k
      using g [of "t - base" k] g by auto
    then show ?thesis unfolding new_outputs_def set_eager_pairs [OF src(1)] by auto
  qed
  have small: "card (set (eager_ids ?eo t) \<union> new_outputs ?g ?ps t) < 2 ^ 31" for t
    using none len(1) [of "t - base"] len(2) [of t] card_length [of "eager_ids ?eo t"] card_length [of "eager_ids ?es (t - base)"]
    by (auto simp: new)
  have gs: "?g s < statecount dst" if "(s, k) \<in> set ?ps" for s k using g [OF that] n by simp
  obtain go dst' where run: "c_for (\<lambda>(s, k) (ok, dst, al). do { (ok, dst, al) \<leftarrow> fsm_eager_output_set al dst (?g s) k; Some (ok, ok, dst, al) })
      ?ps (True, dst, []) = Some (go, True, dst', [])" 
    and post: "same_graph dst dst'" "other_meta dst' = other_meta dst" "eager_inv (f_eager_output_info dst')" "eager_marked dst'"
      "\<forall>t. set (eager_ids (f_eager_output_info dst') t) = set (eager_ids ?eo t) \<union> new_outputs ?g ?ps t"
    by (rule wpE4 [OF eager_copy_loop_wp [where g = ?g, OF dst room gs small]]) auto
  have "copy_eager_output_ids [] dst src base = Some (True, dst', [])"
    unfolding copy_eager_output_ids_def
    by (subst eager_iter_all_pairs [OF src(1)]) (use src(2) run in \<open>auto simp: eager_marked_def\<close>)
  then show ?thesis using post none by (auto simp: merged_ids_def new)
qed

section \<open>Merging two automata\<close>

lemma meta_ok_none:
  assumes "meta_ok f"
  shows "\<forall>s \<ge> statecount f. endid_ids (f_endid_info f) s = []" and "\<forall>s \<ge> statecount f. eager_ids (f_eager_output_info f) s = []"
  using meta_ok_ids [OF assms] by (metis not_less)+

lemma merge_captures_wp:
  fixes spare :: "bool list"
  assumes wf: "fsm_wf dst" "fsm_wf src" and room: "merge_room dst src"
  defines "q \<equiv> append_states dst src spare" and "cap \<equiv> fsm_countcaptures (f_capture_info dst)"
    and "ci \<equiv> fsm_capture_rebase_capture_action_states (fsm_capture_rebase_capture_id (f_capture_info src)
      (fsm_countcaptures (f_capture_info dst))) (statecount dst)"
  shows "wp (copy_capture_actions [] q ci) (\<lambda>(ok, q', al'). ok \<and> al' = [] \<and> same_graph q q' \<and> id_meta q' = id_meta q \<and>
    capture_inv (f_capture_info q') \<and> capture_marked q' \<and>
    capture_set (f_capture_info q') = capture_set (f_capture_info dst) \<union> rebase_capture (statecount dst) cap ` capture_set (f_capture_info src))"
proof -
  let ?b = "statecount dst"
  have n: "?b + statecount src < 2 ^ 24" using room by (simp add: merge_room_def edge_state_limit_def)
  have nq: "statecount q = ?b + statecount src" and cq: "f_capture_info q = f_capture_info dst"
    by (simp_all add: q_def append_states_def)
  have cap_le: "cap \<le> ci_max (f_capture_info dst) + 1"
    by (simp add: cap_def fsm_countcaptures_def)
  have src: "s < statecount src \<and> (ca_to a = CAPTURE_NO_STATE \<or> ca_to a < statecount src) \<and> ca_id a \<le> ci_max (f_capture_info src)"
    if "(s, a) \<in> capture_set (f_capture_info src)" for s a
    using wf(2) that by (fastforce simp: fsm_wf_def capture_marked_def capture_inv_def)
  have "capture_set ci = rebase_capture ?b cap ` capture_set (f_capture_info src)"
    unfolding ci_def cap_def [symmetric]
  proof (rule capture_set_rebase)
    fix s a
    assume "(s, a) \<in> capture_set (f_capture_info src)"
    from src [OF this] show "s + ?b < CAPTURE_NO_STATE \<and> (ca_to a = CAPTURE_NO_STATE \<or> ca_to a + ?b < CAPTURE_NO_STATE) \<and> ca_id a + cap < 2 ^ 32"
      using n cap_le room by (auto simp: CAPTURE_NO_STATE_def merge_room_def)
  qed
  note set = this
  have mk: "capture_marked q"
  proof (rule capture_marked_more)
    show "capture_marked dst" using wf(1) by (simp add: fsm_wf_def)
  qed (simp_all add: q_def append_states_def nth_append)
  have ok: "s < statecount q \<and> (ca_to a = CAPTURE_NO_STATE \<or> ca_to a < statecount q)" if sa: "(s, a) \<in> capture_set ci" for s a
  proof -
    obtain x where x: "x \<in> capture_set (f_capture_info src)" "(s, a) = rebase_capture ?b cap x"
      using sa unfolding set by (rule imageE)
    obtain s' a' where "x = (s', a')" by (cases x)
    with x have *: "(s', a') \<in> capture_set (f_capture_info src)" "(s, a) = rebase_capture ?b cap (s', a')" by simp_all
    from src [OF *(1)] *(2) show ?thesis by (auto simp: rebase_capture_def nq)
  qed
  have "length (ci_buckets ci) = length (ci_buckets (f_capture_info src))"
    by (simp add: ci_def fsm_capture_rebase_capture_action_states_def fsm_capture_rebase_capture_id_def Let_def)
  then have room': "capture_room (f_capture_info q) (length (ci_buckets ci))" using room by (simp add: merge_room_def cq)
  have nn: "statecount q \<le> CAPTURE_NO_STATE" using n by (simp add: nq CAPTURE_NO_STATE_def)
  have inv: "capture_inv (f_capture_info q)" using wf(1) by (simp add: fsm_wf_def cq)
  show ?thesis
    using copy_capture_actions_wp [OF inv mk room' nn ok] unfolding set cq .
qed

lemma merge_wp:
  assumes wf: "fsm_wf dst" "fsm_wf src" and room: "merge_room dst src"
  shows "wp (merge [] dst src) (\<lambda>(r, al'). al' = [] \<and> (\<exists>q. r = Some (q, statecount dst, fsm_countcaptures (f_capture_info dst)) \<and>
    fsm_wf q \<and> statecount q = statecount dst + statecount src \<and>
    fsm_nfa q = merged_nfa (statecount dst) (fsm_nfa dst) (fsm_nfa src) \<and>
    merged_meta (statecount dst) (fsm_countcaptures (f_capture_info dst)) dst src q))"
proof -
  let ?b = "statecount dst" and ?cap = "fsm_countcaptures (f_capture_info dst)"
  define spare where "spare = (if statealloc dst < statecount src + statecount dst then [] else drop (statecount src) (f_spare dst))"
  define ci where "ci = fsm_capture_rebase_capture_action_states (fsm_capture_rebase_capture_id (f_capture_info src) ?cap) ?b"
  define src' where "src' = src\<lparr>f_states := map (rebase_fsm_state ?b) (f_states src), f_capture_info := ci\<rparr>"
  let ?q = "append_states dst src spare"
  have n: "?b + statecount src \<le> edge_state_limit" "?b < 2 ^ 32" using room by (simp_all add: merge_room_def edge_state_limit_def)
  have inv: "fsm_inv dst" "fsm_inv src" "fsm_tidy src" "fsm_tidy dst" "meta_ok dst" "meta_ok src" "eager_marked dst" "eager_marked src"
    using wf by (auto simp: fsm_wf_def)
  have pos: "0 < ?b + statecount src + length spare"
    using inv(1) by (auto simp: spare_def fsm_inv_def statealloc_def)
  note app = append_states_ok [OF inv(1-3) n(1) pos]
  have nq: "statecount ?q = ?b + statecount src" and iq: "f_endid_info ?q = f_endid_info dst" "f_eager_output_info ?q = f_eager_output_info dst"
    by (simp_all add: append_states_def)
  obtain q1 where r1: "copy_capture_actions [] ?q ci = Some (True, q1, [])" and q1: "same_graph ?q q1" "id_meta q1 = id_meta ?q"
      "capture_inv (f_capture_info q1)" "capture_marked q1"
      "capture_set (f_capture_info q1) = capture_set (f_capture_info dst) \<union> rebase_capture ?b ?cap ` capture_set (f_capture_info src)"
    by (rule wpE3 [OF merge_captures_wp [OF wf room, of spare], folded ci_def]) auto
  note i1 = id_meta_sel [OF q1(2), unfolded iq nq]
  have e1: "endid_inv (f_endid_info q1)" "\<forall>s \<ge> ?b. endid_ids (f_endid_info q1) s = []"
    "endid_room (f_endid_info q1) (length (en_buckets (f_endid_info src')))"
    using i1 inv(5) meta_ok_none(1) [OF inv(5)] room by (auto simp: meta_ok_def merge_room_def src'_def)
  have s1: "endid_inv (f_endid_info src')" "\<forall>b \<in> ht_live eb_key (en_buckets (f_endid_info src')). eb_state b < statecount src'"
    "?b + statecount src' \<le> edge_state_limit" "\<forall>s. length (endid_ids (f_endid_info src') s) \<le> 2 ^ 30"
    using inv(6) n room by (auto simp: meta_ok_def merge_room_def src'_def)
  obtain ei where r2: "merge_end_ids [] q1 src' ?b = Some (True, q1\<lparr>f_endid_info := ei\<rparr>, [])"
    and ei: "endid_inv ei" "endid_ids ei = merged_ids ?b (endid_ids (f_endid_info q1)) (endid_ids (f_endid_info src'))"
    by (rule wpE3 [OF merge_end_ids_wp [OF e1(1,2) s1(1-3) e1(3) s1(4)]]) auto
  let ?q2 = "q1\<lparr>f_endid_info := ei\<rparr>"
  have mk2: "eager_marked ?q2"
    using i1 by (intro eager_marked_more [OF inv(7)]) (auto simp: append_states_def nth_append)
  have mks: "eager_marked src'"
    using inv(8) by (auto simp: eager_marked_def src'_def rebase_fsm_state_def)
  have e2: "eager_inv (f_eager_output_info ?q2)" "\<forall>s \<ge> ?b. eager_ids (f_eager_output_info ?q2) s = []"
    "eager_inv (f_eager_output_info src')" "statecount ?q2 = ?b + statecount src'" "statecount ?q2 \<le> edge_state_limit"
    "eager_room (f_eager_output_info ?q2) (length (eager_pairs (f_eager_output_info src')))"
    "length (eager_ids (f_eager_output_info src') s) < 2 ^ 31" "length (eager_ids (f_eager_output_info ?q2) s) < 2 ^ 31" for s
    using i1 inv(5,6) meta_ok_none(2) [OF inv(5)] n room by (auto simp: meta_ok_def merge_room_def src'_def)
  obtain q3 where r3: "copy_eager_output_ids [] ?q2 src' ?b = Some (True, q3, [])" and q3: "same_graph ?q2 q3"
      "other_meta q3 = other_meta ?q2" "eager_inv (f_eager_output_info q3)" "eager_marked q3"
      "\<forall>s. set (eager_ids (f_eager_output_info q3) s) =
         set (merged_ids ?b (eager_ids (f_eager_output_info ?q2)) (eager_ids (f_eager_output_info src')) s)"
    by (rule wpE3 [OF copy_eager_output_ids_wp [OF e2(1) mk2 e2(2,3) mks e2(4-8)]]) auto
  note o3 = other_meta_sel [OF q3(2)]
  have g: "same_graph ?q q3" using same_graph_trans [OF q1(1) same_graph_trans [OF same_graph_tables(1) q3(1)]] .
  note g' = same_graph_sel [OF g]
  have fin: "statecount (fsm_clearstart f) = statecount f" "f_capture_info (fsm_clearstart f) = f_capture_info f"
    "f_endid_info (fsm_clearstart f) = f_endid_info f" "f_eager_output_info (fsm_clearstart f) = f_eager_output_info f"
    "f_states (fsm_clearstart f) = f_states f" for f
    by (simp_all add: fsm_clearstart_def)
  have ids: "endid_ids (f_endid_info q3) = merged_ids ?b (endid_ids (f_endid_info dst)) (endid_ids (f_endid_info src))"
    using o3 ei(2) i1 by (simp add: src'_def)
  have outs: "set (eager_ids (f_eager_output_info q3) s) =
      set (merged_ids ?b (eager_ids (f_eager_output_info dst)) (eager_ids (f_eager_output_info src)) s)" for s
    using q3(5) i1 by (simp add: src'_def)
  have "meta_ok q3"
  proof (rule meta_okI)
    show "endid_inv (f_endid_info q3)" using o3 ei(1) by simp
    show "eager_inv (f_eager_output_info q3)" by (rule q3(3))
    show "s < statecount q3" if "endid_ids (f_endid_info q3) s \<noteq> []" for s
      using that meta_ok_ids(1) [OF inv(6), of "s - ?b"] unfolding ids merged_ids_def g'(1) nq by (auto split: if_splits)
    show "s < statecount q3" if "eager_ids (f_eager_output_info q3) s \<noteq> []" for s
      using that q3(4) by (simp add: eager_marked_def)
  qed
  moreover have "capture_marked q3"
    using o3 by (intro capture_marked_more [OF q1(4)]) auto
  ultimately have "fsm_wf (fsm_clearstart q3)"
    using q1(3) q3(4) o3 g'(4) app(1,3) inv(4) same_graph_tidy [OF g] fsm_clearstart_nfa(1) [of q3]
    by (auto simp: fsm_wf_def fin meta_ok_def eager_marked_def capture_marked_def fsm_tidy_def)
  moreover have "fsm_nfa (fsm_clearstart q3) = merged_nfa ?b (fsm_nfa dst) (fsm_nfa src)"
    unfolding fsm_clearstart_nfa(2) g'(3) app(2) by (simp add: merged_nfa_def)
  moreover have "merged_meta ?b ?cap dst src (fsm_clearstart q3)"
    using ids outs q1(5) o3 by (simp add: merged_meta_def fin)
  moreover have "merge [] dst src = Some (Some (fsm_clearstart q3, ?b, ?cap), [])"
  proof -
    have b: "?b mod 2 ^ 32 = ?b" using n(2) by simp
    note runs = merge_def Let_def b spare_def ci_def src'_def append_states_def
    show ?thesis
      using r1 r2 r3 n(2) by (cases "statealloc dst < statecount src + ?b") (simp_all add: runs)
  qed
  ultimately show ?thesis using g'(1) nq by (simp add: fin)
qed

end
