(* ===== verification/Fsm_Combine.thy ===== *)
theory Fsm_Combine
  imports Fsm_Merge
begin

text \<open>
  The operations that put automata together: \<open>src/libfsm/clone.c\<close>, \<open>union.c\<close> and \<open>concat.c\<close>.
  The languages of the results are those of the automata put in, but for the end states of
  \<open>fsm_concat\<close>.
\<close>

section \<open>Copies\<close>

definition clone_state :: "fsm \<Rightarrow> nat \<Rightarrow> fsm \<times> alloc \<Rightarrow> (bool \<times> fsm \<times> alloc) option" where
  "clone_state f i = (\<lambda>(new, al).
     do { e \<leftarrow> fsm_isend f i;
          new \<leftarrow> (if e then fsm_setend new i 1 else Some new);
          (ok, eps, al) \<leftarrow> state_set_copy al (st_epsilons (f_states new ! i)) (st_epsilons (f_states f ! i));
          let new = upd_state new i (\<lambda>st. st\<lparr>st_epsilons := eps\<rparr>);
          if \<not> ok then Some (False, new, al)
          else do {
            (ok, es, al) \<leftarrow> edge_set_copy al (st_edges (f_states new ! i)) (st_edges (f_states f ! i));
            Some (ok, upd_state new i (\<lambda>st. st\<lparr>st_edges := es\<rparr>), al) } })"

definition clone_end_ids :: "alloc \<Rightarrow> fsm \<Rightarrow> fsm \<Rightarrow> (bool \<times> fsm \<times> alloc) option" where
  "clone_end_ids al dst src =
     fsm_endid_iter (f_endid_info src)
       (\<lambda>state k (ok, dst, al). do { (set, dst, al) \<leftarrow> set_endid al dst state k; Some (set, ok \<and> set, dst, al) })
       (True, dst, al)"

definition clone_eager_output_ids :: "alloc \<Rightarrow> fsm \<Rightarrow> fsm \<Rightarrow> (bool \<times> fsm \<times> alloc) option" where
  "clone_eager_output_ids al dst src =
     fsm_eager_output_iter_all (f_eager_output_info src) (\<lambda>s. st_has_eager_outputs (f_states src ! s))
       (\<lambda>state k (ok, dst, al). do { (ok, dst, al) \<leftarrow> fsm_eager_output_set al dst state k; Some (ok, ok, dst, al) })
       (True, dst, al)"

definition fsm_clone :: "alloc \<Rightarrow> fsm \<Rightarrow> (fsm option \<times> alloc) option" where
  "fsm_clone al f =
     do { (new, al) \<leftarrow> fsm_new_statealloc al (statecount f);
          case new of
            None \<Rightarrow> Some (None, al)
          | Some new \<Rightarrow>
              do { (ok, new, al) \<leftarrow> fsm_addstate_bulk al new (statecount f);
                   if \<not> ok then Some (None, al)
                   else do {
                     (ok, new, al) \<leftarrow> c_for (clone_state f) [0..<statecount f] (new, al);
                     if \<not> ok then Some (None, al)
                     else do {
                       start \<leftarrow> fsm_getstart f;
                       new \<leftarrow> (case start of None \<Rightarrow> Some new | Some s \<Rightarrow> fsm_setstart new s);
                       (ok, new, al) \<leftarrow> copy_capture_actions al new (f_capture_info f);
                       if \<not> ok then Some (None, al)
                       else do {
                         (ok, new, al) \<leftarrow> clone_end_ids al new f;
                         if \<not> ok then Some (None, al)
                         else do {
                           (ok, new, al) \<leftarrow> clone_eager_output_ids al new f;
                           Some (if ok then Some new else None, al) } } } } } }"

section \<open>Union and concatenation\<close>

text \<open>
  The allocator is the same for both automata. The inner \<open>None\<close> is the null pointer the C
  functions give on an error; where they assert that the merge gave a result, the outer
  \<open>None\<close>.
\<close>

definition no_combine_info :: fsm_combine_info where
  "no_combine_info = \<lparr>base_a = 0, base_b = 0, capture_base_a = 0, capture_base_b = 0\<rparr>"

definition fsm_union :: "alloc \<Rightarrow> fsm \<Rightarrow> fsm \<Rightarrow> ((fsm \<times> fsm_combine_info) option \<times> alloc) option" where
  "fsm_union al a b =
     (if statecount a = 0 then Some (Some (b, no_combine_info), al)
      else if statecount b = 0 then Some (Some (a, no_combine_info), al)
      else do {
        sa \<leftarrow> fsm_getstart a;
        sb \<leftarrow> (if sa = None then Some None else fsm_getstart b);
        case (sa, sb) of
          (Some sa, Some sb) \<Rightarrow>
            do { (r, al) \<leftarrow> fsm_merge al a b;
                 case r of
                   None \<Rightarrow> None
                 | Some (q, ci) \<Rightarrow>
                     do { let sa = state_add sa (base_a ci);
                          let sb = state_add sb (base_b ci);
                          (sq, q, al) \<leftarrow> fsm_addstate al q;
                          case sq of
                            None \<Rightarrow> Some (None, al)
                          | Some sq \<Rightarrow>
                              do { q \<leftarrow> fsm_setstart q sq;
                                   (ok, q, al) \<leftarrow> (if sq \<noteq> sa then fsm_addedge_epsilon al q sq sa else Some (True, q, al));
                                   if \<not> ok then Some (None, al)
                                   else do {
                                     (ok, q, al) \<leftarrow> (if sq \<noteq> sb then fsm_addedge_epsilon al q sq sb else Some (True, q, al));
                                     Some (if ok then Some (q, ci) else None, al) } } } }
        | _ \<Rightarrow> Some (None, al) })"

text \<open>
  \<open>fsm_union_array\<close> with \<open>bases\<close>. When a union fails, the loop that releases the rest starts with
  the automaton just consumed, whose pointer is null by then: an assertion fails.
\<close>

record fsm_combined_base_pair =
  bp_state :: fsm_state_t
  bp_capture :: nat

definition shift_base :: "fsm_combine_info \<Rightarrow> fsm_combined_base_pair \<Rightarrow> fsm_combined_base_pair" where
  "shift_base ci b = b\<lparr>bp_state := state_add (bp_state b) (base_a ci),
     bp_capture := (bp_capture b + capture_base_a ci) mod 2 ^ 32\<rparr>"

fun union_array_loop ::
  "fsm list \<Rightarrow> fsm \<Rightarrow> fsm_combined_base_pair list \<Rightarrow> alloc \<Rightarrow> (fsm \<times> fsm_combined_base_pair list \<times> alloc) option" where
  "union_array_loop [] res bases al = Some (res, bases, al)"
| "union_array_loop (f # fs) res bases al =
     do { (r, al) \<leftarrow> fsm_union al res f;
          case r of
            None \<Rightarrow> None
          | Some (q, ci) \<Rightarrow>
              union_array_loop fs q
                ((if capture_base_a ci > 0 then map (shift_base ci) bases else bases) @
                 [\<lparr>bp_state = base_b ci, bp_capture = capture_base_b ci\<rparr>]) al }"

definition fsm_union_array ::
  "alloc \<Rightarrow> fsm list \<Rightarrow> (fsm \<times> fsm_combined_base_pair list \<times> alloc) option" where
  "fsm_union_array al fsms =
     (case fsms of
        [] \<Rightarrow> None
      | f # fs \<Rightarrow> union_array_loop fs f [\<lparr>bp_state = 0, bp_capture = 0\<rparr>] al)"

text \<open>The information on how the automata were combined is left alone when one of them is empty.\<close>

definition fsm_concat :: "alloc \<Rightarrow> fsm \<Rightarrow> fsm \<Rightarrow> ((fsm \<times> fsm_combine_info option) option \<times> alloc) option" where
  "fsm_concat al a b =
     (if statecount a = 0 then Some (Some (b, None), al)
      else if statecount b = 0 then Some (Some (a, None), al)
      else do {
        e \<leftarrow> fsm_has a fsm_isend;
        if \<not> e then Some (None, al)
        else do {
          sq \<leftarrow> fsm_getstart a;
          sb \<leftarrow> (if sq = None then Some None else fsm_getstart b);
          case (sq, sb) of
            (Some sq, Some sb) \<Rightarrow>
              do { (ea, a, al) \<leftarrow> fsm_collate al a fsm_isend;
                   case ea of
                     None \<Rightarrow> Some (None, al)
                   | Some ea \<Rightarrow>
                       do { a \<leftarrow> fsm_setend a ea 1;
                            (r, al) \<leftarrow> fsm_merge al a b;
                            case r of
                              None \<Rightarrow> None
                            | Some (q, ci) \<Rightarrow>
                                do { let sq = state_add sq (base_a ci);
                                     let ea = state_add ea (base_a ci);
                                     let sb = state_add sb (base_b ci);
                                     q \<leftarrow> fsm_setend q ea 0;
                                     (ok, q, al) \<leftarrow> fsm_addedge_epsilon al q ea sb;
                                     if \<not> ok then Some (None, al)
                                     else do { q \<leftarrow> fsm_setstart q sq; Some (Some (q, Some ci), al) } } } }
          | _ \<Rightarrow> Some (None, al) } })"

section \<open>Operations that keep the tables\<close>

text \<open>
  \<open>f'\<close> has the tables of \<open>f\<close>, perhaps more states, and the flags of the states of \<open>f\<close>; no edge
  group is left without symbols.
\<close>

definition extends :: "fsm \<Rightarrow> fsm \<Rightarrow> bool" where
  "extends f f' \<longleftrightarrow> statecount f \<le> statecount f' \<and> fsm_meta f' = fsm_meta f \<and> (fsm_tidy f \<longrightarrow> fsm_tidy f') \<and>
     (\<forall>i < statecount f. st_has_capture_actions (f_states f' ! i) = st_has_capture_actions (f_states f ! i) \<and>
        st_has_eager_outputs (f_states f' ! i) = st_has_eager_outputs (f_states f ! i))"

lemma extends_refl [simp]: "extends f f"
  by (simp add: extends_def)

lemma extends_trans: "extends f g \<Longrightarrow> extends g h \<Longrightarrow> extends f h"
  by (auto simp: extends_def)

lemma extends_wf: "fsm_wf f \<Longrightarrow> fsm_inv f' \<Longrightarrow> extends f f' \<Longrightarrow> fsm_wf f'"
proof -
  assume wf: "fsm_wf f" and inv: "fsm_inv f'" and ext: "extends f f'"
  have n: "statecount f \<le> statecount f'" and t: "f_capture_info f' = f_capture_info f" "f_endid_info f' = f_endid_info f"
    "f_eager_output_info f' = f_eager_output_info f" and tidy: "fsm_tidy f'"
    using wf ext by (auto simp: extends_def fsm_meta_def fsm_wf_def)
  have "meta_ok f'" using wf n t by (fastforce simp: fsm_wf_def meta_ok_def)
  moreover have "eager_marked f'"
    by (rule eager_marked_more [of f]) (use wf n t ext in \<open>auto simp: fsm_wf_def extends_def\<close>)
  moreover have "capture_marked f'"
    by (rule capture_marked_more [of f]) (use wf n t ext in \<open>auto simp: fsm_wf_def extends_def\<close>)
  ultimately show ?thesis using wf inv t tidy by (simp add: fsm_wf_def)
qed

lemma extends_upd:
  assumes "st_has_capture_actions (g (f_states f ! s)) = st_has_capture_actions (f_states f ! s)"
    and "st_has_eager_outputs (g (f_states f ! s)) = st_has_eager_outputs (f_states f ! s)"
    and "s < statecount f \<Longrightarrow> es_tos (st_edges (f_states f ! s)) \<subseteq> snd ` es_edges (st_edges (f_states f ! s)) \<Longrightarrow>
      es_tos (st_edges (g (f_states f ! s))) \<subseteq> snd ` es_edges (st_edges (g (f_states f ! s)))"
  shows "extends f (upd_state f s g)"
proof -
  have "fsm_tidy (upd_state f s g)" if "fsm_tidy f"
    using that assms(3) unfolding fsm_tidy_def upd_state_def
    by (cases "s < statecount f") (auto simp: list_update_beyond dest!: subsetD [OF set_update_subset_insert])
  moreover have "st_has_capture_actions (f_states (upd_state f s g) ! i) = st_has_capture_actions (f_states f ! i) \<and>
      st_has_eager_outputs (f_states (upd_state f s g) ! i) = st_has_eager_outputs (f_states f ! i)" if "i < statecount f" for i
    using that assms by (cases "i = s") (auto simp: upd_state_def)
  ultimately show ?thesis by (simp add: extends_def fsm_meta_def) (simp add: upd_state_def)
qed

lemma extends_fields:
  "f_states f' = f_states f \<Longrightarrow> fsm_meta f' = fsm_meta f \<Longrightarrow> extends f f'"
  by (simp add: extends_def fsm_tidy_def)

lemma fsm_setstart_extends: "fsm_setstart f s = Some f' \<Longrightarrow> extends f f'"
  by (auto simp: fsm_setstart_def c_assert_def fsm_meta_def split: if_splits intro!: extends_fields)

lemma fsm_setend_extends: "fsm_setend f s e = Some f' \<Longrightarrow> extends f f'"
proof -
  have "extends f ((upd_state f s (\<lambda>st. st\<lparr>st_end := b\<rparr>))\<lparr>f_endcount := k\<rparr>)" for b k
    by (rule extends_trans [OF extends_upd extends_fields]) (simp_all add: fsm_meta_def)
  then show "fsm_setend f s e = Some f' \<Longrightarrow> extends f f'"
    by (auto simp: fsm_setend_def c_assert_def split: if_splits)
qed

lemma fsm_addstate_extends: "fsm_addstate al f = Some (r, f', al') \<Longrightarrow> extends f f'"
proof -
  have "extends f (f\<lparr>f_states := f_states f @ [new_state flag], f_spare := spare\<rparr>)" for flag spare
    by (auto simp: extends_def fsm_meta_def fsm_tidy_def new_state_def nth_append)
  then show "fsm_addstate al f = Some (r, f', al') \<Longrightarrow> extends f f'"
    by (auto simp: fsm_addstate_def Let_def split: if_splits list.splits prod.splits)
qed

lemma fsm_addedge_epsilon_extends: "fsm_addedge_epsilon al f s t = Some (ok, f', al') \<Longrightarrow> extends f f'"
  by (auto simp: fsm_addedge_epsilon_def c_assert_def intro!: extends_upd split: if_splits bind_splits)

lemma fsm_addedge_literal_extends:
  assumes "fsm_inv f" and run: "fsm_addedge_literal al f s t c = Some (ok, f', al')"
  shows "extends f f'"
proof -
  have st: "s < statecount f" "t < statecount f" using run by (auto simp: fsm_addedge_literal_def c_assert_def split: if_splits)
  have "es_inv (st_edges (f_states f ! s))" "t < state_limit"
    using fsm_inv_state [OF assms(1) st(1)] fsm_inv_limits(3) [OF assms(1) st(2)] by (auto simp: state_ok_def)
  from edge_set_add_wp [OF this, of al c] obtain ok' es al''
    where add: "edge_set_add al (st_edges (f_states f ! s)) c t = Some (ok', es, al'')"
    and post: "es_added al (st_edges (f_states f ! s)) {c} t (ok', es, al'')"
    by (rule wpE3)
  have "f' = upd_state f s (\<lambda>st. st\<lparr>st_edges := es\<rparr>)" using run add st by (simp add: fsm_addedge_literal_def c_assert_def)
  moreover have "es_tos es \<subseteq> snd ` es_edges es" if "es_tos (st_edges (f_states f ! s)) \<subseteq> snd ` es_edges (st_edges (f_states f ! s))"
    using that post by (auto simp: es_added_def split: if_splits)
  ultimately show ?thesis using extends_upd [of "\<lambda>st. st\<lparr>st_edges := es\<rparr>" f s] by simp
qed

lemma c_for_extends:
  assumes "c_for body xs (f, al) = Some (ok, f', al')"
    and "\<And>x f al ok f' al'. body x (f, al) = Some (ok, f', al') \<Longrightarrow> extends f f'"
  shows "extends f f'"
proof -
  have "case (f', al') of (g, _) \<Rightarrow> extends f g"
    by (rule c_for_inv [OF assms(1)]) (auto dest: assms(2) intro: extends_trans)
  then show ?thesis by simp
qed

lemma fsm_collate_extends: "fsm_collate al f p = Some (r, f', al') \<Longrightarrow> extends f f'"
proof -
  assume run: "fsm_collate al f p = Some (r, f', al')"
  have loop: "extends g g'" if "c_for (\<lambda>i (f, al). if i = new then Some (True, f, al)
      else do { b \<leftarrow> p f i; if \<not> b then Some (True, f, al) else fsm_addedge_epsilon al f i new }) xs (g, al) = Some (ok, g', al')"
    for g g' xs new al ok al'
    by (rule c_for_extends [OF that]) (auto split: if_splits bind_splits dest: fsm_addedge_epsilon_extends)
  show ?thesis
    using run unfolding fsm_collate_def
    by (auto split: if_splits bind_splits option.splits dest!: fsm_addstate_extends loop dest: extends_trans)
qed

section \<open>One automaton inside another\<close>

text \<open>The states of \<open>f\<close> are those of \<open>q\<close> from \<open>base\<close> on: with the same edges, ends, ids and outputs.\<close>

definition embedded :: "fsm \<Rightarrow> nat \<Rightarrow> fsm \<Rightarrow> bool" where
  "embedded f base q \<longleftrightarrow> (\<forall>s < statecount f. s + base < statecount q \<and>
     (\<forall>l t. fsm_step q (s + base) l t \<longleftrightarrow> base \<le> t \<and> fsm_step f s l (t - base)) \<and>
     n_end (fsm_nfa q) (s + base) = n_end (fsm_nfa f) s \<and>
     endid_ids (f_endid_info q) (s + base) = endid_ids (f_endid_info f) s \<and>
     set (eager_ids (f_eager_output_info q) (s + base)) = set (eager_ids (f_eager_output_info f) s))"

lemma embedded_lang_from:
  assumes emb: "embedded f base q" and inv: "fsm_inv f" and s: "s < statecount f"
  shows "lang_from (fsm_nfa q) (s + base) = lang_from (fsm_nfa f) s"
proof (rule lang_from_embed [where f = "\<lambda>s. s + base" and S = "{..<statecount f}"])
  show "s \<in> {..<statecount f}" using s by simp
  fix s l t
  assume s: "s \<in> {..<statecount f}"
  show "n_end (fsm_nfa q) (s + base) = n_end (fsm_nfa f) s" using s emb by (simp add: embedded_def)
  have st: "n_step (fsm_nfa q) (s + base) l t \<longleftrightarrow> base \<le> t \<and> fsm_step f s l (t - base)" for t
    using emb s by (simp add: embedded_def fsm_nfa_def)
  show "t \<in> {..<statecount f} \<and> n_step (fsm_nfa q) (s + base) l (t + base)" if "n_step (fsm_nfa f) s l t"
    using that fsm_step_bounds(2) [OF inv] st by (simp add: fsm_nfa_def)
  show "\<exists>u \<in> {..<statecount f}. t = u + base \<and> n_step (fsm_nfa f) s l u" if "n_step (fsm_nfa q) (s + base) l t"
    using that fsm_step_bounds(2) [OF inv] unfolding st by (intro bexI [of _ "t - base"]) (auto simp: fsm_nfa_def)
qed

text \<open>The result of \<open>fsm_merge\<close>: both automata, side by side, and no start state.\<close>

definition merged :: "fsm \<Rightarrow> fsm \<Rightarrow> fsm \<Rightarrow> fsm_combine_info \<Rightarrow> bool" where
  "merged a b q ci \<longleftrightarrow> fsm_wf q \<and> statecount q = statecount a + statecount b \<and> \<not> f_hasstart q \<and>
     embedded a (base_a ci) q \<and> embedded b (base_b ci) q \<and>
     (base_a ci = 0 \<and> base_b ci = statecount a \<or> base_b ci = 0 \<and> base_a ci = statecount b) \<and>
     capture_set (f_capture_info q) = rebase_capture (base_a ci) (capture_base_a ci) ` capture_set (f_capture_info a) \<union>
       rebase_capture (base_b ci) (capture_base_b ci) ` capture_set (f_capture_info b)"

lemma rebase_capture_0: "rebase_capture 0 0 = (\<lambda>x. x)"
  by (auto simp: rebase_capture_def fun_eq_iff)

lemma fsm_merge_wp:
  assumes wf: "fsm_wf a" "fsm_wf b" and room: "merge_room a b" "merge_room b a"
  shows "wp (fsm_merge [] a b) (\<lambda>(r, al'). al' = [] \<and> (\<exists>q ci. r = Some (q, ci) \<and> merged a b q ci))"
proof -
  have emb: "embedded dst 0 q \<and> embedded src (statecount dst) q \<and> \<not> f_hasstart q"
    if "fsm_inv dst" "statecount q = statecount dst + statecount src" "fsm_nfa q = merged_nfa (statecount dst) (fsm_nfa dst) (fsm_nfa src)"
      "merged_meta (statecount dst) cap dst src q" for dst src q cap
  proof -
    have step: "fsm_step q s l t = (if s < statecount dst then fsm_step dst s l t
        else statecount dst \<le> t \<and> fsm_step src (s - statecount dst) l (t - statecount dst))" for s l t
      using arg_cong [OF that(3), of "\<lambda>A. n_step A s l t"] by (simp add: fsm_nfa_def merged_nfa_def)
    have "n_end (fsm_nfa q) s = (if s < statecount dst then n_end (fsm_nfa dst) s else n_end (fsm_nfa src) (s - statecount dst))" for s
      unfolding that(3) by (simp add: merged_nfa_def)
    moreover have "n_start (fsm_nfa q) = None" unfolding that(3) by (simp add: merged_nfa_def)
    ultimately show ?thesis
      using that(2,4) step by (auto simp: embedded_def merged_meta_def merged_ids_def fsm_nfa_def split: if_splits)
  qed
  have inv: "fsm_inv a" "fsm_inv b" using wf by (auto simp: fsm_wf_def)
  show ?thesis
  proof (cases "statealloc a > statealloc b \<or> statealloc a = statealloc b \<and> statecount a \<ge> statecount b")
    case True
    obtain q where run: "merge [] a b = Some (Some (q, statecount a, fsm_countcaptures (f_capture_info a)), [])"
      and q: "fsm_wf q" "statecount q = statecount a + statecount b" "fsm_nfa q = merged_nfa (statecount a) (fsm_nfa a) (fsm_nfa b)"
        "merged_meta (statecount a) (fsm_countcaptures (f_capture_info a)) a b q"
      by (rule wpE2 [OF merge_wp [OF wf room(1)]]) auto
    show ?thesis
      using True q emb [OF inv(1) q(2-4)] by (simp add: fsm_merge_def run merged_def merged_meta_def rebase_capture_0)
  next
    case False
    obtain q where run: "merge [] b a = Some (Some (q, statecount b, fsm_countcaptures (f_capture_info b)), [])"
      and q: "fsm_wf q" "statecount q = statecount b + statecount a" "fsm_nfa q = merged_nfa (statecount b) (fsm_nfa b) (fsm_nfa a)"
        "merged_meta (statecount b) (fsm_countcaptures (f_capture_info b)) b a q"
      by (rule wpE2 [OF merge_wp [OF wf(2,1) room(2)]]) auto
    show ?thesis
      unfolding fsm_merge_def if_not_P [OF False] using q emb [OF inv(2) q(2-4)]
      by (simp add: run merged_def merged_meta_def rebase_capture_0 Un_commute)
  qed
qed

text \<open>A new start state with epsilon edges to two others.\<close>

lemma union_lang:
  assumes ne: "\<not> n_end A q" and no: "\<And>l t. \<not> n_step A q l t" and "s \<noteq> q" "t \<noteq> q"
    and into: "\<And>s l. \<not> n_step A s l q"
  shows "language (add_step q None t (add_step q None s (A\<lparr>n_start := Some q\<rparr>))) = lang_from A s \<union> lang_from A t"
proof -
  let ?B = "add_step q None t (add_step q None s (A\<lparr>n_start := Some q\<rparr>))"
  have old: "lang_from ?B r = lang_from A r" if "r \<noteq> q" for r
    by (rule lang_from_within [where S = "- {q}"]) (use that into in \<open>auto simp: add_step_def\<close>)
  have "w \<in> lang_from ?B q \<longleftrightarrow> w \<in> lang_from A s \<union> lang_from A t" for w
    using lang_from_iff [of w ?B q] ne no assms(3,4) old by (auto simp: add_step_def)
  then show ?thesis by (auto simp: language_lang_from) (simp_all add: add_step_def language_lang_from)
qed

lemma n_step_fsm: "n_step (fsm_nfa f) = fsm_step f"
  by (simp add: fsm_nfa_def)

lemma embedded_more:
  assumes "embedded f base q" and "statecount q \<le> statecount q'" and "fsm_meta q' = fsm_meta q"
    and "\<And>s l t. s < statecount q \<Longrightarrow> fsm_step q' s l t = fsm_step q s l t"
    and "\<And>s. s < statecount q \<Longrightarrow> n_end (fsm_nfa q') s = n_end (fsm_nfa q) s"
  shows "embedded f base q'"
  using assms unfolding embedded_def by (fastforce simp: fsm_meta_def)

lemma language_no_states: "fsm_inv f \<Longrightarrow> statecount f = 0 \<Longrightarrow> fsm_language f = {}"
  by (auto simp: fsm_language_def language_def fsm_nfa_def fsm_inv_def)

lemma fsm_language_start: "f_hasstart f \<Longrightarrow> fsm_language f = lang_from (fsm_nfa f) (f_start f)"
  by (simp add: fsm_language_def language_lang_from fsm_nfa_def)

lemma fsm_union_wp:
  assumes wf: "fsm_wf a" "fsm_wf b" and room: "merge_room a b" "merge_room b a"
  shows "wp (fsm_union [] a b) (\<lambda>(r, al'). al' = [] \<and>
    (case r of
       None \<Rightarrow> statecount a \<noteq> 0 \<and> statecount b \<noteq> 0 \<and> (\<not> f_hasstart a \<or> \<not> f_hasstart b)
     | Some (q, ci) \<Rightarrow> fsm_wf q \<and> fsm_language q = fsm_language a \<union> fsm_language b \<and>
         (statecount a \<noteq> 0 \<and> statecount b \<noteq> 0 \<longrightarrow> statecount q = statecount a + statecount b + 1 \<and>
           embedded a (base_a ci) q \<and> embedded b (base_b ci) q)))"
proof -
  have inv: "fsm_inv a" "fsm_inv b" using wf by (auto simp: fsm_wf_def)
  consider "statecount a = 0" | "statecount a \<noteq> 0" "statecount b = 0" 
    | "statecount a \<noteq> 0" "statecount b \<noteq> 0" "\<not> f_hasstart a \<or> \<not> f_hasstart b"
    | "statecount a \<noteq> 0" "statecount b \<noteq> 0" "f_hasstart a" "f_hasstart b" by blast
  then show ?thesis
  proof cases
    case 1
    then show ?thesis using wf language_no_states [OF inv(1)] by (simp add: fsm_union_def)
  next
    case 2
    then show ?thesis using wf language_no_states [OF inv(2)] by (simp add: fsm_union_def)
  next
    case 3
    then show ?thesis using inv by (auto simp: fsm_union_def fsm_getstart_wp, auto simp: fsm_nfa_def)
  next
    case 4
    let ?n = "statecount a + statecount b"
    obtain q ci where m: "fsm_merge [] a b = Some (Some (q, ci), [])" and q: "merged a b q ci"
      by (rule wpE2 [OF fsm_merge_wp [OF wf room]]) auto
    have qinv: "fsm_inv q" "fsm_wf q" "\<not> f_hasstart q" and n: "statecount q = ?n" and lim: "?n < edge_state_limit"
      and emb: "embedded a (base_a ci) q" "embedded b (base_b ci) q"
      using q room by (auto simp: merged_def fsm_wf_def merge_room_def)
    let ?sa = "f_start a + base_a ci" and ?sb = "f_start b + base_b ci"
    have st: "f_start a < statecount a" "f_start b < statecount b" using inv 4 by (auto simp: fsm_inv_def)
    have s: "?sa < ?n" "?sb < ?n" using emb st n by (auto simp: embedded_def)
    have add: "state_add (f_start a) (base_a ci) = ?sa" "state_add (f_start b) (base_b ci) = ?sb"
      using s lim by (auto simp: state_add_def edge_state_limit_def state_limit_def)
    obtain q1 where r1: "fsm_addstate [] q = Some (Some ?n, q1, [])" and q1: "fsm_inv q1" "fsm_nfa q1 = fsm_nfa q"
      "statecount q1 = ?n + 1"
      by (rule wpE3 [OF fsm_addstate_wp [OF qinv(1), of "[]"]]) (use lim n in auto)
    obtain q2 where r2: "fsm_setstart q1 ?n = Some q2" and q2: "fsm_inv q2" "fsm_nfa q2 = (fsm_nfa q1)\<lparr>n_start := Some ?n\<rparr>"
      "statecount q2 = ?n + 1"
      by (rule wpE [OF fsm_setstart_wp [OF q1(1), of ?n]]) (use q1(3) in auto)
    obtain q3 where r3: "fsm_addedge_epsilon [] q2 ?n ?sa = Some (True, q3, [])" and q3: "fsm_inv q3"
      "fsm_nfa q3 = add_step ?n None ?sa (fsm_nfa q2)" "statecount q3 = ?n + 1"
      by (rule wpE3 [OF fsm_addedge_epsilon_wp [OF q2(1), of ?n ?sa "[]"]]) (use q2(3) s in auto)
    obtain q4 where r4: "fsm_addedge_epsilon [] q3 ?n ?sb = Some (True, q4, [])" and q4: "fsm_inv q4"
      "fsm_nfa q4 = add_step ?n None ?sb (fsm_nfa q3)" "statecount q4 = ?n + 1"
      by (rule wpE3 [OF fsm_addedge_epsilon_wp [OF q3(1), of ?n ?sb "[]"]]) (use q3(3) s in auto)
    have gs: "fsm_getstart a = Some (Some (f_start a))" "fsm_getstart b = Some (Some (f_start b))"
      using inv 4 by (simp_all add: fsm_getstart_wp fsm_nfa_def)
    have run: "fsm_union [] a b = Some (Some (q4, ci), [])"
      using 4(1,2) s by (simp add: fsm_union_def gs m r1 r2 r3 r4 add)
    have nfa: "fsm_nfa q4 = add_step ?n None ?sb (add_step ?n None ?sa ((fsm_nfa q)\<lparr>n_start := Some ?n\<rparr>))"
      by (simp add: q4(2) q3(2) q2(2) q1(2))
    have ext: "extends q q4"
      using fsm_addstate_extends [OF r1] fsm_setstart_extends [OF r2] fsm_addedge_epsilon_extends [OF r3]
        fsm_addedge_epsilon_extends [OF r4] by (blast intro: extends_trans)
    have steps: "n_step (fsm_nfa q) s l t \<Longrightarrow> s < ?n \<and> t < ?n" for s l t
      using fsm_step_bounds [OF qinv(1)] by (simp add: fsm_nfa_def n)
    have "fsm_language q4 = lang_from (fsm_nfa q) ?sa \<union> lang_from (fsm_nfa q) ?sb"
      unfolding fsm_language_def nfa
    proof (rule union_lang)
      show "\<not> n_end (fsm_nfa q) ?n" by (simp add: fsm_nfa_def n)
    qed (use s steps in fastforce)+
    also have "\<dots> = fsm_language a \<union> fsm_language b"
      using embedded_lang_from [OF emb(1) inv(1) st(1)] embedded_lang_from [OF emb(2) inv(2) st(2)] 4
      by (simp add: fsm_language_start)
    finally have lang: "fsm_language q4 = fsm_language a \<union> fsm_language b" .
    have same: "fsm_step q4 s l t = fsm_step q s l t" "n_end (fsm_nfa q4) s = n_end (fsm_nfa q) s" if "s < statecount q" for s l t
      using that n unfolding n_step_fsm [symmetric] nfa by (simp_all add: add_step_def)
    have meta: "fsm_meta q4 = fsm_meta q" "statecount q \<le> statecount q4" using ext by (auto simp: extends_def)
    show ?thesis
      using extends_wf [OF qinv(2) q4(1) ext] lang q4(3) embedded_more [OF emb(1) meta(2,1) same]
        embedded_more [OF emb(2) meta(2,1) same] by (simp add: run)
  qed
qed

section \<open>Concatenation\<close>

lemma merge_room_meta:
  assumes "merge_room a b" "fsm_meta a' = fsm_meta a" "statecount a' + statecount b < edge_state_limit"
  shows "merge_room a' b"
  using assms by (simp add: merge_room_def fsm_meta_def)

lemma merge_room_meta':
  assumes "merge_room b a" "fsm_meta a' = fsm_meta a" "statecount a' + statecount b < edge_state_limit"
  shows "merge_room b a'"
  using assms by (simp add: merge_room_def fsm_meta_def add.commute)

lemma lang_from_single: "lang_from (A\<lparr>n_end := (\<lambda>x. x = t)\<rparr>) s = {w. run (n_step A) s w t}"
  by (auto simp: lang_from_def)

lemma embedded_run:
  assumes emb: "embedded f base q" and inv: "fsm_inv f" and s: "s < statecount f"
  shows "run (fsm_step q) (s + base) w (t + base) \<longleftrightarrow> run (fsm_step f) s w t"
proof -
  let ?Q = "(fsm_nfa q)\<lparr>n_end := (\<lambda>x. x = t + base)\<rparr>" and ?F = "(fsm_nfa f)\<lparr>n_end := (\<lambda>x. x = t)\<rparr>"
  have "lang_from ?Q (s + base) = lang_from ?F s"
  proof (rule lang_from_embed [where f = "\<lambda>s. s + base" and S = "{..<statecount f}"])
    fix s l t
    assume "s \<in> {..<statecount f}"
    then have st: "fsm_step q (s + base) l t \<longleftrightarrow> base \<le> t \<and> fsm_step f s l (t - base)" for t
      using emb by (simp add: embedded_def)
    show "t \<in> {..<statecount f} \<and> n_step ?Q (s + base) l (t + base)" if "n_step ?F s l t"
      using that fsm_step_bounds(2) [OF inv] st by (simp add: n_step_fsm)
    show "\<exists>u \<in> {..<statecount f}. t = u + base \<and> n_step ?F s l u" if "n_step ?Q (s + base) l t"
      using that fsm_step_bounds(2) [OF inv] st by (intro bexI [of _ "t - base"]) (auto simp: n_step_fsm)
  qed (use s in auto)
  then show ?thesis unfolding lang_from_single n_step_fsm by blast
qed

text \<open>
  An automaton of two parts, with a step from \<open>e\<close> of the first, no longer an end, to \<open>r\<close> of the
  second.
\<close>

lemma bridge_lang:
  assumes SA: "\<And>s l t. s \<in> SA \<Longrightarrow> n_step A s l t \<Longrightarrow> t \<in> SA" and SB: "\<And>s l t. s \<in> SB \<Longrightarrow> n_step A s l t \<Longrightarrow> t \<in> SB"
    and disj: "SA \<inter> SB = {}" and s: "s \<in> SA" "e \<in> SA" "r \<in> SB"
  shows "lang_from (add_step e None r (A\<lparr>n_end := (n_end A)(e := False)\<rparr>)) s =
    {w. \<exists>t. run (n_step A) s w t \<and> n_end A t \<and> t \<noteq> e} \<union> {u @ v | u v. run (n_step A) s u e \<and> v \<in> lang_from A r}"
proof -
  let ?A = "A\<lparr>n_end := (n_end A)(e := False)\<rparr>"
  let ?B = "add_step e None r ?A"
  have rB: "lang_from ?B r = lang_from A r"
    by (rule lang_from_within [where S = SB]) (use SB disj s in \<open>auto simp: add_step_def\<close>)
  have mono: "run (n_step A) s u t \<Longrightarrow> run (n_step ?B) s u t" for s u t
    by (erule run_mono) (simp add: add_step_def)
  have "run (n_step A) s w t \<or> (\<exists>u v. w = u @ v \<and> run (n_step A) s u e \<and> run (n_step ?B) r v t)"
    if "run (n_step ?B) s w t" "s \<in> SA" for s w t
    using that
  proof (induction rule: run.induct)
    case (run_refl s)
    then show ?case by (auto intro: run.intros)
  next
    case (run_eps s t w u)
    show ?case
    proof (cases "n_step A s None t")
      case True
      then have "t \<in> SA" using SA run_eps.prems by blast
      with run_eps.IH True show ?thesis by (blast intro: run.run_eps)
    next
      case False
      then have "s = e" "t = r" using run_eps.hyps(1) by (auto simp: add_step_def)
      then show ?thesis using run_eps.hyps(2) run.run_refl [of "n_step A" e] by (metis append_Nil)
    qed
  next
    case (run_sym s c t w u)
    then have st: "n_step A s (Some c) t" "t \<in> SA" using SA by (auto simp: add_step_def)
    from run_sym.IH [OF st(2)] show ?case
      using run.run_sym [of "n_step A" s c t, OF st(1)] by (metis append_Cons)
  qed
  note fwd = this
  show ?thesis
  proof (intro set_eqI iffI)
    fix w assume "w \<in> lang_from ?B s"
    then obtain t where t: "run (n_step ?B) s w t" "n_end ?B t" by (auto simp: lang_from_def)
    from fwd [OF t(1) s(1)] consider "run (n_step A) s w t"
      | u v where "w = u @ v" "run (n_step A) s u e" "run (n_step ?B) r v t" by blast
    then show "w \<in> {w. \<exists>t. run (n_step A) s w t \<and> n_end A t \<and> t \<noteq> e} \<union> {u @ v | u v. run (n_step A) s u e \<and> v \<in> lang_from A r}"
    proof cases
      case 1
      then show ?thesis using t(2) by (auto simp: add_step_def split: if_splits)
    next
      case 2
      then have "v \<in> lang_from ?B r" using t(2) by (auto simp: lang_from_def)
      then show ?thesis using 2 unfolding rB by blast
    qed
  next
    fix w assume "w \<in> {w. \<exists>t. run (n_step A) s w t \<and> n_end A t \<and> t \<noteq> e} \<union> {u @ v | u v. run (n_step A) s u e \<and> v \<in> lang_from A r}"
    then consider t where "run (n_step A) s w t" "n_end A t" "t \<noteq> e"
      | u v where "w = u @ v" "run (n_step A) s u e" "v \<in> lang_from ?B r" unfolding rB by blast
    then show "w \<in> lang_from ?B s"
    proof cases
      case 1
      then show ?thesis using mono by (force simp: lang_from_def add_step_def)
    next
      case 2
      have "run (n_step ?B) e [] r" by (rule run_step_eps) (simp add: add_step_def)
      moreover obtain x where x: "run (n_step ?B) r v x" "n_end ?B x" using 2(3) by (auto simp: lang_from_def)
      ultimately have "run (n_step ?B) s w x"
        using run_trans [OF mono [OF 2(2)] run_trans [of _ e "[]" r v x]] by (simp add: 2(1))
      then show ?thesis using x(2) by (auto simp: lang_from_def)
    qed
  qed
qed

text \<open>The runs of an automaton whose ends are joined in a new state.\<close>

lemma join_ends_runs:
  assumes "\<And>s l t. n_step A s l t \<Longrightarrow> s \<noteq> e \<and> t \<noteq> e" and "\<not> n_end A e" and "s \<noteq> e"
  shows "run (n_step (join_ends e A)) s w t \<longleftrightarrow> (if t = e then w \<in> lang_from A s else run (n_step A) s w t)"
proof -
  let ?J = "n_step (join_ends e A)"
  have mono: "run (n_step A) s w t \<Longrightarrow> run ?J s w t" for t
    by (erule run_mono) (simp add: join_ends_def)
  have stuck: "w = [] \<and> t = e" if "run ?J e w t" for w t
    using that by (cases rule: run.cases) (use assms(1,2) in \<open>auto simp: join_ends_def\<close>)
  have "if t = e then w \<in> lang_from A s else run (n_step A) s w t" if "run ?J s w t" "s \<noteq> e" for s w t
    using that
  proof (induction rule: run.induct)
    case (run_refl s)
    then show ?case by (auto intro: run.intros)
  next
    case (run_eps s t w u)
    show ?case
    proof (cases "n_step A s None t")
      case True
      then have "t \<noteq> e" using assms(1) by blast
      with run_eps.IH True show ?thesis by (auto intro: run.run_eps simp: lang_from_iff [of w A s])
    next
      case False
      then have "n_end A s" "t = e" using run_eps.hyps(1) by (auto simp: join_ends_def)
      moreover have "w = []" "u = e" using stuck run_eps.hyps(2) calculation(2) by auto
      ultimately show ?thesis by (simp add: lang_from_iff [of "[]" A s])
    qed
  next
    case (run_sym s c t w u)
    then have st: "n_step A s (Some c) t" "t \<noteq> e" using assms(1) by (auto simp: join_ends_def)
    with run_sym.IH show ?case by (auto intro: run.run_sym simp: lang_from_iff [of "c # w" A s])
  qed
  moreover have "run ?J s w e" if w: "w \<in> lang_from A s"
  proof -
    obtain x where x: "run (n_step A) s w x" "n_end A x" using w by (auto simp: lang_from_def)
    then show ?thesis using run_snoc_eps [OF mono [OF x(1)], of e] by (simp add: join_ends_def)
  qed
  ultimately show ?thesis using mono assms(3) by auto
qed

text \<open>The first automaton of a concatenation when its end states are collated.\<close>

definition collated :: "fsm \<Rightarrow> fsm \<Rightarrow> fsm_state_t \<Rightarrow> bool" where
  "collated a a' e \<longleftrightarrow> fsm_wf a' \<and> fsm_meta a' = fsm_meta a \<and> statecount a' \<le> statecount a + 1 \<and> statecount a \<le> statecount a' \<and>
     e < statecount a' \<and> (\<forall>w. run (fsm_step a') (f_start a) w e \<longleftrightarrow> w \<in> fsm_language a) \<and>
     {w. \<exists>t. run (fsm_step a') (f_start a) w t \<and> n_end (fsm_nfa a') t \<and> t \<noteq> e} =
       (if f_endcount a = 1 then {} else fsm_language a)"

lemma collate_end:
  assumes wf: "fsm_wf a" and st: "f_hasstart a" and ends: "f_endcount a \<noteq> 0" and n: "statecount a + 1 < edge_state_limit"
  obtains e a1 a2 where "fsm_collate [] a fsm_isend = Some (Some e, a1, [])" "fsm_setend a1 e 1 = Some a2" "collated a a2 e"
proof -
  have inv: "fsm_inv a" using wf by (simp add: fsm_wf_def)
  have n': "statecount a < edge_state_limit" using n by simp
  have s: "f_start a < statecount a" using inv st by (simp add: fsm_inv_def)
  obtain e a1 where r: "fsm_collate [] a fsm_isend = Some (Some e, a1, [])" and a1: "fsm_inv a1" "fsm_meta a1 = fsm_meta a"
    and post: "if f_endcount a = 1 then a1 = a \<and> (\<forall>s. n_end (fsm_nfa a) s \<longleftrightarrow> s = e)
        else f_endcount a > 1 \<and> e = statecount a \<and> statecount a1 = statecount a + 1 \<and> fsm_nfa a1 = join_ends e (fsm_nfa a)"
    by (rule wpE3 [OF fsm_collate_wp [OF inv n']]) (use ends in \<open>auto split: option.splits\<close>)
  have e: "e < statecount a1" using post by (auto simp: fsm_nfa_def split: if_splits)
  obtain a2 where r2: "fsm_setend a1 e 1 = Some a2" and a2: "fsm_inv a2" "fsm_nfa a2 = (fsm_nfa a1)\<lparr>n_end := (n_end (fsm_nfa a1))(e := True)\<rparr>"
    "fsm_meta a2 = fsm_meta a1" "statecount a2 = statecount a1"
    by (rule wpE [OF fsm_setend_wp [OF a1(1) e, of 1]]) auto
  have wf2: "fsm_wf a2"
    using extends_wf [OF wf a2(1)] extends_trans [OF fsm_collate_extends [OF r] fsm_setend_extends [OF r2]] by blast
  have step2: "fsm_step a2 = fsm_step a1" using arg_cong [OF a2(2), of n_step] by (simp add: n_step_fsm)
  have lang: "w \<in> fsm_language a \<longleftrightarrow> (\<exists>t. run (fsm_step a) (f_start a) w t \<and> n_end (fsm_nfa a) t)" for w
    using st by (simp add: fsm_language_start lang_from_def n_step_fsm)
  have "collated a a2 e"
  proof (cases "f_endcount a = 1")
    case True
    then show ?thesis using post wf2 a2 a1(2) e by (simp add: collated_def step2 lang)
  next
    case False
    then have e': "e = statecount a" "statecount a1 = statecount a + 1" and J: "fsm_nfa a1 = join_ends e (fsm_nfa a)" using post by auto
    have stepJ: "fsm_step a1 = n_step (join_ends e (fsm_nfa a))" using J by (simp flip: n_step_fsm)
    have runs: "run (fsm_step a2) (f_start a) w t \<longleftrightarrow> (if t = e then w \<in> fsm_language a else run (fsm_step a) (f_start a) w t)" for w t
    proof -
      have "run (n_step (join_ends e (fsm_nfa a))) (f_start a) w t \<longleftrightarrow>
          (if t = e then w \<in> lang_from (fsm_nfa a) (f_start a) else run (n_step (fsm_nfa a)) (f_start a) w t)"
      proof (rule join_ends_runs)
        show "s \<noteq> e \<and> t \<noteq> e" if "n_step (fsm_nfa a) s l t" for s l t
          using that fsm_step_bounds [OF inv, of s l t] unfolding n_step_fsm e'(1) by blast
      qed (use e'(1) s in \<open>simp_all add: fsm_nfa_def\<close>)
      then show ?thesis using st by (simp add: step2 stepJ n_step_fsm fsm_language_start)
    qed
    have "n_end (fsm_nfa a2) t \<longleftrightarrow> n_end (fsm_nfa a) t \<or> t = e" for t using a2(2) J by (simp add: join_ends_def)
    moreover have "\<not> n_end (fsm_nfa a) e" using e' by (simp add: fsm_nfa_def)
    ultimately have "run (fsm_step a2) (f_start a) w t \<and> n_end (fsm_nfa a2) t \<and> t \<noteq> e \<longleftrightarrow>
        run (fsm_step a) (f_start a) w t \<and> n_end (fsm_nfa a) t" for w t
      unfolding runs by (cases "t = e") simp_all
    then have "{w. \<exists>t. run (fsm_step a2) (f_start a) w t \<and> n_end (fsm_nfa a2) t \<and> t \<noteq> e} = fsm_language a"
      by (simp add: lang set_eq_iff)
    then show ?thesis using False runs wf2 a2(3,4) a1(2) e e' by (simp add: collated_def)
  qed
  then show thesis using that r r2 by blast
qed

lemma embedded_closed:
  assumes "embedded f base q" "fsm_inv f" "s \<in> (\<lambda>x. x + base) ` {..<statecount f}" "n_step (fsm_nfa q) s l t"
  shows "t \<in> (\<lambda>x. x + base) ` {..<statecount f}"
proof -
  obtain x where x: "x < statecount f" "s = x + base" using assms(3) by auto
  then have "base \<le> t" "fsm_step f x l (t - base)" using assms(1,4) by (auto simp: embedded_def n_step_fsm)
  then show ?thesis using fsm_step_bounds(2) [OF assms(2)] by (intro image_eqI [of _ _ "t - base"]) auto
qed

lemma embedded_runs_other:
  assumes emb: "embedded f base q" and inv: "fsm_inv f" and s: "s < statecount f"
  shows "(\<exists>t. run (fsm_step q) (s + base) w t \<and> n_end (fsm_nfa q) t \<and> t \<noteq> e + base) \<longleftrightarrow>
    (\<exists>t. run (fsm_step f) s w t \<and> n_end (fsm_nfa f) t \<and> t \<noteq> e)"
proof
  assume "\<exists>t. run (fsm_step q) (s + base) w t \<and> n_end (fsm_nfa q) t \<and> t \<noteq> e + base"
  then obtain t where t: "run (fsm_step q) (s + base) w t" "n_end (fsm_nfa q) t" "t \<noteq> e + base" by blast
  have "t \<in> (\<lambda>x. x + base) ` {..<statecount f}"
    by (rule run_in [OF t(1)]) (use s embedded_closed [OF emb inv] in \<open>auto simp: n_step_fsm\<close>)
  then obtain x where "x < statecount f" "t = x + base" by auto
  then show "\<exists>t. run (fsm_step f) s w t \<and> n_end (fsm_nfa f) t \<and> t \<noteq> e"
    using t emb embedded_run [OF emb inv s] by (auto simp: embedded_def)
next
  assume "\<exists>t. run (fsm_step f) s w t \<and> n_end (fsm_nfa f) t \<and> t \<noteq> e"
  then obtain t where t: "run (fsm_step f) s w t" "n_end (fsm_nfa f) t" "t \<noteq> e" by blast
  then have "t < statecount f" by (simp add: fsm_nfa_def)
  then show "\<exists>t. run (fsm_step q) (s + base) w t \<and> n_end (fsm_nfa q) t \<and> t \<noteq> e + base"
    using t emb embedded_run [OF emb inv s] by (intro exI [of _ "t + base"]) (auto simp: embedded_def)
qed

lemma fsm_concat_wp:
  assumes wf: "fsm_wf a" "fsm_wf b" and room: "merge_room a b" "merge_room b a" "statecount a + statecount b + 1 < edge_state_limit"
  shows "wp (fsm_concat [] a b) (\<lambda>(r, al'). al' = [] \<and>
    (case r of
       None \<Rightarrow> statecount a \<noteq> 0 \<and> statecount b \<noteq> 0 \<and> (f_endcount a = 0 \<or> \<not> f_hasstart a \<or> \<not> f_hasstart b)
     | Some (q, ci) \<Rightarrow> fsm_wf q \<and>
         fsm_language q =
           (if statecount a = 0 then fsm_language b else if statecount b = 0 then fsm_language a
            else (if f_endcount a = 1 then {} else fsm_language a) \<union> {u @ v | u v. u \<in> fsm_language a \<and> v \<in> fsm_language b})))"
proof -
  have inv: "fsm_inv a" "fsm_inv b" using wf by (auto simp: fsm_wf_def)
  have gs: "fsm_getstart a = Some (if f_hasstart a then Some (f_start a) else None)"
    "fsm_getstart b = Some (if f_hasstart b then Some (f_start b) else None)"
    using inv by (simp_all add: fsm_getstart_wp fsm_nfa_def)
  have "f_endcount a = length (filter (n_end (fsm_nfa a)) [0..<statecount a])"
    using inv(1) ends_count [of a] by (simp add: fsm_inv_def)
  then have "(\<exists>s < statecount a. n_end (fsm_nfa a) s) \<longleftrightarrow> f_endcount a \<noteq> 0" by (auto simp: filter_empty_conv)
  then have hs: "fsm_has a fsm_isend = Some (f_endcount a \<noteq> 0)"
    using fsm_has_eq [of a fsm_isend "n_end (fsm_nfa a)"] fsm_isend_eq by simp
  show ?thesis
  proof (cases "statecount a \<noteq> 0 \<and> statecount b \<noteq> 0 \<and> f_endcount a \<noteq> 0 \<and> f_hasstart a \<and> f_hasstart b")
    case False
    then show ?thesis using wf by (auto simp: fsm_concat_def hs gs)
  next
    case True
    obtain e a1 a' where r: "fsm_collate [] a fsm_isend = Some (Some e, a1, [])" "fsm_setend a1 e 1 = Some a'" and c: "collated a a' e"
      using collate_end [OF wf(1)] True room(3) by auto
    have n': "statecount a' + statecount b < edge_state_limit" and m: "fsm_meta a' = fsm_meta a" and wf': "fsm_wf a'" "fsm_inv a'"
      and e: "e < statecount a'" and s: "f_start a < statecount a'"
      using c room(3) inv(1) True by (auto simp: collated_def fsm_wf_def fsm_inv_def)
    obtain q ci where mr: "fsm_merge [] a' b = Some (Some (q, ci), [])" and q: "merged a' b q ci"
      by (rule wpE2 [OF fsm_merge_wp [OF wf'(1) wf(2) merge_room_meta [OF room(1) m n'] merge_room_meta' [OF room(2) m n']]]) auto
    have emb: "embedded a' (base_a ci) q" "embedded b (base_b ci) q" and wfq: "fsm_wf q" "fsm_inv q"
      and n: "statecount q = statecount a' + statecount b"
      and bases: "base_a ci = 0 \<and> base_b ci = statecount a' \<or> base_b ci = 0 \<and> base_a ci = statecount b"
      using q by (auto simp: merged_def fsm_wf_def)
    let ?sq = "f_start a + base_a ci" and ?e = "e + base_a ci" and ?sb = "f_start b + base_b ci"
    have sb: "f_start b < statecount b" using inv True by (auto simp: fsm_inv_def)
    have lt: "?sq < statecount q" "?e < statecount q" "?sb < statecount q" using emb s sb e by (auto simp: embedded_def)
    have add: "state_add (f_start a) (base_a ci) = ?sq" "state_add e (base_a ci) = ?e" "state_add (f_start b) (base_b ci) = ?sb"
      using lt fsm_inv_limits(2) [OF wfq(2)] by (auto simp: state_add_def)
    obtain q1 where r1: "fsm_setend q ?e 0 = Some q1" and q1: "fsm_inv q1"
      "fsm_nfa q1 = (fsm_nfa q)\<lparr>n_end := (n_end (fsm_nfa q))(?e := False)\<rparr>" "statecount q1 = statecount q"
      by (rule wpE [OF fsm_setend_wp [OF wfq(2) lt(2), of 0]]) auto
    obtain q2 where r2: "fsm_addedge_epsilon [] q1 ?e ?sb = Some (True, q2, [])" and q2: "fsm_inv q2"
      "fsm_nfa q2 = add_step ?e None ?sb (fsm_nfa q1)" "statecount q2 = statecount q"
      by (rule wpE3 [OF fsm_addedge_epsilon_wp [OF q1(1), of ?e ?sb "[]"]]) (use q1(3) lt in auto)
    obtain q3 where r3: "fsm_setstart q2 ?sq = Some q3" and q3: "fsm_inv q3" "fsm_nfa q3 = (fsm_nfa q2)\<lparr>n_start := Some ?sq\<rparr>"
      by (rule wpE [OF fsm_setstart_wp [OF q2(1), of ?sq]]) (use q2(3) lt in auto)
    have run: "fsm_concat [] a b = Some (Some (q3, Some ci), [])"
      using True by (simp add: fsm_concat_def hs gs r mr r1 r2 r3 add)
    have wf3: "fsm_wf q3"
      using extends_wf [OF wfq(1) q3(1)] extends_trans [OF fsm_setend_extends [OF r1] extends_trans [OF
        fsm_addedge_epsilon_extends [OF r2] fsm_setstart_extends [OF r3]]] by blast
    have "fsm_language q3 = lang_from (add_step ?e None ?sb ((fsm_nfa q)\<lparr>n_end := (n_end (fsm_nfa q))(?e := False)\<rparr>)) ?sq"
      unfolding fsm_language_def language_lang_from q3(2) q2(2) q1(2) by (simp add: lang_from_def)
    also have "\<dots> = {w. \<exists>t. run (n_step (fsm_nfa q)) ?sq w t \<and> n_end (fsm_nfa q) t \<and> t \<noteq> ?e} \<union>
        {u @ v | u v. run (n_step (fsm_nfa q)) ?sq u ?e \<and> v \<in> lang_from (fsm_nfa q) ?sb}"
      by (rule bridge_lang [OF embedded_closed [OF emb(1) wf'(2)] embedded_closed [OF emb(2) inv(2)]]) (use bases s e sb in auto)
    also have "\<dots> = {w. \<exists>t. run (fsm_step a') (f_start a) w t \<and> n_end (fsm_nfa a') t \<and> t \<noteq> e} \<union>
        {u @ v | u v. run (fsm_step a') (f_start a) u e \<and> v \<in> fsm_language b}"
      using embedded_runs_other [OF emb(1) wf'(2) s] embedded_run [OF emb(1) wf'(2) s] embedded_lang_from [OF emb(2) inv(2) sb] True
      by (simp only: n_step_fsm fsm_language_start)
    also have "\<dots> = (if f_endcount a = 1 then {} else fsm_language a) \<union> {u @ v | u v. u \<in> fsm_language a \<and> v \<in> fsm_language b}"
      using c by (simp add: collated_def)
    finally show ?thesis using True wf3 by (simp add: run)
  qed
qed

section \<open>Copying an automaton\<close>

text \<open>The ids in the order in which \<open>fsm_endid_iter\<close> meets them.\<close>

definition endid_pairs :: "endid_info \<Rightarrow> (fsm_state_t \<times> fsm_end_id_t) list" where
  "endid_pairs ei = concat (map (\<lambda>b. if eb_state b = BUCKET_NO_STATE then [] else map (Pair (eb_state b)) (id_list (eb_ids b))) (en_buckets ei))"

lemma set_endid_pairs: "endid_tab ei \<Longrightarrow> (s, k) \<in> set (endid_pairs ei) \<longleftrightarrow> k \<in> set (endid_ids ei s)"
proof
  assume tab: "endid_tab ei" and "(s, k) \<in> set (endid_pairs ei)"
  then obtain b where b: "b \<in> ht_live eb_key (en_buckets ei)" "eb_state b = s" "k \<in> set (id_list (eb_ids b))"
    by (auto simp: endid_pairs_def ht_live_def eb_key_def split: if_splits)
  then show "k \<in> set (endid_ids ei s)" using endid_ids_Some [OF tab b(1)] by simp
next
  assume tab: "endid_tab ei" and k: "k \<in> set (endid_ids ei s)"
  then obtain b where b: "b \<in> ht_live eb_key (en_buckets ei)" "eb_state b = s"
    using endid_ids_live [OF tab, of s] by auto
  then have "k \<in> set (id_list (eb_ids b))" using endid_ids_Some [OF tab b(1)] k by simp
  then show "(s, k) \<in> set (endid_pairs ei)" using b unfolding endid_pairs_def
    by (auto simp: ht_live_def eb_key_def split: if_splits intro!: bexI [of _ b])
qed

lemma endid_iter_pairs:
  assumes "c_for (\<lambda>(s, k). cb s k) (endid_pairs ei) x = Some (True, y)"
  shows "fsm_endid_iter ei cb x = Some y"
proof -
  have ids: "endid_iter_ids cb s ks x = Some y" if "c_for (cb s) ks x = Some (True, y)" for s ks x y
    using that by (induction ks arbitrary: x) (auto split: bind_splits if_splits)
  have "endid_iter_buckets cb bs x = Some y"
    if "c_for (\<lambda>b. c_for (\<lambda>(s, k). cb s k) (if eb_state b = BUCKET_NO_STATE then [] else map (Pair (eb_state b)) (id_list (eb_ids b)))) bs x = Some (True, y)"
    for bs x y
    using that by (induction bs arbitrary: x) (auto simp: c_for_map split: bind_splits if_splits dest!: ids)
  then show ?thesis using assms by (simp add: fsm_endid_iter_def endid_pairs_def c_for_concat c_for_map)
qed

lemma clone_end_ids_wp:
  assumes inv: "endid_inv (f_endid_info dst)" and none: "\<And>s. endid_ids (f_endid_info dst) s = []"
    and src: "endid_inv (f_endid_info src)" and st: "\<And>s. endid_ids (f_endid_info src) s \<noteq> [] \<Longrightarrow> s < BUCKET_NO_STATE"
    and room: "endid_room (f_endid_info dst) (length (endid_pairs (f_endid_info src)))"
    and len: "\<And>t. length (endid_ids (f_endid_info src) t) < 2 ^ 31"
  shows "wp (clone_end_ids [] dst src) (\<lambda>(ok, dst', al'). ok \<and> al' = [] \<and>
    (\<exists>ei. dst' = dst\<lparr>f_endid_info := ei\<rparr> \<and> endid_inv ei \<and> endid_ids ei = endid_ids (f_endid_info src)))"
proof -
  let ?ei = "f_endid_info dst" and ?es = "f_endid_info src" and ?ps = "endid_pairs (f_endid_info src)"
  let ?cb = "\<lambda>state k (ok, dst, al). do { (set, dst, al) \<leftarrow> set_endid al dst state k; Some (set, ok \<and> set, dst, al) }"
  have tab: "endid_tab ?es" using src by (simp add: endid_inv_def)
  have dist: "distinct (endid_ids ei s)" if "endid_inv ei" for ei s
    using endid_ids_asc [OF that] by (simp add: asc_distinct)
  let ?I = "\<lambda>ys (ok, d, al' :: alloc). ok \<and> al' = [] \<and> (\<exists>ei. d = dst\<lparr>f_endid_info := ei\<rparr> \<and> endid_inv ei \<and>
      (\<forall>t. set (endid_ids ei t) = new_outputs (\<lambda>s. s) ys t) \<and> en_used ei \<le> en_used ?ei + length ys \<and>
      length (en_buckets ei) \<le> max (length (en_buckets ?ei)) (4 * (en_used ?ei + length ys)))"
  have "wp (c_for (\<lambda>(s, k). ?cb s k) ?ps (True, dst, [])) (\<lambda>(go, x). if go then ?I ?ps x else False)"
  proof (rule wp_c_for)
    show "?I [] (True, dst, [])" using inv none by (auto intro: exI [of _ ?ei])
    fix ys p zs x
    assume ps: "?ps = ys @ p # zs" and I: "?I ys x"
    obtain s k where p: "p = (s, k)" by (cases p)
    obtain ei where x: "x = (True, dst\<lparr>f_endid_info := ei\<rparr>, [])" and ei: "endid_inv ei"
      "\<forall>t. set (endid_ids ei t) = new_outputs (\<lambda>s. s) ys t" "en_used ei \<le> en_used ?ei + length ys"
      "length (en_buckets ei) \<le> max (length (en_buckets ?ei)) (4 * (en_used ?ei + length ys))"
      using I by (cases x) auto
    have "k \<in> set (endid_ids ?es s)" using set_endid_pairs [OF tab] ps p by (metis in_set_conv_decomp)
    then have s: "s < BUCKET_NO_STATE" using st [of s] by force
    have l31: "length (en_buckets ei) < 2 ^ 31"
      using ei(3,4) room ps by (auto simp: endid_room_def max_def split: if_splits)
    have "set (endid_ids ei s) \<subseteq> set (endid_ids ?es s)"
    proof
      fix k assume "k \<in> set (endid_ids ei s)"
      then have "(s, k) \<in> set ?ps" using ei(2) ps by (auto simp: new_outputs_def)
      then show "k \<in> set (endid_ids ?es s)" using set_endid_pairs [OF tab] by blast
    qed
    then have "card (set (endid_ids ei s)) \<le> card (set (endid_ids ?es s))" by (intro card_mono) simp_all
    then have "length (endid_ids ei s) \<le> length (endid_ids ?es s)"
      using distinct_card [OF dist [OF ei(1), of s]] distinct_card [OF dist [OF src, of s]] by simp
    then have "length (endid_ids ei s) < 2 ^ 31" using len [of s] by simp
    then obtain ei' where run: "fsm_endid_set [] ei s k = Some (True, ei', [])" and post: "endid_added [] ei s {k} (True, ei', [])"
      by (rule wpE3 [OF fsm_endid_set_wp [OF ei(1) s l31, of "[]" k]]) (simp add: endid_added_def)
    have "set (endid_ids ei' t) = new_outputs (\<lambda>s. s) (ys @ [p]) t" for t
      using post ei(2) by (auto simp: endid_added_def p)
    moreover have "en_used ei' \<le> en_used ?ei + length (ys @ [p])"
      "length (en_buckets ei') \<le> max (length (en_buckets ?ei)) (4 * (en_used ?ei + length (ys @ [p])))"
      using post ei(3,4) by (auto simp: endid_added_def max_def split: if_splits)
    ultimately show "wp ((case p of (s, k) \<Rightarrow> ?cb s k) x) (\<lambda>(go, x). if go then ?I (ys @ [p]) x else False)"
      using post by (auto simp: p x set_endid_def run endid_added_def intro!: exI [of _ ei'])
  qed
  then obtain ei where run: "c_for (\<lambda>(s, k). ?cb s k) ?ps (True, dst, []) = Some (True, True, dst\<lparr>f_endid_info := ei\<rparr>, [])"
    and ei: "endid_inv ei" "\<forall>t. set (endid_ids ei t) = new_outputs (\<lambda>s. s) ?ps t"
    by (rule wpE4) (auto split: if_splits)
  have "endid_ids ei t = endid_ids ?es t" for t
  proof (rule asc_unique [OF endid_ids_asc [OF ei(1)] endid_ids_asc [OF src]])
    show "set (endid_ids ei t) = set (endid_ids ?es t)"
      unfolding ei(2) [rule_format] new_outputs_def using set_endid_pairs [OF tab, of t] by auto
  qed
  then have "endid_ids ei = endid_ids ?es" by blast
  moreover have "clone_end_ids [] dst src = Some (True, dst\<lparr>f_endid_info := ei\<rparr>, [])"
    unfolding clone_end_ids_def by (rule endid_iter_pairs [OF run])
  ultimately show ?thesis using ei(1) by auto
qed

definition cloned :: "fsm_state \<Rightarrow> fsm_state \<Rightarrow> bool" where
  "cloned st st' \<longleftrightarrow> es_inv (st_edges st') \<and> es_edges (st_edges st') = es_edges (st_edges st) \<and>
     es_tos (st_edges st') \<subseteq> es_tos (st_edges st) \<and> ss_inv (st_epsilons st') \<and> ss_set (st_epsilons st') = ss_set (st_epsilons st) \<and>
     st_end st' = st_end st"

lemma clone_state_wp:
  assumes st: "state_ok n (f_states f ! i)" and i: "i < statecount f" "i < statecount d" "f_states d ! i = new_state False"
    and e: "f_endcount d < 2 ^ 30"
  shows "wp (clone_state f i (d, [])) (\<lambda>(ok, d', al'). ok \<and> al' = [] \<and> (\<exists>c. cloned (f_states f ! i) c \<and>
    d' = d\<lparr>f_states := (f_states d)[i := c], f_endcount := f_endcount d + (if st_end c then 1 else 0)\<rparr>))"
proof -
  let ?st = "f_states f ! i"
  have inv: "es_inv (st_edges ?st)" "ss_inv (st_epsilons ?st)" using st by (auto simp: state_ok_def)
  obtain eps where eps: "state_set_copy [] SS_Null (st_epsilons ?st) = Some (True, eps, [])" "ss_inv eps" "ss_set eps = ss_set (st_epsilons ?st)"
    by (rule wpE3 [OF state_set_copy_wp [of SS_Null "st_epsilons ?st" "[]"]]) (use inv in \<open>auto simp: added_def\<close>)
  obtain es where es: "edge_set_copy [] ES_Null (st_edges ?st) = Some (True, es, [])" "es_inv es"
    "es_edges es = es_edges (st_edges ?st)" "es_tos es \<subseteq> es_tos (st_edges ?st)"
    by (rule wpE3 [OF edge_set_copy_wp [of ES_Null "st_edges ?st" "[]"]]) (use inv in \<open>auto simp: copied_def\<close>)
  let ?c = "(new_state False)\<lparr>st_edges := es, st_epsilons := eps, st_end := st_end ?st\<rparr>"
  have "cloned ?st ?c" using eps es by (simp add: cloned_def)
  moreover have "clone_state f i (d, []) = Some (True, d\<lparr>f_states := (f_states d)[i := ?c],
      f_endcount := f_endcount d + (if st_end ?c then 1 else 0)\<rparr>, [])"
    using i e eps(1) es(1)
    by (cases "st_end ?st")
      (simp_all add: clone_state_def fsm_isend_def fsm_setend_def c_assert_def upd_state_def new_state_def)
  ultimately show ?thesis by auto
qed

lemma clone_states_wp:
  assumes inv: "fsm_inv f" and new: "f_states d = replicate (statecount f) (new_state False)" "f_endcount d = 0"
  shows "wp (c_for (clone_state f) [0..<statecount f] (d, [])) (\<lambda>(ok, d', al'). ok \<and> al' = [] \<and>
    (\<exists>cs. list_all2 cloned (f_states f) cs \<and> d' = d\<lparr>f_states := cs, f_endcount := length (filter st_end cs)\<rparr>))"
proof -
  let ?n = "statecount f"
  let ?I = "\<lambda>ys (d', al' :: alloc). al' = [] \<and> (\<exists>cs. list_all2 cloned (take (length ys) (f_states f)) cs \<and>
    d' = d\<lparr>f_states := cs @ replicate (?n - length ys) (new_state False), f_endcount := length (filter st_end cs)\<rparr>)"
  have "wp (c_for (clone_state f) [0..<?n] (d, [])) (\<lambda>(ok, x). if ok then ?I [0..<?n] x else False)"
  proof (rule wp_c_for)
    show "?I [] (d, [])" using new by simp
    fix ys i zs x
    assume xs: "[0..<?n] = ys @ i # zs" and I: "?I ys x"
    note i = upt_split [OF xs]
    obtain cs where cs: "list_all2 cloned (take i (f_states f)) cs"
      and x: "x = (d\<lparr>f_states := cs @ replicate (?n - i) (new_state False), f_endcount := length (filter st_end cs)\<rparr>, [])"
      using I by (cases x) (auto simp: i(1))
    have len: "length cs = i" using list_all2_lengthD [OF cs] i(2) by simp
    let ?d = "fst x"
    have "length (filter st_end cs) \<le> ?n" using len i(2) length_filter_le [of st_end cs] by simp
    then have e: "f_endcount ?d < 2 ^ 30" using fsm_inv_limits(1) [OF inv] by (simp add: x)
    obtain c where c: "clone_state f i (?d, []) = Some (True, ?d\<lparr>f_states := (f_states ?d)[i := c],
        f_endcount := f_endcount ?d + (if st_end c then 1 else 0)\<rparr>, [])" "cloned (f_states f ! i) c"
      by (rule wpE3 [OF clone_state_wp [OF fsm_inv_state [OF inv i(2)] i(2) _ _ e]]) (use i len in \<open>auto simp: x nth_append\<close>)
    have "replicate (?n - i) (new_state False) = new_state False # replicate (?n - Suc i) (new_state False)"
      using i(2) by (metis Suc_diff_Suc replicate_Suc)
    then have "(cs @ replicate (?n - i) (new_state False))[i := c] = (cs @ [c]) @ replicate (?n - Suc i) (new_state False)"
      using len by (simp add: list_update_append)
    moreover have "list_all2 cloned (take (Suc i) (f_states f)) (cs @ [c])"
      using cs c(2) i(2) by (simp add: take_Suc_conv_app_nth list_all2_appendI)
    ultimately show "wp (clone_state f i x) (\<lambda>(ok, x). if ok then ?I (ys @ [i]) x else False)"
      using c(1) by (auto simp: x i(1) [symmetric] intro!: exI [of _ "cs @ [c]"])
  qed
  then show ?thesis by (rule wp_mono) (auto split: if_splits)
qed

text \<open>The automaton with the copied states.\<close>

lemma cloned_graph:
  assumes inv: "fsm_inv f" and cs: "list_all2 cloned (f_states f) (f_states d)" and d: "f_endcount d = length (filter st_end (f_states d))"
    "f_hasstart d = f_hasstart f" "f_hasstart f \<longrightarrow> f_start d = f_start f" "0 < statealloc d"
  shows "fsm_inv d" and "fsm_nfa d = fsm_nfa f" and "fsm_tidy f \<Longrightarrow> fsm_tidy d"
proof -
  have n: "statecount d = statecount f" using list_all2_lengthD [OF cs] by simp
  have c: "cloned (f_states f ! i) (f_states d ! i)" if "i < statecount f" for i
    using list_all2_nthD [OF cs that] .
  have ok: "state_ok (statecount f) (f_states d ! i)" if "i < statecount f" for i
    using c [OF that] fsm_inv_state [OF inv that] by (auto simp: cloned_def state_ok_def)
  then show "fsm_inv d" using inv d n by (auto simp: fsm_inv_def all_set_conv_all_nth)
  show "fsm_nfa d = fsm_nfa f"
    by (rule nfa_eqI) (use c d n in \<open>auto simp: fsm_nfa_def fsm_step_def step_in_def cloned_def split: option.splits\<close>)
  show "fsm_tidy d" if "fsm_tidy f"
    using that c n unfolding fsm_tidy_def all_set_conv_all_nth cloned_def by fastforce
qed

definition clone_room :: "fsm \<Rightarrow> bool" where
  "clone_room f \<longleftrightarrow> 4 * length (endid_pairs (f_endid_info f)) < 2 ^ 31 \<and> (\<forall>s. length (endid_ids (f_endid_info f) s) < 2 ^ 31) \<and>
     4 * length (eager_pairs (f_eager_output_info f)) < 2 ^ 62 \<and> (\<forall>s. length (eager_ids (f_eager_output_info f) s) < 2 ^ 31) \<and>
     4 * length (ci_buckets (f_capture_info f)) < 2 ^ 31"

lemma clone_eager_output_ids_wp:
  assumes dst: "eager_inv (f_eager_output_info dst)" "eager_marked dst" and none: "\<And>s. eager_ids (f_eager_output_info dst) s = []"
    and src: "eager_inv (f_eager_output_info src)" "eager_marked src" and n: "statecount src \<le> statecount dst"
    and room: "eager_room (f_eager_output_info dst) (length (eager_pairs (f_eager_output_info src)))"
    and len: "\<And>s. length (eager_ids (f_eager_output_info src) s) < 2 ^ 31"
  shows "wp (clone_eager_output_ids [] dst src) (\<lambda>(ok, dst', al'). ok \<and> al' = [] \<and> same_graph dst dst' \<and> other_meta dst' = other_meta dst \<and>
    eager_inv (f_eager_output_info dst') \<and> eager_marked dst' \<and>
    (\<forall>s. set (eager_ids (f_eager_output_info dst') s) = set (eager_ids (f_eager_output_info src) s)))"
proof -
  let ?es = "f_eager_output_info src" and ?ps = "eager_pairs (f_eager_output_info src)"
  have new: "new_outputs (\<lambda>s. s) ?ps t = set (eager_ids ?es t)" for t
    unfolding new_outputs_def set_eager_pairs [OF src(1)] by auto
  have small: "card (set (eager_ids (f_eager_output_info dst) t) \<union> new_outputs (\<lambda>s. s) ?ps t) < 2 ^ 31" for t
    using len [of t] card_length [of "eager_ids ?es t"] by (simp add: none new)
  have gs: "s < statecount dst" if "(s, k) \<in> set ?ps" for s k
  proof -
    have "eager_ids ?es s \<noteq> []" using that unfolding set_eager_pairs [OF src(1)] by auto
    then show ?thesis using src(2) n by (force simp: eager_marked_def)
  qed
  obtain go dst' where run: "c_for (\<lambda>(s, k) (ok, dst, al). do { (ok, dst, al) \<leftarrow> fsm_eager_output_set al dst s k; Some (ok, ok, dst, al) })
      ?ps (True, dst, []) = Some (go, True, dst', [])" 
    and post: "same_graph dst dst'" "other_meta dst' = other_meta dst" "eager_inv (f_eager_output_info dst')" "eager_marked dst'"
      "\<forall>t. set (eager_ids (f_eager_output_info dst') t) = set (eager_ids (f_eager_output_info dst) t) \<union> new_outputs (\<lambda>s. s) ?ps t"
    by (rule wpE4 [OF eager_copy_loop_wp [where g = "\<lambda>s. s", OF dst room gs small]]) auto
  have "clone_eager_output_ids [] dst src = Some (True, dst', [])"
    unfolding clone_eager_output_ids_def
    by (subst eager_iter_all_pairs [OF src(1)]) (use src(2) run in \<open>auto simp: eager_marked_def\<close>)
  then show ?thesis using post by (simp add: none new)
qed

lemma fsm_new_statealloc_fields:
  "wp (fsm_new_statealloc [] n) (\<lambda>(r, al). al = [] \<and> (\<exists>f. r = Some f \<and> meta_ok f \<and> fsm_blank f \<and> f_endcount f = 0 \<and>
     f_spare f = replicate (if n = 0 then 128 else n) False \<and> length (en_buckets (f_endid_info f)) = 4 \<and> en_used (f_endid_info f) = 0 \<and>
     length (eo_buckets (f_eager_output_info f)) = 4 \<and> eo_used (f_eager_output_info f) = 0))"
  using new_endids new_eager
  by (simp add: fsm_new_statealloc_def FSM_DEFAULT_STATEALLOC_def fsm_capture_init_def fsm_blank_def
      fsm_endid_init_def fsm_eager_output_init_def meta_ok_def
      new_endids_none [unfolded DEF_BUCKET_COUNT_def] new_eager_none [unfolded DEF_EAGER_BUCKET_COUNT_def]
      DEF_BUCKET_COUNT_def DEF_EAGER_BUCKET_COUNT_def)

lemma fsm_clone_wp:
  assumes wf: "fsm_wf f" and room: "clone_room f"
  shows "wp (fsm_clone [] f) (\<lambda>(r, al'). al' = [] \<and> (\<exists>g. r = Some g \<and> fsm_wf g \<and> fsm_nfa g = fsm_nfa f \<and>
    statecount g = statecount f \<and> endid_ids (f_endid_info g) = endid_ids (f_endid_info f) \<and>
    (\<forall>s. set (eager_ids (f_eager_output_info g) s) = set (eager_ids (f_eager_output_info f) s)) \<and>
    capture_set (f_capture_info g) = capture_set (f_capture_info f)))"
proof -
  have inv: "fsm_inv f" "fsm_tidy f" "meta_ok f" "eager_marked f" "capture_marked f" using wf by (auto simp: fsm_wf_def)
  let ?n = "statecount f"
  have n24: "?n \<le> 2 ^ 24" using fsm_inv_limits(1) [OF inv(1)] .
  obtain g0 where r0: "fsm_new_statealloc [] ?n = Some (Some g0, [])" and g0: "meta_ok g0" "fsm_blank g0" "f_endcount g0 = 0"
      "f_spare g0 = replicate (if ?n = 0 then 128 else ?n) False" "length (en_buckets (f_endid_info g0)) = 4" "en_used (f_endid_info g0) = 0"
      "length (eo_buckets (f_eager_output_info g0)) = 4" "eo_used (f_eager_output_info g0) = 0"
    by (rule wpE2 [OF fsm_new_statealloc_fields [of ?n]]) blast
  have b0: "f_states g0 = []" "\<not> f_hasstart g0" "f_capture_info g0 = capture_none" "endid_ids (f_endid_info g0) s = []"
    "eager_ids (f_eager_output_info g0) s = []" for s
    using g0(2) by (auto simp: fsm_blank_def)
  define g1 where "g1 = g0\<lparr>f_states := replicate ?n (new_state False), f_spare := drop ?n (f_spare g0)\<rparr>"
  have r1: "fsm_addstate_bulk [] g0 ?n = Some (True, g1, [])"
    using g0(4) by (simp add: fsm_addstate_bulk_def statealloc_def b0(1) g1_def map_replicate)
  obtain cs where r2: "c_for (clone_state f) [0..<?n] (g1, []) = Some (True, g1\<lparr>f_states := cs, f_endcount := length (filter st_end cs)\<rparr>, [])"
    and cs: "list_all2 cloned (f_states f) cs"
    by (rule wpE3 [OF clone_states_wp [OF inv(1), of g1]]) (use g0(3) in \<open>auto simp: g1_def\<close>)
  let ?g2 = "g1\<lparr>f_states := cs, f_endcount := length (filter st_end cs)\<rparr>"
  have len: "length cs = ?n" using list_all2_lengthD [OF cs] by simp
  define g3 where "g3 = (if f_hasstart f then ?g2\<lparr>f_hasstart := True, f_start := f_start f\<rparr> else ?g2)"
  define st where "st = (if f_hasstart f then Some (f_start f) else None)"
  have gs: "fsm_getstart f = Some st" using inv(1) by (simp add: fsm_getstart_wp fsm_nfa_def st_def)
  have r3: "(case st of None \<Rightarrow> Some ?g2 | Some s \<Rightarrow> fsm_setstart ?g2 s) = Some g3"
    using inv(1) len by (auto simp: st_def g3_def fsm_setstart_def c_assert_def fsm_inv_def)
  have g3: "f_states g3 = cs" "f_endcount g3 = length (filter st_end cs)" "f_hasstart g3 = f_hasstart f" "f_hasstart f \<longrightarrow> f_start g3 = f_start f"
    "f_capture_info g3 = capture_none" "f_endid_info g3 = f_endid_info g0" "f_eager_output_info g3 = f_eager_output_info g0" "0 < statealloc g3"
    using b0 g0(4) len by (auto simp: g3_def g1_def statealloc_def)
  note graph = cloned_graph [OF inv(1), of g3, unfolded g3(1), OF cs g3(2-4,8)]
  have cap3: "capture_inv (f_capture_info g3)" "capture_marked g3" "statecount g3 \<le> CAPTURE_NO_STATE"
    "capture_room (f_capture_info g3) (length (ci_buckets (f_capture_info f)))"
    using room n24 len capture_inv_none
    by (auto simp: g3 capture_marked_def capture_room_def capture_none_def clone_room_def CAPTURE_NO_STATE_def)
  have cfin: "s < statecount g3 \<and> (ca_to a = CAPTURE_NO_STATE \<or> ca_to a < statecount g3)" if "(s, a) \<in> capture_set (f_capture_info f)" for s a
    using that inv(5) len by (auto simp: capture_marked_def g3(1))
  obtain g4 where r4: "copy_capture_actions [] g3 (f_capture_info f) = Some (True, g4, [])" and g4: "same_graph g3 g4" "id_meta g4 = id_meta g3"
      "capture_inv (f_capture_info g4)" "capture_marked g4" "capture_set (f_capture_info g4) = capture_set (f_capture_info f)"
    by (rule wpE3 [OF copy_capture_actions_wp [OF cap3(1,2,4,3) cfin]]) (auto simp: g3(5) capture_inv_none)
  note i4 = id_meta_sel [OF g4(2), unfolded g3(1,6,7) len]
  have e4: "endid_inv (f_endid_info g4)" "endid_ids (f_endid_info g4) s = []" "endid_inv (f_endid_info f)"
    "endid_ids (f_endid_info f) s \<noteq> [] \<Longrightarrow> s < BUCKET_NO_STATE" "length (endid_ids (f_endid_info f) s) < 2 ^ 31"
    "endid_room (f_endid_info g4) (length (endid_pairs (f_endid_info f)))" for s
    using i4 b0 g0(1,5,6) inv(3) meta_ok_ids(1) [OF inv(3), of s] n24 room
    by (auto simp: meta_ok_def endid_room_def clone_room_def BUCKET_NO_STATE_def)
  obtain ei where r5: "clone_end_ids [] g4 f = Some (True, g4\<lparr>f_endid_info := ei\<rparr>, [])" and ei: "endid_inv ei" "endid_ids ei = endid_ids (f_endid_info f)"
    by (rule wpE3 [OF clone_end_ids_wp [OF e4(1-4,6,5)]]) auto
  let ?g5 = "g4\<lparr>f_endid_info := ei\<rparr>"
  have e5: "eager_inv (f_eager_output_info ?g5)" "eager_marked ?g5" "eager_ids (f_eager_output_info ?g5) s = []"
    "eager_inv (f_eager_output_info f)" "?n \<le> statecount ?g5" "length (eager_ids (f_eager_output_info f) s) < 2 ^ 31"
    "eager_room (f_eager_output_info ?g5) (length (eager_pairs (f_eager_output_info f)))" for s
    using i4 b0 g0(1,7,8) inv(3) room by (auto simp: meta_ok_def eager_room_def clone_room_def eager_marked_def)
  obtain g6 where r6: "clone_eager_output_ids [] ?g5 f = Some (True, g6, [])" and g6: "same_graph ?g5 g6" "other_meta g6 = other_meta ?g5"
      "eager_inv (f_eager_output_info g6)" "eager_marked g6"
      "\<forall>s. set (eager_ids (f_eager_output_info g6) s) = set (eager_ids (f_eager_output_info f) s)"
    by (rule wpE3 [OF clone_eager_output_ids_wp [OF e5(1-4) inv(4) e5(5,7,6)]]) auto
  note o6 = other_meta_sel [OF g6(2)]
  have same: "same_graph g3 g6" using same_graph_trans [OF g4(1) same_graph_trans [OF same_graph_tables(1) g6(1)]] .
  note g = same_graph_sel [OF same]
  have n6: "statecount g6 = ?n" using g(1) g3(1) len by simp
  have "meta_ok g6"
    by (rule meta_okI) (use o6 ei g6(3,4) meta_ok_ids(1) [OF inv(3)] n6 in \<open>auto simp: eager_marked_def\<close>)
  moreover have "capture_marked g6" using o6 by (intro capture_marked_more [OF g4(4)]) auto
  ultimately have "fsm_wf g6"
    using g4(3) g6(4) o6 g(4) graph(1) graph(3) [OF inv(2)] same_graph_tidy [OF same] by (simp add: fsm_wf_def)
  moreover have "fsm_clone [] f = Some (Some g6, [])"
    by (simp add: fsm_clone_def r0 r1 r2 gs r3 r4 r5 r6)
  ultimately show ?thesis using graph(2) g(3) n6 o6 ei(2) g6(5) g4(5) by simp
qed

end
