(* ===== verification/Fsm_Exec.thy ===== *)
theory Fsm_Exec
  imports Fsm_Merge
begin

text \<open>
  Running a deterministic automaton on an input: \<open>src/libfsm/exec.c\<close>. The input is what the
  callback \<open>fsm_getc\<close> gives before the end of the file. An execution accepts exactly the words
  of the language, calls back with the eager outputs of the states on its way, and stays
  within the array of captures.
\<close>

section \<open>Definitions\<close>

definition NEXT_STATE_END :: fsm_state_t where
  "NEXT_STATE_END = 2 ^ 32 - 1"

text \<open>A null pointer for the captures is \<open>None\<close>.\<close>

definition update_captures ::
  "fsm \<Rightarrow> fsm_state_t \<Rightarrow> fsm_state_t \<Rightarrow> u64 \<Rightarrow> fsm_capture list option \<Rightarrow> fsm_capture list option option" where
  "update_captures f state next_state offset captures =
     (case captures of
        None \<Rightarrow> Some None
      | Some cs \<Rightarrow>
          do { has \<leftarrow> fsm_capture_has_capture_actions f state;
               if has then
                 do { cs \<leftarrow> fsm_capture_update_captures (statecount f) (\<lambda>s. st_has_capture_actions (f_states f ! s))
                        (f_capture_info f) state next_state offset cs;
                      Some (Some cs) }
               else Some (Some cs) })"

definition transition ::
  "fsm \<Rightarrow> fsm_state_t \<Rightarrow> octet \<Rightarrow> u64 \<Rightarrow> fsm_capture list option \<Rightarrow> ((fsm_state_t \<times> fsm_capture list option) option) option" where
  "transition f state c offset captures =
     do { c_assert (state < statecount f);
          case edge_set_transition (st_edges (f_states f ! state)) c of
            None \<Rightarrow> Some None
          | Some t \<Rightarrow> do { captures \<leftarrow> update_captures f state t offset captures; Some (Some (t, captures)) } }"

text \<open>The user's callback for eager outputs, if one is set, works on a value of type \<open>'o\<close>.\<close>

definition match_eager_outputs_for_state ::
  "(fsm_output_id_t \<Rightarrow> 'o \<Rightarrow> 'o) option \<Rightarrow> fsm \<Rightarrow> fsm_state_t \<Rightarrow> 'o \<Rightarrow> 'o option" where
  "match_eager_outputs_for_state callback f state out =
     (case callback of
        None \<Rightarrow> Some out
      | Some cb \<Rightarrow> fsm_eager_output_iter_state (f_eager_output_info f) (\<lambda>s. st_has_eager_outputs (f_states f ! s)) state
          (\<lambda>_ k out. (True, cb k out)) out)"

definition exec_outputs ::
  "(fsm_output_id_t \<Rightarrow> 'o \<Rightarrow> 'o) option \<Rightarrow> fsm \<Rightarrow> fsm_state_t \<Rightarrow> 'o \<Rightarrow> 'o option" where
  "exec_outputs callback f state out =
     do { c_assert (state < statecount f);
          if st_has_eager_outputs (f_states f ! state) then match_eager_outputs_for_state callback f state out
          else Some out }"

fun exec_loop ::
  "(fsm_output_id_t \<Rightarrow> 'o \<Rightarrow> 'o) option \<Rightarrow> fsm \<Rightarrow> octet list \<Rightarrow> fsm_state_t \<Rightarrow> u64 \<Rightarrow> fsm_capture list option \<Rightarrow> 'o \<Rightarrow>
   ((fsm_state_t \<times> u64) option \<times> fsm_capture list option \<times> 'o) option" where
  "exec_loop callback f [] state offset captures out = Some (Some (state, offset), captures, out)"
| "exec_loop callback f (c # cs) state offset captures out =
     do { r \<leftarrow> transition f state c offset captures;
          case r of
            None \<Rightarrow> Some (None, captures, out)
          | Some (state, captures) \<Rightarrow>
              do { out \<leftarrow> exec_outputs callback f state out;
                   exec_loop callback f cs state (offset + 1) captures out } }"

text \<open>Clearing the first \<open>capture_count\<close> elements of an array that is not there stops the program.\<close>

definition clear_captures :: "nat \<Rightarrow> fsm_capture list option \<Rightarrow> fsm_capture list option option" where
  "clear_captures capture_count captures =
     (case captures of
        None \<Rightarrow> do { c_assert (capture_count = 0); Some None }
      | Some cs \<Rightarrow>
          do { c_assert (capture_count \<le> length cs);
               Some (Some (replicate capture_count (FSM_CAPTURE_NO_POS, FSM_CAPTURE_NO_POS) @ drop capture_count cs)) })"

definition fsm_exec ::
  "(fsm_output_id_t \<Rightarrow> 'o \<Rightarrow> 'o) option \<Rightarrow> fsm \<Rightarrow> octet list \<Rightarrow> fsm_capture list option \<Rightarrow> 'o \<Rightarrow>
   (int \<times> fsm_state_t option \<times> fsm_capture list option \<times> 'o) option" where
  "fsm_exec callback f input captures out =
     do { let capture_count = fsm_countcaptures (f_capture_info f);
          dfa \<leftarrow> fsm_all f fsm_isdfa;
          if \<not> dfa then Some (- 1, None, captures, out)
          else do {
            start \<leftarrow> fsm_getstart f;
            case start of
              None \<Rightarrow> Some (- 1, None, captures, out)
            | Some state \<Rightarrow>
                do { captures \<leftarrow> clear_captures capture_count captures;
                     out \<leftarrow> exec_outputs callback f state out;
                     (r, captures, out) \<leftarrow> exec_loop callback f input state 0 captures out;
                     case r of
                       None \<Rightarrow> Some (0, None, captures, out)
                     | Some (state, offset) \<Rightarrow>
                         do { e \<leftarrow> fsm_isend f state;
                              if \<not> e then Some (0, None, captures, out)
                              else do {
                                captures \<leftarrow> update_captures f state NEXT_STATE_END offset captures;
                                captures \<leftarrow> (case captures of
                                    None \<Rightarrow> do { c_assert (capture_count = 0); Some None }
                                  | Some cs \<Rightarrow> do { cs \<leftarrow> fsm_capture_finalize_captures capture_count cs; Some (Some cs) });
                                Some (1, Some state, captures, out) } } } } }"

section \<open>The path of an execution\<close>

text \<open>
  The states that the automaton goes through on a word, up to one without a transition for the
  next symbol.
\<close>

fun exec_states :: "fsm \<Rightarrow> fsm_state_t \<Rightarrow> octet list \<Rightarrow> fsm_state_t list" where
  "exec_states f s [] = [s]"
| "exec_states f s (c # w) = s # (case edge_set_transition (st_edges (f_states f ! s)) c of None \<Rightarrow> [] | Some t \<Rightarrow> exec_states f t w)"

definition dfa_state :: "fsm \<Rightarrow> fsm_state_t \<Rightarrow> bool" where
  "dfa_state f s \<longleftrightarrow> (\<forall>t. \<not> fsm_step f s None t) \<and> (\<forall>c t t'. fsm_step f s (Some c) t \<longrightarrow> fsm_step f s (Some c) t' \<longrightarrow> t = t')"

lemma exec_transition_iff:
  assumes "fsm_inv f" and "s < statecount f" and "dfa_state f s"
  shows "edge_set_transition (st_edges (f_states f ! s)) c = Some t \<longleftrightarrow> fsm_step f s (Some c) t"
proof -
  have ok: "state_ok (statecount f) (f_states f ! s)" by (rule fsm_inv_state [OF assms(1,2)])
  have st: "fsm_step f s (Some c) t \<longleftrightarrow> (c, t) \<in> es_edges (st_edges (f_states f ! s))" for c t
    using assms(2) by (simp add: fsm_step_def step_in_def)
  have "es_deterministic (st_edges (f_states f ! s))"
    using assms(3) unfolding es_deterministic_def dfa_state_def st by blast
  moreover have "t < edge_state_limit" if "(c, t) \<in> es_edges (st_edges (f_states f ! s))" for c t
    using fsm_step_bounds(2) [OF assms(1)] assms(1) that unfolding st [symmetric] fsm_inv_def by fastforce
  ultimately show ?thesis unfolding st by (intro edge_set_transition_iff) auto
qed

lemma exec_states_run:
  assumes inv: "fsm_inv f" and dfa: "\<And>s. s < statecount f \<Longrightarrow> dfa_state f s" and s: "s < statecount f"
  shows "run (fsm_step f) s w t \<longleftrightarrow> length (exec_states f s w) = length w + 1 \<and> last (exec_states f s w) = t"
  using s
proof (induction w arbitrary: s)
  case Nil
  have "run (fsm_step f) s [] t \<longleftrightarrow> s = t"
    using dfa [OF Nil] by (auto simp: dfa_state_def intro: run.intros elim: run.cases)
  then show ?case by simp
next
  case (Cons c w)
  note tr = exec_transition_iff [OF inv Cons.prems dfa [OF Cons.prems], of c]
  have "run (fsm_step f) s (c # w) t \<longleftrightarrow> (\<exists>p. fsm_step f s (Some c) p \<and> run (fsm_step f) p w t)"
    using dfa [OF Cons.prems] by (auto simp: dfa_state_def intro: run.intros elim: run.cases)
  also have "\<dots> \<longleftrightarrow> (\<exists>p. edge_set_transition (st_edges (f_states f ! s)) c = Some p \<and>
      length (exec_states f p w) = length w + 1 \<and> last (exec_states f p w) = t)"
    unfolding tr using Cons.IH fsm_step_bounds(2) [OF inv] by blast
  also have "\<dots> \<longleftrightarrow> length (exec_states f s (c # w)) = length (c # w) + 1 \<and> last (exec_states f s (c # w)) = t"
    by (auto split: option.split)
  finally show ?case .
qed

lemma exec_states_bound:
  assumes "fsm_inv f" and "\<And>s. s < statecount f \<Longrightarrow> dfa_state f s" and "s < statecount f"
  shows "set (exec_states f s w) \<subseteq> {..<statecount f}"
  using assms(3)
proof (induction w arbitrary: s)
  case (Cons c w)
  show ?case
  proof (cases "edge_set_transition (st_edges (f_states f ! s)) c")
    case (Some t)
    then have "t < statecount f"
      using exec_transition_iff [OF assms(1) Cons.prems assms(2) [OF Cons.prems]] fsm_step_bounds(2) [OF assms(1)] by blast
    then show ?thesis using Cons Some by simp
  qed (use Cons in simp)
qed simp

section \<open>Captures and outputs on the way\<close>

lemma update_captures_loop_wp:
  assumes "\<forall>b \<in> set bs. cb_state b \<noteq> CAPTURE_NO_STATE \<longrightarrow> ca_id (cb_action b) < n" and "length cs = n"
  shows "wp (update_captures_loop bs s t offset cs) (\<lambda>cs'. length cs' = n)"
  using assms by (induction bs arbitrary: cs) (auto simp: c_nth_def Let_def)

lemma update_captures_wp:
  assumes inv: "capture_inv (f_capture_info f)" and s: "s < statecount f"
    and len: "\<forall>cs. captures = Some cs \<longrightarrow> ci_used (f_capture_info f) \<noteq> 0 \<longrightarrow> ci_max (f_capture_info f) < length cs"
  shows "wp (update_captures f s t offset captures) (\<lambda>captures'. map_option length captures' = map_option length captures)"
proof (cases captures)
  case (Some cs)
  let ?ci = "f_capture_info f" and ?bs = "ci_buckets (f_capture_info f)"
  have ids: "ca_id (cb_action b) < length cs" if b: "b \<in> set ?bs" "cb_state b \<noteq> CAPTURE_NO_STATE" for b
  proof -
    have "cb_key b = Some (cb_state b, cb_action b)" using b(2) by (simp add: cb_key_def)
    then have "(cb_state b, cb_action b) \<in> capture_set ?ci" "b \<in> ht_live cb_key ?bs"
      using b(1) by (auto simp: capture_set_def ht_live_def)
    moreover have "ci_used ?ci \<noteq> 0"
    proof
      assume "ci_used ?ci = 0"
      then have "ht_used cb_key ?bs = 0" using inv by (simp add: capture_inv_def)
      then show False using calculation(2) by (auto simp: ht_used_def ht_live_def filter_empty_conv)
    qed
    ultimately show ?thesis using inv len Some by (fastforce simp: capture_inv_def)
  qed
  have probes: "set (map (\<lambda>j. ?bs ! j) (probes (hash_state s) (length ?bs))) \<subseteq> set ?bs" if "?bs \<noteq> []"
  proof -
    have "ht_ok cb_key cb_hash ?bs" using inv that by (auto simp: capture_inv_def)
    then obtain n where "n < 64" "length ?bs = 2 ^ n" using cht.ok_length by blast
    then show ?thesis using set_probes [of n "hash_state s"] by (auto simp: image_subset_iff)
  qed
  have none: "probes h 0 = []" for h by (simp add: probes_def)
  have "wp (update_captures_loop (map (\<lambda>j. ?bs ! j) (probes (hash_state s) (length ?bs))) s t offset cs) (\<lambda>cs'. length cs' = length cs)"
  proof (rule update_captures_loop_wp)
    show "\<forall>b \<in> set (map (\<lambda>j. ?bs ! j) (probes (hash_state s) (length ?bs))).
        cb_state b \<noteq> CAPTURE_NO_STATE \<longrightarrow> ca_id (cb_action b) < length cs"
      using ids probes by (cases "?bs = []") (simp add: none, blast)
  qed simp
  then show ?thesis
    using s Some by (auto simp: update_captures_def fsm_capture_has_capture_actions_def fsm_capture_update_captures_def c_assert_def elim!: wpE)
qed (simp add: update_captures_def)

text \<open>What a state gives to the callback.\<close>

definition emit :: "(fsm_output_id_t \<Rightarrow> 'o \<Rightarrow> 'o) option \<Rightarrow> fsm \<Rightarrow> fsm_state_t \<Rightarrow> 'o \<Rightarrow> 'o" where
  "emit callback f s out = (case callback of None \<Rightarrow> out | Some cb \<Rightarrow> fold cb (eager_ids (f_eager_output_info f) s) out)"

lemma exec_outputs_eq:
  assumes "eager_inv (f_eager_output_info f)" and "eager_marked f" and "s < statecount f"
  shows "exec_outputs callback f s out = Some (emit callback f s out)"
proof -
  have ids: "iter_ids (\<lambda>_ k out. (True, cb k out)) s ks out = (True, fold cb ks out)" for cb :: "fsm_output_id_t \<Rightarrow> 'a \<Rightarrow> 'a" and ks out
    by (induction ks arbitrary: out) simp_all
  have none: "eager_ids (f_eager_output_info f) s = []" if "\<not> st_has_eager_outputs (f_states f ! s)"
    using that assms(2) by (auto simp: eager_marked_def)
  show ?thesis
    using assms(3) none
    by (auto simp: exec_outputs_def match_eager_outputs_for_state_def emit_def c_assert_def ids
        fsm_eager_output_iter_state_eq [OF assms(1)] split: option.split)
qed

section \<open>Executions\<close>

text \<open>The user's array has room for the captures of the automaton, whose number does not wrap.\<close>

definition captures_fit :: "fsm \<Rightarrow> fsm_capture list option \<Rightarrow> bool" where
  "captures_fit f captures \<longleftrightarrow> capture_inv (f_capture_info f) \<and> ci_max (f_capture_info f) < 2 ^ 32 - 1 \<and>
     (case captures of None \<Rightarrow> fsm_countcaptures (f_capture_info f) = 0 | Some cs \<Rightarrow> fsm_countcaptures (f_capture_info f) \<le> length cs)"

lemma captures_fit_update:
  assumes "captures_fit f captures" and "s < statecount f"
  shows "wp (update_captures f s t offset captures) (\<lambda>captures'. captures_fit f captures' \<and> map_option length captures' = map_option length captures)"
proof -
  have "wp (update_captures f s t offset captures) (\<lambda>captures'. map_option length captures' = map_option length captures)"
    by (rule update_captures_wp) (use assms in \<open>auto simp: captures_fit_def fsm_countcaptures_def split: if_splits\<close>)
  then show ?thesis
    by (rule wp_mono) (use assms(1) in \<open>auto simp: captures_fit_def split: option.splits\<close>)
qed

lemma exec_loop_wp:
  assumes inv: "fsm_inv f" and dfa: "\<And>s. s < statecount f \<Longrightarrow> dfa_state f s"
    and eo: "eager_inv (f_eager_output_info f)" "eager_marked f" and "s < statecount f" and "captures_fit f captures"
  shows "wp (exec_loop callback f w s offset captures out) (\<lambda>(r, captures', out'). captures_fit f captures' \<and>
    map_option length captures' = map_option length captures \<and> out' = fold (emit callback f) (tl (exec_states f s w)) out \<and>
    r = (if length (exec_states f s w) = length w + 1 then Some (last (exec_states f s w), offset + of_nat (length w)) else None))"
  using assms(5,6)
proof (induction w arbitrary: s offset captures out)
  case (Cons c w)
  show ?case
  proof (cases "edge_set_transition (st_edges (f_states f ! s)) c")
    case None
    then show ?thesis using Cons.prems by (simp add: transition_def c_assert_def)
  next
    case (Some t)
    then have t: "t < statecount f"
      using exec_transition_iff [OF inv Cons.prems(1) dfa [OF Cons.prems(1)]] fsm_step_bounds(2) [OF inv] by blast
    obtain cs where cs: "update_captures f s t offset captures = Some cs" "captures_fit f cs" "map_option length cs = map_option length captures"
      by (rule wpE [OF captures_fit_update [OF Cons.prems(2,1)]]) blast
    have ne: "exec_states f t w \<noteq> []" by (cases w) auto
    have "exec_loop callback f (c # w) s offset captures out = exec_loop callback f w t (offset + 1) cs (emit callback f t out)"
      using Some Cons.prems(1) t cs(1) by (simp add: transition_def c_assert_def exec_outputs_eq [OF eo])
    moreover have "fold (emit callback f) (exec_states f t w) out = fold (emit callback f) (tl (exec_states f t w)) (emit callback f t out)"
      by (cases w) simp_all
    ultimately show ?thesis
      using Cons.IH [OF t cs(2), of "offset + 1" "emit callback f t out"] Some cs(3) ne
      by (auto elim!: wpE3 simp: algebra_simps)
  qed
qed simp

lemma fsm_exec_wp:
  assumes inv: "fsm_inv f" and eo: "eager_inv (f_eager_output_info f)" "eager_marked f" and fit: "captures_fit f captures"
  shows "wp (fsm_exec callback f w captures out) (\<lambda>(r, e, captures', out').
    map_option length captures' = map_option length captures \<and>
    (if f_hasstart f \<and> (\<forall>s < statecount f. dfa_state f s) then
       r = of_bool (w \<in> fsm_language f) \<and> out' = fold (emit callback f) (exec_states f (f_start f) w) out \<and>
       (\<forall>t. e = Some t \<longleftrightarrow> run (fsm_step f) (f_start f) w t \<and> n_end (fsm_nfa f) t)
     else r = - 1 \<and> e = None \<and> captures' = captures \<and> out' = out))"
proof (cases "f_hasstart f \<and> (\<forall>s < statecount f. dfa_state f s)")
  case False
  have all: "fsm_all f fsm_isdfa = Some (\<forall>s < statecount f. f_hasstart f \<and> dfa_state f s)"
    using fsm_isdfa_eq [OF inv] by (intro fsm_all_eq) (simp add: dfa_state_def)
  show ?thesis
  proof (cases "f_hasstart f")
    case True
    then have "\<not> (\<forall>s < statecount f. f_hasstart f \<and> dfa_state f s)" using False by blast
    then show ?thesis using False all by (simp add: fsm_exec_def)
  next
    case no: False
    then show ?thesis using all fsm_getstart_wp [OF inv] by (simp add: fsm_exec_def fsm_nfa_def Let_def)
  qed
next
  case True
  let ?s = "f_start f" and ?n = "fsm_countcaptures (f_capture_info f)"
  have s: "?s < statecount f" and dfa: "\<And>s. s < statecount f \<Longrightarrow> dfa_state f s" using inv True by (auto simp: fsm_inv_def)
  have all: "fsm_all f fsm_isdfa = Some True"
    using fsm_all_eq [of f fsm_isdfa "\<lambda>_. True"] fsm_isdfa_eq [OF inv] True by (simp add: dfa_state_def)
  have gs: "fsm_getstart f = Some (Some ?s)" using True fsm_getstart_wp [OF inv] by (simp add: fsm_nfa_def)
  obtain cs where cs: "clear_captures ?n captures = Some cs" "captures_fit f cs" "map_option length cs = map_option length captures"
    using fit by (cases captures) (auto simp: captures_fit_def clear_captures_def c_assert_def)
  let ?ps = "exec_states f ?s w"
  obtain r cs1 out1 where loop: "exec_loop callback f w ?s 0 cs (emit callback f ?s out) = Some (r, cs1, out1)"
    and cs1: "captures_fit f cs1" "map_option length cs1 = map_option length captures"
    and out1: "out1 = fold (emit callback f) (tl ?ps) (emit callback f ?s out)"
    and r: "r = (if length ?ps = length w + 1 then Some (last ?ps, of_nat (length w)) else None)"
    by (rule wpE3 [OF exec_loop_wp [OF inv dfa eo s cs(2), of callback w 0 "emit callback f ?s out"]]) (use cs(3) in auto)
  have out2: "out1 = fold (emit callback f) ?ps out" unfolding out1 by (cases w) simp_all
  have runs: "run (fsm_step f) ?s w t \<longleftrightarrow> length ?ps = length w + 1 \<and> last ?ps = t" for t
    by (rule exec_states_run [OF inv dfa s])
  have lang: "w \<in> fsm_language f \<longleftrightarrow> length ?ps = length w + 1 \<and> n_end (fsm_nfa f) (last ?ps)"
    using True runs by (auto simp: fsm_language_def in_language fsm_nfa_def)
  have "?ps \<noteq> []" by (cases w) simp_all
  then have end_lt: "last ?ps < statecount f" using exec_states_bound [OF inv dfa s, of w] last_in_set by blast
  note run = fsm_exec_def all gs cs(1) exec_outputs_eq [OF eo s] loop
  show ?thesis
  proof (cases "length ?ps = length w + 1 \<and> n_end (fsm_nfa f) (last ?ps)")
    case False
    have "fsm_isend f (last ?ps) = Some False" if "length ?ps = length w + 1"
      using that False end_lt fsm_isend_eq by simp
    then have "fsm_exec callback f w captures out = Some (0, None, cs1, out1)"
      by (simp add: run Let_def r)
    then show ?thesis using True False cs1(2) out2 runs lang by auto
  next
    case acc: True
    obtain cs2 where cs2: "update_captures f (last ?ps) NEXT_STATE_END (of_nat (length w)) cs1 = Some cs2" "captures_fit f cs2"
      "map_option length cs2 = map_option length captures"
      by (rule wpE [OF captures_fit_update [OF cs1(1) end_lt]]) (use cs1(2) in auto)
    obtain cs3 where cs3: "(case cs2 of None \<Rightarrow> do { c_assert (?n = 0); Some None }
        | Some cs \<Rightarrow> do { cs \<leftarrow> fsm_capture_finalize_captures ?n cs; Some (Some cs) }) = Some cs3"
      "map_option length cs3 = map_option length captures"
      using cs2(2,3) by (cases cs2) (auto simp: captures_fit_def c_assert_def fsm_capture_finalize_captures_def)
    have "fsm_isend f (last ?ps) = Some True" using acc end_lt fsm_isend_eq by simp
    then have "fsm_exec callback f w captures out = Some (1, Some (last ?ps), cs3, out1)"
      using acc by (simp add: run Let_def r cs2(1) cs3(1))
    then show ?thesis using True acc cs3(2) out2 runs lang by auto
  qed
qed

end
