(* ===== verification/Fsm_Closure.thy ===== *)
theory Fsm_Closure
  imports Fsm_Walk Queue
begin

text \<open>
  The epsilon closures of all states, \<open>src/libfsm/closure.c\<close>: a breadth-first search from every
  state, which uses the closures that are done already. The closure of a state is the set of
  the states its epsilon edges lead to.
\<close>

section \<open>Definitions\<close>

definition set_visited :: "fsm \<Rightarrow> bool list \<Rightarrow> fsm" where
  "set_visited f vis = f\<lparr>f_states := map2 (\<lambda>st v. st\<lparr>st_visited := v\<rparr>) (f_states f) vis\<rparr>"

text \<open>
  The flags \<open>visited\<close> are a list beside the automaton; \<open>closures\<close> is the array of the sets, with
  the null pointer for one that is not done.
\<close>

definition closure_visit ::
  "fsm \<Rightarrow> fsm_state_t \<Rightarrow> fsm_state_t \<Rightarrow> state_set list \<Rightarrow> alloc \<Rightarrow> (bool \<times> state_set list \<times> alloc) option" where
  "closure_visit f s p closures al =
     do { c_assert (p < statecount f);
          (ok, cl, al) \<leftarrow>
            (if p \<noteq> s \<and> closures ! p \<noteq> SS_Null then state_set_copy al (closures ! s) (closures ! p)
             else Some (True, closures ! s, al));
          if \<not> ok then Some (False, closures[s := cl], al)
          else do {
            (ok, cl, al) \<leftarrow> state_set_add al cl p;
            Some (ok, closures[s := cl], al) } }"

type_synonym closure_search = "fsm_state_t \<times> state_set list \<times> queue \<times> bool list \<times> alloc"

definition closure_body ::
  "fsm \<Rightarrow> fsm_state_t \<Rightarrow> closure_search \<Rightarrow> (closure_search + (bool \<times> state_set list \<times> bool list \<times> alloc)) option" where
  "closure_body f s = (\<lambda>(p, closures, q, vis, al).
     do { (ok, closures, al) \<leftarrow> closure_visit f s p closures al;
          if \<not> ok then Some (Inr (False, closures, vis, al))
          else do {
            (ok, q, vis) \<leftarrow> push_unvisited queue_push
              (state_set_drain (state_set_reset (st_epsilons (f_states f ! p)))) (q, vis);
            if \<not> ok then Some (Inr (False, closures, vis, al))
            else do {
              (r, q) \<leftarrow> queue_pop q;
              Some (case r of
                  None \<Rightarrow> Inr (True, closures, vis, al)
                | Some p \<Rightarrow> Inl (p, closures, q, vis, al)) } } })"

text \<open>Without memory for the queue the result is success, and the closure is left null.\<close>

definition epsilon_closure_single ::
  "alloc \<Rightarrow> fsm \<Rightarrow> state_set list \<Rightarrow> bool list \<Rightarrow> fsm_state_t \<Rightarrow> (bool \<times> state_set list \<times> bool list \<times> alloc) option" where
  "epsilon_closure_single al f closures vis s =
     do { c_assert (s < statecount f);
          let (q, al) = queue_new al (statecount f);
          case q of
            None \<Rightarrow> Some (True, closures, vis, al)
          | Some q \<Rightarrow>
              do { (ok, closures, vis, al) \<leftarrow> c_loop (closure_body f s) (s, closures, q, vis[s := True], al);
                   Some (ok, closures,
                     if ok then fold (\<lambda>p vis. vis[p := False]) (state_set_drain (state_set_reset (closures ! s))) vis else vis,
                     al) } }"

text \<open>
  The elements of the array are set to null one by one. When a state without epsilon edges
  cannot be given its closure, all of them are released, and those not yet set are not
  pointers: only for the last state is that an error that is reported.
\<close>

definition closure_trivial :: "fsm \<Rightarrow> fsm_state_t \<Rightarrow> state_set list \<times> alloc \<Rightarrow> (bool \<times> state_set list \<times> alloc) option" where
  "closure_trivial f s = (\<lambda>(closures, al).
     if st_epsilons (f_states f ! s) = SS_Null then
       do { (ok, cl, al) \<leftarrow> state_set_add al SS_Null s;
            c_assert (ok \<or> s + 1 = statecount f);
            Some (ok, closures[s := cl], al) }
     else Some (True, closures, al))"

definition epsilon_closure :: "alloc \<Rightarrow> fsm \<Rightarrow> (state_set list option \<times> fsm \<times> alloc) option" where
  "epsilon_closure al f =
     do { c_assert (statecount f > 0);
          let (ok, al) = f_malloc al;
          if \<not> ok then Some (None, f, al)
          else do {
            (ok, closures, al) \<leftarrow> c_for (closure_trivial f) [0..<statecount f] (replicate (statecount f) SS_Null, al);
            if \<not> ok then Some (None, clear_visited f, al)
            else do {
              (_, closures, vis, al) \<leftarrow>
                c_for (\<lambda>s (closures, vis, al).
                    if closures ! s \<noteq> SS_Null then Some (True, closures, vis, al)
                    else do { (_, closures, vis, al) \<leftarrow> epsilon_closure_single al f closures vis s;
                              Some (True, closures, vis, al) })
                  [0..<statecount f] (closures, replicate (statecount f) False, al);
              Some (Some closures, set_visited f vis, al) } } }"

section \<open>One closure\<close>

definition eps_reach :: "fsm \<Rightarrow> fsm_state_t \<Rightarrow> fsm_state_t set" where
  "eps_reach f s = {t. (fsm_eps_rel f)\<^sup>*\<^sup>* s t}"

text \<open>A closure that is there is a full one.\<close>

definition closures_ok :: "fsm \<Rightarrow> state_set list \<Rightarrow> bool" where
  "closures_ok f cls \<longleftrightarrow> length cls = statecount f \<and>
     (\<forall>p < statecount f. cls ! p \<noteq> SS_Null \<longrightarrow> ss_inv (cls ! p) \<and> ss_set (cls ! p) = eps_reach f p)"

lemma closures_ok_update:
  assumes "closures_ok f cls" and "ss_inv c" and "ss_set c = eps_reach f s"
  shows "closures_ok f (cls[s := c])"
proof -
  have "ss_inv (cls[s := c] ! p) \<and> ss_set (cls[s := c] ! p) = eps_reach f p" if "p < statecount f" "cls[s := c] ! p \<noteq> SS_Null" for p
    using that assms by (cases "p = s") (auto simp: closures_ok_def)
  then show ?thesis using assms(1) by (simp add: closures_ok_def)
qed

lemma closure_visit_wp:
  assumes cls: "closures_ok f cls" and s: "s < statecount f" and p: "p < statecount f" "p < state_limit" and c: "ss_inv c"
  shows "wp (closure_visit f s p (cls[s := c]) []) (\<lambda>(ok, cls', al'). ok \<and> al' = [] \<and>
    (\<exists>c'. cls' = cls[s := c'] \<and> ss_inv c' \<and> insert p (ss_set c) \<subseteq> ss_set c' \<and> ss_set c' \<subseteq> insert p (ss_set c \<union> eps_reach f p)))"
proof -
  have len: "length cls = statecount f" using cls by (simp add: closures_ok_def)
  let ?first = "if p \<noteq> s \<and> cls[s := c] ! p \<noteq> SS_Null then state_set_copy [] (cls[s := c] ! s) (cls[s := c] ! p)
      else Some (True, cls[s := c] ! s, [])"
  have "wp ?first (\<lambda>(ok, c1, al'). ok \<and> al' = [] \<and> ss_inv c1 \<and> ss_set c \<subseteq> ss_set c1 \<and> ss_set c1 \<subseteq> ss_set c \<union> eps_reach f p)"
  proof (cases "p \<noteq> s \<and> cls ! p \<noteq> SS_Null")
    case True
    then have "ss_inv (cls ! p)" "ss_set (cls ! p) = eps_reach f p" using cls p(1) by (auto simp: closures_ok_def)
    then show ?thesis
      using True len s state_set_copy_wp [OF c, of "cls ! p" "[]"] by (auto simp: added_def elim!: wp_mono)
  next
    case False
    then show ?thesis using len s c by auto
  qed
  then obtain c1 where first: "?first = Some (True, c1, [])" and c1: "ss_inv c1" "ss_set c \<subseteq> ss_set c1" "ss_set c1 \<subseteq> ss_set c \<union> eps_reach f p"
    by (rule wpE3) auto
  obtain c2 where add: "state_set_add [] c1 p = Some (True, c2, [])" and c2: "ss_inv c2" "ss_set c2 = insert p (ss_set c1)"
    by (rule wpE3 [OF state_set_add_wp [OF c1(1) p(2), of "[]"]]) (auto simp: added_def)
  show ?thesis
    using c1 c2 p(1) unfolding closure_visit_def first by (auto simp: c_assert_def add intro!: exI [of _ c2])
qed

definition closure_inv :: "fsm \<Rightarrow> state_set list \<Rightarrow> fsm_state_t \<Rightarrow> closure_search \<Rightarrow> bool" where
  "closure_inv f cls s = (\<lambda>(p, cls', q, vis, al). al = [] \<and> qwl.ready q vis \<and> length vis = statecount f \<and>
     p \<in> vset vis \<and> p \<notin> set (queue_items q) \<and> search_inv (fsm_eps_rel f) {s} (vset vis) (insert p (set (queue_items q))) \<and>
     (\<exists>c. cls' = cls[s := c] \<and> ss_inv c \<and> vset vis - insert p (set (queue_items q)) \<subseteq> ss_set c \<and> ss_set c \<subseteq> eps_reach f s))"

lemma closure_body_wp:
  assumes inv: "fsm_inv f" and cls: "closures_ok f cls" and s: "s < statecount f" and I: "closure_inv f cls s x"
  defines "m \<equiv> \<lambda>(p, cls' :: state_set list, q, vis, al :: alloc). statecount f - card (vset vis - insert p (set (queue_items q)))"
  shows "wp (closure_body f s x) (\<lambda>r. case r of Inl x' \<Rightarrow> closure_inv f cls s x' \<and> m x' < m x
    | Inr (ok, cls', vis', al') \<Rightarrow> ok \<and> al' = [] \<and> length vis' = statecount f \<and> vset vis' = eps_reach f s \<and>
        (\<exists>c. cls' = cls[s := c] \<and> ss_inv c \<and> ss_set c = eps_reach f s))"
proof -
  obtain p c q vis where x: "x = (p, cls[s := c], q, vis, [])" and ready: "qwl.ready q vis" and len: "length vis = statecount f"
    and p: "p \<in> vset vis" "p \<notin> set (queue_items q)" and c: "ss_inv c"
    and si: "search_inv (fsm_eps_rel f) {s} (vset vis) (insert p (set (queue_items q)))"
    and fin0: "vset vis - insert p (set (queue_items q)) \<subseteq> ss_set c" and reach: "ss_set c \<subseteq> eps_reach f s"
    using I by (auto simp: closure_inv_def)
  have pn: "p < statecount f" "p < state_limit"
    using p(1) vset_bound(1) [of vis] len fsm_inv_limits(3) [OF inv, of p] by auto
  have ps: "(fsm_eps_rel f)\<^sup>*\<^sup>* s p" using si by (auto simp: search_inv_def)
  then have sub: "eps_reach f p \<subseteq> eps_reach f s" by (auto simp: eps_reach_def)
  obtain c1 where visit: "closure_visit f s p (cls[s := c]) [] = Some (True, cls[s := c1], [])"
    and c1: "ss_inv c1" "insert p (ss_set c) \<subseteq> ss_set c1" and c1': "ss_set c1 \<subseteq> insert p (ss_set c \<union> eps_reach f p)"
    by (rule wpE3 [OF closure_visit_wp [OF cls s pn c]]) auto
  have "p \<in> eps_reach f s" using ps by (simp add: eps_reach_def)
  then have c3: "ss_set c1 \<subseteq> eps_reach f s" using c1' sub reach by auto
  let ?ts = "state_set_drain (state_set_reset (st_epsilons (f_states f ! p)))" and ?S = "{t. fsm_eps_rel f p t}"
  have S: "set ?ts = ?S" by (simp add: state_set_successors [OF pn(1)] fsm_eps_rel_def)
  have Sn: "?S \<subseteq> {..<statecount f}" using fsm_step_bounds(2) [OF inv] by (auto simp: fsm_eps_rel_def)
  obtain q1 vis1 where push: "push_unvisited queue_push ?ts (q, vis) = Some (True, q1, vis1)"
    and r1: "qwl.ready q1 vis1" "length vis1 = statecount f" "vset vis1 = vset vis \<union> ?S" "set (queue_items q1) = set (queue_items q) \<union> (?S - vset vis)"
    by (rule wpE3 [OF qwl.push_unvisited_wp [OF ready]]) (use S Sn len in auto)
  let ?W = "insert p (set (queue_items q))"
  have W1: "set (queue_items q1) = ?W - {p} \<union> (?S - vset vis)" using r1(4) p by auto
  have si1: "search_inv (fsm_eps_rel f) {s} (vset vis1) (set (queue_items q1))"
    unfolding r1(3) W1 by (rule search_step [OF si]) auto
  have WV: "?W \<subseteq> vset vis" using si by (simp add: search_inv_def)
  have fin: "vset vis1 - set (queue_items q1) = insert p (vset vis - ?W)"
    unfolding r1(3) W1 by (rule search_finished [OF _ WV]) simp
  have prog: "statecount f - card (vset vis1 - set (queue_items q1)) < statecount f - card (vset vis - ?W)"
    unfolding r1(3) W1 by (rule search_progress [OF _ _ WV]) (use Sn vset_bound(1) [of vis] len in auto)
  have cov: "vset vis1 - set (queue_items q1) \<subseteq> ss_set c1" unfolding fin using fin0 c1(2) by auto
  have wq: "queue_inv q1" "distinct (queue_items q1)" using r1(1) by (auto simp: qwl.ready_def)
  obtain r q2 where pop: "queue_pop q1 = Some (r, q2)" and r: "case r of None \<Rightarrow> queue_items q1 = [] | Some t \<Rightarrow> True"
    by (rule wpE2 [OF queue_pop_wp [OF wq(1)]]) (auto split: option.splits)
  have run: "closure_body f s x = Some (case r of None \<Rightarrow> Inr (True, cls[s := c1], vis1, []) | Some t \<Rightarrow> Inl (t, cls[s := c1], q2, vis1, []))"
    by (simp add: closure_body_def x visit push pop)
  show ?thesis
  proof (cases r)
    case None
    then have V: "vset vis1 = eps_reach f s" using r si1 search_done_single [of "fsm_eps_rel f" s "vset vis1"] by (simp add: eps_reach_def)
    then have "ss_set c1 = eps_reach f s" using cov c3 None r by auto
    then show ?thesis using None run V c1(1) r1(2) by auto
  next
    case (Some t)
    note pq = qwl.pop_Some [OF wq pop [unfolded Some]]
    have W2: "insert t (set (queue_items q2)) = set (queue_items q1)" using pq(3,4) by auto
    have "qwl.ready q2 vis1" using r1(1) pq by (auto simp: qwl.ready_def)
    moreover have "t \<in> vset vis1" using pq(3) r1(1) by (auto simp: qwl.ready_def)
    moreover have "t \<notin> set (queue_items q2)" using pq(4) by simp
    ultimately have "closure_inv f cls s (t, cls[s := c1], q2, vis1, [])"
      using r1(2) si1 c1 c3 cov by (auto simp: closure_inv_def W2)
    then show ?thesis using Some run prog by (simp add: m_def x W2)
  qed
qed

lemma vset_clear: "vset (fold (\<lambda>p vis. vis[p := False]) ps vis) = vset vis - set ps"
proof -
  have "vset (vis[p := False]) = vset vis - {p}" for vis p
    by (cases "p < length vis") (auto simp: vset_def nth_list_update list_update_beyond)
  then show ?thesis by (induction ps arbitrary: vis) auto
qed

lemma length_clear: "length (fold (\<lambda>p vis. vis[p := False]) ps vis) = length vis"
  by (induction ps arbitrary: vis) simp_all

lemma epsilon_closure_single_wp:
  assumes inv: "fsm_inv f" and cls: "closures_ok f cls" "cls ! s = SS_Null" and s: "s < statecount f"
    and vis: "length vis = statecount f" "vset vis = {}"
  shows "wp (epsilon_closure_single [] f cls vis s) (\<lambda>(ok, cls', vis', al'). ok \<and> al' = [] \<and>
    length vis' = statecount f \<and> vset vis' = {} \<and> closures_ok f cls' \<and> cls' ! s \<noteq> SS_Null \<and> (\<forall>p. p \<noteq> s \<longrightarrow> cls' ! p = cls ! p))"
proof -
  obtain q where q: "queue_new [] (statecount f) = (Some q, [])" "queue_inv q" "queue_items q = []" "q_capacity q = statecount f"
    using queue_new_wp [of "statecount f" "[]"] s by (auto split: prod.splits option.splits)
  let ?vis = "vis[s := True]"
  have vs: "vset ?vis = {s}" using vis s by (simp add: vset_update)
  have same: "cls = cls[s := SS_Null]" using cls(2) by (metis list_update_id)
  have init: "closure_inv f cls s (s, cls, q, ?vis, [])"
    using q vs s vis search_init [of "fsm_eps_rel f" "{s}"] same by (auto simp: closure_inv_def qwl.ready_def intro!: exI [of _ SS_Null])
  have "wp (c_loop (closure_body f s) (s, cls, q, ?vis, [])) (\<lambda>(ok, cls', vis', al'). ok \<and> al' = [] \<and> length vis' = statecount f \<and>
      vset vis' = eps_reach f s \<and> (\<exists>c. cls' = cls[s := c] \<and> ss_inv c \<and> ss_set c = eps_reach f s))"
    by (rule wp_c_loop [OF init closure_body_wp [OF inv cls(1) s]])
  then obtain c vis1 where loop: "c_loop (closure_body f s) (s, cls, q, ?vis, []) = Some (True, cls[s := c], vis1, [])"
    and vis1: "length vis1 = statecount f" "vset vis1 = eps_reach f s" and c: "ss_inv c" "ss_set c = eps_reach f s"
    by (rule wpE4) auto
  have len: "length cls = statecount f" using cls(1) by (simp add: closures_ok_def)
  have "c \<noteq> SS_Null" using c(2) by (auto simp: eps_reach_def)
  moreover have "closures_ok f (cls[s := c])" by (rule closures_ok_update [OF cls(1) c])
  ultimately show ?thesis
    using s len vis1 c by (simp add: epsilon_closure_single_def c_assert_def q(1) loop vset_clear length_clear state_set_drain_list)
qed

section \<open>All closures\<close>

lemma epsilon_closure_wp:
  assumes inv: "fsm_inv f" and n: "statecount f > 0"
  shows "wp (epsilon_closure [] f) (\<lambda>(r, f', al'). al' = [] \<and> f' = clear_visited f \<and>
    (\<exists>cls. r = Some cls \<and> length cls = statecount f \<and> (\<forall>s < statecount f. ss_inv (cls ! s) \<and> ss_set (cls ! s) = eps_reach f s)))"
proof -
  let ?n = "statecount f"
  let ?I = "\<lambda>ys (cls, al' :: alloc). al' = [] \<and> closures_ok f cls"
  have "wp (c_for (closure_trivial f) [0..<?n] (replicate ?n SS_Null, [])) (\<lambda>(ok, x). if ok then ?I [0..<?n] x else False)"
  proof (rule wp_c_for)
    show "?I [] (replicate ?n SS_Null, [])" by (simp add: closures_ok_def)
    fix ys s zs x
    assume xs: "[0..<?n] = ys @ s # zs" and I: "?I ys x"
    obtain cls where x: "x = (cls, [])" and cls: "closures_ok f cls" using I by (cases x) auto
    have s: "s < ?n" "s < state_limit" using upt_split(2) [OF xs] fsm_inv_limits(3) [OF inv] by auto
    show "wp (closure_trivial f s x) (\<lambda>(ok, x). if ok then ?I (ys @ [s]) x else False)"
    proof (cases "st_epsilons (f_states f ! s) = SS_Null")
      case True
      then have "\<not> fsm_eps_rel f s t" for t by (simp add: fsm_eps_rel_def fsm_step_def step_in_def)
      then have "eps_reach f s = {s}" by (auto simp: eps_reach_def elim: converse_rtranclpE)
      moreover obtain c where "state_set_add [] SS_Null s = Some (True, c, [])" "ss_inv c" "ss_set c = {s}"
        by (rule wpE3 [OF state_set_add_wp [OF _ s(2), of SS_Null "[]"]]) (auto simp: added_def)
      ultimately show ?thesis
        using True closures_ok_update [OF cls] by (simp add: closure_trivial_def x c_assert_def)
    next
      case False
      then show ?thesis using cls by (simp add: closure_trivial_def x)
    qed
  qed
  then obtain cls0 where first: "c_for (closure_trivial f) [0..<?n] (replicate ?n SS_Null, []) = Some (True, cls0, [])" and cls0: "closures_ok f cls0"
    by (rule wpE3) (auto split: if_splits)
  let ?body = "\<lambda>s (closures, vis, al). if closures ! s \<noteq> SS_Null then Some (True, closures, vis, al)
      else do { (_, closures, vis, al) \<leftarrow> epsilon_closure_single al f closures vis s; Some (True, closures, vis, al) }"
  let ?J = "\<lambda>ys (cls, vis, al' :: alloc). al' = [] \<and> length vis = ?n \<and> vset vis = {} \<and> closures_ok f cls \<and> (\<forall>s \<in> set ys. cls ! s \<noteq> SS_Null)"
  have "wp (c_for ?body [0..<?n] (cls0, replicate ?n False, [])) (\<lambda>(ok, x). if ok then ?J [0..<?n] x else False)"
  proof (rule wp_c_for)
    show "?J [] (cls0, replicate ?n False, [])" using cls0 by simp
    fix ys s zs x
    assume xs: "[0..<?n] = ys @ s # zs" and J: "?J ys x"
    obtain cls vis where x: "x = (cls, vis, [])" and cls: "length vis = ?n" "vset vis = {}" "closures_ok f cls" "\<forall>s \<in> set ys. cls ! s \<noteq> SS_Null"
      using J by (cases x) auto
    show "wp (?body s x) (\<lambda>(ok, x). if ok then ?J (ys @ [s]) x else False)"
    proof (cases "cls ! s = SS_Null")
      case True
      obtain cls' vis' where "epsilon_closure_single [] f cls vis s = Some (True, cls', vis', [])" "length vis' = ?n" "vset vis' = {}"
        "closures_ok f cls'" "cls' ! s \<noteq> SS_Null" "\<forall>p. p \<noteq> s \<longrightarrow> cls' ! p = cls ! p"
        by (rule wpE4 [OF epsilon_closure_single_wp [OF inv cls(3) True upt_split(2) [OF xs] cls(1,2)]]) auto
      then show ?thesis using True cls(4) by (auto simp: x)
    next
      case False
      then show ?thesis using cls by (simp add: x)
    qed
  qed
  then obtain cls vis where second: "c_for ?body [0..<?n] (cls0, replicate ?n False, []) = Some (True, cls, vis, [])"
    and post: "length vis = ?n" "vset vis = {}" "closures_ok f cls" "\<forall>s < ?n. cls ! s \<noteq> SS_Null"
    by (rule wpE4) (auto split: if_splits)
  have "vis = replicate ?n False" using post(1,2) by (auto simp: vset_def list_eq_iff_nth_eq)
  then have "set_visited f vis = clear_visited f"
    by (simp add: set_visited_def clear_visited_def list_eq_iff_nth_eq)
  then show ?thesis
    using n post by (simp add: epsilon_closure_def c_assert_def first second closures_ok_def)
qed

lemma eps_reach_run: "t \<in> eps_reach f s \<longleftrightarrow> run (fsm_step f) s [] t"
  unfolding eps_reach_def run_Nil_iff by (simp add: fsm_eps_rel_def [abs_def])

lemma eps_reach_runs: "{t. (fsm_eps_rel f)\<^sup>*\<^sup>* s t} = {t. run (fsm_step f) s [] t}" "eps_reach f s = {t. run (fsm_step f) s [] t}"
  using eps_reach_run [of _ f s] by (auto simp: eps_reach_def)

end
