(* ===== verification/Fsm_Reverse.thy ===== *)
theory Fsm_Reverse
  imports Fsm_Combine
begin

text \<open>
  Reversal, \<open>src/libfsm/reverse.c\<close>: the edges are turned around, the start state becomes the only
  end state and the end states together the start. The language of the result is the set of
  the reversed words.
\<close>

section \<open>Definitions\<close>

text \<open>
  How a step of the reversal leaves: going on; with the error path that puts the unfinished
  arrays into the states (\<open>error1\<close>); or with one that leaves the states alone.
\<close>

datatype rev_exit = Rev_Go | Rev_Error1 | Rev_Return

type_synonym rev_arrays = "edge_set list \<times> state_set list"

definition rev_epsilons ::
  "fsm_state_t \<Rightarrow> fsm_state_t list \<Rightarrow> state_set list \<times> alloc \<Rightarrow> (bool \<times> state_set list \<times> alloc) option" where
  "rev_epsilons i =
     c_for (\<lambda>se (epsilons, al).
       do { ss \<leftarrow> c_nth epsilons se;
            (ok, ss, al) \<leftarrow> state_set_add al ss i;
            Some (ok, epsilons[se := ss], al) })"

definition rev_edges ::
  "nat \<Rightarrow> fsm_state_t \<Rightarrow> fsm_edge list \<Rightarrow> edge_set list \<times> alloc \<Rightarrow> (bool \<times> edge_set list \<times> alloc) option" where
  "rev_edges n i =
     c_for (\<lambda>e (edges, al).
       do { c_assert (e_state e < n);
            es \<leftarrow> c_nth edges (e_state e);
            (ok, es, al) \<leftarrow> edge_set_add al es (e_symbol e) i;
            Some (ok, edges[e_state e := es], al) })"

definition rev_state ::
  "fsm \<Rightarrow> fsm_state_t \<Rightarrow> rev_exit \<times> bool \<times> rev_arrays \<times> alloc \<Rightarrow> (bool \<times> rev_exit \<times> bool \<times> rev_arrays \<times> alloc) option" where
  "rev_state f i = (\<lambda>(_, hasepsilons, (edges, epsilons), al).
     do { let st = f_states f ! i;
          let hasepsilons = (hasepsilons \<or> st_epsilons st \<noteq> SS_Null);
          (ok, epsilons, al) \<leftarrow> rev_epsilons i (state_set_drain (state_set_reset (st_epsilons st))) (epsilons, al);
          if \<not> ok then Some (False, Rev_Error1, hasepsilons, (edges, epsilons), al)
          else do {
            (ok, edges, al) \<leftarrow> rev_edges (statecount f) i (edge_set_drain (st_edges st)) (edges, al);
            Some (ok, if ok then Rev_Go else Rev_Return, hasepsilons, (edges, epsilons), al) } })"

text \<open>The previous end states are hooked up to a new start state.\<close>

definition rev_start ::
  "fsm_state_t \<Rightarrow> bool \<Rightarrow> state_set \<Rightarrow> rev_arrays \<Rightarrow> alloc \<Rightarrow> (rev_exit \<times> rev_arrays \<times> alloc) option" where
  "rev_start start hasepsilons endset = (\<lambda>(edges, epsilons) al.
     if hasepsilons then
       do { (ok, epsilons, al) \<leftarrow>
              c_for (\<lambda>s (epsilons, al).
                  if s = start then Some (True, epsilons, al)
                  else do { (ok, ss, al) \<leftarrow> state_set_add al (epsilons ! start) s; Some (ok, epsilons[start := ss], al) })
                (state_set_drain (state_set_reset endset)) (epsilons, al);
            Some (if ok then Rev_Go else Rev_Error1, (edges, epsilons), al) }
     else
       do { (ok, edges, al) \<leftarrow>
              c_for (\<lambda>s (edges, al).
                  if s = start \<or> edges ! s = ES_Null then Some (True, edges, al)
                  else do { (ok, es, al) \<leftarrow> edge_set_copy al (edges ! start) (edges ! s); Some (ok, edges[start := es], al) })
                (state_set_drain (state_set_reset endset)) (edges, al);
            Some (if ok then Rev_Go else Rev_Return, (edges, epsilons), al) })"

definition rev_ends :: "fsm \<Rightarrow> fsm_state_t \<Rightarrow> state_set \<Rightarrow> fsm option" where
  "rev_ends f end_state endset =
     do { f \<leftarrow> (if state_set_contains endset end_state then Some f
                else do { e \<leftarrow> fsm_isend f end_state; c_assert (\<not> e); fsm_setend f end_state 1 });
          (_, f) \<leftarrow> c_for (\<lambda>s f. if s = end_state then Some (True, f) else do { f \<leftarrow> fsm_setend f s 0; Some (True, f) })
            (state_set_drain (state_set_reset endset)) f;
          Some f }"

definition rev_swap :: "fsm \<Rightarrow> rev_arrays \<Rightarrow> fsm" where
  "rev_swap f = (\<lambda>(edges, epsilons).
     f\<lparr>f_states := map (\<lambda>i. (f_states f ! i)\<lparr>st_epsilons := epsilons ! i, st_edges := edges ! i\<rparr>) [0..<statecount f]\<rparr>)"

definition rev_endset :: "alloc \<Rightarrow> fsm \<Rightarrow> (bool \<times> state_set \<times> alloc) option" where
  "rev_endset al f =
     c_for (\<lambda>i (endset, al). do { e \<leftarrow> fsm_isend f i; if \<not> e then Some (True, endset, al) else state_set_add al endset i })
       [0..<statecount f] (SS_Null, al)"

definition rev_has_end :: "fsm \<Rightarrow> state_set \<Rightarrow> bool option" where
  "rev_has_end f endset =
     do { (none, _) \<leftarrow> c_for (\<lambda>s u. do { e \<leftarrow> fsm_isend f s; Some (\<not> e, u) }) (state_set_drain (state_set_reset endset)) ();
          Some (\<not> none) }"

text \<open>
  A failing allocation of the second array goes unnoticed: the test is for the first, and the
  null pointer is written to.
\<close>

definition rev_build :: "alloc \<Rightarrow> fsm \<Rightarrow> fsm_state_t \<Rightarrow> fsm_state_t \<Rightarrow> state_set \<Rightarrow> (bool \<times> fsm \<times> alloc) option" where
  "rev_build al f start end_state endset =
     (let (ok, al) = f_malloc al in
      if \<not> ok then Some (False, f, al)
      else do {
        let (ok, al) = f_malloc al;
        c_assert ok;
        let n = statecount f;
        (_, exit, hasepsilons, arrays, al) \<leftarrow>
          c_for (rev_state f) [0..<n] (Rev_Go, False, (replicate n ES_Null, replicate n SS_Null), al);
        (exit, arrays, al) \<leftarrow>
          (if exit = Rev_Go \<and> f_endcount f \<noteq> 1 then rev_start start hasepsilons endset arrays al else Some (exit, arrays, al));
        case exit of
          Rev_Error1 \<Rightarrow> Some (False, rev_swap f arrays, al)
        | Rev_Return \<Rightarrow> Some (False, f, al)
        | Rev_Go \<Rightarrow>
            do { f \<leftarrow> rev_ends f end_state endset;
                 has \<leftarrow> (if state_set_count endset > 1 \<and> \<not> hasepsilons then rev_has_end f endset else Some False);
                 f \<leftarrow> (if has then do { e \<leftarrow> fsm_isend f start; c_assert (\<not> e); fsm_setend f start 1 } else Some f);
                 Some (True, rev_swap f arrays, al) } })"

text \<open>Without an end or a start the result has one state, and no start.\<close>

definition fsm_reverse :: "alloc \<Rightarrow> fsm \<Rightarrow> (bool \<times> fsm \<times> alloc) option" where
  "fsm_reverse al f =
     do { prevstart \<leftarrow> (if f_endcount f = 0 then Some None else fsm_getstart f);
          case prevstart of
            None \<Rightarrow>
              do { (new, al) \<leftarrow> fsm_new_statealloc al 1;
                   case new of
                     None \<Rightarrow> Some (False, f, al)
                   | Some new \<Rightarrow>
                       do { (s, new, al) \<leftarrow> fsm_addstate al new;
                            case s of
                              None \<Rightarrow> Some (False, f, al)
                            | Some s \<Rightarrow> Some (True, fsm_move f (new\<lparr>f_start := s\<rparr>), al) } }
          | Some end_state \<Rightarrow>
              do { (ok, endset, al) \<leftarrow> rev_endset al f;
                   if \<not> ok then Some (False, f, al)
                   else do {
                     c_assert (state_set_count endset = f_endcount f);
                     (start, f, al) \<leftarrow>
                       (if f_endcount f = 1 then do { s \<leftarrow> state_set_only endset; Some (Some s, f, al) } else fsm_addstate al f);
                     case start of
                       None \<Rightarrow> Some (False, f, al)
                     | Some start \<Rightarrow> do { f \<leftarrow> fsm_setstart f start; rev_build al f start end_state endset } } } }"

section \<open>The reversed steps in the arrays\<close>

fun arr_step :: "rev_arrays \<Rightarrow> (fsm_state_t, octet) lts" where
  "arr_step (edges, epsilons) t l s \<longleftrightarrow> t < length edges \<and>
     (case l of None \<Rightarrow> s \<in> ss_set (epsilons ! t) | Some c \<Rightarrow> (c, s) \<in> es_edges (edges ! t))"

fun arr_ok :: "nat \<Rightarrow> rev_arrays \<Rightarrow> bool" where
  "arr_ok n (edges, epsilons) \<longleftrightarrow> length edges = n \<and> length epsilons = n \<and>
     (\<forall>t < n. es_inv (edges ! t) \<and> es_tos (edges ! t) \<subseteq> snd ` es_edges (edges ! t) \<and> ss_inv (epsilons ! t))"

lemma arr_new:
  "arr_ok n (replicate n ES_Null, replicate n SS_Null)" "\<not> arr_step (replicate n ES_Null, replicate n SS_Null) t l s"
  by (auto split: option.splits)

lemma arr_add_epsilon:
  assumes ok: "arr_ok n (edges, epsilons)" and t: "t < n" and s: "s < state_limit"
  shows "wp (state_set_add [] (epsilons ! t) s) (\<lambda>(ok, ss, al). ok \<and> al = [] \<and> arr_ok n (edges, epsilons[t := ss]) \<and>
    arr_step (edges, epsilons[t := ss]) = (\<lambda>t' l s'. arr_step (edges, epsilons) t' l s' \<or> t' = t \<and> l = None \<and> s' = s))"
proof -
  have "ss_inv (epsilons ! t)" using ok t by simp
  then obtain ss where run: "state_set_add [] (epsilons ! t) s = Some (True, ss, [])"
    and ss: "ss_inv ss" "ss_set ss = insert s (ss_set (epsilons ! t))"
    by (rule wpE3 [OF state_set_add_wp [OF _ s]]) (auto simp: added_def)
  have "arr_step (edges, epsilons[t := ss]) t' l s' \<longleftrightarrow> arr_step (edges, epsilons) t' l s' \<or> t' = t \<and> l = None \<and> s' = s" for t' l s'
    using ok t ss(2) by (cases "t' = t") (auto split: option.splits)
  moreover have "arr_ok n (edges, epsilons[t := ss])" using ok t ss(1) by (auto simp: nth_list_update)
  ultimately show ?thesis by (simp add: run fun_eq_iff del: arr_ok.simps arr_step.simps)
qed

lemma arr_set_edges:
  assumes ok: "arr_ok n (edges, epsilons)" and t: "t < n" and es: "es_inv es" "es_tos es \<subseteq> snd ` es_edges es"
    and steps: "es_edges es = es_edges (edges ! t) \<union> new"
  shows "arr_ok n (edges[t := es], epsilons)"
    and "arr_step (edges[t := es], epsilons) = (\<lambda>t' l s'. arr_step (edges, epsilons) t' l s' \<or> t' = t \<and> (\<exists>c. l = Some c \<and> (c, s') \<in> new))"
proof -
  show "arr_ok n (edges[t := es], epsilons)" using ok t es by (auto simp: nth_list_update)
  have "arr_step (edges[t := es], epsilons) t' l s' \<longleftrightarrow> arr_step (edges, epsilons) t' l s' \<or> t' = t \<and> (\<exists>c. l = Some c \<and> (c, s') \<in> new)" for t' l s'
    using ok t steps by (cases l; cases "t' = t") simp_all
  then show "arr_step (edges[t := es], epsilons) =
      (\<lambda>t' l s'. arr_step (edges, epsilons) t' l s' \<or> t' = t \<and> (\<exists>c. l = Some c \<and> (c, s') \<in> new))" by (intro ext)
qed

lemma rev_epsilons_wp:
  assumes ok: "arr_ok n (edges, epsilons)" and i: "i < state_limit" and ts: "set ts \<subseteq> {..<n}"
  shows "wp (rev_epsilons i ts (epsilons, [])) (\<lambda>(ok, eps', al). ok \<and> al = [] \<and> arr_ok n (edges, eps') \<and>
    arr_step (edges, eps') = (\<lambda>t l s. arr_step (edges, epsilons) t l s \<or> t \<in> set ts \<and> l = None \<and> s = i))"
  using ok ts
proof (induction ts arbitrary: epsilons)
  case Nil
  then show ?case by (simp add: rev_epsilons_def)
next
  case (Cons t ts)
  obtain ss where run: "state_set_add [] (epsilons ! t) i = Some (True, ss, [])" and 1: "arr_ok n (edges, epsilons[t := ss])"
    "arr_step (edges, epsilons[t := ss]) = (\<lambda>t' l s'. arr_step (edges, epsilons) t' l s' \<or> t' = t \<and> l = None \<and> s' = i)"
    by (rule wpE3 [OF arr_add_epsilon [OF Cons.prems(1) _ i, of t]]) (use Cons.prems(2) in auto)
  have t: "t < length epsilons" using Cons.prems by simp
  have "rev_epsilons i (t # ts) (epsilons, []) = rev_epsilons i ts (epsilons[t := ss], [])"
    using t by (simp add: rev_epsilons_def c_nth_def run)
  then show ?case
    using Cons.IH [OF 1(1)] Cons.prems(2) unfolding 1(2) by (auto elim!: wpE3 simp: fun_eq_iff simp del: arr_ok.simps arr_step.simps)
qed

lemma rev_edges_wp:
  assumes ok: "arr_ok n (edges, epsilons)" and i: "i < state_limit" and es: "e_state ` set es \<subseteq> {..<n}"
  shows "wp (rev_edges n i es (edges, [])) (\<lambda>(ok, edges', al). ok \<and> al = [] \<and> arr_ok n (edges', epsilons) \<and>
    arr_step (edges', epsilons) =
      (\<lambda>t l s. arr_step (edges, epsilons) t l s \<or> s = i \<and> (\<exists>e \<in> set es. t = e_state e \<and> l = Some (e_symbol e))))"
  using ok es
proof (induction es arbitrary: edges)
  case Nil
  then show ?case by (simp add: rev_edges_def)
next
  case (Cons e es)
  let ?t = "e_state e"
  have t: "?t < n" "?t < length edges" and inv: "es_inv (edges ! ?t)" "es_tos (edges ! ?t) \<subseteq> snd ` es_edges (edges ! ?t)"
    using Cons.prems by auto
  obtain x where run: "edge_set_add [] (edges ! ?t) (e_symbol e) i = Some (True, x, [])" and x: "es_inv x"
      "es_edges x = es_edges (edges ! ?t) \<union> {(e_symbol e, i)}" "es_tos x = insert i (es_tos (edges ! ?t))"
    by (rule wpE3 [OF edge_set_add_wp [OF inv(1) i, of "[]" "e_symbol e"]]) (auto simp: es_added_def)
  have "es_tos x \<subseteq> snd ` es_edges x" using x(2,3) inv(2) by auto
  note 1 = arr_set_edges [OF Cons.prems(1) t(1) x(1) this x(2)]
  have "rev_edges n i (e # es) (edges, []) = rev_edges n i es (edges[?t := x], [])"
    using t by (simp add: rev_edges_def c_nth_def c_assert_def run)
  then show ?case
    using Cons.IH [OF 1(1)] Cons.prems(2) unfolding 1(2) by (auto elim!: wpE3 simp: fun_eq_iff simp del: arr_ok.simps arr_step.simps)
qed

declare arr_step.simps [simp del] arr_ok.simps [simp del]

lemma fsm_epsilon_targets:
  assumes "fsm_inv f" and "i < statecount f"
  shows "t \<in> ss_set (st_epsilons (f_states f ! i)) \<longleftrightarrow> fsm_step f i None t"
    and "(\<exists>e \<in> set (edge_list (st_edges (f_states f ! i))). t = e_state e \<and> c = e_symbol e) \<longleftrightarrow> fsm_step f i (Some c) t"
proof -
  show "t \<in> ss_set (st_epsilons (f_states f ! i)) \<longleftrightarrow> fsm_step f i None t"
    using assms(2) by (simp add: fsm_step_def step_in_def)
  have mod: "s mod edge_state_limit = s" if "(c, s) \<in> es_edges (st_edges (f_states f ! i))" for c s
  proof -
    have "fsm_step f i (Some c) s" using assms(2) that by (simp add: fsm_step_def step_in_def)
    then show ?thesis using fsm_step_bounds(2) [OF assms(1)] assms(1) by (fastforce simp: fsm_inv_def)
  qed
  have "(\<exists>e \<in> set (edge_list (st_edges (f_states f ! i))). t = e_state e \<and> c = e_symbol e) \<longleftrightarrow>
      (\<exists>(d, s) \<in> es_edges (st_edges (f_states f ! i)). t = s mod edge_state_limit \<and> c = d)"
    by (simp add: edge_list_set mk_edge_def split_beta)
  also have "\<dots> \<longleftrightarrow> fsm_step f i (Some c) t"
    using assms(2) mod by (force simp: fsm_step_def step_in_def)
  finally show "(\<exists>e \<in> set (edge_list (st_edges (f_states f ! i))). t = e_state e \<and> c = e_symbol e) \<longleftrightarrow> fsm_step f i (Some c) t" .
qed

lemma rev_state_wp:
  assumes inv: "fsm_inv f" and i: "i < statecount f" and ok: "arr_ok (statecount f) arrays"
  shows "wp (rev_state f i (x, h, arrays, [])) (\<lambda>(ok, x', h', arrays', al). ok \<and> x' = Rev_Go \<and> al = [] \<and>
    h' = (h \<or> st_epsilons (f_states f ! i) \<noteq> SS_Null) \<and> arr_ok (statecount f) arrays' \<and>
    arr_step arrays' = (\<lambda>t l s. arr_step arrays t l s \<or> s = i \<and> fsm_step f i l t))"
proof -
  let ?st = "f_states f ! i" and ?n = "statecount f"
  obtain edges epsilons where arr: "arrays = (edges, epsilons)" by (cases arrays)
  have lim: "i < state_limit" using fsm_inv_limits(3) [OF inv i] .
  have eps: "set (ss_list (st_epsilons ?st)) \<subseteq> {..<?n}"
    using fsm_epsilon_targets(1) [OF inv i] fsm_step_bounds(2) [OF inv] by auto
  obtain eps' where r1: "rev_epsilons i (ss_list (st_epsilons ?st)) (epsilons, []) = Some (True, eps', [])"
    and 1: "arr_ok ?n (edges, eps')"
      "arr_step (edges, eps') = (\<lambda>t l s. arr_step (edges, epsilons) t l s \<or> t \<in> ss_set (st_epsilons ?st) \<and> l = None \<and> s = i)"
    by (rule wpE3 [OF rev_epsilons_wp [OF ok [unfolded arr] lim eps]]) auto
  have es: "e_state ` set (edge_list (st_edges ?st)) \<subseteq> {..<?n}"
    using fsm_epsilon_targets(2) [OF inv i] fsm_step_bounds(2) [OF inv] by blast
  obtain edges' where r2: "rev_edges ?n i (edge_list (st_edges ?st)) (edges, []) = Some (True, edges', [])"
    and 2: "arr_ok ?n (edges', eps')" "arr_step (edges', eps') = (\<lambda>t l s. arr_step (edges, eps') t l s \<or>
        s = i \<and> (\<exists>e \<in> set (edge_list (st_edges ?st)). t = e_state e \<and> l = Some (e_symbol e)))"
    by (rule wpE3 [OF rev_edges_wp [OF 1(1) lim es]]) auto
  have "arr_step (edges', eps') t l s \<longleftrightarrow> arr_step arrays t l s \<or> s = i \<and> fsm_step f i l t" for t l s
    using fsm_epsilon_targets [OF inv i] unfolding 2(2) 1(2) arr by (cases l) auto
  then show ?thesis
    using r1 r2 2(1) by (simp add: rev_state_def arr state_set_drain_list edge_set_drain_list fun_eq_iff Let_def)
qed

definition has_epsilon_sets :: "fsm \<Rightarrow> bool" where
  "has_epsilon_sets f \<longleftrightarrow> (\<exists>i < statecount f. st_epsilons (f_states f ! i) \<noteq> SS_Null)"

lemma rev_states_wp:
  assumes inv: "fsm_inv f"
  shows "wp (c_for (rev_state f) [0..<statecount f] (Rev_Go, False, (replicate (statecount f) ES_Null, replicate (statecount f) SS_Null), []))
    (\<lambda>(ok, x, h, arrays, al). x = Rev_Go \<and> al = [] \<and> h = has_epsilon_sets f \<and> arr_ok (statecount f) arrays \<and>
      arr_step arrays = (\<lambda>t l s. fsm_step f s l t))"
proof -
  let ?n = "statecount f"
  let ?I = "\<lambda>ys (x, h, arrays, al :: alloc). x = Rev_Go \<and> al = [] \<and> h = (\<exists>i \<in> set ys. st_epsilons (f_states f ! i) \<noteq> SS_Null) \<and>
    arr_ok ?n arrays \<and> arr_step arrays = (\<lambda>t l s. s \<in> set ys \<and> fsm_step f s l t)"
  have loop: "wp (c_for (rev_state f) [0..<?n] (Rev_Go, False, (replicate ?n ES_Null, replicate ?n SS_Null), []))
      (\<lambda>(ok, r). if ok then ?I [0..<?n] r else False)"
  proof (rule wp_c_for)
    show "?I [] (Rev_Go, False, (replicate ?n ES_Null, replicate ?n SS_Null), [])"
      using arr_new by (simp add: fun_eq_iff)
    fix ys i zs r
    assume split: "[0..<?n] = ys @ i # zs" and I: "?I ys r"
    obtain h arrays where r: "r = (Rev_Go, h, arrays, [])" using I by (cases r) auto
    have i: "i < ?n" using upt_split [OF split] by simp
    show "wp (rev_state f i r) (\<lambda>(ok, r'). if ok then ?I (ys @ [i]) r' else False)"
      using I unfolding r by (intro wp_mono [OF rev_state_wp [OF inv i, of arrays]]) (auto simp: fun_eq_iff)
  qed
  have e1: "(\<exists>i \<in> set [0..<?n]. st_epsilons (f_states f ! i) \<noteq> SS_Null) = has_epsilon_sets f"
    by (simp add: has_epsilon_sets_def Bex_def)
  have e2: "(\<lambda>t l s. s \<in> set [0..<?n] \<and> fsm_step f s l t) = (\<lambda>t l s. fsm_step f s l t)"
    using fsm_step_bounds(1) [OF inv] by (auto simp: fun_eq_iff)
  show ?thesis
    by (rule wp_mono [OF loop]) (auto simp only: split_paired_all prod.case e1 e2 if_False split: if_split_asm)
qed

text \<open>What the new start state can do.\<close>

definition start_steps :: "bool \<Rightarrow> fsm_state_t set \<Rightarrow> (fsm_state_t, octet) lts \<Rightarrow> octet option \<Rightarrow> fsm_state_t \<Rightarrow> bool" where
  "start_steps h E T l s \<longleftrightarrow> (if h then l = None \<and> s \<in> E else l \<noteq> None \<and> (\<exists>e \<in> E. T e l s))"

lemma rev_start_epsilons_wp:
  assumes "arr_ok n (edges, epsilons)" and start: "start < n" and xs: "\<forall>s \<in> set xs. s < state_limit \<and> s \<noteq> start"
  shows "wp (c_for (\<lambda>s (epsilons, al). if s = start then Some (True, epsilons, al)
      else do { (ok, ss, al) \<leftarrow> state_set_add al (epsilons ! start) s; Some (ok, epsilons[start := ss], al) }) xs (epsilons, []))
    (\<lambda>(ok, eps', al). ok \<and> al = [] \<and> arr_ok n (edges, eps') \<and>
      arr_step (edges, eps') = (\<lambda>t l s. arr_step (edges, epsilons) t l s \<or> t = start \<and> l = None \<and> s \<in> set xs))"
  using assms(1) xs
proof (induction xs arbitrary: epsilons)
  case (Cons x xs)
  obtain ss where run: "state_set_add [] (epsilons ! start) x = Some (True, ss, [])" and 1: "arr_ok n (edges, epsilons[start := ss])"
    "arr_step (edges, epsilons[start := ss]) = (\<lambda>t' l s'. arr_step (edges, epsilons) t' l s' \<or> t' = start \<and> l = None \<and> s' = x)"
    by (rule wpE3 [OF arr_add_epsilon [OF Cons.prems(1) start, of x]]) (use Cons.prems(2) in auto)
  then show ?case
    using Cons.IH [OF 1(1)] Cons.prems(2) unfolding 1(2) by (auto elim!: wpE3 simp: fun_eq_iff run)
qed simp

lemma rev_start_edges_wp:
  assumes "arr_ok n (edges, epsilons)" and start: "start < n" and xs: "\<forall>s \<in> set xs. s < n \<and> s \<noteq> start"
  shows "wp (c_for (\<lambda>s (edges, al). if s = start \<or> edges ! s = ES_Null then Some (True, edges, al)
      else do { (ok, es, al) \<leftarrow> edge_set_copy al (edges ! start) (edges ! s); Some (ok, edges[start := es], al) }) xs (edges, []))
    (\<lambda>(ok, edges', al). ok \<and> al = [] \<and> arr_ok n (edges', epsilons) \<and>
      arr_step (edges', epsilons) = (\<lambda>t l s. arr_step (edges, epsilons) t l s \<or>
        t = start \<and> l \<noteq> None \<and> (\<exists>e \<in> set xs. arr_step (edges, epsilons) e l s)))"
  using assms(1) xs
proof (induction xs arbitrary: edges)
  case (Cons x xs)
  have x: "x < n" "x \<noteq> start" and ok: "arr_ok n (edges, epsilons)" using Cons.prems by auto
  have sel: "arr_step (edges, epsilons) x (Some c) s \<longleftrightarrow> (c, s) \<in> es_edges (edges ! x)" for c s
    using x ok by (auto simp: arr_step.simps arr_ok.simps)
  show ?case
  proof (cases "edges ! x = ES_Null")
    case True
    then have "\<not> arr_step (edges, epsilons) x l s" if "l \<noteq> None" for l s using sel that by auto
    then show ?thesis using Cons.IH [OF ok] Cons.prems(2) x(2) True by (auto elim!: wpE3 simp: fun_eq_iff)
  next
    case False
    have e: "es_inv (edges ! x)" "es_tos (edges ! x) \<subseteq> snd ` es_edges (edges ! x)" "es_inv (edges ! start)"
      "es_tos (edges ! start) \<subseteq> snd ` es_edges (edges ! start)"
      using ok x(1) start by (auto simp: arr_ok.simps)
    obtain es where run: "edge_set_copy [] (edges ! start) (edges ! x) = Some (True, es, [])" and es: "es_inv es"
        "es_edges es = es_edges (edges ! start) \<union> es_edges (edges ! x)" "es_tos es \<subseteq> es_tos (edges ! x) \<union> es_tos (edges ! start)"
      by (rule wpE3 [OF edge_set_copy_wp [OF e(3,1), of "[]"]]) (use False in \<open>auto simp: copied_def\<close>)
    have "es_tos es \<subseteq> snd ` es_edges es" using es(3) e(2,4) unfolding es(2) image_Un by blast
    note 1 = arr_set_edges [OF ok start es(1) this es(2)]
    have step: "arr_step (edges[start := es], epsilons) =
        (\<lambda>t l s. arr_step (edges, epsilons) t l s \<or> t = start \<and> l \<noteq> None \<and> arr_step (edges, epsilons) x l s)"
      unfolding 1(2) using sel by (auto simp: fun_eq_iff)
    show ?thesis
      using Cons.IH [OF 1(1)] Cons.prems(2) x(2) False unfolding step by (auto elim!: wpE3 simp: fun_eq_iff run)
  qed
qed simp

lemma rev_start_wp:
  assumes ok: "arr_ok n arrays" and start: "start < n" "start \<notin> ss_set endset" and E: "ss_set endset \<subseteq> {..<n}" and n: "n \<le> state_limit"
  shows "wp (rev_start start h endset arrays []) (\<lambda>(x, arrays', al). x = Rev_Go \<and> al = [] \<and> arr_ok n arrays' \<and>
    arr_step arrays' = (\<lambda>t l s. arr_step arrays t l s \<or> t = start \<and> start_steps h (ss_set endset) (arr_step arrays) l s))"
proof -
  obtain edges epsilons where arr: "arrays = (edges, epsilons)" by (cases arrays)
  have xs: "\<forall>s \<in> set (ss_list endset). s < n \<and> s \<noteq> start" and xs': "\<forall>s \<in> set (ss_list endset). s < state_limit \<and> s \<noteq> start"
    using E start(2) n by auto
  show ?thesis
  proof (cases h)
    case True
    then show ?thesis
      using rev_start_epsilons_wp [OF ok [unfolded arr] start(1) xs'] unfolding arr
      by (auto elim!: wpE3 simp: rev_start_def state_set_drain_list start_steps_def fun_eq_iff)
  next
    case False
    then show ?thesis
      using rev_start_edges_wp [OF ok [unfolded arr] start(1) xs] unfolding arr
      by (auto elim!: wpE3 simp: rev_start_def state_set_drain_list start_steps_def fun_eq_iff)
  qed
qed

section \<open>The end states\<close>

lemma rev_endset_wp:
  assumes inv: "fsm_inv f"
  shows "wp (rev_endset [] f) (\<lambda>(ok, endset, al). ok \<and> al = [] \<and> ss_inv endset \<and>
    ss_set endset = {s. n_end (fsm_nfa f) s} \<and> state_set_count endset = f_endcount f)"
proof -
  let ?n = "statecount f"
  let ?body = "\<lambda>i (endset, al). do { e \<leftarrow> fsm_isend f i; if \<not> e then Some (True, endset, al) else state_set_add al endset i }"
  let ?I = "\<lambda>ys (endset, al :: alloc). al = [] \<and> ss_inv endset \<and> ss_set endset = {s \<in> set ys. n_end (fsm_nfa f) s}"
  have "wp (c_for ?body [0..<?n] (SS_Null, [])) (\<lambda>(ok, r). if ok then ?I [0..<?n] r else False)"
  proof (rule wp_c_for)
    fix ys i zs r
    assume split: "[0..<?n] = ys @ i # zs" and I: "?I ys r"
    obtain endset where r: "r = (endset, [])" using I by (cases r) auto
    have i: "i < ?n" "i < state_limit" using upt_split [OF split] fsm_inv_limits(3) [OF inv] by auto
    show "wp (?body i r) (\<lambda>(ok, r'). if ok then ?I (ys @ [i]) r' else False)"
    proof (cases "n_end (fsm_nfa f) i")
      case True
      then show ?thesis
        using state_set_add_wp [OF _ i(2), of endset "[]"] I
        by (auto simp: r fsm_isend_eq [OF i(1)] added_def elim!: wpE3)
    qed (use I in \<open>auto simp: r fsm_isend_eq [OF i(1)]\<close>)
  qed simp
  then obtain endset where run: "rev_endset [] f = Some (True, endset, [])" and es: "ss_inv endset"
      "ss_set endset = {s \<in> {..<?n}. n_end (fsm_nfa f) s}"
    by (auto elim!: wpE3 simp: rev_endset_def split: if_splits)
  have ends: "ss_set endset = {s. n_end (fsm_nfa f) s}" using es(2) by (auto simp: fsm_nfa_def)
  have "state_set_count endset = card (ss_set endset)"
    unfolding state_set_count_length using ss_list_asc [OF es(1)] by (simp add: distinct_card asc_distinct)
  also have "\<dots> = card (set (filter (\<lambda>i. st_end (f_states f ! i)) [0..<?n]))"
    unfolding es(2) by (rule arg_cong [of _ _ card]) (auto simp: fsm_nfa_def)
  also have "\<dots> = length (filter (\<lambda>i. st_end (f_states f ! i)) [0..<?n])" by (rule distinct_card) simp
  also have "\<dots> = length (filter st_end (map ((!) (f_states f)) [0..<?n]))" by (simp add: filter_map o_def)
  also have "\<dots> = f_endcount f" using inv by (simp add: map_nth fsm_inv_def)
  finally show ?thesis using es(1) ends by (simp add: run)
qed

lemma rev_ends_wp:
  assumes inv: "fsm_inv f" and e: "e < statecount f" and es: "ss_inv endset" "ss_set endset = {s. n_end (fsm_nfa f) s}"
  shows "wp (rev_ends f e endset) (\<lambda>f'. fsm_inv f' \<and> extends f f' \<and> statecount f' = statecount f \<and>
    fsm_nfa f' = (fsm_nfa f)\<lparr>n_end := (\<lambda>s. s = e)\<rparr>)"
proof -
  let ?set = "\<lambda>X. (fsm_nfa f)\<lparr>n_end := (\<lambda>s. s = e \<or> s \<in> ss_set endset \<and> s \<notin> X)\<rparr>"
  have c: "state_set_contains endset e \<longleftrightarrow> n_end (fsm_nfa f) e" using state_set_contains_iff [OF es(1)] es(2) by simp
  obtain f1 where r1: "(if state_set_contains endset e then Some f
                else do { b \<leftarrow> fsm_isend f e; c_assert (\<not> b); fsm_setend f e 1 }) = Some f1"
    and f1: "fsm_inv f1" "extends f f1" "statecount f1 = statecount f" "fsm_nfa f1 = ?set {}"
  proof (cases "n_end (fsm_nfa f) e")
    case True
    then have "fsm_nfa f = ?set {}" using es(2) by (intro nfa_eqI) auto
    then show ?thesis using that [of f] True c inv by simp
  next
    case False
    obtain f' where r: "fsm_setend f e 1 = Some f'" and f': "fsm_inv f'" "statecount f' = statecount f"
        "fsm_nfa f' = (fsm_nfa f)\<lparr>n_end := (n_end (fsm_nfa f))(e := True)\<rparr>"
      by (rule wpE [OF fsm_setend_wp [OF inv e, of 1]]) auto
    have "fsm_nfa f' = ?set {}" unfolding f'(3) using es(2) by (intro nfa_eqI) auto
    then show ?thesis using that [of f'] r f'(1,2) False c fsm_setend_extends [OF r] by (simp add: fsm_isend_eq [OF e] c_assert_def)
  qed
  let ?body = "\<lambda>s f. if s = e then Some (True, f) else do { f \<leftarrow> fsm_setend f s 0; Some (True, f) }"
  let ?I = "\<lambda>ys g. fsm_inv g \<and> extends f g \<and> statecount g = statecount f \<and> fsm_nfa g = ?set (set ys)"
  have "wp (c_for ?body (ss_list endset) f1) (\<lambda>(ok, g). if ok then ?I (ss_list endset) g else False)"
  proof (rule wp_c_for [where I = ?I])
    show "?I [] f1" using f1 by simp
    fix ys s zs g
    assume split: "ss_list endset = ys @ s # zs" and I: "?I ys g"
    have "s \<in> ss_set endset" by (simp add: split)
    then have s: "s < statecount g" using es(2) I by (auto simp: fsm_nfa_def)
    show "wp (?body s g) (\<lambda>(ok, g'). if ok then ?I (ys @ [s]) g' else False)"
    proof (cases "s = e")
      case True
      then have "?set (set ys) = ?set (set (ys @ [s]))" by (intro nfa_eqI) auto
      then show ?thesis using I True by simp
    next
      case False
      obtain g' where r: "fsm_setend g s 0 = Some g'" and g': "fsm_inv g'" "statecount g' = statecount g"
          "fsm_nfa g' = (fsm_nfa g)\<lparr>n_end := (n_end (fsm_nfa g))(s := False)\<rparr>"
        using I s by (auto intro: wpE [OF fsm_setend_wp [of g s 0]])
      have "fsm_nfa g' = ?set (set (ys @ [s]))" unfolding g'(3) using I False by (intro nfa_eqI) auto
      then show ?thesis using I False r g'(1,2) extends_trans [OF _ fsm_setend_extends [OF r]] by simp
    qed
  qed
  then obtain g where r2: "c_for ?body (ss_list endset) f1 = Some (True, g)" and g: "?I (ss_list endset) g"
    by (auto elim!: wpE2 split: if_splits)
  have "?set (ss_set endset) = (fsm_nfa f)\<lparr>n_end := (\<lambda>s. s = e)\<rparr>" by (intro nfa_eqI) auto
  then show ?thesis using g by (simp add: rev_ends_def r1 r2 state_set_drain_list)
qed

lemma rev_has_end_eq:
  assumes "ss_set endset \<subseteq> {..<statecount f}"
  shows "rev_has_end f endset = Some (\<exists>s \<in> ss_set endset. n_end (fsm_nfa f) s)"
proof -
  have "c_for (\<lambda>s u. do { e \<leftarrow> fsm_isend f s; Some (\<not> e, u) }) xs () = Some (\<forall>s \<in> set xs. \<not> n_end (fsm_nfa f) s, ())"
    if "set xs \<subseteq> {..<statecount f}" for xs
    using that by (induction xs) (auto simp: fsm_isend_eq)
  from this [of "ss_list endset"] show ?thesis using assms by (simp add: rev_has_end_def state_set_drain_list)
qed

section \<open>The language of the reversed steps\<close>

definition rev_steps :: "('s, 'c) lts \<Rightarrow> ('s, 'c) lts" where
  "rev_steps T = (\<lambda>t l s. T s l t)"

lemma rev_language_union:
  fixes A R :: "('s, 'c) nfa"
  assumes "n_start A = Some p" and "n_step R = rev_steps (n_step A)" and "n_end R = (\<lambda>s. s = p)"
  shows "rev ` language A = (\<Union>e \<in> {e. n_end A e}. lang_from R e)"
proof -
  have "run (n_step R) e w p \<longleftrightarrow> run (n_step A) p (rev w) e" for e w
    using run_reverse_iff [of "n_step A" e "rev w" p] by (simp add: assms(2) rev_steps_def)
  then have "w \<in> (\<Union>e \<in> {e. n_end A e}. lang_from R e) \<longleftrightarrow> rev w \<in> language A" for w
    using assms(1,3) by (auto simp: lang_from_def in_language)
  then show ?thesis by (force simp: image_iff)
qed

lemma rev_language_single:
  fixes A B :: "('s, 'c) nfa"
  assumes "n_start A = Some p" and "{s. n_end A s} = {e}"
    and "n_start B = Some e" and "n_step B = rev_steps (n_step A)" and "n_end B = (\<lambda>s. s = p)"
  shows "language B = rev ` language A"
  using rev_language_union [OF assms(1,4,5)] assms(2,3) by (simp add: language_lang_from)

lemma rev_language_start:
  fixes A B :: "(nat, octet) nfa"
  assumes p: "n_start A = Some p" "p < n" and E: "{s. n_end A s} \<subseteq> {..<n}"
    and bnd: "\<And>s l t. n_step A s l t \<Longrightarrow> s < n \<and> t < n" and eps: "h \<or> (\<forall>s t. \<not> n_step A s None t)"
    and B: "n_start B = Some n" "n_end B = (\<lambda>s. s = p \<or> s = n \<and> \<not> h \<and> n_end A p)"
      "n_step B = (\<lambda>t l s. rev_steps (n_step A) t l s \<or> t = n \<and> start_steps h {s. n_end A s} (rev_steps (n_step A)) l s)"
  shows "language B = rev ` language A"
proof -
  define R where "R = A\<lparr>n_step := rev_steps (n_step A), n_end := (\<lambda>s. s = p)\<rparr>"
  have R: "n_step R = rev_steps (n_step A)" "n_end R = (\<lambda>s. s = p)" by (simp_all add: R_def)
  have old: "lang_from B s = lang_from R s" if "s < n" for s
    by (rule lang_from_within [where S = "{..<n}"])
      (use that bnd in \<open>auto simp: R B(2,3) rev_steps_def dest: bnd\<close>)
  have from_n: "n_step B n l t \<longleftrightarrow> start_steps h {s. n_end A s} (rev_steps (n_step A)) l t" for l t
    unfolding B(3) using bnd by (auto simp: rev_steps_def)
  have "w \<in> lang_from B n \<longleftrightarrow> (\<exists>e. n_end A e \<and> w \<in> lang_from R e)" for w
  proof (cases h)
    case True
    have "w \<in> lang_from B n \<longleftrightarrow> (\<exists>e. n_end A e \<and> w \<in> lang_from B e)"
      using True p(2) by (subst lang_from_iff) (auto simp: from_n start_steps_def B(2))
    then show ?thesis using old E by (metis lessThan_iff mem_Collect_eq subsetD)
  next
    case False
    have none: "\<not> rev_steps (n_step A) s None t" for s t using eps False by (simp add: rev_steps_def)
    have "w \<in> lang_from B n \<longleftrightarrow> w = [] \<and> n_end A p \<or>
        (\<exists>c v t e. w = c # v \<and> n_end A e \<and> rev_steps (n_step A) e (Some c) t \<and> v \<in> lang_from B t)"
      using False p(2) by (subst lang_from_iff) (auto simp: from_n start_steps_def B(2))
    also have "\<dots> \<longleftrightarrow> w = [] \<and> n_end A p \<or>
        (\<exists>c v t e. w = c # v \<and> n_end A e \<and> rev_steps (n_step A) e (Some c) t \<and> v \<in> lang_from R t)"
      using old bnd unfolding rev_steps_def by metis
    also have "\<dots> \<longleftrightarrow> (\<exists>e. n_end A e \<and> w \<in> lang_from R e)"
      by (subst (2) lang_from_iff) (auto simp: R none)
    finally show ?thesis .
  qed
  then show ?thesis using rev_language_union [OF p(1) R] B(1) by (auto simp: language_lang_from)
qed

section \<open>The automaton with the arrays\<close>

lemma rev_swap_ok:
  assumes inv: "fsm_inv f" and ok: "arr_ok (statecount f) arrays" and bnd: "\<And>t l s. arr_step arrays t l s \<Longrightarrow> s < statecount f"
  shows "fsm_inv (rev_swap f arrays)" and "extends f (rev_swap f arrays)" and "statecount (rev_swap f arrays) = statecount f"
    and "fsm_nfa (rev_swap f arrays) = (fsm_nfa f)\<lparr>n_step := arr_step arrays\<rparr>"
proof -
  obtain edges epsilons where arr: "arrays = (edges, epsilons)" by (cases arrays)
  let ?n = "statecount f"
  let ?st = "\<lambda>i. (f_states f ! i)\<lparr>st_epsilons := epsilons ! i, st_edges := edges ! i\<rparr>"
  have sts: "f_states (rev_swap f arrays) = map ?st [0..<?n]" by (simp add: rev_swap_def arr)
  show n: "statecount (rev_swap f arrays) = ?n" by (simp add: sts)
  have len: "length edges = ?n" "length epsilons = ?n" using ok by (simp_all add: arr arr_ok.simps)
  have st: "state_ok ?n (?st i)" "es_tos (edges ! i) \<subseteq> snd ` es_edges (edges ! i)" if "i < ?n" for i
  proof -
    have o: "es_inv (edges ! i)" "es_tos (edges ! i) \<subseteq> snd ` es_edges (edges ! i)" "ss_inv (epsilons ! i)"
      using ok that by (auto simp: arr arr_ok.simps)
    moreover have "s < ?n" if "(c, s) \<in> es_edges (edges ! i)" for c s
      using bnd [of i "Some c" s] that \<open>i < ?n\<close> len by (simp add: arr arr_step.simps)
    moreover have "s < ?n" if "s \<in> ss_set (epsilons ! i)" for s
      using bnd [of i None s] that \<open>i < ?n\<close> len by (simp add: arr arr_step.simps)
    ultimately show "state_ok ?n (?st i)" "es_tos (edges ! i) \<subseteq> snd ` es_edges (edges ! i)" by (auto simp: state_ok_def)
  qed
  have "length (filter st_end (map ?st [0..<?n])) = length (filter st_end (map ((!) (f_states f)) [0..<?n]))"
    by (simp add: filter_map o_def)
  also have "\<dots> = f_endcount f" using inv by (simp add: map_nth fsm_inv_def)
  finally show "fsm_inv (rev_swap f arrays)"
    using inv st(1) n by (simp add: fsm_inv_def sts statealloc_def) (simp add: rev_swap_def arr)
  have "fsm_tidy (rev_swap f arrays)" unfolding fsm_tidy_def sts using st(2) by simp
  then show "extends f (rev_swap f arrays)"
    by (simp add: extends_def n sts fsm_meta_def) (simp add: rev_swap_def arr)
  have "fsm_step (rev_swap f arrays) t l s = arr_step arrays t l s" for t l s
    unfolding fsm_step_def step_in_def sts unfolding arr arr_step.simps using len by (cases l) auto
  moreover have "n_end (fsm_nfa (rev_swap f arrays)) s = n_end (fsm_nfa f) s" for s
    by (auto simp: fsm_nfa_def sts n)
  moreover have "n_start (fsm_nfa (rev_swap f arrays)) = n_start (fsm_nfa f)" by (simp add: fsm_nfa_def rev_swap_def arr)
  ultimately show "fsm_nfa (rev_swap f arrays) = (fsm_nfa f)\<lparr>n_step := arr_step arrays\<rparr>"
    by (intro nfa_eqI) (simp_all add: fsm_nfa_def)
qed

section \<open>The operation\<close>

lemma rev_mark_wp:
  assumes inv: "fsm_inv f" and p: "n_end (fsm_nfa f) = (\<lambda>s. s = p)" and s: "start < statecount f" "b \<Longrightarrow> start \<noteq> p"
  shows "wp (if b then do { e \<leftarrow> fsm_isend f start; c_assert (\<not> e); fsm_setend f start 1 } else Some f)
    (\<lambda>f'. fsm_inv f' \<and> extends f f' \<and> statecount f' = statecount f \<and> fsm_nfa f' = (fsm_nfa f)\<lparr>n_end := (\<lambda>s. s = p \<or> s = start \<and> b)\<rparr>)"
proof (cases b)
  case True
  obtain f' where r: "fsm_setend f start 1 = Some f'" and f': "fsm_inv f'" "statecount f' = statecount f"
      "fsm_nfa f' = (fsm_nfa f)\<lparr>n_end := (n_end (fsm_nfa f))(start := True)\<rparr>"
    by (rule wpE [OF fsm_setend_wp [OF inv s(1), of 1]]) auto
  have "fsm_nfa f' = (fsm_nfa f)\<lparr>n_end := (\<lambda>s. s = p \<or> s = start \<and> b)\<rparr>"
    unfolding f'(3) using True p by (intro nfa_eqI) auto
  then show ?thesis using True s p f'(1,2) fsm_setend_extends [OF r] by (simp add: fsm_isend_eq [OF s(1)] c_assert_def r)
next
  case False
  then have "fsm_nfa f = (fsm_nfa f)\<lparr>n_end := (\<lambda>s. s = p \<or> s = start \<and> b)\<rparr>" using p by (intro nfa_eqI) auto
  then show ?thesis using False inv by simp
qed

lemma rev_build_wp:
  assumes wf: "fsm_wf f" and start: "n_start A = Some p" "p < statecount f" "f_hasstart f" "f_start f = start" "start < statecount f"
    and A: "fsm_step f = n_step A" "n_end (fsm_nfa f) = n_end A" and es: "ss_inv endset" "ss_set endset = {s. n_end A s}"
      "state_set_count endset = f_endcount f"
    and new: "if f_endcount f = 1 then {s. n_end A s} = {start}
      else f_endcount f > 1 \<and> \<not> n_end A start \<and> p < start \<and> {s. n_end A s} \<subseteq> {..<start} \<and> (\<forall>s l t. n_step A s l t \<longrightarrow> s < start \<and> t < start)"
  shows "wp (rev_build [] f start p endset) (\<lambda>(ok, f', al'). ok \<and> al' = [] \<and> fsm_wf f' \<and> extends f f' \<and> statecount f' = statecount f \<and>
    fsm_language f' = rev ` language A)"
proof -
  let ?n = "statecount f" and ?h = "has_epsilon_sets f" and ?R = "rev_steps (n_step A)"
  have inv: "fsm_inv f" using wf by (simp add: fsm_wf_def)
  have E: "ss_set endset \<subseteq> {..<?n}" unfolding es(2) A(2) [symmetric] by (auto simp: fsm_nfa_def)
  obtain arrays ok where r1: "c_for (rev_state f) [0..<?n] (Rev_Go, False, (replicate ?n ES_Null, replicate ?n SS_Null), []) =
      Some (ok, Rev_Go, ?h, arrays, [])" and a1: "arr_ok ?n arrays" "arr_step arrays = ?R"
    using rev_states_wp [OF inv] unfolding wp_iff_ex by (auto simp: A(1) rev_steps_def)
  let ?T = "\<lambda>t l s. ?R t l s \<or> f_endcount f \<noteq> 1 \<and> t = start \<and> start_steps ?h {s. n_end A s} ?R l s"
  obtain arrays' where r2: "(if f_endcount f \<noteq> 1 then rev_start start ?h endset arrays [] else Some (Rev_Go, arrays, [])) = Some (Rev_Go, arrays', [])"
    and a2: "arr_ok ?n arrays'" "arr_step arrays' = ?T"
  proof (cases "f_endcount f = 1")
    case True
    then show ?thesis using that [of arrays] a1 by simp
  next
    case False
    have "start \<notin> ss_set endset" using new False es(2) by simp
    from wpE3 [OF rev_start_wp [OF a1(1) start(5) this E less_imp_le [OF fsm_inv_limits(2) [OF inv]], of ?h]]
    show ?thesis using that False by (auto simp: a1(2) es(2))
  qed
  have bnd: "s < ?n" if "arr_step arrays' t l s" for t l s
    using that fsm_step_bounds [OF inv] E unfolding a2(2) start_steps_def A(1) es(2) rev_steps_def by (auto split: if_splits)
  obtain f1 where r3: "rev_ends f p endset = Some f1" and f1: "fsm_inv f1" "extends f f1" "statecount f1 = ?n"
      "fsm_nfa f1 = (fsm_nfa f)\<lparr>n_end := (\<lambda>s. s = p)\<rparr>"
    by (rule wpE [OF rev_ends_wp [OF inv start(2) es(1)]]) (use es(2) A(2) in auto)
  let ?both = "state_set_count endset > 1 \<and> \<not> ?h"
  have r4: "(if ?both then rev_has_end f1 endset else Some False) = Some (?both \<and> n_end A p)"
    using rev_has_end_eq [of endset f1] E f1(3,4) es(2) by auto
  have ne: "start \<noteq> p" if "?both \<and> n_end A p" using that new es(3) by auto
  obtain f2 where r5: "(if ?both \<and> n_end A p then do { e \<leftarrow> fsm_isend f1 start; c_assert (\<not> e); fsm_setend f1 start 1 } else Some f1) = Some f2"
    and f2: "fsm_inv f2" "extends f1 f2" "statecount f2 = ?n"
      "fsm_nfa f2 = (fsm_nfa f)\<lparr>n_end := (\<lambda>s. s = p \<or> s = start \<and> ?both \<and> n_end A p)\<rparr>"
    by (rule wpE [OF rev_mark_wp [OF f1(1), of p start "?both \<and> n_end A p"]]) (use f1(3,4) start(5) ne in auto)
  have a2': "arr_ok (statecount f2) arrays'" "\<And>t l s. arr_step arrays' t l s \<Longrightarrow> s < statecount f2" using a2(1) bnd f2(3) by auto
  let ?f = "rev_swap f2 arrays'"
  note sw = rev_swap_ok [OF f2(1) a2']
  have ext: "extends f ?f" using extends_trans [OF f1(2) extends_trans [OF f2(2) sw(2)]] .
  have nfa: "fsm_nfa ?f = (fsm_nfa f)\<lparr>n_end := (\<lambda>s. s = p \<or> s = start \<and> ?both \<and> n_end A p), n_step := ?T\<rparr>"
    using sw(4) unfolding f2(4) a2(2) .
  have B: "n_start (fsm_nfa ?f) = Some start" "n_step (fsm_nfa ?f) = ?T" "n_end (fsm_nfa ?f) = (\<lambda>s. s = p \<or> s = start \<and> ?both \<and> n_end A p)"
    unfolding nfa using start(3,4) by (simp_all add: fsm_nfa_def)
  have lang: "fsm_language ?f = rev ` language A" unfolding fsm_language_def
  proof (cases "f_endcount f = 1")
    case True
    then show "language (fsm_nfa ?f) = rev ` language A"
      using new B es(3) by (intro rev_language_single [OF start(1)]) auto
  next
    case False
    have eps: "?h \<or> (\<forall>s t. \<not> n_step A s None t)"
      unfolding A(1) [symmetric] by (auto simp: has_epsilon_sets_def fsm_step_def step_in_def)
    show "language (fsm_nfa ?f) = rev ` language A"
      using new False B es(3) by (intro rev_language_start [OF start(1) _ _ _ eps]) auto
  qed
  have "rev_build [] f start p endset = Some (True, ?f, [])"
    using r1 r2 r3 r4 r5 by (simp add: rev_build_def c_assert_def Let_def)
  then show ?thesis using lang ext sw(3) f2(3) extends_wf [OF wf sw(1) ext] by simp
qed

lemma fsm_blank_wf: "fsm_inv f \<Longrightarrow> meta_ok f \<Longrightarrow> fsm_blank f \<Longrightarrow> fsm_wf f"
  by (simp add: fsm_wf_def fsm_blank_def fsm_tidy_def eager_marked_def capture_marked_def capture_inv_none)

lemma rev_nothing:
  shows "wp (do { (new, al) \<leftarrow> fsm_new_statealloc [] 1;
                   case new of
                     None \<Rightarrow> Some (False, f, al)
                   | Some new \<Rightarrow>
                       do { (s, new, al) \<leftarrow> fsm_addstate al new;
                            case s of
                              None \<Rightarrow> Some (False, f, al)
                            | Some s \<Rightarrow> Some (True, fsm_move f (new\<lparr>f_start := s\<rparr>), al) } })
    (\<lambda>(ok, f', al'). ok \<and> al' = [] \<and> fsm_wf f' \<and> fsm_language f' = {} \<and> statecount f' = 1 \<and> \<not> f_hasstart f')"
proof -
  obtain new where r1: "fsm_new_statealloc [] 1 = Some (Some new, [])" and new: "fsm_inv new" "meta_ok new" "fsm_blank new"
    by (rule wpE2 [OF fsm_new_statealloc_wp [of 1]]) (auto split: option.splits)
  have n: "statecount new = 0" "\<not> f_hasstart new" using new(3) by (simp_all add: fsm_blank_def)
  then have lim: "statecount new < edge_state_limit" by (simp add: edge_state_limit_def)
  obtain new' where r2: "fsm_addstate [] new = Some (Some 0, new', [])" and new': "fsm_inv new'" "statecount new' = 1" "fsm_nfa new' = fsm_nfa new"
    by (rule wpE3 [OF fsm_addstate_wp [OF new(1) lim, of "[]"]]) (use n in \<open>auto split: option.splits\<close>)
  have none: "\<not> f_hasstart new'" using arg_cong [OF new'(3), of n_start] n(2) by (simp add: fsm_nfa_def split: if_splits)
  let ?f = "new'\<lparr>f_start := 0\<rparr>"
  have inv: "fsm_inv ?f" using new'(1) none by (simp add: fsm_inv_def statealloc_def)
  have "extends new ?f"
    by (rule extends_trans [OF fsm_addstate_extends [OF r2] extends_fields]) (simp_all add: fsm_meta_def)
  then have "fsm_wf ?f" using extends_wf [OF fsm_blank_wf [OF new] inv] by blast
  moreover have "fsm_language ?f = {}" using none by (simp add: fsm_language_def language_def fsm_nfa_def)
  ultimately show ?thesis using none new'(2) by (simp add: r1 [unfolded One_nat_def] r2 fsm_move_def)
qed

text \<open>The reversed automaton has the reversed words of the language, and keeps the tables.\<close>

lemma fsm_reverse_wp:
  assumes wf: "fsm_wf f" and n: "statecount f < edge_state_limit"
  shows "wp (fsm_reverse [] f) (\<lambda>(ok, f', al'). ok \<and> al' = [] \<and> fsm_wf f' \<and> fsm_language f' = rev ` fsm_language f \<and>
    (if f_endcount f = 0 \<or> \<not> f_hasstart f then statecount f' = 1 \<and> \<not> f_hasstart f'
     else extends f f' \<and> statecount f' = statecount f + of_bool (f_endcount f > 1)))"
proof -
  have inv: "fsm_inv f" using wf by (simp add: fsm_wf_def)
  let ?A = "fsm_nfa f"
  obtain endset where re: "rev_endset [] f = Some (True, endset, [])" and es: "ss_inv endset" "ss_set endset = {s. n_end ?A s}"
      "state_set_count endset = f_endcount f"
    by (rule wpE3 [OF rev_endset_wp [OF inv]]) auto
  have card: "card {s. n_end ?A s} = f_endcount f"
    unfolding es(2) [symmetric] es(3) [symmetric] state_set_count_length using asc_distinct [OF ss_list_asc [OF es(1)]] by (rule distinct_card)
  consider "f_endcount f = 0 \<or> \<not> f_hasstart f" | "f_hasstart f" "f_endcount f = 1" | "f_hasstart f" "f_endcount f > 1" by linarith
  then show ?thesis
  proof cases
    case 1
    have "finite {s. n_end ?A s}" unfolding es(2) [symmetric] by (rule finite_set)
    then have "f_endcount f = 0 \<Longrightarrow> {s. n_end ?A s} = {}" unfolding card [symmetric] by (simp only: card_0_eq)
    then have "fsm_language f = {}" using 1 by (auto simp: fsm_language_def in_language) (simp add: fsm_nfa_def)
    moreover have "(if f_endcount f = 0 then Some None else fsm_getstart f) = Some None"
      using 1 by (auto simp: fsm_getstart_wp [OF inv] fsm_nfa_def)
    ultimately show ?thesis using 1 rev_nothing [of f] by (auto simp: fsm_reverse_def elim!: wp_mono)
  next
    case 2
    let ?p = "f_start f"
    have p: "n_start ?A = Some ?p" "?p < statecount f" using 2 inv by (auto simp: fsm_nfa_def fsm_inv_def)
    obtain s where s: "{s. n_end ?A s} = {s}" using card 2(2) by (metis card_1_singletonE One_nat_def)
    then have only: "state_set_only endset = Some s" using es 2(2)
      by (cases endset) (auto simp: c_assert_def arr_inv_def state_set_count_length length_Suc_conv)
    have sn: "s < statecount f" using s by (auto simp: fsm_nfa_def)
    obtain f1 where r1: "fsm_setstart f s = Some f1" and f1: "fsm_inv f1" "fsm_nfa f1 = ?A\<lparr>n_start := Some s\<rparr>"
        "f_hasstart f1" "f_start f1 = s" "statecount f1 = statecount f" "f_endcount f1 = 1"
      using fsm_setstart_wp [OF inv sn] 2(2) by (auto elim!: wpE simp: fsm_setstart_def c_assert_def split: if_splits)
    have ext: "extends f f1" by (rule fsm_setstart_extends [OF r1])
    have st: "fsm_step f1 = n_step ?A" "n_end (fsm_nfa f1) = n_end ?A"
      using arg_cong [OF f1(2), of n_step] arg_cong [OF f1(2), of n_end] by (simp_all add: fsm_nfa_def)
    obtain f' where r2: "rev_build [] f1 s ?p endset = Some (True, f', [])" and f': "fsm_wf f'" "extends f1 f'" "statecount f' = statecount f1"
        "fsm_language f' = rev ` language ?A"
      by (rule wpE3 [OF rev_build_wp [OF extends_wf [OF wf f1(1) ext] p(1) _ f1(3,4) _ st es(1,2)]]) (use p(2) sn f1(5,6) es(3) 2 s in auto)
    have "fsm_reverse [] f = Some (True, f', [])"
      using 2 p(1) re only r1 r2 es(3) by (simp add: fsm_reverse_def fsm_getstart_wp [OF inv] c_assert_def)
    then show ?thesis using 2 f' f1(5) extends_trans [OF ext f'(2)] by (simp add: fsm_language_def)
  next
    case 3
    let ?p = "f_start f" and ?s = "statecount f"
    have p: "n_start ?A = Some ?p" "?p < statecount f" using 3 inv by (auto simp: fsm_nfa_def fsm_inv_def)
    obtain f0 where r0: "fsm_addstate [] f = Some (Some ?s, f0, [])" and f0: "fsm_inv f0" "fsm_nfa f0 = ?A" "statecount f0 = ?s + 1"
      by (rule wpE3 [OF fsm_addstate_wp [OF inv n, of "[]"]]) (auto split: option.splits)
    have ec: "f_endcount f0 = f_endcount f"
      using r0 by (auto simp: fsm_addstate_def Let_def split: if_splits list.splits prod.splits)
    obtain f1 where r1: "fsm_setstart f0 ?s = Some f1" and f1: "fsm_inv f1" "fsm_nfa f1 = ?A\<lparr>n_start := Some ?s\<rparr>"
        "f_hasstart f1" "f_start f1 = ?s" "statecount f1 = ?s + 1" "f_endcount f1 = f_endcount f"
      using fsm_setstart_wp [OF f0(1), of ?s] f0(2,3) ec by (auto elim!: wpE simp: fsm_setstart_def c_assert_def split: if_splits)
    have ext: "extends f f1" by (rule extends_trans [OF fsm_addstate_extends [OF r0] fsm_setstart_extends [OF r1]])
    have st: "fsm_step f1 = n_step ?A" "n_end (fsm_nfa f1) = n_end ?A"
      using arg_cong [OF f1(2), of n_step] arg_cong [OF f1(2), of n_end] by (simp_all add: fsm_nfa_def)
    have bnd: "\<forall>s l t. n_step ?A s l t \<longrightarrow> s < ?s \<and> t < ?s" using fsm_step_bounds [OF inv] by (simp add: fsm_nfa_def)
    have E: "{s. n_end ?A s} \<subseteq> {..<?s}" "\<not> n_end ?A ?s" by (auto simp: fsm_nfa_def)
    obtain f' where r2: "rev_build [] f1 ?s ?p endset = Some (True, f', [])" and f': "fsm_wf f'" "extends f1 f'" "statecount f' = statecount f1"
        "fsm_language f' = rev ` language ?A"
      by (rule wpE3 [OF rev_build_wp [OF extends_wf [OF wf f1(1) ext] p(1) _ f1(3,4) _ st es(1,2)]]) (use p(2) f1(5,6) es(3) 3 bnd E in auto)
    have "fsm_reverse [] f = Some (True, f', [])"
      using 3 p(1) re r0 r1 r2 es(3) by (simp add: fsm_reverse_def fsm_getstart_wp [OF inv] c_assert_def)
    then show ?thesis using 3 f' f1(5) extends_trans [OF ext f'(2)] by (simp add: fsm_language_def)
  qed
qed

end
