(* ===== verification/Fsm_Trim.thy ===== *)
theory Fsm_Trim
  imports Fsm_Closure Fsm_Merge "HOL-Library.Product_Lexorder"
begin

text \<open>
  Trimming, \<open>src/libfsm/trim.c\<close>: a breadth-first walk from the start state marks what can be
  reached and collects the edges; a second one along the sorted edges backwards from the end
  states marks what reaches an end and measures the distance to it; the states without a mark
  are swept. Also \<open>fsm_vacuum\<close> of \<open>src/libfsm/vacuum.c\<close>.
\<close>

section \<open>Definitions\<close>

datatype fsm_trim_mode = FSM_TRIM_START_REACHABLE | FSM_TRIM_START_AND_END_REACHABLE

definition NO_END_DISTANCE :: nat where
  "NO_END_DISTANCE = 2 ^ 32 - 1"

record trim_edge =
  te_from :: fsm_state_t
  te_to :: fsm_state_t

text \<open>An array that grows: its capacity and the items in use.\<close>

type_synonym 'a vec = "nat \<times> 'a list"

definition grow_ends :: "alloc \<Rightarrow> 'a vec \<Rightarrow> bool \<times> 'a vec \<times> alloc" where
  "grow_ends al = (\<lambda>(ceil, xs). let (ok, al) = f_realloc al in (ok, if ok then (2 * ceil, xs) else (ceil, xs), al))"

definition save_end :: "alloc \<Rightarrow> fsm_state_t vec \<Rightarrow> fsm_state_t \<Rightarrow> bool \<times> fsm_state_t vec \<times> alloc" where
  "save_end al ends s =
     (let (ok, (ceil, xs), al) = (if length (snd ends) = fst ends then grow_ends al ends else (True, ends, al))
      in (ok, (ceil, if ok then xs @ [s] else xs), al))"

definition save_edge :: "alloc \<Rightarrow> trim_edge vec \<Rightarrow> fsm_state_t \<Rightarrow> fsm_state_t \<Rightarrow> bool \<times> trim_edge vec \<times> alloc" where
  "save_edge al edges from to =
     (let (ok, (ceil, xs), al) = (if length (snd edges) = fst edges then grow_ends al edges else (True, edges, al))
      in (ok, (ceil, if ok then xs @ [\<lparr>te_from = from, te_to = to\<rparr>] else xs), al))"

text \<open>
  The walk from the start. The flags \<open>visited\<close> are a list beside the automaton; the two arrays
  are there only when the ends are looked for.
\<close>

definition mark_edge ::
  "fsm_state_t \<Rightarrow> fsm_state_t \<Rightarrow> queue \<times> bool list \<times> trim_edge vec option \<times> alloc \<Rightarrow>
   (bool \<times> queue \<times> bool list \<times> trim_edge vec option \<times> alloc) option" where
  "mark_edge s next = (\<lambda>(q, vis, edges, al).
     do { v \<leftarrow> c_nth vis next;
          (ok, q, vis) \<leftarrow>
            (if v then Some (True, q, vis)
             else do { (ok, q) \<leftarrow> queue_push q next; Some (ok, q, if ok then vis[next := True] else vis) });
          if \<not> ok then Some (False, q, vis, edges, al)
          else case edges of
              None \<Rightarrow> Some (True, q, vis, None, al)
            | Some es \<Rightarrow> (let (ok, es, al) = save_edge al es s next in Some (ok, q, vis, Some es, al)) })"

type_synonym mark_walk = "queue \<times> bool list \<times> trim_edge vec option \<times> fsm_state_t vec option \<times> alloc"

definition mark_body :: "fsm \<Rightarrow> mark_walk \<Rightarrow> (mark_walk + (bool \<times> mark_walk)) option" where
  "mark_body f = (\<lambda>(q, vis, edges, ends, al).
     do { (r, q) \<leftarrow> queue_pop q;
          case r of
            None \<Rightarrow> Some (Inr (True, q, vis, edges, ends, al))
          | Some s_id \<Rightarrow>
              do { c_assert (s_id < statecount f);
                   v \<leftarrow> c_nth vis s_id;
                   c_assert v;
                   (ok, ends, al) \<leftarrow>
                     (case ends of
                        None \<Rightarrow> Some (True, None, al)
                      | Some es \<Rightarrow>
                          do { e \<leftarrow> fsm_isend f s_id;
                               if \<not> e then Some (True, Some es, al)
                               else (let (ok, es, al) = save_end al es s_id in Some (ok, Some es, al)) });
                   if \<not> ok then Some (Inr (False, q, vis, edges, ends, al))
                   else do {
                     (ok, q, vis, edges, al) \<leftarrow>
                       c_for (mark_edge s_id) (state_set_drain (state_set_reset (st_epsilons (f_states f ! s_id)))) (q, vis, edges, al);
                     if \<not> ok then Some (Inr (False, q, vis, edges, ends, al))
                     else do {
                       (ok, q, vis, edges, al) \<leftarrow>
                         c_for (mark_edge s_id) (map gi_to (edge_group_drain (st_edges (f_states f ! s_id)))) (q, vis, edges, al);
                       Some (if ok then Inl (q, vis, edges, ends, al) else Inr (False, q, vis, edges, ends, al)) } } } })"

text \<open>The walk back from the ends, with the distances if they are asked for.\<close>

definition seed_end ::
  "nat \<Rightarrow> fsm_state_t \<Rightarrow> queue \<times> bool list \<times> nat list option \<Rightarrow> (bool \<times> queue \<times> bool list \<times> nat list option) option" where
  "seed_end n end_id = (\<lambda>(q, vis, sed).
     do { c_assert (end_id < n);
          (ok, q) \<leftarrow> queue_push q end_id;
          if \<not> ok then Some (False, q, vis, sed)
          else Some (True, q, vis[end_id := True], map_option (\<lambda>d. d[end_id := 0]) sed) })"

definition trim_offsets :: "nat \<Rightarrow> trim_edge list \<Rightarrow> nat list option" where
  "trim_offsets n edges =
     do { let max_to = te_to (last edges);
          (_, offsets) \<leftarrow>
            c_for (\<lambda>i offsets. do { let to = te_to (edges ! i); c_assert (to < length offsets); Some (True, offsets[to := i + 1]) })
              [0..<length edges] (replicate n 0);
          (_, offsets) \<leftarrow>
            c_for (\<lambda>i offsets. do { c_assert (i < length offsets);
                                   Some (True, if i > 0 \<and> offsets ! i = 0 then offsets[i := offsets ! (i - 1)] else offsets) })
              [0..<max_to + 1] offsets;
          c_assert (offsets ! max_to = length edges);
          Some offsets }"

definition back_edge ::
  "nat \<Rightarrow> trim_edge list \<Rightarrow> fsm_state_t \<Rightarrow> nat \<Rightarrow> queue \<times> bool list \<times> nat list option \<Rightarrow>
   (bool \<times> queue \<times> bool list \<times> nat list option) option" where
  "back_edge n edges s_id e_i = (\<lambda>(q, vis, sed).
     do { e \<leftarrow> c_nth edges e_i;
          let from = te_from e;
          c_assert (from < n);
          let sed = map_option (\<lambda>d. if d ! from = NO_END_DISTANCE \<or> d ! s_id < d ! from
                                    then d[from := (d ! s_id + 1) mod 2 ^ 32] else d) sed;
          if vis ! from then Some (True, q, vis, sed)
          else do { (ok, q) \<leftarrow> queue_push q from; Some (ok, q, vis[from := True], sed) } })"

type_synonym back_walk = "queue \<times> bool list \<times> nat list option"

definition back_body ::
  "nat \<Rightarrow> trim_edge list \<Rightarrow> nat list \<Rightarrow> back_walk \<Rightarrow> (back_walk + (bool \<times> bool list \<times> nat list option)) option" where
  "back_body n edges offsets = (\<lambda>(q, vis, sed).
     do { (r, q) \<leftarrow> queue_pop q;
          case r of
            None \<Rightarrow> Some (Inr (True, vis, sed))
          | Some s_id \<Rightarrow>
              do { v \<leftarrow> c_nth vis s_id;
                   c_assert v;
                   base \<leftarrow> (if s_id = 0 then Some 0 else c_nth offsets (s_id - 1));
                   limit \<leftarrow> c_nth offsets s_id;
                   (ok, q, vis, sed) \<leftarrow> c_for (back_edge n edges s_id) [base..<limit] (q, vis, sed);
                   Some (if ok then Inl (q, vis, sed) else Inr (False, vis, sed)) } })"

definition mark_ends ::
  "alloc \<Rightarrow> fsm \<Rightarrow> queue \<Rightarrow> trim_edge list \<Rightarrow> fsm_state_t list \<Rightarrow> nat list option \<Rightarrow> (bool \<times> bool list \<times> nat list option \<times> alloc) option" where
  "mark_ends al f q edges ends sed =
     do { let n = statecount f;
          let edges = sort_key (\<lambda>e. (te_to e, te_from e)) edges;
          (ok, q, vis, sed) \<leftarrow> c_for (seed_end n) ends (q, replicate n False, sed);
          if \<not> ok then Some (False, vis, sed, al)
          else if edges = [] then Some (True, vis, sed, al)
          else (let (ok, al) = f_calloc al in
                if \<not> ok then Some (False, vis, sed, al)
                else do { offsets \<leftarrow> trim_offsets (fsm_countstates f) edges;
                          (ok, vis, sed) \<leftarrow> c_loop (back_body n edges offsets) (q, vis, sed);
                          Some (ok, vis, sed, al) }) }"

definition DEF_EDGES_CEIL :: nat where "DEF_EDGES_CEIL = 8"

definition DEF_ENDS_CEIL :: nat where "DEF_ENDS_CEIL = 8"

text \<open>
  The flags are not cleared first. Nothing is marked where there is no start; the comparison
  of \<open>qsort\<close> tells any two different edges apart, so that it gives the sorted list.
\<close>

definition mark_states ::
  "alloc \<Rightarrow> fsm \<Rightarrow> fsm_trim_mode \<Rightarrow> nat list option \<Rightarrow> (bool \<times> bool list \<times> nat list option \<times> alloc) option" where
  "mark_states al f mode sed =
     do { let vis = map st_visited (f_states f);
          start \<leftarrow> fsm_getstart f;
          case start of
            None \<Rightarrow> Some (True, vis, sed, al)
          | Some start \<Rightarrow>
              let (q, al) = queue_new al (statecount f) in
              case q of
                None \<Rightarrow> Some (False, vis, sed, al)
              | Some q \<Rightarrow>
                  let both = (mode = FSM_TRIM_START_AND_END_REACHABLE);
                      (ok, al) = (if both then f_malloc al else (True, al));
                      (ok, al) = (if both \<and> ok then f_malloc al else (ok, al)) in
                  if \<not> ok then Some (False, vis, sed, al)
                  else do {
                    c_assert (start < statecount f);
                    let vis = vis[start := True];
                    (ok, q) \<leftarrow> queue_push q start;
                    if \<not> ok then Some (False, vis, sed, al)
                    else do {
                      (ok, q, vis, edges, ends, al) \<leftarrow>
                        c_loop (mark_body f)
                          (q, vis, if both then Some (DEF_EDGES_CEIL, []) else None, if both then Some (DEF_ENDS_CEIL, []) else None, al);
                      if \<not> ok then Some (False, vis, sed, al)
                      else case (edges, ends) of
                          (Some (_, edges), Some (_, ends)) \<Rightarrow> mark_ends al f q edges ends sed
                        | _ \<Rightarrow> Some (True, vis, sed, al) } } }"

text \<open>A number of states, or \<open>-1\<close>.\<close>

definition sweep_states :: "alloc \<Rightarrow> fsm \<Rightarrow> (int \<times> fsm \<times> alloc) option" where
  "sweep_states al f =
     do { let vis = map st_visited (f_states f);
          (ok, swept, f, al) \<leftarrow> fsm_compact_states al f (\<lambda>i. vis ! i);
          Some (if ok then int swept else - 1, f, al) }"

fun compact_shortest_end_distance :: "bool list \<Rightarrow> nat \<Rightarrow> nat \<Rightarrow> nat list \<Rightarrow> nat list option" where
  "compact_shortest_end_distance [] src dst sed = Some sed"
| "compact_shortest_end_distance (v # vis) src dst sed =
     (if v then compact_shortest_end_distance vis (src + 1) (dst + 1) (if dst < src then sed[dst := sed ! src] else sed)
      else do { c_assert (sed ! src = NO_END_DISTANCE); compact_shortest_end_distance vis (src + 1) dst sed })"

definition fsm_trim ::
  "alloc \<Rightarrow> fsm \<Rightarrow> fsm_trim_mode \<Rightarrow> bool \<Rightarrow> (int \<times> nat list option \<times> fsm \<times> alloc) option" where
  "fsm_trim al f mode shortest_end_distance =
     (if statecount f = 0 then Some (1, None, f, al)
      else
        let wanted = (shortest_end_distance \<and> mode = FSM_TRIM_START_AND_END_REACHABLE);
            (ok, al) = (if wanted then f_malloc al else (True, al)) in
        if \<not> ok then Some (- 1, None, f, al)
        else do {
          (ok, vis, sed, al) \<leftarrow> mark_states al f mode (if wanted then Some (replicate (statecount f) NO_END_DISTANCE) else None);
          let f = set_visited f vis;
          if \<not> ok then Some (- 1, None, f, al)
          else do {
            sed \<leftarrow> (case sed of None \<Rightarrow> Some None
                     | Some d \<Rightarrow> do { d \<leftarrow> compact_shortest_end_distance vis 0 0 d; Some (Some d) });
            (ret, f, al) \<leftarrow> sweep_states al f;
            let f = clear_visited f;
            Some (ret, if ret < 0 then None else sed, f, al) } })"

subsection \<open>Vacuuming\<close>

function vacuum_ceil :: "nat \<Rightarrow> nat \<Rightarrow> nat" where
  "vacuum_ceil n nceil = (if n < nceil div 2 \<and> nceil > 1 then vacuum_ceil n (nceil div 2) else nceil)"
  by auto
termination by (relation "measure snd") auto

declare vacuum_ceil.simps [simp del]

definition fsm_vacuum :: "alloc \<Rightarrow> fsm \<Rightarrow> (bool \<times> fsm \<times> alloc) option" where
  "fsm_vacuum al f =
     do { c_assert (statecount f \<le> statealloc f);
          let nceil = vacuum_ceil (statecount f) (statealloc f);
          if nceil = statealloc f then Some (True, f, al)
          else (let (ok, al) = f_realloc al in
                if \<not> ok then Some (False, f, al)
                else Some (True, f\<lparr>f_spare := take (nceil - statecount f) (f_spare f)\<rparr>, al)) }"

section \<open>The walk from the start\<close>

lemma c_for_Cons_True:
  "c_for g (x # xs) s = Some (True, s') \<longleftrightarrow> (\<exists>s1. g x s = Some (True, s1) \<and> c_for g xs s1 = Some (True, s'))"
  by (auto simp: bind_eq_Some_conv split: if_splits)

lemma save_nil:
  "\<exists>c. save_edge [] es a b = (True, (c, snd es @ [\<lparr>te_from = a, te_to = b\<rparr>]), [])"
  "\<exists>c. save_end [] ends s = (True, (c, snd ends @ [s]), [])"
  by (cases es; cases ends; simp add: save_edge_def save_end_def grow_ends_def)+

text \<open>The loop over the edges of a state is the usual one, and saves the edges.\<close>

lemma mark_edges_run:
  assumes "push_unvisited queue_push ts (q, vis) = Some (True, q', vis')"
  shows "\<exists>edges'. c_for (mark_edge s) ts (q, vis, edges, []) = Some (True, q', vis', edges', []) \<and>
    map_option snd edges' = map_option (\<lambda>es. snd es @ map (\<lambda>t. \<lparr>te_from = s, te_to = t\<rparr>) ts) edges"
  using assms
proof (induction ts arbitrary: q vis edges)
  case Nil
  then show ?case by (intro exI [of _ edges]) (cases edges, simp_all add: push_unvisited_def)
next
  case (Cons t ts)
  obtain q1 vis1 where 1: "do { v \<leftarrow> c_nth vis t; if v then Some (True, q, vis)
       else do { (ok, q) \<leftarrow> queue_push q t; Some (ok, q, if ok then vis[t := True] else vis) } } = Some (True, q1, vis1)"
    and rest: "push_unvisited queue_push ts (q1, vis1) = Some (True, q', vis')"
    using Cons.prems unfolding push_unvisited_def c_for_Cons_True by auto
  have step: "mark_edge s t (q, vis, edges, []) = (case edges of None \<Rightarrow> Some (True, q1, vis1, None, [])
      | Some es \<Rightarrow> (let (ok, es, al) = save_edge [] es s t in Some (ok, q1, vis1, Some es, al)))"
    unfolding mark_edge_def prod.case bind_assoc [symmetric] 1 by simp
  obtain e1 where e1: "mark_edge s t (q, vis, edges, []) = Some (True, q1, vis1, e1, [])"
    "map_option snd e1 = map_option (\<lambda>es. snd es @ [\<lparr>te_from = s, te_to = t\<rparr>]) edges"
  proof (cases edges)
    case None
    then show ?thesis using that [of None] step by simp
  next
    case (Some es)
    obtain c where c: "save_edge [] es s t = (True, (c, snd es @ [\<lparr>te_from = s, te_to = t\<rparr>]), [])" using save_nil(1) by blast
    show ?thesis
      using that [of "Some (c, snd es @ [\<lparr>te_from = s, te_to = t\<rparr>])"] Some c step by simp
  qed
  from Cons.IH [OF rest, of e1] obtain e2 where "c_for (mark_edge s) ts (q1, vis1, e1, []) = Some (True, q', vis', e2, [])"
    "map_option snd e2 = map_option (\<lambda>es. snd es @ map (\<lambda>t. \<lparr>te_from = s, te_to = t\<rparr>) ts) e1" by blast
  then show ?case using e1 by (cases edges; cases e1) auto
qed

lemma group_successors:
  assumes "fsm_inv f" and "s < statecount f"
  shows "set (map gi_to (edge_group_drain (st_edges (f_states f ! s)))) = {t. \<exists>c. fsm_step f s (Some c) t}"
proof -
  let ?es = "st_edges (f_states f ! s)"
  have inv: "es_inv ?es" using fsm_inv_state [OF assms] by (simp add: state_ok_def)
  have "t \<in> set (map gi_to (edge_group_drain ?es)) \<longleftrightarrow> (\<exists>c. (c, t) \<in> es_edges ?es)" for t
    unfolding edge_group_drain_edges [OF inv, symmetric] using edge_group_drain_info(2) [OF inv] by fastforce
  then show ?thesis using assms(2) by (auto simp: fsm_step_def step_in_def)
qed

definition edge_pairs :: "trim_edge list \<Rightarrow> (fsm_state_t \<times> fsm_state_t) set" where
  "edge_pairs es = (\<lambda>e. (te_from e, te_to e)) ` set es"

definition mark_inv :: "fsm \<Rightarrow> fsm_state_t \<Rightarrow> bool \<Rightarrow> mark_walk \<Rightarrow> bool" where
  "mark_inv f start both = (\<lambda>(q, vis, edges, ends, al). al = [] \<and> qwl.ready q vis \<and> length vis = statecount f \<and>
     search_inv (fsm_edge_rel f) {start} (vset vis) (set (queue_items q)) \<and>
     (let P = vset vis - set (queue_items q) in
        (case edges of None \<Rightarrow> \<not> both | Some (_, es) \<Rightarrow> both \<and> edge_pairs es = {(p, t). p \<in> P \<and> fsm_edge_rel f p t}) \<and>
        (case ends of None \<Rightarrow> \<not> both | Some (_, xs) \<Rightarrow> both \<and> distinct xs \<and> set xs = {p \<in> P. n_end (fsm_nfa f) p})))"

definition mark_measure :: "fsm \<Rightarrow> mark_walk \<Rightarrow> nat" where
  "mark_measure f = (\<lambda>(q, vis, edges, ends, al). statecount f - card (vset vis - set (queue_items q)))"

lemma saved_edges:
  assumes "case edges of None \<Rightarrow> \<not> both | Some (_, es) \<Rightarrow> both \<and> edge_pairs es = {(p, t). p \<in> P \<and> E p t}"
    and "map_option snd edges' = map_option (\<lambda>es. snd es @ map (\<lambda>t. \<lparr>te_from = s, te_to = t\<rparr>) ts) edges" and "set ts = {t. E s t}"
  shows "case edges' of None \<Rightarrow> \<not> both | Some (_, es) \<Rightarrow> both \<and> edge_pairs es = {(p, t). p \<in> insert s P \<and> E p t}"
proof (cases edges)
  case None
  then show ?thesis using assms(1,2) by simp
next
  case (Some es)
  then obtain es' where "edges' = Some es'" and "snd es' = snd es @ map (\<lambda>t. \<lparr>te_from = s, te_to = t\<rparr>) ts" using assms(2) by auto
  moreover have "edge_pairs (snd es @ map (\<lambda>t. \<lparr>te_from = s, te_to = t\<rparr>) ts) = edge_pairs (snd es) \<union> Pair s ` {t. E s t}"
    unfolding edge_pairs_def assms(3) [symmetric] by (simp add: image_Un image_image)
  ultimately show ?thesis using assms(1) Some by (cases es; cases es') auto
qed

lemma saved_end:
  assumes "case ends of None \<Rightarrow> \<not> both | Some (_, xs) \<Rightarrow> both \<and> distinct xs \<and> set xs = {p \<in> P. n_end (fsm_nfa f) p}"
    and sn: "s < statecount f" and "s \<notin> P"
  shows "\<exists>ends'. (case ends of None \<Rightarrow> Some (True, None, [])
      | Some es \<Rightarrow> do { e \<leftarrow> fsm_isend f s; if \<not> e then Some (True, Some es, [])
          else (let (ok, es, al) = save_end [] es s in Some (ok, Some es, al)) }) = Some (True, ends', []) \<and>
    (case ends' of None \<Rightarrow> \<not> both | Some (_, xs) \<Rightarrow> both \<and> distinct xs \<and> set xs = {p \<in> insert s P. n_end (fsm_nfa f) p})"
proof (cases ends)
  case None
  then show ?thesis using assms(1) by auto
next
  case (Some es)
  obtain c where c: "save_end [] es s = (True, (c, snd es @ [s]), [])" using save_nil(2) by blast
  show ?thesis
    using assms Some c
    by (cases es; cases "n_end (fsm_nfa f) s")
      (auto simp: fsm_isend_eq [OF sn] intro: exI [of _ "Some (c, snd es @ [s])"] exI [of _ ends])
qed

lemma mark_successors:
  assumes inv: "fsm_inv f" and s: "s < statecount f" and ready: "qwl.ready q vis" and len: "length vis = statecount f"
  obtains q1 vis1 e1 q2 vis2 e2 where
    "c_for (mark_edge s) (state_set_drain (state_set_reset (st_epsilons (f_states f ! s)))) (q, vis, edges, []) = Some (True, q1, vis1, e1, [])"
    "c_for (mark_edge s) (map gi_to (edge_group_drain (st_edges (f_states f ! s)))) (q1, vis1, e1, []) = Some (True, q2, vis2, e2, [])"
    "qwl.ready q2 vis2" "length vis2 = length vis" "vset vis2 = vset vis \<union> {t. fsm_edge_rel f s t}"
    "set (queue_items q2) = set (queue_items q) \<union> ({t. fsm_edge_rel f s t} - vset vis)"
    "\<exists>ts. set ts = {t. fsm_edge_rel f s t} \<and>
       map_option snd e2 = map_option (\<lambda>es. snd es @ map (\<lambda>t. \<lparr>te_from = s, te_to = t\<rparr>) ts) edges"
proof -
  let ?S = "{t. fsm_edge_rel f s t}"
  define ts1 where "ts1 = state_set_drain (state_set_reset (st_epsilons (f_states f ! s)))"
  define ts2 where "ts2 = map gi_to (edge_group_drain (st_edges (f_states f ! s)))"
  have S: "set (ts1 @ ts2) = ?S"
    unfolding set_append ts1_def ts2_def group_successors [OF inv s] state_set_successors [OF s] fsm_edge_rel_def
    by (auto intro: exI [of _ None]) (metis not_None_eq)
  have "?S \<subseteq> {..<statecount f}" using successors_bound [OF inv] by auto
  then have sub: "set ts1 \<subseteq> {..<length vis}" "set ts2 \<subseteq> {..<length vis}" using S len by auto
  obtain q1 vis1 where p1: "push_unvisited queue_push ts1 (q, vis) = Some (True, q1, vis1)"
    and r1: "qwl.ready q1 vis1" "length vis1 = length vis" "vset vis1 = vset vis \<union> set ts1"
      "set (queue_items q1) = set (queue_items q) \<union> (set ts1 - vset vis)"
    by (rule wpE3 [OF qwl.push_unvisited_wp [OF ready sub(1)]]) simp
  obtain q2 vis2 where p2: "push_unvisited queue_push ts2 (q1, vis1) = Some (True, q2, vis2)"
    and r2: "qwl.ready q2 vis2" "length vis2 = length vis1" "vset vis2 = vset vis1 \<union> set ts2"
      "set (queue_items q2) = set (queue_items q1) \<union> (set ts2 - vset vis1)"
    by (rule wpE3 [OF qwl.push_unvisited_wp [OF r1(1) sub(2) [folded r1(2)]]]) simp
  obtain e1 where run1: "c_for (mark_edge s) ts1 (q, vis, edges, []) = Some (True, q1, vis1, e1, [])"
    and e1: "map_option snd e1 = map_option (\<lambda>es. snd es @ map (\<lambda>t. \<lparr>te_from = s, te_to = t\<rparr>) ts1) edges"
    using mark_edges_run [OF p1] by blast
  obtain e2 where run2: "c_for (mark_edge s) ts2 (q1, vis1, e1, []) = Some (True, q2, vis2, e2, [])"
    and e2: "map_option snd e2 = map_option (\<lambda>es. snd es @ map (\<lambda>t. \<lparr>te_from = s, te_to = t\<rparr>) ts2) e1"
    using mark_edges_run [OF p2] by blast
  have e: "map_option snd e2 = map_option (\<lambda>es. snd es @ map (\<lambda>t. \<lparr>te_from = s, te_to = t\<rparr>) (ts1 @ ts2)) edges"
    using e1 e2 by (cases edges; cases e1) auto
  have V: "vset vis2 = vset vis \<union> ?S" and W: "set (queue_items q2) = set (queue_items q) \<union> (?S - vset vis)"
    using r1(3,4) r2(3,4) S by auto
  have len2: "length vis2 = length vis" using r1(2) r2(2) by simp
  show ?thesis
    by (rule that [OF run1 [unfolded ts1_def] run2 [unfolded ts2_def] r2(1) len2 V W]) (use S e in blast)
qed

lemma mark_body_wp:
  assumes inv: "fsm_inv f" and I: "mark_inv f start both w"
  shows "wp (mark_body f w) (\<lambda>x. case x of
      Inl w' \<Rightarrow> mark_inv f start both w' \<and> mark_measure f w' < mark_measure f w
    | Inr (ok, w') \<Rightarrow> ok \<and> mark_inv f start both w' \<and> (case w' of (q, _) \<Rightarrow> queue_items q = []))"
proof -
  obtain q vis edges ends where w: "w = (q, vis, edges, ends, [])" using I by (cases w) (auto simp: mark_inv_def)
  let ?P = "vset vis - set (queue_items q)"
  have ready: "qwl.ready q vis" and len: "length vis = statecount f"
    and si: "search_inv (fsm_edge_rel f) {start} (vset vis) (set (queue_items q))"
    and edges: "case edges of None \<Rightarrow> \<not> both | Some (_, es) \<Rightarrow> both \<and> edge_pairs es = {(p, t). p \<in> ?P \<and> fsm_edge_rel f p t}"
    and ends: "case ends of None \<Rightarrow> \<not> both | Some (_, xs) \<Rightarrow> both \<and> distinct xs \<and> set xs = {p \<in> ?P. n_end (fsm_nfa f) p}"
    using I by (auto simp: mark_inv_def w Let_def)
  have qi: "queue_inv q" and d: "distinct (queue_items q)" using ready by (simp_all add: qwl.ready_def)
  obtain r q0 where pop: "queue_pop q = Some (r, q0)"
    and r: "case r of None \<Rightarrow> queue_items q = [] \<and> q0 = q | Some s \<Rightarrow> queue_items q = s # queue_items q0"
    by (rule wpE2 [OF queue_pop_wp [OF qi]]) auto
  show ?thesis
  proof (cases r)
    case None
    then show ?thesis using I r pop by (simp add: mark_body_def w)
  next
    case (Some s)
    note q0 = qwl.pop_Some [OF qi d pop [unfolded Some]]
    have WV: "set (queue_items q) \<subseteq> vset vis" and s: "s \<in> set (queue_items q)" using ready r Some by (auto simp: qwl.ready_def)
    then have sv: "s \<in> vset vis" and sn: "s < statecount f" using vset_bound(1) [of vis] len by auto
    have ready0: "qwl.ready q0 vis" using ready q0 WV by (auto simp: qwl.ready_def)
    let ?S = "{t. fsm_edge_rel f s t}"
    obtain q1 vis1 e1 q2 vis2 e2 ts where
      run: "c_for (mark_edge s) (state_set_drain (state_set_reset (st_epsilons (f_states f ! s)))) (q0, vis, edges, []) = Some (True, q1, vis1, e1, [])"
        "c_for (mark_edge s) (map gi_to (edge_group_drain (st_edges (f_states f ! s)))) (q1, vis1, e1, []) = Some (True, q2, vis2, e2, [])"
      and r2: "qwl.ready q2 vis2" "length vis2 = length vis" "vset vis2 = vset vis \<union> ?S" "set (queue_items q2) = set (queue_items q0) \<union> (?S - vset vis)"
      and ts: "set ts = ?S" "map_option snd e2 = map_option (\<lambda>es. snd es @ map (\<lambda>t. \<lparr>te_from = s, te_to = t\<rparr>) ts) edges"
      by (rule mark_successors [OF inv sn ready0 len, of edges]) blast
    note W = r2(4) [unfolded q0(4)]
    have P: "vset vis2 - set (queue_items q2) = insert s ?P" unfolding r2(3) W by (rule search_finished [OF s WV])
    obtain ends2 where run3: "(case ends of None \<Rightarrow> Some (True, None, [])
        | Some es \<Rightarrow> do { e \<leftarrow> fsm_isend f s; if \<not> e then Some (True, Some es, [])
            else (let (ok, es, al) = save_end [] es s in Some (ok, Some es, al)) }) = Some (True, ends2, [])"
      and ends': "case ends2 of None \<Rightarrow> \<not> both | Some (_, xs) \<Rightarrow> both \<and> distinct xs \<and> set xs = {p \<in> insert s ?P. n_end (fsm_nfa f) p}"
      using saved_end [OF ends sn] s by blast
    have "search_inv (fsm_edge_rel f) {start} (vset vis2) (set (queue_items q2))"
      unfolding r2(3) W by (rule search_step [OF si s]) simp
    then have "mark_inv f start both (q2, vis2, e2, ends2, [])"
      using r2(1,2) len saved_edges [OF edges ts(2,1)] ends' unfolding mark_inv_def prod.case P by (simp add: Let_def)
    moreover have "mark_measure f (q2, vis2, e2, ends2, []) < mark_measure f w"
      unfolding mark_measure_def w prod.case r2(3) W
      by (rule search_progress [OF _ s WV]) (use successors_bound [OF inv] vset_bound(1) [of vis] len in auto)
    moreover have "mark_body f w = Some (Inl (q2, vis2, e2, ends2, []))"
      using pop sv sn len run3 by (simp add: mark_body_def w Some c_assert_def c_nth_def vset_def run)
    ultimately show ?thesis by simp
  qed
qed

section \<open>The index of the sorted edges\<close>

text \<open>The number of the edges that lead to \<open>t\<close> or a smaller state.\<close>

definition edges_upto :: "trim_edge list \<Rightarrow> fsm_state_t \<Rightarrow> nat" where
  "edges_upto es t = length (filter (\<lambda>e. te_to e \<le> t) es)"

lemma edges_upto_iff:
  assumes "sorted (map te_to es)" and "i < length es"
  shows "i < edges_upto es t \<longleftrightarrow> te_to (es ! i) \<le> t"
  using assms
proof (induction es arbitrary: i)
  case (Cons e es)
  have none: "edges_upto es t = 0" if "\<not> te_to e \<le> t" using Cons.prems(1) that by (auto simp: edges_upto_def filter_empty_conv)
  show ?case
  proof (cases i)
    case 0
    then show ?thesis using none by (auto simp: edges_upto_def)
  next
    case (Suc j)
    then have "j < length es" "sorted (map te_to es)" using Cons.prems by auto
    moreover have "te_to e \<le> te_to (es ! j)" using Cons.prems(1) calculation(1) by simp
    ultimately show ?thesis using Cons.IH [of j] Suc none by (auto simp: edges_upto_def)
  qed
qed simp

lemma edges_upto_snoc: "edges_upto (es @ [e]) t = edges_upto es t + (if te_to e \<le> t then 1 else 0)"
  by (simp add: edges_upto_def)

lemma edges_upto_all: "\<forall>e \<in> set es. te_to e \<le> t \<Longrightarrow> edges_upto es t = length es"
  by (simp add: edges_upto_def)

lemma edges_upto_same:
  assumes "\<forall>e \<in> set es. te_to e \<noteq> t" and "t > 0"
  shows "edges_upto es t = edges_upto es (t - 1)"
proof -
  have "filter (\<lambda>e. te_to e \<le> t) es = filter (\<lambda>e. te_to e \<le> t - 1) es"
  proof (rule filter_cong)
    fix e assume "e \<in> set es"
    then have "te_to e \<noteq> t" using assms(1) by blast
    then show "(te_to e \<le> t) = (te_to e \<le> t - 1)" using assms(2) by linarith
  qed simp
  then show ?thesis by (simp add: edges_upto_def)
qed

text \<open>After the first loop, the states some edge leads to have their entries.\<close>

lemma offsets_filled:
  assumes sorted: "sorted (map te_to es)" and n: "\<forall>e \<in> set es. te_to e < n"
  shows "wp (c_for (\<lambda>i offsets. do { let to = te_to (es ! i); c_assert (to < length offsets); Some (True, offsets[to := i + 1]) })
      [0..<length es] (replicate n 0))
    (\<lambda>(ok, offsets). ok \<and> length offsets = n \<and> (\<forall>t < n. offsets ! t = (if t \<in> te_to ` set es then edges_upto es t else 0)))"
proof -
  let ?I = "\<lambda>ys offsets. length offsets = n \<and>
    (\<forall>t < n. offsets ! t = (if t \<in> te_to ` set (take (length ys) es) then edges_upto (take (length ys) es) t else 0))"
  have "wp (c_for (\<lambda>i offsets. do { let to = te_to (es ! i); c_assert (to < length offsets); Some (True, offsets[to := i + 1]) })
      [0..<length es] (replicate n 0)) (\<lambda>(ok, x). if ok then ?I [0..<length es] x else False)"
  proof (rule wp_c_for)
    fix ys i zs offsets
    assume "[0..<length es] = ys @ i # zs" and I: "?I ys offsets"
    then have i: "i = length ys" "i < length es" by (auto dest: upt_split)
    let ?e = "es ! i" and ?old = "take i es"
    have take: "take (Suc i) es = ?old @ [?e]" using i(2) by (rule take_Suc_conv_app_nth)
    have en: "te_to ?e < n" using n i(2) by simp
    have le: "\<forall>e \<in> set ?old. te_to e \<le> te_to ?e"
      using sorted_nth_mono [OF sorted] i(2) by (fastforce simp: in_set_conv_nth)
    have "offsets[te_to ?e := Suc i] ! t = (if t \<in> te_to ` set (?old @ [?e]) then edges_upto (?old @ [?e]) t else 0)" if "t < n" for t
    proof (cases "t = te_to ?e")
      case True
      then show ?thesis using edges_upto_all [of "?old @ [?e]" t] le I en i(2) by auto
    next
      case False
      have "\<not> te_to ?e \<le> t" if "t \<in> te_to ` set ?old" using that le False by auto
      then show ?thesis using False I \<open>t < n\<close> i(1) by (auto simp: edges_upto_snoc)
    qed
    then have "?I (ys @ [i]) (offsets[te_to ?e := Suc i])" using I i(1) take by simp
    then show "wp (do { let to = te_to (es ! i); c_assert (to < length offsets); Some (True, offsets[to := i + 1]) })
        (\<lambda>(ok, x). if ok then ?I (ys @ [i]) x else False)"
      using en I by (simp add: c_assert_def Let_def)
  qed simp
  then show ?thesis by (auto elim!: wpE2 split: if_splits)
qed

lemma offsets_gaps:
  assumes n: "m < n" and len: "length offsets = n"
    and fill: "\<forall>t < n. offsets ! t = (if t \<in> te_to ` set es then edges_upto es t else 0)"
  shows "wp (c_for (\<lambda>i offsets. do { c_assert (i < length offsets);
        Some (True, if i > 0 \<and> offsets ! i = 0 then offsets[i := offsets ! (i - 1)] else offsets) }) [0..<m + 1] offsets)
    (\<lambda>(ok, offsets'). ok \<and> length offsets' = n \<and> (\<forall>t \<le> m. offsets' ! t = edges_upto es t) \<and> (\<forall>t. m < t \<and> t < n \<longrightarrow> offsets' ! t = offsets ! t))"
proof -
  let ?I = "\<lambda>ys x. length x = n \<and> (\<forall>t < length ys. x ! t = edges_upto es t) \<and> (\<forall>t. length ys \<le> t \<and> t < n \<longrightarrow> x ! t = offsets ! t)"
  let ?body = "\<lambda>i x. do { c_assert (i < length x); Some (True, if i > 0 \<and> x ! i = 0 then x[i := x ! (i - 1)] else x) }"
  have "wp (c_for ?body [0..<m + 1] offsets) (\<lambda>(ok, x). if ok then ?I [0..<m + 1] x else False)"
  proof (rule wp_c_for)
    fix ys i zs x
    assume "[0..<m + 1] = ys @ i # zs" and I: "?I ys x"
    then have i: "i = length ys" "i < m + 1" using upt_split [of "m + 1" ys i zs] by auto
    have xi: "x ! i = (if i \<in> te_to ` set es then edges_upto es i else 0)" using I i n fill by simp
    have "(if i > 0 \<and> x ! i = 0 then x ! (i - 1) else x ! i) = edges_upto es i"
    proof (cases "i \<in> te_to ` set es")
      case True
      then have "filter (\<lambda>e. te_to e \<le> i) es \<noteq> []" by (auto simp: filter_empty_conv)
      then show ?thesis using True xi by (simp add: edges_upto_def)
    next
      case False
      then have no: "\<forall>e \<in> set es. te_to e \<noteq> i" by auto
      show ?thesis
      proof (cases "i = 0")
        case True
        then show ?thesis using no xi False by (simp add: edges_upto_def)
      next
        case pos: False
        then have "x ! (i - 1) = edges_upto es (i - 1)" using I i(1) by simp
        then show ?thesis using pos False xi edges_upto_same [OF no] by simp
      qed
    qed
    then have "?I (ys @ [i]) (if i > 0 \<and> x ! i = 0 then x[i := x ! (i - 1)] else x)"
      using I i n by (auto simp: nth_list_update less_Suc_eq)
    then show "wp (?body i x) (\<lambda>(ok, x). if ok then ?I (ys @ [i]) x else False)"
      using I i n by (simp add: c_assert_def)
  qed (use len in simp)
  then show ?thesis by (auto elim!: wpE2 split: if_splits)
qed

lemma trim_offsets_wp:
  assumes sorted: "sorted (map te_to es)" and n: "\<forall>e \<in> set es. te_to e < n" and ne: "es \<noteq> []"
  shows "wp (trim_offsets n es) (\<lambda>offsets. length offsets = n \<and>
    (\<forall>s < n. set [(if s = 0 then 0 else offsets ! (s - 1))..<offsets ! s] = {i. i < length es \<and> te_to (es ! i) = s}))"
proof -
  let ?m = "te_to (last es)"
  have m: "?m < n" using n ne by simp
  have le: "\<forall>e \<in> set es. te_to e \<le> ?m"
    using sorted_nth_mono [OF sorted] ne by (fastforce simp: in_set_conv_nth last_conv_nth)
  obtain o1 where r1: "c_for (\<lambda>i offsets. do { let to = te_to (es ! i); c_assert (to < length offsets); Some (True, offsets[to := i + 1]) })
      [0..<length es] (replicate n 0) = Some (True, o1)" and o1: "length o1 = n"
      "\<forall>t < n. o1 ! t = (if t \<in> te_to ` set es then edges_upto es t else 0)"
    by (rule wpE2 [OF offsets_filled [OF sorted n]]) auto
  obtain o2 where r2: "c_for (\<lambda>i offsets. do { c_assert (i < length offsets);
        Some (True, if i > 0 \<and> offsets ! i = 0 then offsets[i := offsets ! (i - 1)] else offsets) }) [0..<?m + 1] o1 = Some (True, o2)"
    and o2: "length o2 = n" "\<forall>t \<le> ?m. o2 ! t = edges_upto es t" "\<forall>t. ?m < t \<and> t < n \<longrightarrow> o2 ! t = o1 ! t"
    by (rule wpE2 [OF offsets_gaps [OF m o1]]) auto
  have late: "o2 ! t = 0" if "?m < t" "t < n" for t using o2(3) o1(2) le that by force
  have "set [(if s = 0 then 0 else o2 ! (s - 1))..<o2 ! s] = {i. i < length es \<and> te_to (es ! i) = s}" if "s < n" for s
  proof (cases "s \<le> ?m")
    case True
    have "edges_upto es t \<le> length es" for t by (simp add: edges_upto_def)
    then have up: "i < edges_upto es t \<longleftrightarrow> i < length es \<and> te_to (es ! i) \<le> t" for i t
      using edges_upto_iff [OF sorted, of i t] by (meson less_le_trans)
    show ?thesis
    proof (cases "s = 0")
      case 0: True
      have "{0..<o2 ! 0} = {i. i < length es \<and> te_to (es ! i) = 0}" using o2(2) up [of _ 0] by auto
      then show ?thesis using 0 by simp
    next
      case False
      have o: "o2 ! (s - 1) = edges_upto es (s - 1)" "o2 ! s = edges_upto es s" using True o2(2) by simp_all
      have "set [o2 ! (s - 1)..<o2 ! s] = {i. \<not> i < edges_upto es (s - 1) \<and> i < edges_upto es s}" unfolding o by auto
      also have "\<dots> = {i. i < length es \<and> te_to (es ! i) = s}" unfolding up using False by (auto simp del: not_le)
      finally show ?thesis using False by (simp only: if_False)
    qed
  next
    case False
    then show ?thesis using late \<open>s < n\<close> le by auto
  qed
  moreover have "o2 ! ?m = length es" using o2(2) edges_upto_all [OF le] by simp
  then have "trim_offsets n es = Some o2"
    unfolding trim_offsets_def Let_def r1 [unfolded Let_def] bind.bind_lunit prod.case r2 by (simp add: c_assert_def)
  ultimately show ?thesis using o2(1) by simp
qed

section \<open>Distances\<close>

text \<open>
  \<open>d\<close> gives the distance of the states \<open>V\<close> to the states \<open>S\<close> along the pairs \<open>E\<close>, while those in the
  queue \<open>Q\<close> are still to be looked at: they are in the order of their distances, which differ
  by at most one.
\<close>

definition bfs_inv :: "(nat \<times> nat) set \<Rightarrow> nat set \<Rightarrow> nat \<Rightarrow> nat set \<Rightarrow> nat list \<Rightarrow> nat list \<Rightarrow> bool" where
  "bfs_inv E S n V Q d \<longleftrightarrow> length d = n \<and> (\<forall>v < n. v \<notin> V \<longrightarrow> d ! v = NO_END_DISTANCE) \<and> (\<forall>s \<in> S. d ! s = 0) \<and>
     (\<forall>v \<in> V. \<exists>s \<in> S. (v, s) \<in> E ^^ (d ! v)) \<and>
     (\<forall>v \<in> V - set Q. \<forall>u. (u, v) \<in> E \<longrightarrow> d ! u \<le> d ! v + 1) \<and>
     (\<forall>v \<in> V. d ! v > 0 \<longrightarrow> (\<exists>u \<in> V - set Q. d ! u + 1 = d ! v)) \<and>
     sorted (map ((!) d) Q) \<and> (\<exists>k. (\<forall>x \<in> set Q. k \<le> d ! x \<and> d ! x \<le> k + 1) \<and> (\<forall>v \<in> V - set Q. d ! v \<le> k))"

text \<open>Every smaller distance occurs, so there are no more than states.\<close>

lemma bfs_levels:
  assumes "bfs_inv E S n V Q d" and "v \<in> V" and "j < d ! v"
  shows "\<exists>u \<in> V - set Q. d ! u = j"
  using assms(2,3)
proof (induction "d ! v" arbitrary: v)
  case (Suc x)
  then obtain u where u: "u \<in> V - set Q" "d ! u + 1 = d ! v" using assms(1) unfolding bfs_inv_def by (metis zero_less_Suc)
  show ?case
  proof (cases "j = d ! u")
    case False
    then have "j < d ! u" using u(2) Suc.prems(2) by linarith
    then show ?thesis using Suc.hyps(1) [of u] Suc.hyps(2) u by auto
  qed (use u(1) in auto)
qed simp

lemma bfs_bound:
  assumes "bfs_inv E S n V Q d" and "v \<in> V" and "V \<subseteq> {..<n}"
  shows "d ! v \<le> n"
proof -
  have fin: "finite V" using assms(3) finite_subset by blast
  have "{..<d ! v} \<subseteq> (!) d ` V" using bfs_levels [OF assms(1,2)] by auto
  then have "card {..<d ! v} \<le> card ((!) d ` V)" using fin by (intro card_mono) auto
  also have "\<dots> \<le> card V" by (rule card_image_le [OF fin])
  also have "\<dots> \<le> card {..<n}" using assms(3) by (intro card_mono) auto
  finally show ?thesis by simp
qed

text \<open>The updates on behalf of one state give its predecessors the next distance.\<close>

definition sed_update :: "nat \<Rightarrow> nat \<Rightarrow> nat list \<Rightarrow> nat list" where
  "sed_update s p d = (if d ! p = NO_END_DISTANCE \<or> d ! s < d ! p then d[p := (d ! s + 1) mod 2 ^ 32] else d)"

lemma sed_updates:
  assumes "\<forall>v \<in> V. d ! v \<le> d ! s + 1" and "d ! s + 1 < NO_END_DISTANCE" and "s \<in> V"
    and "\<forall>p \<in> set ps. p < length d \<and> (p \<notin> V \<longrightarrow> d ! p = NO_END_DISTANCE)"
  shows "length (fold (sed_update s) ps d) = length d \<and>
    (\<forall>v. fold (sed_update s) ps d ! v = (if v \<in> set ps - V then d ! s + 1 else d ! v))"
  using assms
proof (induction ps arbitrary: d V)
  case (Cons p ps)
  let ?d = "sed_update s p d"
  have p: "p < length d" using Cons.prems(4) by simp
  have mod: "(d ! s + 1) mod 2 ^ 32 = d ! s + 1" using Cons.prems(2) by (simp add: NO_END_DISTANCE_def)
  have d': "?d ! v = (if v = p \<and> p \<notin> V then d ! s + 1 else d ! v)" for v
  proof (cases "p \<in> V")
    case True
    then have "d ! p \<le> d ! s + 1" using Cons.prems(1) by blast
    then show ?thesis using True p Cons.prems(2) mod by (auto simp: sed_update_def nth_list_update)
  next
    case False
    then show ?thesis using Cons.prems(4) p mod by (auto simp: sed_update_def)
  qed
  have sp: "?d ! s = d ! s" using d' Cons.prems(3) by auto
  have len: "length ?d = length d" by (simp add: sed_update_def)
  have "length (fold (sed_update s) ps ?d) = length ?d \<and>
      (\<forall>v. fold (sed_update s) ps ?d ! v = (if v \<in> set ps - insert p V then ?d ! s + 1 else ?d ! v))"
    by (rule Cons.IH) (use Cons.prems d' sp len in auto)
  then show ?case using sp len d' by auto
qed simp

lemma bfs_step:
  assumes inv: "bfs_inv E S n V (s # Q) d" and sV: "set (s # Q) \<subseteq> V" "distinct (s # Q)" and V: "V \<subseteq> {..<n}" and n: "n + 1 < NO_END_DISTANCE"
    and SV: "S \<subseteq> V" and T: "T = {p. (p, s) \<in> E}" "T \<subseteq> {..<n}" and xs: "set xs = T - V"
    and d': "length d' = n" "\<forall>v. d' ! v = (if v \<in> T - V then d ! s + 1 else d ! v)"
  shows "bfs_inv E S n (V \<union> T) (Q @ xs) d'"
proof -
  have I: "length d = n" "\<And>v. v < n \<Longrightarrow> v \<notin> V \<Longrightarrow> d ! v = NO_END_DISTANCE" "\<And>e. e \<in> S \<Longrightarrow> d ! e = 0"
    "\<And>v. v \<in> V \<Longrightarrow> \<exists>e \<in> S. (v, e) \<in> E ^^ (d ! v)"
    "\<And>u v. v \<in> V - set (s # Q) \<Longrightarrow> (u, v) \<in> E \<Longrightarrow> d ! u \<le> d ! v + 1"
    "\<And>v. v \<in> V \<Longrightarrow> d ! v > 0 \<Longrightarrow> \<exists>u \<in> V - set (s # Q). d ! u + 1 = d ! v"
    and srt: "sorted (map ((!) d) (s # Q))"
    using inv by (simp_all add: bfs_inv_def)
  obtain k where k: "\<And>x. x \<in> set (s # Q) \<Longrightarrow> k \<le> d ! x \<and> d ! x \<le> k + 1" "\<And>v. v \<in> V - set (s # Q) \<Longrightarrow> d ! v \<le> k"
    using inv unfolding bfs_inv_def by blast
  have ks: "k \<le> d ! s" using k(1) [of s] by simp
  have ds: "d ! s \<le> d ! x" "d ! x \<le> d ! s + 1" if "x \<in> set Q" for x using srt k(1) [of x] ks that by auto
  have old: "d' ! v = d ! v" if "v \<in> V" for v using d'(2) that by simp
  have new: "d' ! v = d ! s + 1" if "v \<in> T - V" for v using d'(2) that by simp
  have s: "s \<in> V" and P: "V \<union> T - set (Q @ xs) = insert s (V - set (s # Q))" using sV xs by auto
  have near: "d ! v \<le> d ! s + 1" if "v \<in> V" for v using ds(2) [of v] k(2) [of v] ks that by (cases "v = s"; cases "v \<in> set Q") auto
  have path: "\<exists>e \<in> S. (v, e) \<in> E ^^ (d' ! v)" if "v \<in> V \<union> T" for v
  proof (cases "v \<in> V")
    case True
    then show ?thesis using I(4) old by simp
  next
    case False
    obtain e where e: "e \<in> S" "(s, e) \<in> E ^^ (d ! s)" using I(4) [OF s] by blast
    have "(v, s) \<in> E" "d' ! v = Suc (d ! s)" using False that new T(1) by auto
    then show ?thesis using relpow_Suc_I2 [OF _ e(2)] e(1) by metis
  qed
  have closed: "d' ! u \<le> d' ! v + 1" if vu: "v \<in> insert s (V - set (s # Q))" "(u, v) \<in> E" for u v
  proof (cases "v = s")
    case True
    then have "u \<in> T" using vu T(1) by simp
    then show ?thesis using True near [of u] new [of u] old [of u] old [OF s] by (cases "u \<in> V") auto
  next
    case False
    then have v: "v \<in> V - set (s # Q)" and le: "d ! u \<le> d ! v + 1" using vu I(5) by auto
    have "u \<in> V \<or> u \<notin> T"
    proof (rule ccontr)
      assume "\<not> ?thesis"
      then have "d ! u = NO_END_DISTANCE" using T(2) I(2) by auto
      then show False using le bfs_bound [OF inv _ V, of v] v n by simp
    qed
    then have "d' ! u = d ! u" using d'(2) by auto
    then show ?thesis using le old [of v] v by simp
  qed
  have prev: "\<exists>u \<in> insert s (V - set (s # Q)). d' ! u + 1 = d' ! v" if v: "v \<in> V \<union> T" "d' ! v > 0" for v
  proof (cases "v \<in> V")
    case True
    then obtain u where u: "u \<in> V - set (s # Q)" "d ! u + 1 = d ! v" using I(6) [of v] v(2) old by auto
    then have "d' ! u + 1 = d' ! v" using True old [of u] old [of v] by simp
    then show ?thesis using u(1) by blast
  next
    case False
    then have "d' ! s + 1 = d' ! v" using v(1) new [of v] old [OF s] by simp
    then show ?thesis by blast
  qed
  have "map ((!) d') Q = map ((!) d) Q" "map ((!) d') xs = map (\<lambda>_. d ! s + 1) xs" using old new sV xs by auto
  then have sorted: "sorted (map ((!) d') (Q @ xs))"
    unfolding map_append using srt ds(2) by (simp only:) (simp add: sorted_append map_replicate_const)
  have l1: "d ! s \<le> d' ! x \<and> d' ! x \<le> d ! s + 1" if "x \<in> set (Q @ xs)" for x
  proof (cases "x \<in> set Q")
    case True
    then show ?thesis using ds old [of x] sV(1) by auto
  next
    case False
    then have "x \<in> T - V" using that xs by auto
    then show ?thesis using new by simp
  qed
  have l2: "d' ! v \<le> d ! s" if "v \<in> insert s (V - set (s # Q))" for v
    using that k(2) [of v] ks old [of v] s by auto
  have "\<forall>v < n. v \<notin> V \<union> T \<longrightarrow> d' ! v = NO_END_DISTANCE" "\<forall>e \<in> S. d' ! e = 0" using I(2,3) d'(2) old SV by auto
  then show ?thesis
    unfolding bfs_inv_def P using d'(1) path closed prev sorted l1 l2 by blast
qed

lemma bfs_step_fold:
  assumes inv: "bfs_inv E S n V (s # Q) d" and sV: "set (s # Q) \<subseteq> V" "distinct (s # Q)" and V: "V \<subseteq> {..<n}" and n: "n + 1 < NO_END_DISTANCE"
    and SV: "S \<subseteq> V" and T: "T = {p. (p, s) \<in> E}" "T \<subseteq> {..<n}" and xs: "set xs = T - V" and ps: "set ps = T"
  shows "bfs_inv E S n (V \<union> T) (Q @ xs) (fold (sed_update s) ps d)"
proof -
  have len: "length d = n" and no: "\<And>v. v < n \<Longrightarrow> v \<notin> V \<Longrightarrow> d ! v = NO_END_DISTANCE" using inv by (simp_all add: bfs_inv_def)
  obtain k where k: "\<And>x. x \<in> set (s # Q) \<Longrightarrow> k \<le> d ! x \<and> d ! x \<le> k + 1" "\<And>v. v \<in> V - set (s # Q) \<Longrightarrow> d ! v \<le> k"
    using inv unfolding bfs_inv_def by blast
  have near: "d ! v \<le> d ! s + 1" if "v \<in> V" for v
    using k(1) [of s] k(1) [of v] k(2) [of v] that by (cases "v \<in> set (s # Q)") auto
  have s: "s \<in> V" using sV(1) by simp
  have bound: "d ! s + 1 < NO_END_DISTANCE" using bfs_bound [OF inv s V] n by simp
  have "length (fold (sed_update s) ps d) = length d \<and>
      (\<forall>v. fold (sed_update s) ps d ! v = (if v \<in> set ps - V then d ! s + 1 else d ! v))"
    by (rule sed_updates) (use near bound s ps T(2) len no in auto)
  then show ?thesis using len ps by (intro bfs_step [OF inv sV V n SV T xs]) auto
qed

lemma bfs_done:
  assumes inv: "bfs_inv E S n V [] d" and V: "V = {v. \<exists>s \<in> S. (v, s) \<in> E\<^sup>*}" "V \<subseteq> {..<n}" and v: "v \<in> V"
  shows "(\<exists>s \<in> S. (v, s) \<in> E ^^ (d ! v)) \<and> (\<forall>j s. s \<in> S \<longrightarrow> (v, s) \<in> E ^^ j \<longrightarrow> d ! v \<le> j)"
proof (intro conjI allI impI)
  show "\<exists>s \<in> S. (v, s) \<in> E ^^ (d ! v)" using inv v by (simp add: bfs_inv_def)
  fix j s
  assume "s \<in> S" and "(v, s) \<in> E ^^ j"
  then show "d ! v \<le> j"
  proof (induction j arbitrary: v)
    case 0
    then show ?case using inv by (simp add: bfs_inv_def)
  next
    case (Suc j)
    then obtain u where u: "(v, u) \<in> E" "(u, s) \<in> E ^^ j" by (meson relpow_Suc_D2)
    then have "u \<in> V" using V(1) Suc.prems(1) relpow_imp_rtrancl by blast
    then have "d ! v \<le> d ! u + 1" using inv u(1) by (simp add: bfs_inv_def)
    then show ?case using Suc.IH [OF Suc.prems(1) u(2)] by simp
  qed
qed

section \<open>The walk back from the ends\<close>

lemma back_edges_wp:
  assumes "qwl.ready q vis" and "length vis = n" and "\<forall>i \<in> set is. i < length edges \<and> te_from (edges ! i) < n"
  shows "wp (c_for (back_edge n edges s) is (q, vis, sed)) (\<lambda>(ok, q', vis', sed'). ok \<and> qwl.ready q' vis' \<and> length vis' = n \<and>
    (\<exists>xs. queue_items q' = queue_items q @ xs \<and> set xs = (\<lambda>i. te_from (edges ! i)) ` set is - vset vis) \<and>
    vset vis' = vset vis \<union> (\<lambda>i. te_from (edges ! i)) ` set is \<and>
    sed' = map_option (fold (sed_update s) (map (\<lambda>i. te_from (edges ! i)) is)) sed)"
  using assms
proof (induction "is" arbitrary: q vis sed)
  case Nil
  then show ?case by (simp add: option.map_ident_strong)
next
  case (Cons i "is")
  let ?p = "te_from (edges ! i)" and ?F = "\<lambda>is. (\<lambda>i. te_from (edges ! i)) ` set is"
  let ?sed = "map_option (sed_update s ?p) sed"
  have i: "i < length edges" "?p < n" using Cons.prems(3) by auto
  have sed: "map_option (\<lambda>d. if d ! ?p = NO_END_DISTANCE \<or> d ! s < d ! ?p then d[?p := (d ! s + 1) mod 2 ^ 32] else d) sed = ?sed"
    by (rule map_option_cong) (simp_all add: sed_update_def)
  have rest: "\<forall>i \<in> set is. i < length edges \<and> te_from (edges ! i) < n" using Cons.prems(3) by simp
  show ?case
  proof (cases "vis ! ?p")
    case True
    then have v: "?p \<in> vset vis" using i Cons.prems(2) by (simp add: vset_def)
    have "c_for (back_edge n edges s) (i # is) (q, vis, sed) = c_for (back_edge n edges s) is (q, vis, ?sed)"
      using True i sed by (simp add: back_edge_def c_nth_def c_assert_def Let_def)
    moreover have "?F is - vset vis = ?F (i # is) - vset vis" "vset vis \<union> ?F is = vset vis \<union> ?F (i # is)" using v by auto
    moreover have "map_option (fold (sed_update s) (map (\<lambda>i. te_from (edges ! i)) is)) ?sed =
        map_option (fold (sed_update s) (map (\<lambda>i. te_from (edges ! i)) (i # is))) sed" by (simp add: option.map_comp comp_def)
    ultimately show ?thesis using Cons.IH [OF Cons.prems(1,2) rest, of ?sed] by metis
  next
    case False
    then have v: "?p \<notin> vset vis" by (simp add: vset_def)
    have qi: "queue_inv q" using Cons.prems(1) by (simp add: qwl.ready_def)
    have "length (queue_items q) = card (set (queue_items q))" using Cons.prems(1) distinct_card [of "queue_items q"] by (simp add: qwl.ready_def)
    also have "\<dots> \<le> card (vset vis)" using Cons.prems(1) vset_bound by (intro card_mono) (auto simp: qwl.ready_def)
    also have "\<dots> < q_capacity q" using vset_full [of ?p vis] v i Cons.prems(1,2) by (simp add: qwl.ready_def)
    finally obtain q1 where run: "queue_push q ?p = Some (True, q1)" and q1: "queue_inv q1" "q_capacity q1 = q_capacity q"
        "queue_items q1 = queue_items q @ [?p]"
      by (auto intro: wpE2 [OF queue_push_wp [OF qi, of ?p]])
    let ?vis = "vis[?p := True]"
    have vs: "vset ?vis = insert ?p (vset vis)" using vset_update i Cons.prems(2) by simp
    have ready: "qwl.ready q1 ?vis" using Cons.prems(1) q1 v vs by (auto simp: qwl.ready_def)
    have "c_for (back_edge n edges s) (i # is) (q, vis, sed) = c_for (back_edge n edges s) is (q1, ?vis, ?sed)"
      using False i sed run by (simp add: back_edge_def c_nth_def c_assert_def Let_def)
    moreover have "wp (c_for (back_edge n edges s) is (q1, ?vis, ?sed)) (\<lambda>(ok, q', vis', sed'). ok \<and> qwl.ready q' vis' \<and> length vis' = n \<and>
      (\<exists>xs. queue_items q' = queue_items q @ xs \<and> set xs = ?F (i # is) - vset vis) \<and> vset vis' = vset vis \<union> ?F (i # is) \<and>
      sed' = map_option (fold (sed_update s) (map (\<lambda>i. te_from (edges ! i)) (i # is))) sed)"
    proof (rule wp_mono [OF Cons.IH [OF ready _ rest, of ?sed]])
      fix x
      assume "case x of (ok, q', vis', sed') \<Rightarrow> ok \<and> qwl.ready q' vis' \<and> length vis' = n \<and>
        (\<exists>xs. queue_items q' = queue_items q1 @ xs \<and> set xs = ?F is - vset ?vis) \<and> vset vis' = vset ?vis \<union> ?F is \<and>
        sed' = map_option (fold (sed_update s) (map (\<lambda>i. te_from (edges ! i)) is)) ?sed"
      then obtain q' vis' sed' xs where x: "x = (True, q', vis', sed')" "qwl.ready q' vis'" "length vis' = n"
          "queue_items q' = queue_items q1 @ xs" "set xs = ?F is - vset ?vis" "vset vis' = vset ?vis \<union> ?F is"
          "sed' = map_option (fold (sed_update s) (map (\<lambda>i. te_from (edges ! i)) is)) ?sed"
        by (cases x) auto
      have "set (?p # xs) = ?F (i # is) - vset vis" "vset vis' = vset vis \<union> ?F (i # is)" using x(5,6) vs v by auto
      then show "case x of (ok, q', vis', sed') \<Rightarrow> ok \<and> qwl.ready q' vis' \<and> length vis' = n \<and>
          (\<exists>xs. queue_items q' = queue_items q @ xs \<and> set xs = ?F (i # is) - vset vis) \<and> vset vis' = vset vis \<union> ?F (i # is) \<and>
          sed' = map_option (fold (sed_update s) (map (\<lambda>i. te_from (edges ! i)) (i # is))) sed"
        using x q1(3) by (auto simp: option.map_comp comp_def intro!: exI [of _ "?p # xs"])
    qed (use Cons.prems(2) in simp)
    ultimately show ?thesis by (simp only:)
  qed
qed

definition back_inv :: "(nat \<times> nat) set \<Rightarrow> nat set \<Rightarrow> nat \<Rightarrow> back_walk \<Rightarrow> bool" where
  "back_inv E S n = (\<lambda>(q, vis, sed). qwl.ready q vis \<and> length vis = n \<and>
     search_inv (\<lambda>p t. (t, p) \<in> E) S (vset vis) (set (queue_items q)) \<and>
     (\<forall>d. sed = Some d \<longrightarrow> bfs_inv E S n (vset vis) (queue_items q) d))"

text \<open>The states that get to an end, with the shortest distance to one.\<close>

definition back_result :: "(nat \<times> nat) set \<Rightarrow> nat set \<Rightarrow> nat \<Rightarrow> bool list \<Rightarrow> nat list option \<Rightarrow> bool" where
  "back_result E S n vis sed \<longleftrightarrow> length vis = n \<and> vset vis = {v. \<exists>s \<in> S. (v, s) \<in> E\<^sup>*} \<and>
     (\<forall>d. sed = Some d \<longrightarrow> length d = n \<and> (\<forall>v < n. v \<notin> vset vis \<longrightarrow> d ! v = NO_END_DISTANCE) \<and>
        (\<forall>v \<in> vset vis. (\<exists>s \<in> S. (v, s) \<in> E ^^ (d ! v)) \<and> (\<forall>j s. s \<in> S \<longrightarrow> (v, s) \<in> E ^^ j \<longrightarrow> d ! v \<le> j)))"

lemma converse_reach: "(\<lambda>p t. (t, p) \<in> E)\<^sup>*\<^sup>* s v \<longleftrightarrow> (v, s) \<in> E\<^sup>*"
proof -
  have "(\<lambda>p t. (t, p) \<in> E)\<^sup>*\<^sup>* s v \<longleftrightarrow> (s, v) \<in> {(p, t). (t, p) \<in> E}\<^sup>*" by (simp add: rtranclp_rtrancl_eq)
  also have "{(p, t). (t, p) \<in> E} = E\<inverse>" by auto
  finally show ?thesis by (simp add: rtrancl_converse)
qed

lemma back_body_wp:
  assumes I: "back_inv (edge_pairs es) S n (q, vis, sed)" and n: "n + 1 < NO_END_DISTANCE" and es: "\<forall>e \<in> set es. te_from e < n \<and> te_to e < n"
    and off: "length offsets = n" "\<forall>s < n. set [(if s = 0 then 0 else offsets ! (s - 1))..<offsets ! s] = {i. i < length es \<and> te_to (es ! i) = s}"
  shows "wp (back_body n es offsets (q, vis, sed)) (\<lambda>x. case x of
      Inl (q', vis', sed') \<Rightarrow> back_inv (edge_pairs es) S n (q', vis', sed') \<and>
        n - card (vset vis' - set (queue_items q')) < n - card (vset vis - set (queue_items q)) \<and> (sed' = None \<longleftrightarrow> sed = None)
    | Inr (ok, vis', sed') \<Rightarrow> ok \<and> back_result (edge_pairs es) S n vis' sed' \<and> (sed' = None \<longleftrightarrow> sed = None))"
proof -
  let ?E = "edge_pairs es"
  have ready: "qwl.ready q vis" and len: "length vis = n" and si: "search_inv (\<lambda>p t. (t, p) \<in> ?E) S (vset vis) (set (queue_items q))"
    and bfs: "sed = Some d \<Longrightarrow> bfs_inv ?E S n (vset vis) (queue_items q) d" for d
    using I by (auto simp: back_inv_def)
  have qi: "queue_inv q" and dist: "distinct (queue_items q)" and WV: "set (queue_items q) \<subseteq> vset vis"
    using ready by (simp_all add: qwl.ready_def)
  have Vn: "vset vis \<subseteq> {..<n}" using vset_bound(1) [of vis] len by simp
  obtain r q0 where pop: "queue_pop q = Some (r, q0)"
    and r: "case r of None \<Rightarrow> queue_items q = [] \<and> q0 = q | Some s \<Rightarrow> queue_items q = s # queue_items q0"
    by (rule wpE2 [OF queue_pop_wp [OF qi]]) auto
  show ?thesis
  proof (cases r)
    case None
    then have empty: "queue_items q = []" using r by simp
    then have V: "vset vis = {v. \<exists>s \<in> S. (v, s) \<in> ?E\<^sup>*}" using search_done [of "\<lambda>p t. (t, p) \<in> ?E" S "vset vis"] si by (simp add: converse_reach)
    have "length d = n \<and> (\<forall>v < n. v \<notin> vset vis \<longrightarrow> d ! v = NO_END_DISTANCE) \<and>
        (\<forall>v \<in> vset vis. (\<exists>s \<in> S. (v, s) \<in> ?E ^^ (d ! v)) \<and> (\<forall>j s. s \<in> S \<longrightarrow> (v, s) \<in> ?E ^^ j \<longrightarrow> d ! v \<le> j))" if "sed = Some d" for d
    proof -
      note inv = bfs [OF that, unfolded empty]
      have "length d = n" "\<forall>v < n. v \<notin> vset vis \<longrightarrow> d ! v = NO_END_DISTANCE" using inv unfolding bfs_inv_def by blast+
      then show ?thesis using bfs_done [OF inv V Vn] by blast
    qed
    then have "back_result ?E S n vis sed" unfolding back_result_def using len V by blast
    then show ?thesis using None pop by (simp add: back_body_def)
  next
    case (Some s)
    note q0 = qwl.pop_Some [OF qi dist pop [unfolded Some]]
    have items: "queue_items q = s # queue_items q0" and s: "s \<in> set (queue_items q)" using r Some by simp_all
    have sv: "s \<in> vset vis" "s < n" using s WV Vn by auto
    have ready0: "qwl.ready q0 vis" using ready q0 WV by (auto simp: qwl.ready_def)
    let ?is = "[(if s = 0 then 0 else offsets ! (s - 1))..<offsets ! s]" and ?T = "{p. (p, s) \<in> ?E}"
    note isset = off(2) [rule_format, OF sv(2)]
    have T: "(\<lambda>i. te_from (es ! i)) ` set ?is = ?T"
      unfolding isset by (auto simp: edge_pairs_def set_conv_nth)
    have Tn: "?T \<subseteq> {..<n}" using es by (auto simp: edge_pairs_def)
    have "\<forall>i \<in> set ?is. i < length es \<and> te_from (es ! i) < n" unfolding isset using es by simp
    from back_edges_wp [OF ready0 len this, of s sed]
    obtain q' vis' xs where run: "c_for (back_edge n es s) ?is (q0, vis, sed) =
        Some (True, q', vis', map_option (fold (sed_update s) (map (\<lambda>i. te_from (es ! i)) ?is)) sed)"
      and q': "qwl.ready q' vis'" "length vis' = n" "queue_items q' = queue_items q0 @ xs" "set xs = ?T - vset vis" "vset vis' = vset vis \<union> ?T"
      unfolding T by (auto elim!: wpE4)
    let ?sed = "map_option (fold (sed_update s) (map (\<lambda>i. te_from (es ! i)) ?is)) sed"
    have W: "set (queue_items q') = set (queue_items q) - {s} \<union> (?T - vset vis)" unfolding q'(3) set_append q0(4) q'(4) ..
    have "search_inv (\<lambda>p t. (t, p) \<in> ?E) S (vset vis') (set (queue_items q'))"
      unfolding q'(5) W by (rule search_step [OF si s]) simp
    moreover have "bfs_inv ?E S n (vset vis') (queue_items q') (fold (sed_update s) (map (\<lambda>i. te_from (es ! i)) ?is) d)" if "sed = Some d" for d
    proof -
      have SV: "S \<subseteq> vset vis" using si by (simp add: search_inv_def)
      show ?thesis unfolding q'(3,5)
        by (rule bfs_step_fold [OF bfs [OF that, unfolded items] _ _ Vn n SV refl Tn q'(4)]) (use WV dist items T in auto)
    qed
    ultimately have "back_inv ?E S n (q', vis', ?sed)" using q'(1,2) by (auto simp: back_inv_def)
    moreover have "n - card (vset vis' - set (queue_items q')) < n - card (vset vis - set (queue_items q))"
      unfolding q'(5) W by (rule search_progress [OF _ s WV]) (use Vn Tn in auto)
    moreover have "back_body n es offsets (q, vis, sed) = Some (Inl (q', vis', ?sed))"
      using pop sv len off(1) run by (cases "s = 0") (auto simp: back_body_def Some c_nth_def vset_def c_assert_def)
    ultimately show ?thesis by simp
  qed
qed


section \<open>The ends as the states to begin with\<close>

definition zero_ends :: "fsm_state_t list \<Rightarrow> nat list \<Rightarrow> nat list" where
  "zero_ends ends d = fold (\<lambda>e d. d[e := 0]) ends d"

lemma zero_ends: "length (zero_ends ends d) = length d" "v < length d \<Longrightarrow> zero_ends ends d ! v = (if v \<in> set ends then 0 else d ! v)"
  unfolding zero_ends_def by (induction ends arbitrary: d) (auto simp: nth_list_update)

lemma seed_ends_wp:
  assumes "queue_inv q" and "length vis = n" and "n \<le> q_capacity q" and "distinct (queue_items q @ ends)"
    and "set (queue_items q @ ends) \<subseteq> {..<n}"
  shows "wp (c_for (seed_end n) ends (q, vis, sed)) (\<lambda>(ok, q', vis', sed'). ok \<and> queue_inv q' \<and> q_capacity q' = q_capacity q \<and>
    queue_items q' = queue_items q @ ends \<and> length vis' = n \<and> vset vis' = vset vis \<union> set ends \<and> sed' = map_option (zero_ends ends) sed)"
  using assms
proof (induction ends arbitrary: q vis sed)
  case Nil
  then show ?case by (cases sed) (simp_all add: zero_ends_def)
next
  case (Cons e ends)
  have "length (queue_items q @ e # ends) = card (set (queue_items q @ e # ends))"
    using Cons.prems(4) distinct_card [of "queue_items q @ e # ends"] by simp
  also have "\<dots> \<le> card {..<n}" by (rule card_mono) (use Cons.prems(5) in auto)
  finally have "length (queue_items q) < q_capacity q" using Cons.prems(3) by simp
  then obtain q1 where push: "queue_push q e = Some (True, q1)" and q1: "queue_inv q1" "q_capacity q1 = q_capacity q" "queue_items q1 = queue_items q @ [e]"
    using queue_push_wp [OF Cons.prems(1), of e] by (auto elim!: wpE2)
  have e: "e < n" using Cons.prems(5) by simp
  have len: "length (vis[e := True]) = n" using Cons.prems(2) by simp
  have "wp (c_for (seed_end n) ends (q1, vis[e := True], map_option (\<lambda>d. d[e := 0]) sed)) (\<lambda>(ok, q', vis', sed'). ok \<and> queue_inv q' \<and>
      q_capacity q' = q_capacity q1 \<and> queue_items q' = queue_items q1 @ ends \<and> length vis' = n \<and> vset vis' = vset (vis[e := True]) \<union> set ends \<and>
      sed' = map_option (zero_ends ends) (map_option (\<lambda>d. d[e := 0]) sed))"
    by (rule Cons.IH [OF q1(1) len]) (use q1 Cons.prems(3,4,5) in auto)
  moreover have "seed_end n e (q, vis, sed) = Some (True, q1, vis[e := True], map_option (\<lambda>d. d[e := 0]) sed)"
    using e push by (simp add: seed_end_def c_assert_def)
  ultimately show ?case using e q1 Cons.prems(2) by (simp add: vset_update option.map_comp comp_def zero_ends_def)
qed

lemma bfs_init:
  assumes "length d = n" and "S \<subseteq> {..<n}" and "\<forall>v < n. d ! v = (if v \<in> S then 0 else NO_END_DISTANCE)" and "set Q = S"
  shows "bfs_inv E S n S Q d"
proof -
  have 0: "d ! v = 0" if "v \<in> S" for v using assms(2,3) that by auto
  moreover have "map ((!) d) Q = map (\<lambda>_. 0) Q" using 0 assms(4) by simp
  ultimately show ?thesis using assms(1,3,4) unfolding bfs_inv_def by (auto simp: map_replicate_const intro!: exI [of _ 0])
qed

section \<open>Marking the states that get to an end\<close>

lemma sort_edges:
  fixes es :: "trim_edge list"
  shows "sorted (map te_to (sort_key (\<lambda>e. (te_to e, te_from e)) es))" "edge_pairs (sort_key (\<lambda>e. (te_to e, te_from e)) es) = edge_pairs es"
proof -
  have "sorted (map (\<lambda>e. (te_to e, te_from e)) (sort_key (\<lambda>e. (te_to e, te_from e)) es))" by (rule sorted_sort_key)
  then show "sorted (map te_to (sort_key (\<lambda>e. (te_to e, te_from e)) es))"
    unfolding sorted_map by (rule sorted_wrt_mono_rel [rotated]) auto
qed (simp add: edge_pairs_def)

lemma mark_ends_wp:
  assumes n: "n = statecount f" "n + 1 < NO_END_DISTANCE" and q: "queue_inv q" "queue_items q = []" "n \<le> q_capacity q"
    and es: "edge_pairs es \<subseteq> {..<n} \<times> {..<n}" and ends: "distinct ends" "set ends \<subseteq> {..<n}"
    and sed: "sed = None \<or> sed = Some (replicate n NO_END_DISTANCE)"
  shows "wp (mark_ends [] f q es ends sed) (\<lambda>(ok, vis', sed', al'). ok \<and> al' = [] \<and> back_result (edge_pairs es) (set ends) n vis' sed' \<and>
    (sed' = None \<longleftrightarrow> sed = None))"
proof -
  define es' where "es' = sort_key (\<lambda>e. (te_to e, te_from e)) es"
  have pairs: "edge_pairs es' = edge_pairs es" and srt: "sorted (map te_to es')" unfolding es'_def by (rule sort_edges)+
  have bnd: "\<forall>e \<in> set es'. te_from e < n \<and> te_to e < n" using es by (auto simp: edge_pairs_def es'_def)
  obtain q1 vis1 where seed: "c_for (seed_end n) ends (q, replicate n False, sed) = Some (True, q1, vis1, map_option (zero_ends ends) sed)"
    and q1: "queue_inv q1" "q_capacity q1 = q_capacity q" "queue_items q1 = ends" "length vis1 = n" "vset vis1 = set ends"
    using seed_ends_wp [OF q(1), of "replicate n False" n ends sed] q ends by (auto elim!: wpE4)
  have bfs: "bfs_inv (edge_pairs es) (set ends) n (set ends) ends d" if "map_option (zero_ends ends) sed = Some d" for d
    by (rule bfs_init) (use that sed ends in \<open>auto simp: zero_ends\<close>)
  have inv: "back_inv (edge_pairs es) (set ends) n (q1, vis1, map_option (zero_ends ends) sed)"
    using q1 q(3) ends bfs by (auto simp: back_inv_def qwl.ready_def search_init)
  show ?thesis
  proof (cases "es' = []")
    case True
    then have E: "edge_pairs es = {}" using pairs by (simp add: edge_pairs_def)
    have "back_result {} (set ends) n vis1 (map_option (zero_ends ends) sed)"
      using bfs q1(4,5) by (auto simp: back_result_def bfs_inv_def E)
    then show ?thesis using True seed E by (simp add: mark_ends_def es'_def [symmetric] n(1) [symmetric])
  next
    case False
    obtain offsets where off: "trim_offsets n es' = Some offsets" "length offsets = n"
      "\<forall>s < n. set [(if s = 0 then 0 else offsets ! (s - 1))..<offsets ! s] = {i. i < length es' \<and> te_to (es' ! i) = s}"
      using trim_offsets_wp [OF srt _ False, of n] bnd by (auto simp: wp_iff_ex)
    let ?sed = "map_option (zero_ends ends) sed"
    have "wp (c_loop (back_body n es' offsets) (q1, vis1, ?sed))
        (\<lambda>(ok, vis', sed'). ok \<and> back_result (edge_pairs es') (set ends) n vis' sed' \<and> (sed' = None \<longleftrightarrow> sed = None))"
    proof (rule wp_c_loop [where I = "\<lambda>w. back_inv (edge_pairs es') (set ends) n w \<and> (snd (snd w) = None \<longleftrightarrow> sed = None)"
          and m = "\<lambda>(q, vis, sed). n - card (vset vis - set (queue_items q))"])
      show "back_inv (edge_pairs es') (set ends) n (q1, vis1, ?sed) \<and> (snd (snd (q1, vis1, ?sed)) = None \<longleftrightarrow> sed = None)"
        using inv pairs by simp
      fix w assume I: "back_inv (edge_pairs es') (set ends) n w \<and> (snd (snd w) = None \<longleftrightarrow> sed = None)"
      obtain q2 vis2 sed2 where w: "w = (q2, vis2, sed2)" by (cases w)
      show "wp (back_body n es' offsets w) (\<lambda>x. case x of
          Inl s' \<Rightarrow> (back_inv (edge_pairs es') (set ends) n s' \<and> (snd (snd s') = None \<longleftrightarrow> sed = None)) \<and>
            (case s' of (q, vis, sed) \<Rightarrow> n - card (vset vis - set (queue_items q))) < (case w of (q, vis, sed) \<Rightarrow> n - card (vset vis - set (queue_items q)))
        | Inr (ok, vis', sed') \<Rightarrow> ok \<and> back_result (edge_pairs es') (set ends) n vis' sed' \<and> (sed' = None \<longleftrightarrow> sed = None))"
        by (rule wp_mono [OF back_body_wp [OF conjunct1 [OF I, unfolded w] n(2) bnd off(2,3), folded w]])
          (use I in \<open>auto simp: w split: sum.splits\<close>)
    qed
    then obtain vis' sed' where "c_loop (back_body n es' offsets) (q1, vis1, ?sed) = Some (True, vis', sed')"
      and "back_result (edge_pairs es') (set ends) n vis' sed'" "sed' = None \<longleftrightarrow> sed = None" by (auto elim!: wpE3)
    moreover have "fsm_countstates f = n" using n by (simp add: fsm_countstates_def NO_END_DISTANCE_def)
    ultimately show ?thesis
      using False seed off(1) by (simp add: mark_ends_def es'_def [symmetric] n(1) [symmetric] pairs f_calloc_def)
  qed
qed


section \<open>Marking\<close>

text \<open>The states that trimming keeps, and the distance it gives them.\<close>

definition trim_keep :: "fsm \<Rightarrow> fsm_trim_mode \<Rightarrow> fsm_state_t \<Rightarrow> bool" where
  "trim_keep f mode s \<longleftrightarrow> (\<exists>a. n_start (fsm_nfa f) = Some a \<and> (fsm_edge_rel f)\<^sup>*\<^sup>* a s) \<and>
     (mode = FSM_TRIM_START_AND_END_REACHABLE \<longrightarrow> (\<exists>e. (fsm_edge_rel f)\<^sup>*\<^sup>* s e \<and> n_end (fsm_nfa f) e))"

definition end_distance :: "fsm \<Rightarrow> fsm_state_t \<Rightarrow> nat \<Rightarrow> bool" where
  "end_distance f s d \<longleftrightarrow> (\<exists>e. n_end (fsm_nfa f) e \<and> (fsm_edge_rel f ^^ d) s e) \<and>
     (\<forall>j e. n_end (fsm_nfa f) e \<longrightarrow> (fsm_edge_rel f ^^ j) s e \<longrightarrow> d \<le> j)"

lemma restricted_paths:
  assumes closed: "\<And>p t. p \<in> A \<Longrightarrow> R p t \<Longrightarrow> t \<in> A" and "v \<in> A"
  shows "(v, s) \<in> {(p, t). p \<in> A \<and> R p t} ^^ j \<longleftrightarrow> (R ^^ j) v s"
  using assms(2)
proof (induction j arbitrary: v)
  case (Suc j)
  have "(v, s) \<in> {(p, t). p \<in> A \<and> R p t} ^^ Suc j \<longleftrightarrow> (\<exists>t. R v t \<and> (t, s) \<in> {(p, t). p \<in> A \<and> R p t} ^^ j)"
    unfolding relpow.simps(2) relpow_commute [symmetric] using Suc.prems by auto
  also have "\<dots> \<longleftrightarrow> (\<exists>t. R v t \<and> (R ^^ j) t s)" using Suc.IH closed [OF Suc.prems] by blast
  also have "\<dots> \<longleftrightarrow> (R ^^ Suc j) v s" unfolding relpowp.simps(2) relpowp_commute [symmetric] by auto
  finally show ?case .
qed simp

lemma restricted_reach:
  assumes closed: "\<And>p t. p \<in> A \<Longrightarrow> R p t \<Longrightarrow> t \<in> A" and "v \<in> A"
  shows "(v, s) \<in> {(p, t). p \<in> A \<and> R p t}\<^sup>* \<longleftrightarrow> R\<^sup>*\<^sup>* v s"
  using restricted_paths [of A R v s, OF closed assms(2)] by (simp add: rtrancl_power rtranclp_power)

lemma back_result_trim:
  assumes start: "n_start (fsm_nfa f) = Some a" and A: "A = {t. (fsm_edge_rel f)\<^sup>*\<^sup>* a t}"
    and br: "back_result {(p, t). p \<in> A \<and> fsm_edge_rel f p t} {p \<in> A. n_end (fsm_nfa f) p} n vis sed"
  shows "length vis = n" "vset vis = {s. trim_keep f FSM_TRIM_START_AND_END_REACHABLE s}"
    "sed = Some d \<Longrightarrow> length d = n \<and> (\<forall>v < n. v \<notin> vset vis \<longrightarrow> d ! v = NO_END_DISTANCE) \<and> (\<forall>v \<in> vset vis. end_distance f v (d ! v))"
proof -
  let ?E = "{(p, t). p \<in> A \<and> fsm_edge_rel f p t}" and ?S = "{p \<in> A. n_end (fsm_nfa f) p}"
  have closed: "t \<in> A" if "p \<in> A" "fsm_edge_rel f p t" for p t using that A by (auto intro: rtranclp.rtrancl_into_rtrancl)
  have paths: "(v, s) \<in> ?E ^^ j \<longleftrightarrow> (fsm_edge_rel f ^^ j) v s" and reach: "(v, s) \<in> ?E\<^sup>* \<longleftrightarrow> (fsm_edge_rel f)\<^sup>*\<^sup>* v s" if "v \<in> A" for v s j
    using restricted_paths [of A "fsm_edge_rel f" v s j] restricted_reach [of A "fsm_edge_rel f" v s] closed that by blast+
  have inA: "v \<in> A" if "(v, s) \<in> ?E\<^sup>*" "s \<in> A" for v s using that by (cases rule: converse_rtranclE) auto
  have stay: "s \<in> A" if "(fsm_edge_rel f)\<^sup>*\<^sup>* v s" "v \<in> A" for v s using that A by auto
  have V: "vset vis = {v. \<exists>s \<in> ?S. (v, s) \<in> ?E\<^sup>*}" using br by (simp add: back_result_def)
  show "length vis = n" using br by (simp add: back_result_def)
  have "v \<in> vset vis \<longleftrightarrow> trim_keep f FSM_TRIM_START_AND_END_REACHABLE v" for v
  proof -
    have "v \<in> vset vis \<longleftrightarrow> v \<in> A \<and> (\<exists>e. (fsm_edge_rel f)\<^sup>*\<^sup>* v e \<and> n_end (fsm_nfa f) e)"
      unfolding V using inA reach stay by blast
    then show ?thesis using start A by (simp add: trim_keep_def)
  qed
  then show "vset vis = {s. trim_keep f FSM_TRIM_START_AND_END_REACHABLE s}" by blast
  assume d: "sed = Some d"
  have "end_distance f v (d ! v)" if v: "v \<in> vset vis" for v
  proof -
    have vA: "v \<in> A" using v inA unfolding V by blast
    have ex: "\<exists>s \<in> ?S. (v, s) \<in> ?E ^^ (d ! v)" and least: "\<And>j s. s \<in> ?S \<Longrightarrow> (v, s) \<in> ?E ^^ j \<Longrightarrow> d ! v \<le> j"
      using br d v unfolding back_result_def by blast+
    moreover have "e \<in> ?S" if "n_end (fsm_nfa f) e" "(fsm_edge_rel f ^^ j) v e" for e j
      using that vA stay [of v e] by (auto simp: rtranclp_power)
    ultimately show ?thesis unfolding end_distance_def paths [OF vA] by blast
  qed
  then show "length d = n \<and> (\<forall>v < n. v \<notin> vset vis \<longrightarrow> d ! v = NO_END_DISTANCE) \<and> (\<forall>v \<in> vset vis. end_distance f v (d ! v))"
    using br d unfolding back_result_def by blast
qed


definition mark_result :: "fsm \<Rightarrow> fsm_trim_mode \<Rightarrow> bool list \<Rightarrow> nat list option \<Rightarrow> bool" where
  "mark_result f mode vis sed \<longleftrightarrow> length vis = statecount f \<and> vset vis = {s. trim_keep f mode s} \<and>
     (\<forall>d. sed = Some d \<longrightarrow> length d = statecount f \<and> (\<forall>v < statecount f. v \<notin> vset vis \<longrightarrow> d ! v = NO_END_DISTANCE) \<and>
        (\<forall>v \<in> vset vis. end_distance f v (d ! v)))"

lemma mark_walk_wp:
  assumes inv: "fsm_inv f" and I: "mark_inv f start both w"
  shows "wp (c_loop (mark_body f) w) (\<lambda>(ok, w'). ok \<and> mark_inv f start both w' \<and> (case w' of (q, _) \<Rightarrow> queue_items q = []))"
  by (rule wp_c_loop [where I = "mark_inv f start both" and m = "mark_measure f", OF I]) (rule mark_body_wp [OF inv])

lemma mark_states_wp:
  assumes inv: "fsm_inv f" and fresh: "\<forall>st \<in> set (f_states f). \<not> st_visited st" and n: "statecount f > 0"
    and sed: "sed = None \<or> mode = FSM_TRIM_START_AND_END_REACHABLE \<and> sed = Some (replicate (statecount f) NO_END_DISTANCE)"
  shows "wp (mark_states [] f mode sed) (\<lambda>(ok, vis', sed', al'). ok \<and> al' = [] \<and> mark_result f mode vis' sed' \<and> (sed' = None \<longleftrightarrow> sed = None))"
proof -
  let ?n = "statecount f" and ?vis = "map st_visited (f_states f)" and ?R = "fsm_edge_rel f" and ?N = "fsm_nfa f"
  have vis: "?vis = replicate ?n False" using fresh by (simp add: list_eq_iff_nth_eq)
  have n24: "?n + 1 < NO_END_DISTANCE" using inv by (simp add: fsm_inv_def edge_state_limit_def NO_END_DISTANCE_def)
  obtain q where q: "queue_new [] ?n = (Some q, [])" "queue_inv q" "queue_items q = []" "q_capacity q = ?n"
    using queue_new_wp [of ?n "[]"] n by (auto split: prod.splits option.splits)
  show ?thesis
  proof (cases "n_start ?N")
    case None
    then have "mark_result f mode ?vis sed" using sed by (auto simp: mark_result_def trim_keep_def vis)
    then show ?thesis using None inv by (simp add: mark_states_def fsm_getstart_wp)
  next
    case (Some a)
    have a: "a < ?n" using inv Some by (auto simp: fsm_inv_def fsm_nfa_def split: if_splits)
    let ?both = "mode = FSM_TRIM_START_AND_END_REACHABLE" and ?A = "{t. ?R\<^sup>*\<^sup>* a t}"
    have An: "?A \<subseteq> {..<?n}" using reach_bound [OF inv a] by auto
    obtain q1 where push: "queue_push q a = Some (True, q1)" and q1: "queue_inv q1" "q_capacity q1 = ?n" "queue_items q1 = [a]"
      using queue_push_wp [OF q(2), of a] q(3,4) n by (auto elim!: wpE2)
    let ?w = "(q1, ?vis[a := True], if ?both then Some (DEF_EDGES_CEIL, []) else None, if ?both then Some (DEF_ENDS_CEIL, []) else None, [] :: alloc)"
    have "mark_inv f a ?both ?w"
      using q1 a by (simp add: mark_inv_def vis qwl.ready_def vset_update search_init edge_pairs_def)
    from mark_walk_wp [OF inv this]
    obtain q2 vis2 edges ends where loop: "c_loop (mark_body f) ?w = Some (True, q2, vis2, edges, ends, [])"
      and I2: "mark_inv f a ?both (q2, vis2, edges, ends, [])" and e2: "queue_items q2 = []"
      by (auto simp: wp_iff_ex mark_inv_def)
    have r2: "qwl.ready q2 vis2" and len2: "length vis2 = ?n" and si: "search_inv ?R {a} (vset vis2) {}"
      using I2 e2 by (auto simp: mark_inv_def Let_def)
    have V2: "vset vis2 = ?A" using search_done_single [OF si] .
    have run: "mark_states [] f mode sed = (case (edges, ends) of (Some (_, edges), Some (_, ends)) \<Rightarrow> mark_ends [] f q2 edges ends sed
        | _ \<Rightarrow> Some (True, vis2, sed, []))"
      using Some a q(1) push loop inv by (cases ?both) (simp_all add: mark_states_def fsm_getstart_wp c_assert_def Let_def)
    show ?thesis
    proof (cases ?both)
      case False
      then have "edges = None" using I2 by (auto simp: mark_inv_def Let_def split: option.splits)
      moreover have "mark_result f mode vis2 None" using len2 V2 Some False by (simp add: mark_result_def trim_keep_def)
      ultimately show ?thesis using run sed False by simp
    next
      case True
      obtain c es c' xs where ee: "edges = Some (c, es)" "ends = Some (c', xs)"
        "edge_pairs es = {(p, t). p \<in> ?A \<and> ?R p t}" "distinct xs" "set xs = {p \<in> ?A. n_end ?N p}"
        using I2 True e2 V2 by (auto simp: mark_inv_def Let_def split: option.splits)
      have 1: "edge_pairs es \<subseteq> {..<?n} \<times> {..<?n}" using successors_bound [OF inv] by (auto simp: ee(3))
      have 2: "set xs \<subseteq> {..<?n}" using An by (auto simp: ee(5))
      have 3: "queue_inv q2" "?n \<le> q_capacity q2" using r2 len2 by (auto simp: qwl.ready_def)
      have 4: "sed = None \<or> sed = Some (replicate ?n NO_END_DISTANCE)" using sed by auto
      have "wp (mark_ends [] f q2 es xs sed) (\<lambda>(ok, vis', sed', al'). ok \<and> al' = [] \<and> mark_result f mode vis' sed' \<and> (sed' = None \<longleftrightarrow> sed = None))"
      proof (rule wp_mono [OF mark_ends_wp [OF refl n24 3(1) e2 3(2) 1 ee(4) 2 4]], clarify, intro conjI)
        fix vis' sed'
        assume "back_result (edge_pairs es) (set xs) ?n vis' sed'"
        note br = back_result_trim [OF Some refl this [unfolded ee(3,5)]]
        show "mark_result f mode vis' sed'" unfolding mark_result_def True using br by blast
      qed auto
      then show ?thesis using run ee(1,2) by simp
    qed
  qed
qed


section \<open>Sweeping\<close>

lemma compact_distances:
  assumes "dst = rank keep src" and "src + length vis = length sed"
    and "\<And>i. i < length vis \<Longrightarrow> keep (src + i) = vis ! i" and "\<And>i. i < length vis \<Longrightarrow> \<not> vis ! i \<Longrightarrow> sed ! (src + i) = NO_END_DISTANCE"
  shows "wp (compact_shortest_end_distance vis src dst sed) (\<lambda>sed'. length sed' = length sed \<and> (\<forall>j < dst. sed' ! j = sed ! j) \<and>
    (\<forall>v. src \<le> v \<longrightarrow> v < length sed \<longrightarrow> keep v \<longrightarrow> sed' ! rank keep v = sed ! v))"
  using assms
proof (induction vis arbitrary: src dst sed)
  case (Cons v vis)
  have le: "dst \<le> src" using Cons.prems(1) rank_le [of keep src] by simp
  have keep: "keep (Suc src + i) = vis ! i" if "i < length vis" for i using Cons.prems(3) [of "Suc i"] that by simp
  have none: "sed ! (Suc src + i) = NO_END_DISTANCE" if "i < length vis" "\<not> vis ! i" for i using Cons.prems(4) [of "Suc i"] that by simp
  have v: "keep src = v" using Cons.prems(3) [of 0] by simp
  show ?case
  proof (cases v)
    case True
    define sed1 where "sed1 = (if dst < src then sed[dst := sed ! src] else sed)"
    have len: "length sed1 = length sed" and at: "sed1 ! dst = sed ! src" and other: "\<And>j. j \<noteq> dst \<Longrightarrow> sed1 ! j = sed ! j"
      using le Cons.prems(2) by (auto simp: sed1_def)
    have "wp (compact_shortest_end_distance vis (Suc src) (Suc dst) sed1) (\<lambda>sed'. length sed' = length sed1 \<and> (\<forall>j < Suc dst. sed' ! j = sed1 ! j) \<and>
        (\<forall>v. Suc src \<le> v \<longrightarrow> v < length sed1 \<longrightarrow> keep v \<longrightarrow> sed' ! rank keep v = sed1 ! v))"
      by (rule Cons.IH) (use Cons.prems(1,2) keep none le len other v True in \<open>auto simp: rank_Suc\<close>)
    moreover have "compact_shortest_end_distance (v # vis) src dst sed = compact_shortest_end_distance vis (Suc src) (Suc dst) sed1"
      using True by (simp add: sed1_def)
    ultimately obtain sed' where run: "compact_shortest_end_distance (v # vis) src dst sed = Some sed'" and
      post: "length sed' = length sed" "\<forall>j < Suc dst. sed' ! j = sed1 ! j"
        "\<forall>v. Suc src \<le> v \<longrightarrow> v < length sed \<longrightarrow> keep v \<longrightarrow> sed' ! rank keep v = sed1 ! v" by (auto simp: wp_iff_ex len)
    have "sed' ! rank keep u = sed ! u" if "src \<le> u" "u < length sed" "keep u" for u
      using that post(2,3) at other Cons.prems(1) le by (cases "u = src") auto
    then show ?thesis unfolding run wp_Some using post(1,2) other by auto
  next
    case False
    have "wp (compact_shortest_end_distance vis (Suc src) dst sed) (\<lambda>sed'. length sed' = length sed \<and> (\<forall>j < dst. sed' ! j = sed ! j) \<and>
        (\<forall>v. Suc src \<le> v \<longrightarrow> v < length sed \<longrightarrow> keep v \<longrightarrow> sed' ! rank keep v = sed ! v))"
      by (rule Cons.IH) (use Cons.prems(1,2) keep none v False in \<open>auto simp: rank_Suc\<close>)
    moreover have "sed ! src = NO_END_DISTANCE" using Cons.prems(4) [of 0] False by simp
    then have "compact_shortest_end_distance (v # vis) src dst sed = compact_shortest_end_distance vis (Suc src) dst sed"
      using False by (simp add: c_assert_def)
    moreover have "Suc src \<le> u" if "keep u" "src \<le> u" for u using that v False by (cases "u = src") auto
    ultimately show ?thesis by (auto elim!: wp_mono)
  qed
qed simp

lemma set_visited_sel:
  assumes "length vis = statecount f"
  shows "map st_visited (f_states (set_visited f vis)) = vis" and "statecount (set_visited f vis) = statecount f"
    and "fsm_nfa (set_visited f vis) = fsm_nfa f" and "fsm_inv (set_visited f vis) = fsm_inv f" and "meta_ok (set_visited f vis) = meta_ok f"
    and "f_endid_info (set_visited f vis) = f_endid_info f" and "f_eager_output_info (set_visited f vis) = f_eager_output_info f"
proof -
  show 1: "map st_visited (f_states (set_visited f vis)) = vis" and n: "statecount (set_visited f vis) = statecount f"
    and "f_endid_info (set_visited f vis) = f_endid_info f" and "f_eager_output_info (set_visited f vis) = f_eager_output_info f"
    using assms by (simp_all add: set_visited_def list_eq_iff_nth_eq)
  have cl: "clear_visited (set_visited f vis) = clear_visited f"
    using assms by (simp add: set_visited_def clear_visited_def list_eq_iff_nth_eq)
  show "fsm_nfa (set_visited f vis) = fsm_nfa f" using clear_visited_sel(1) cl by metis
  show "fsm_inv (set_visited f vis) = fsm_inv f" using clear_visited_inv cl by metis
  show "meta_ok (set_visited f vis) = meta_ok f" using n by (simp add: meta_ok_def set_visited_def)
qed

lemma compact_nfa_cong:
  assumes "\<And>s. s < n \<Longrightarrow> k s = k' s" and bound: "\<And>s l t. n_step A s l t \<Longrightarrow> s < n \<and> t < n"
    and "\<And>s. n_end A s \<Longrightarrow> s < n" and "\<And>s. n_start A = Some s \<Longrightarrow> s < n"
  shows "compact_nfa k A = compact_nfa k' A"
proof -
  have rank: "rank k s = rank k' s" if "s \<le> n" for s
    using that assms(1) by (induction s) (auto simp: rank_Suc rank_def)
  have "(\<exists>s t. k s \<and> k t \<and> a = rank k s \<and> b = rank k t \<and> n_step A s l t) \<longleftrightarrow>
      (\<exists>s t. k' s \<and> k' t \<and> a = rank k' s \<and> b = rank k' t \<and> n_step A s l t)" for a l b
    using assms(1) bound rank by (metis less_imp_le)
  moreover have "(\<exists>s. k s \<and> a = rank k s \<and> n_end A s) \<longleftrightarrow> (\<exists>s. k' s \<and> a = rank k' s \<and> n_end A s)" for a
    using assms(1,3) rank by (metis less_imp_le)
  ultimately show ?thesis using assms(1,4) rank by (auto simp: compact_nfa_def fun_eq_iff split: option.splits)
qed


section \<open>Trimming\<close>

lemma edge_rel_nfa: "fsm_edge_rel f p t \<longleftrightarrow> (\<exists>l. n_step (fsm_nfa f) p l t)"
  by (simp add: fsm_edge_rel_def fsm_nfa_def)

lemma compact_edge_rel:
  assumes "fsm_nfa f' = compact_nfa keep (fsm_nfa f)"
  shows "fsm_edge_rel f' a b \<longleftrightarrow> (\<exists>s t. keep s \<and> keep t \<and> a = rank keep s \<and> b = rank keep t \<and> fsm_edge_rel f s t)"
  unfolding edge_rel_nfa assms by (auto simp: compact_nfa_def)

lemma compact_path_back:
  assumes "fsm_nfa f' = compact_nfa keep (fsm_nfa f)" and "keep s" and "(fsm_edge_rel f' ^^ j) (rank keep s) b"
  shows "\<exists>t. keep t \<and> b = rank keep t \<and> (fsm_edge_rel f ^^ j) s t"
  using assms(3)
proof (induction j arbitrary: b)
  case (Suc j)
  then obtain c where c: "(fsm_edge_rel f' ^^ j) (rank keep s) c" "fsm_edge_rel f' c b" by auto
  obtain u where u: "keep u" "c = rank keep u" "(fsm_edge_rel f ^^ j) s u" using Suc.IH [OF c(1)] by blast
  obtain u' t where t: "keep u'" "keep t" "c = rank keep u'" "b = rank keep t" "fsm_edge_rel f u' t"
    using c(2) unfolding compact_edge_rel [OF assms(1)] by blast
  have "u' = u" using rank_inj [OF t(1) u(1)] t(3) u(2) by simp
  then show ?case using t u(3) by auto
qed (use assms(2) in auto)

lemma compact_path:
  assumes "fsm_nfa f' = compact_nfa keep (fsm_nfa f)" and "(fsm_edge_rel f ^^ j) s t"
    and "\<And>p. (fsm_edge_rel f)\<^sup>*\<^sup>* s p \<Longrightarrow> (fsm_edge_rel f)\<^sup>*\<^sup>* p t \<Longrightarrow> keep p"
  shows "(fsm_edge_rel f' ^^ j) (rank keep s) (rank keep t)"
  using assms(2,3)
proof (induction j arbitrary: t)
  case (Suc j)
  then obtain u where u: "(fsm_edge_rel f ^^ j) s u" "fsm_edge_rel f u t" by auto
  have su: "(fsm_edge_rel f)\<^sup>*\<^sup>* s u" using u(1) by (auto simp: rtranclp_power)
  have "keep p" if "(fsm_edge_rel f)\<^sup>*\<^sup>* s p" "(fsm_edge_rel f)\<^sup>*\<^sup>* p u" for p
    using Suc.prems(2) [of p] that u(2) by (blast intro: rtranclp.rtrancl_into_rtrancl)
  then have "(fsm_edge_rel f' ^^ j) (rank keep s) (rank keep u)" using Suc.IH [OF u(1)] by blast
  moreover have "fsm_edge_rel f' (rank keep u) (rank keep t)"
    unfolding compact_edge_rel [OF assms(1)]
    using Suc.prems(2) [OF su] Suc.prems(2) [of t] su u(2) by (blast intro: rtranclp.rtrancl_into_rtrancl)
  ultimately show ?case by auto
qed simp

text \<open>Nothing on the way from a kept state to an end is removed.\<close>

lemma trim_keep_between:
  assumes "trim_keep f mode s" and "(fsm_edge_rel f)\<^sup>*\<^sup>* s p" and "(fsm_edge_rel f)\<^sup>*\<^sup>* p e" and "n_end (fsm_nfa f) e"
  shows "trim_keep f mode p"
  using assms unfolding trim_keep_def by (meson rtranclp_trans)

lemma trimmed_distance:
  assumes nfa: "fsm_nfa f' = compact_nfa (trim_keep f mode) (fsm_nfa f)" and s: "trim_keep f mode s" and d: "end_distance f s d"
  shows "end_distance f' (rank (trim_keep f mode) s) d"
proof -
  let ?k = "trim_keep f mode"
  obtain e where e: "n_end (fsm_nfa f) e" "(fsm_edge_rel f ^^ d) s e" and least: "\<And>j e. n_end (fsm_nfa f) e \<Longrightarrow> (fsm_edge_rel f ^^ j) s e \<Longrightarrow> d \<le> j"
    using d unfolding end_distance_def by blast
  have se: "(fsm_edge_rel f)\<^sup>*\<^sup>* s e" using e(2) by (auto simp: rtranclp_power)
  have "n_end (fsm_nfa f') (rank ?k e)" using trim_keep_between [OF s se _ e(1)] e(1) by (auto simp: nfa compact_nfa_def)
  moreover have "(fsm_edge_rel f' ^^ d) (rank ?k s) (rank ?k e)"
    by (rule compact_path [OF nfa e(2)]) (rule trim_keep_between [OF s _ _ e(1)])
  moreover have "d \<le> j" if "n_end (fsm_nfa f') b" "(fsm_edge_rel f' ^^ j) (rank ?k s) b" for j b
  proof -
    note b = that
    obtain t where t: "?k t" "b = rank ?k t" "(fsm_edge_rel f ^^ j) s t" using compact_path_back [OF nfa s b(2)] by blast
    obtain u where u: "?k u" "b = rank ?k u" "n_end (fsm_nfa f) u" using b(1) by (auto simp: nfa compact_nfa_def)
    have "u = t" using rank_inj [OF u(1) t(1)] u(2) t(2) by simp
    then show ?thesis using least [OF u(3)] t(3) by simp
  qed
  ultimately show ?thesis unfolding end_distance_def by blast
qed

lemma trim_language: "language (compact_nfa (trim_keep f mode) (fsm_nfa f)) = fsm_language f"
  unfolding fsm_language_def
proof (rule compact_language)
  have reach: "(fsm_edge_rel f)\<^sup>*\<^sup>* p t" if "run (n_step (fsm_nfa f)) p w t" for p w t
  proof -
    have "fsm_edge_rel f = (\<lambda>p t. \<exists>l. n_step (fsm_nfa f) p l t)" by (simp add: fun_eq_iff edge_rel_nfa)
    then show ?thesis using that run_reach_iff [of "n_step (fsm_nfa f)" p t] by auto
  qed
  fix a p u v e
  assume "n_start (fsm_nfa f) = Some a" "run (n_step (fsm_nfa f)) a u p" "run (n_step (fsm_nfa f)) p v e" "n_end (fsm_nfa f) e"
  then show "trim_keep f mode p" unfolding trim_keep_def using reach by blast
qed


lemma sweep_states_wp:
  assumes inv: "fsm_inv f" "meta_ok f" and len: "length vis = statecount f" and keep: "vset vis = {s. trim_keep f mode s}"
  shows "wp (sweep_states [] (set_visited f vis)) (\<lambda>(ret, f', al'). al' = [] \<and> fsm_inv f' \<and>
    fsm_nfa f' = compact_nfa (trim_keep f mode) (fsm_nfa f) \<and> statecount f' = rank (trim_keep f mode) (statecount f) \<and>
    ret = int (statecount f - statecount f') \<and>
    (\<forall>s. trim_keep f mode s \<longrightarrow>
       endid_ids (f_endid_info f') (rank (trim_keep f mode) s) = endid_ids (f_endid_info f) s \<and>
       eager_ids (f_eager_output_info f') (rank (trim_keep f mode) s) = eager_ids (f_eager_output_info f) s))"
proof -
  let ?k = "trim_keep f mode" and ?v = "\<lambda>i. vis ! i" and ?n = "statecount f"
  note sel = set_visited_sel [OF len]
  have k: "vis ! s = ?k s" if "s < ?n" for s using keep that len by (auto simp: vset_def)
  have bound: "s < ?n" if "?k s" for s using keep that len by (auto simp: vset_def)
  have rank: "rank ?v s = rank ?k s" if "s \<le> ?n" for s
    using that k by (induction s) (auto simp: rank_Suc rank_def)
  have start: "s < ?n" if "n_start (fsm_nfa f) = Some s" for s using inv(1) that by (auto simp: fsm_inv_def fsm_nfa_def split: if_splits)
  have "compact_nfa ?v (fsm_nfa f) = compact_nfa ?k (fsm_nfa f)"
  proof (rule compact_nfa_cong [where n = ?n])
    show "s < ?n \<and> t < ?n" if "n_step (fsm_nfa f) s l t" for s l t using that fsm_step_bounds [OF inv(1)] by (simp add: fsm_nfa_def)
  qed (use k start in \<open>auto simp: fsm_nfa_def\<close>)
  then show ?thesis
    using fsm_compact_states_wp [of "set_visited f vis" ?v] inv sel rank [OF order_refl] rank [OF less_imp_le] k bound
    by (auto simp: sweep_states_def wp_iff_ex)
qed

lemma compacted_distances:
  assumes res: "mark_result f mode vis sed"
  shows "wp (case sed of None \<Rightarrow> Some None | Some d \<Rightarrow> do { d \<leftarrow> compact_shortest_end_distance vis 0 0 d; Some (Some d) })
    (\<lambda>sed'. (sed' = None \<longleftrightarrow> sed = None) \<and>
      (\<forall>d s. sed' = Some d \<longrightarrow> trim_keep f mode s \<longrightarrow> end_distance f s (d ! rank (trim_keep f mode) s)))"
proof (cases sed)
  case (Some d)
  let ?k = "trim_keep f mode"
  have len: "length vis = statecount f" and V: "vset vis = {s. ?k s}" using res by (auto simp: mark_result_def)
  have d: "length d = statecount f" "\<And>v. v < statecount f \<Longrightarrow> v \<notin> vset vis \<Longrightarrow> d ! v = NO_END_DISTANCE"
    "\<And>v. v \<in> vset vis \<Longrightarrow> end_distance f v (d ! v)" using res Some by (auto simp: mark_result_def)
  have at: "?k i = vis ! i" if "i < length vis" for i using that V by (auto simp: vset_def)
  have lt: "s < length d" if "?k s" for s using that V d(1) len by (auto simp: vset_def)
  have "wp (compact_shortest_end_distance vis 0 0 d) (\<lambda>d'. length d' = length d \<and> (\<forall>j < 0. d' ! j = d ! j) \<and>
      (\<forall>v. 0 \<le> v \<longrightarrow> v < length d \<longrightarrow> ?k v \<longrightarrow> d' ! rank ?k v = d ! v))"
    by (rule compact_distances) (use d len at in \<open>auto simp: rank_def vset_def\<close>)
  then obtain d' where d': "compact_shortest_end_distance vis 0 0 d = Some d'" "\<And>s. ?k s \<Longrightarrow> d' ! rank ?k s = d ! s"
    using lt by (auto simp: wp_iff_ex)
  have "end_distance f s (d' ! rank ?k s)" if "?k s" for s using d(3) [of s] d'(2) [OF that] that V by simp
  then show ?thesis using Some d'(1) by simp
qed simp

lemma clear_visited_tables:
  "f_endid_info (clear_visited f) = f_endid_info f" "f_eager_output_info (clear_visited f) = f_eager_output_info f"
  "st \<in> set (f_states (clear_visited f)) \<Longrightarrow> \<not> st_visited st"
  by (auto simp: clear_visited_def)

lemma fsm_trim_wp:
  assumes inv: "fsm_inv f" "meta_ok f" and fresh: "\<forall>st \<in> set (f_states f). \<not> st_visited st"
  shows "wp (fsm_trim [] f mode want) (\<lambda>(ret, sed, f', al'). al' = [] \<and> fsm_inv f' \<and>
    fsm_nfa f' = compact_nfa (trim_keep f mode) (fsm_nfa f) \<and> statecount f' = rank (trim_keep f mode) (statecount f) \<and>
    ret = (if statecount f = 0 then 1 else int (statecount f - statecount f')) \<and> (\<forall>st \<in> set (f_states f'). \<not> st_visited st) \<and>
    (\<forall>s. trim_keep f mode s \<longrightarrow>
       endid_ids (f_endid_info f') (rank (trim_keep f mode) s) = endid_ids (f_endid_info f) s \<and>
       eager_ids (f_eager_output_info f') (rank (trim_keep f mode) s) = eager_ids (f_eager_output_info f) s) \<and>
    (sed \<noteq> None \<longleftrightarrow> want \<and> mode = FSM_TRIM_START_AND_END_REACHABLE \<and> 0 < statecount f) \<and>
    (\<forall>d s. sed = Some d \<longrightarrow> trim_keep f mode s \<longrightarrow>
       end_distance f' (rank (trim_keep f mode) s) (d ! rank (trim_keep f mode) s)))"
proof (cases "statecount f = 0")
  case True
  then have "n_start (fsm_nfa f) = None" using inv(1) by (simp add: fsm_inv_def fsm_nfa_def)
  moreover have "\<not> n_step (fsm_nfa f) s l t" "\<not> n_end (fsm_nfa f) s" for s l t
    using True fsm_step_bounds [OF inv(1)] by (auto simp: fsm_nfa_def)
  ultimately have "fsm_nfa f = compact_nfa (trim_keep f mode) (fsm_nfa f)" "\<not> trim_keep f mode s" for s
    by (cases "fsm_nfa f", auto simp: compact_nfa_def trim_keep_def fun_eq_iff)+
  then show ?thesis using True inv by (simp add: fsm_trim_def rank_def)
next
  case False
  let ?wanted = "want \<and> mode = FSM_TRIM_START_AND_END_REACHABLE" and ?k = "trim_keep f mode"
  define sed0 where "sed0 = (if ?wanted then Some (replicate (statecount f) NO_END_DISTANCE) else None)"
  have "sed0 = None \<or> mode = FSM_TRIM_START_AND_END_REACHABLE \<and> sed0 = Some (replicate (statecount f) NO_END_DISTANCE)"
    and sed0: "sed0 = None \<longleftrightarrow> \<not> ?wanted" by (auto simp: sed0_def)
  from mark_states_wp [OF inv(1) fresh _ this(1)] False
  obtain vis sed where mark: "mark_states [] f mode sed0 = Some (True, vis, sed, [])"
    and res: "mark_result f mode vis sed" and sed: "sed = None \<longleftrightarrow> \<not> ?wanted"
    unfolding sed0 by (auto simp: wp_iff_ex)
  have len: "length vis = statecount f" and V: "vset vis = {s. ?k s}" using res by (auto simp: mark_result_def)
  obtain ret f' where sweep: "sweep_states [] (set_visited f vis) = Some (ret, f', [])" and inv': "fsm_inv f'"
    and nfa: "fsm_nfa f' = compact_nfa ?k (fsm_nfa f)" and n': "statecount f' = rank ?k (statecount f)" and ret: "ret = int (statecount f - statecount f')"
    and ids: "\<forall>s. ?k s \<longrightarrow> endid_ids (f_endid_info f') (rank ?k s) = endid_ids (f_endid_info f) s \<and>
       eager_ids (f_eager_output_info f') (rank ?k s) = eager_ids (f_eager_output_info f) s"
    using sweep_states_wp [OF inv len V] by (auto simp: wp_iff_ex)
  obtain sed' where comp: "(case sed of None \<Rightarrow> Some None | Some d \<Rightarrow> do { d \<leftarrow> compact_shortest_end_distance vis 0 0 d; Some (Some d) }) = Some sed'"
    and sed': "sed' = None \<longleftrightarrow> sed = None" "\<forall>d s. sed' = Some d \<longrightarrow> ?k s \<longrightarrow> end_distance f s (d ! rank ?k s)"
    using compacted_distances [OF res] unfolding wp_iff_ex by blast
  have run: "fsm_trim [] f mode want = Some (ret, sed', clear_visited f', [])"
    using False mark comp sweep ret by (cases ?wanted) (auto simp: fsm_trim_def Let_def sed0_def)
  have clear: "end_distance (clear_visited f') s d = end_distance f' s d" for s d
  proof -
    have "fsm_edge_rel (clear_visited f') = fsm_edge_rel f'" by (simp add: fun_eq_iff edge_rel_nfa)
    then show ?thesis by (simp add: end_distance_def)
  qed
  show ?thesis
    unfolding run wp_Some prod.case using False inv' nfa n' ret ids sed sed' trimmed_distance [OF nfa]
    by (auto simp: clear clear_visited_tables)
qed


section \<open>Flags set beforehand\<close>

text \<open>
  Where every flag is already set, nothing but the start is put into the queue, and only the
  start is left, or not even the start unless it is an end.
\<close>

lemma mark_body_marked:
  assumes inv: "fsm_inv f" and q: "queue_inv q" "queue_items q = [s]" "statecount f \<le> q_capacity q" and s: "s < statecount f"
    and vis: "length vis = statecount f" "vset vis = {..<statecount f}"
  obtains q' vis' c es c' xs where
    "c_loop (mark_body f) (q, vis, Some (c0, []), Some (c1, []), []) = Some (True, q', vis', Some (c, es), Some (c', xs), [])"
    "queue_inv q'" "queue_items q' = []" "statecount f \<le> q_capacity q'" "edge_pairs es = {(p, t). p = s \<and> fsm_edge_rel f p t}"
    "distinct xs" "set xs = (if n_end (fsm_nfa f) s then {s} else {})"
proof -
  let ?S = "{t. fsm_edge_rel f s t}"
  have ready: "qwl.ready q vis" using q s vis by (simp add: qwl.ready_def)
  have d: "distinct (queue_items q)" using q(2) by simp
  obtain q0 where pop: "queue_pop q = Some (Some s, q0)"
    by (rule wpE2 [OF queue_pop_wp [OF q(1)]]) (use q(2) in \<open>auto split: option.splits\<close>)
  note q0 = qwl.pop_Some [OF q(1) d pop]
  have ready0: "qwl.ready q0 vis" using ready q0 s vis q(2) by (auto simp: qwl.ready_def)
  have S: "?S \<subseteq> vset vis" using successors_bound [OF inv] vis(2) by auto
  obtain q1 vis1 e1 q2 vis2 e2 ts where
    run: "c_for (mark_edge s) (state_set_drain (state_set_reset (st_epsilons (f_states f ! s)))) (q0, vis, Some (c0, []), []) = Some (True, q1, vis1, e1, [])"
      "c_for (mark_edge s) (map gi_to (edge_group_drain (st_edges (f_states f ! s)))) (q1, vis1, e1, []) = Some (True, q2, vis2, e2, [])"
    and r2: "qwl.ready q2 vis2" "length vis2 = length vis" "vset vis2 = vset vis \<union> ?S" "set (queue_items q2) = set (queue_items q0) \<union> (?S - vset vis)"
    and ts: "set ts = ?S" "map_option snd e2 = map_option (\<lambda>es. snd es @ map (\<lambda>t. \<lparr>te_from = s, te_to = t\<rparr>) ts) (Some (c0, []))"
    by (rule mark_successors [OF inv s ready0 vis(1), of "Some (c0, [])"]) blast
  have "case e2 of None \<Rightarrow> \<not> True | Some (_, es) \<Rightarrow> True \<and> edge_pairs es = {(p, t). p \<in> insert s {} \<and> fsm_edge_rel f p t}"
    by (rule saved_edges [where E = "fsm_edge_rel f" and edges = "Some (c0, [])", OF _ ts(2,1)]) (simp add: edge_pairs_def)
  then obtain c es where e2: "e2 = Some (c, es)" "edge_pairs es = {(p, t). p = s \<and> fsm_edge_rel f p t}" by (auto split: option.splits)
  define x0 :: "fsm_state_t vec option" where "x0 = Some (c1, [])"
  obtain x2 where run3: "(case x0 of None \<Rightarrow> Some (True, None, [])
      | Some es \<Rightarrow> do { e \<leftarrow> fsm_isend f s; if \<not> e then Some (True, Some es, [])
          else (let (ok, es, al) = save_end [] es s in Some (ok, Some es, al)) }) = Some (True, x2, [])"
    and x2: "case x2 of None \<Rightarrow> \<not> True | Some (_, xs) \<Rightarrow> True \<and> distinct xs \<and> set xs = {p \<in> insert s {}. n_end (fsm_nfa f) p}"
    using saved_end [where ends = x0 and both = True and P = "{}" and f = f and s = s] s unfolding x0_def by auto
  obtain c' xs where xs: "x2 = Some (c', xs)" "distinct xs" "set xs = {p. p = s \<and> n_end (fsm_nfa f) p}" using x2 by (auto split: option.splits)
  have q0e: "set (queue_items q0) = {}" using q0(4) q(2) by simp
  have "set (queue_items q2) = {}" unfolding r2(4) q0e Diff_eq_empty_iff [THEN iffD2, OF S] by simp
  then have empty: "queue_items q2 = []" by simp
  have "vis ! s" using s vis by (auto simp: vset_def set_eq_iff)
  then have body: "mark_body f (q, vis, Some (c0, []), x0, []) = Some (Inl (q2, vis2, e2, x2, []))"
    using pop s vis(1) run3 by (simp add: mark_body_def c_assert_def c_nth_def run)
  have qi: "queue_inv q2" "statecount f \<le> q_capacity q2" using r2(1,2) vis(1) by (auto simp: qwl.ready_def)
  have "queue_pop q2 = Some (None, q2)"
    by (rule wpE2 [OF queue_pop_wp [OF qi(1)]]) (use empty in \<open>auto split: option.splits\<close>)
  then have "mark_body f (q2, vis2, e2, x2, []) = Some (Inr (True, q2, vis2, e2, x2, []))" by (simp add: mark_body_def)
  then have "c_loop (mark_body f) (q, vis, Some (c0, []), x0, []) = Some (True, q2, vis2, e2, x2, [])"
    by (subst c_loop.simps, subst body, simp, subst c_loop.simps, simp)
  then show ?thesis unfolding x0_def e2(1) xs(1) using e2(2) xs(2,3) qi empty by (intro that) (assumption | auto)+
qed

lemma mark_states_marked:
  assumes inv: "fsm_inv f" and start: "n_start (fsm_nfa f) = Some a" and marked: "\<forall>st \<in> set (f_states f). st_visited st"
  shows "wp (mark_states [] f FSM_TRIM_START_AND_END_REACHABLE None) (\<lambda>(ok, vis', sed', al'). ok \<and> al' = [] \<and> sed' = None \<and>
    length vis' = statecount f \<and> vset vis' = {s. s = a \<and> n_end (fsm_nfa f) a})"
proof -
  let ?n = "statecount f" and ?vis = "map st_visited (f_states f)"
  have a: "a < ?n" using inv start by (auto simp: fsm_inv_def fsm_nfa_def split: if_splits)
  then have n: "?n > 0" by linarith
  have n24: "?n + 1 < NO_END_DISTANCE" using inv by (simp add: fsm_inv_def edge_state_limit_def NO_END_DISTANCE_def)
  have V: "vset (?vis[a := True]) = {..<?n}" using marked a by (auto simp: vset_def nth_list_update set_eq_iff)
  obtain q where q: "queue_new [] ?n = (Some q, [])" "queue_inv q" "queue_items q = []" "q_capacity q = ?n"
    using queue_new_wp [of ?n "[]"] n by (auto split: prod.splits option.splits)
  obtain q1 where push: "queue_push q a = Some (True, q1)" and q1: "queue_inv q1" "q_capacity q1 = ?n" "queue_items q1 = [a]"
    using queue_push_wp [OF q(2), of a] q(3,4) n by (auto elim!: wpE2)
  obtain q2 vis2 c es c' xs where loop: "c_loop (mark_body f) (q1, ?vis[a := True], Some (DEF_EDGES_CEIL, []), Some (DEF_ENDS_CEIL, []), []) =
      Some (True, q2, vis2, Some (c, es), Some (c', xs), [])"
    and q2: "queue_inv q2" "queue_items q2 = []" "?n \<le> q_capacity q2" and es: "edge_pairs es = {(p, t). p = a \<and> fsm_edge_rel f p t}"
    and xs: "distinct xs" "set xs = (if n_end (fsm_nfa f) a then {a} else {})"
    by (rule mark_body_marked [OF inv q1(1,3) _ a _ V]) (use q1(2) in auto)
  have run: "mark_states [] f FSM_TRIM_START_AND_END_REACHABLE None = mark_ends [] f q2 es xs None"
    using start a q(1) push loop inv by (simp add: mark_states_def fsm_getstart_wp c_assert_def Let_def)
  have 1: "edge_pairs es \<subseteq> {..<?n} \<times> {..<?n}" using successors_bound [OF inv] a by (auto simp: es)
  have 2: "set xs \<subseteq> {..<?n}" using a by (simp add: xs)
  have only: "v = a" if "(v, a) \<in> (edge_pairs es)\<^sup>*" for v
    using that by (rule converse_rtranclE) (auto simp: es)
  have "{v. \<exists>s \<in> set xs. (v, s) \<in> (edge_pairs es)\<^sup>*} = {s. s = a \<and> n_end (fsm_nfa f) a}" using only by (auto simp: xs)
  then show ?thesis
    unfolding run
    by (intro wp_mono [OF mark_ends_wp [OF refl n24 q2(1,2,3) 1 xs(1) 2, of None]]) (auto simp: back_result_def)
qed

lemma fsm_trim_marked:
  assumes inv: "fsm_inv f" "meta_ok f" and start: "n_start (fsm_nfa f) = Some a" and marked: "\<forall>st \<in> set (f_states f). st_visited st"
  shows "wp (fsm_trim [] f FSM_TRIM_START_AND_END_REACHABLE False) (\<lambda>(ret, sed, f', al'). al' = [] \<and> sed = None \<and> fsm_inv f' \<and>
    statecount f' = (if n_end (fsm_nfa f) a then 1 else 0))"
proof -
  have a: "a < statecount f" using inv(1) start by (auto simp: fsm_inv_def fsm_nfa_def split: if_splits)
  obtain vis where mark: "mark_states [] f FSM_TRIM_START_AND_END_REACHABLE None = Some (True, vis, None, [])"
    and vis: "length vis = statecount f" "vset vis = {s. s = a \<and> n_end (fsm_nfa f) a}"
    using mark_states_marked [OF inv(1) start marked] by (auto simp: wp_iff_ex)
  note sel = set_visited_sel [OF vis(1)]
  have k: "vis ! s \<longleftrightarrow> s = a \<and> n_end (fsm_nfa f) a" if "s < statecount f" for s using vis that by (auto simp: vset_def set_eq_iff)
  have "set (filter (\<lambda>i. vis ! i) [0..<statecount f]) = (if n_end (fsm_nfa f) a then {a} else {})" using k a by auto
  then have "card (set (filter (\<lambda>i. vis ! i) [0..<statecount f])) = (if n_end (fsm_nfa f) a then 1 else 0)" by simp
  then have rank: "rank (\<lambda>i. vis ! i) (statecount f) = (if n_end (fsm_nfa f) a then 1 else 0)"
    unfolding rank_def by (subst distinct_card [symmetric]) simp_all
  obtain ret f' where sweep: "sweep_states [] (set_visited f vis) = Some (ret, f', [])" and f': "fsm_inv f'"
      "statecount f' = rank (\<lambda>i. vis ! i) (statecount f)" "ret \<ge> 0"
    using fsm_compact_states_wp [of "set_visited f vis" "\<lambda>i. vis ! i"] inv sel by (auto simp: sweep_states_def wp_iff_ex)
  have "fsm_trim [] f FSM_TRIM_START_AND_END_REACHABLE False = Some (ret, None, clear_visited f', [])"
    using a mark sweep f'(3) by (auto simp: fsm_trim_def Let_def)
  then show ?thesis using f' rank by simp
qed


section \<open>Vacuuming\<close>

lemma vacuum_ceil_bounds:
  assumes "n \<le> c"
  shows "n \<le> vacuum_ceil n c \<and> vacuum_ceil n c \<le> c \<and> (0 < c \<longrightarrow> 0 < vacuum_ceil n c) \<and> (vacuum_ceil n c div 2 \<le> n \<or> vacuum_ceil n c \<le> 1)"
  using assms
proof (induction n c rule: vacuum_ceil.induct)
  case (1 n c)
  show ?case
  proof (cases "n < c div 2 \<and> c > 1")
    case True
    then have "vacuum_ceil n c = vacuum_ceil n (c div 2)" by (subst vacuum_ceil.simps) simp
    then show ?thesis using 1 True by fastforce
  next
    case False
    then have "vacuum_ceil n c = c" by (subst vacuum_ceil.simps) auto
    then show ?thesis using 1 False by auto
  qed
qed

lemma fsm_vacuum_wp:
  assumes "fsm_inv f"
  shows "wp (fsm_vacuum al f) (\<lambda>(ok, f', al'). fsm_inv f' \<and> f_states f' = f_states f \<and> fsm_nfa f' = fsm_nfa f \<and> fsm_meta f' = fsm_meta f \<and>
    statealloc f' \<le> statealloc f \<and> (ok \<longrightarrow> statealloc f' \<le> 2 * statecount f + 1) \<and> (al = [] \<longrightarrow> ok \<and> al' = []))"
proof -
  let ?c = "vacuum_ceil (statecount f) (statealloc f)"
  have le: "statecount f \<le> statealloc f" by (simp add: statealloc_def)
  have c: "statecount f \<le> ?c" "?c \<le> statealloc f" "0 < statealloc f \<Longrightarrow> 0 < ?c" "?c div 2 \<le> statecount f \<or> ?c \<le> 1"
    using vacuum_ceil_bounds [OF le] by auto
  have two: "?c \<le> 2 * statecount f + 1" using c(4) by auto
  let ?f = "f\<lparr>f_spare := take (?c - statecount f) (f_spare f)\<rparr>"
  have alloc: "statealloc ?f = ?c" using c(1,2) by (simp add: statealloc_def)
  have "0 < statealloc f" using assms by (simp add: fsm_inv_def)
  then have "fsm_inv ?f" using assms c(3) alloc by (simp add: fsm_inv_def)
  moreover have "fsm_nfa ?f = fsm_nfa f" "fsm_meta ?f = fsm_meta f" by (simp_all add: fsm_nfa_def fsm_step_def fsm_meta_def)
  ultimately show ?thesis
    using le two alloc c(2) assms by (cases al) (auto simp: fsm_vacuum_def c_assert_def Let_def split: prod.splits)
qed

end
