(* ===== verification/Fsm_Walk2.thy ===== *)
theory Fsm_Walk2
  imports Fsm_Combine Fsm_Exec "HOL-Library.Product_Lexorder" "HOL-Library.Option_ord"
begin

unbundle bit_operations_syntax

text \<open>
  Walking two deterministic automata together, \<open>src/libfsm/walk2.c\<close>, with the ordered sets of
  \<open>src/adt/set.inc\<close> and \<open>src/adt/tupleset.c\<close> that remember the pairs of states. The result is an
  automaton over the pairs reached, in which one of the two states may be absent; two masks say which
  edges are followed and which pairs are end states. With the masks of \<open>intersect.c\<close> and \<open>subtract.c\<close>
  the language is the intersection and the difference.
\<close>

section \<open>Ordered sets\<close>

text \<open>
  The array with the items in use, and its capacity, which a write must not pass. The items are
  ordered by a comparison function, which may fail an assertion.
\<close>

record 'i item_set =
  is_a :: "'i list"
  is_n :: nat

definition ITEM_SET_INITIAL :: nat where "ITEM_SET_INITIAL = 8"

definition set_search :: "('i \<Rightarrow> 'i \<Rightarrow> int option) \<Rightarrow> 'i item_set \<Rightarrow> 'i \<Rightarrow> nat option" where
  "set_search cmp S item =
     c_loop (\<lambda>(start, end, mid).
       if start < end then
         (let mid = start + (end - start) div 2 in
          do { x \<leftarrow> c_nth (is_a S) mid;
               r \<leftarrow> cmp item x;
               Some (if r < 0 then Inl (start, mid, mid) else if r > 0 then Inl (mid + 1, end, mid) else Inr mid) })
       else Some (Inr mid)) (0, length (is_a S), 0)"

definition set_contains :: "('i \<Rightarrow> 'i \<Rightarrow> int option) \<Rightarrow> 'i item_set \<Rightarrow> 'i \<Rightarrow> 'i option option" where
  "set_contains cmp S item =
     (if is_a S = [] then Some None
      else do { i \<leftarrow> set_search cmp S item;
                x \<leftarrow> c_nth (is_a S) i;
                r \<leftarrow> cmp item x;
                Some (if r = 0 then Some x else None) })"

definition set_create :: "alloc \<Rightarrow> 'i item_set option \<times> alloc" where
  "set_create al =
     (let (ok, al) = f_malloc al in
      if \<not> ok then (None, al)
      else let (ok, al) = f_malloc al in
      if \<not> ok then (None, al) else (Some \<lparr>is_a = [], is_n = ITEM_SET_INITIAL\<rparr>, al))"

definition set_grow :: "alloc \<Rightarrow> 'i item_set \<Rightarrow> bool \<times> nat \<times> alloc" where
  "set_grow al S = (if length (is_a S) = is_n S then let (ok, al) = f_realloc al in (ok, is_n S * 2, al) else (True, is_n S, al))"

definition set_add :: "('i \<Rightarrow> 'i \<Rightarrow> int option) \<Rightarrow> alloc \<Rightarrow> 'i item_set \<Rightarrow> 'i \<Rightarrow> (bool \<times> 'i item_set \<times> alloc) option" where
  "set_add cmp al S item =
     do { (found, i) \<leftarrow>
            (if is_a S = [] then Some (False, 0)
             else do { i \<leftarrow> set_search cmp S item;
                       x \<leftarrow> c_nth (is_a S) i;
                       r \<leftarrow> cmp item x;
                       Some (r = 0, i) });
          if found then Some (True, S, al)
          else do {
            (ok, S, al) \<leftarrow>
              (if is_a S = [] then do { c_assert (0 < is_n S); Some (True, S\<lparr>is_a := [item]\<rparr>, al) }
               else
                 let (ok, n, al) = set_grow al S in
                 if \<not> ok then Some (False, S, al)
                 else do {
                   c_assert (length (is_a S) < n);
                   x \<leftarrow> c_nth (is_a S) i;
                   r \<leftarrow> cmp item x;
                   let i = (if r > 0 then i + 1 else i);
                   Some (True, \<lparr>is_a = take i (is_a S) @ item # drop i (is_a S), is_n = n\<rparr>, al) });
            if \<not> ok then Some (False, S, al)
            else do { r \<leftarrow> set_contains cmp S item; c_assert (r \<noteq> None); Some (True, S, al) } } }"

section \<open>Tuples\<close>

text \<open>\<open>have_a\<close> and \<open>a\<close> of the struct are an optional state, and the same for \<open>b\<close>.\<close>

record fsm_walk2_tuple =
  wt_a :: "fsm_state_t option"
  wt_b :: "fsm_state_t option"
  wt_comb :: fsm_state_t

definition cmp_half :: "fsm_state_t option \<Rightarrow> fsm_state_t option \<Rightarrow> int" where
  "cmp_half x y =
     (case (x, y) of
        (Some s, Some t) \<Rightarrow> of_bool (s > t) - of_bool (s < t)
      | (None, None) \<Rightarrow> 0
      | (Some s, None) \<Rightarrow> 1
      | (None, Some t) \<Rightarrow> - 1)"

definition cmp_walk2_tuple :: "fsm_walk2_tuple \<Rightarrow> fsm_walk2_tuple \<Rightarrow> int option" where
  "cmp_walk2_tuple pa pb =
     do { c_assert (wt_a pa \<noteq> None \<or> wt_b pa \<noteq> None);
          c_assert (wt_a pb \<noteq> None \<or> wt_b pb \<noteq> None);
          let delta = cmp_half (wt_a pa) (wt_a pb);
          Some (if delta \<noteq> 0 then delta else cmp_half (wt_b pa) (wt_b pb)) }"

abbreviation tuple_set_create :: "alloc \<Rightarrow> fsm_walk2_tuple item_set option \<times> alloc" where
  "tuple_set_create \<equiv> set_create"

definition tuple_set_contains :: "fsm_walk2_tuple item_set \<Rightarrow> fsm_walk2_tuple \<Rightarrow> fsm_walk2_tuple option option" where
  "tuple_set_contains S item = set_contains cmp_walk2_tuple S item"

definition tuple_set_add :: "alloc \<Rightarrow> fsm_walk2_tuple item_set \<Rightarrow> fsm_walk2_tuple \<Rightarrow> (bool \<times> fsm_walk2_tuple item_set \<times> alloc) option" where
  "tuple_set_add al S item = set_add cmp_walk2_tuple al S item"

section \<open>The walk\<close>

text \<open>
  The number of tuples in use of the newest pool, if there is one, the automaton that is built,
  the tuples, and the two masks of four bits.
\<close>

type_synonym mask4 = "4 word"

record fsm_walk2_data =
  w2_top :: "nat option"
  w2_new :: fsm
  w2_states :: "fsm_walk2_tuple item_set"
  w2_endmask :: mask4
  w2_edgemask :: mask4

definition FSM_WALK2_NEITHER :: "32 word" where "FSM_WALK2_NEITHER = 1"
definition FSM_WALK2_ONLYB :: "32 word" where "FSM_WALK2_ONLYB = 2"
definition FSM_WALK2_ONLYA :: "32 word" where "FSM_WALK2_ONLYA = 4"
definition FSM_WALK2_BOTH :: "32 word" where "FSM_WALK2_BOTH = 8"

definition FSM_WALK2_TUPLE_POOL_SIZE :: nat where "FSM_WALK2_TUPLE_POOL_SIZE = 1024"

definition alloc_walk2_tuple :: "alloc \<Rightarrow> fsm_walk2_data \<Rightarrow> bool \<times> fsm_walk2_data \<times> alloc" where
  "alloc_walk2_tuple al d =
     (case w2_top d of
        Some k \<Rightarrow>
          if k \<ge> FSM_WALK2_TUPLE_POOL_SIZE then
            let (ok, al) = f_malloc al in (ok, if ok then d\<lparr>w2_top := Some 1\<rparr> else d, al)
          else (True, d\<lparr>w2_top := Some (k + 1)\<rparr>, al)
      | None \<Rightarrow> let (ok, al) = f_malloc al in (ok, if ok then d\<lparr>w2_top := Some 1\<rparr> else d, al))"

definition walk2mask :: "bool \<Rightarrow> bool \<Rightarrow> 32 word" where
  "walk2mask has_a has_b =
     (if has_a then (if has_b then FSM_WALK2_BOTH else FSM_WALK2_ONLYA)
      else (if has_b then FSM_WALK2_ONLYB else FSM_WALK2_NEITHER))"

definition in_mask :: "mask4 \<Rightarrow> 32 word \<Rightarrow> bool" where
  "in_mask m k \<longleftrightarrow> (ucast m :: 32 word) AND k \<noteq> 0"

definition walk2_comb_state :: "alloc \<Rightarrow> fsm \<Rightarrow> bool \<Rightarrow> (fsm_state_t option \<times> fsm \<times> alloc) option" where
  "walk2_comb_state al dst is_end =
     do { (r, dst, al) \<leftarrow> fsm_addstate al dst;
          case r of
            None \<Rightarrow> Some (None, dst, al)
          | Some comb \<Rightarrow>
              if \<not> is_end then Some (Some comb, dst, al)
              else do { dst \<leftarrow> fsm_setend dst comb 1; Some (Some comb, dst, al) } }"

definition walk2_isend :: "fsm \<Rightarrow> fsm_state_t option \<Rightarrow> bool option" where
  "walk2_isend f q = (case q of None \<Rightarrow> Some False | Some s \<Rightarrow> fsm_isend f s)"

definition walk2_count :: "fsm \<Rightarrow> fsm_state_t option \<Rightarrow> nat option" where
  "walk2_count f q =
     (case q of
        None \<Rightarrow> Some 0
      | Some s \<Rightarrow> do { e \<leftarrow> fsm_isend f s; if e then fsm_endid_count (f_endid_info f) s else Some 0 })"

definition walk2_get :: "fsm \<Rightarrow> fsm_state_t option \<Rightarrow> nat \<Rightarrow> fsm_end_id_t list option" where
  "walk2_get f q n =
     (if n = 0 then Some []
      else case q of
        None \<Rightarrow> Some []
      | Some s \<Rightarrow> do { (ok, ids) \<leftarrow> fsm_endid_get (f_endid_info f) s n; c_assert ok; Some ids })"

definition walk2_end_ids ::
  "alloc \<Rightarrow> fsm \<Rightarrow> fsm_state_t option \<Rightarrow> fsm \<Rightarrow> fsm_state_t option \<Rightarrow> fsm \<Rightarrow> fsm_state_t \<Rightarrow> (bool \<times> fsm \<times> alloc) option" where
  "walk2_end_ids al a qa b qb new comb =
     do { count_a \<leftarrow> walk2_count a qa;
          count_b \<leftarrow> walk2_count b qb;
          if count_a + count_b = 0 then Some (True, new, al)
          else
            let (ok, al) = f_malloc al in
            if \<not> ok then Some (False, new, al)
            else do {
              ids_a \<leftarrow> walk2_get a qa count_a;
              ids_b \<leftarrow> walk2_get b qb count_b;
              (ok, ei, al) \<leftarrow> fsm_endid_set_bulk al (f_endid_info new) comb (ids_a @ ids_b) FSM_ENDID_BULK_REPLACE;
              Some (ok, new\<lparr>f_endid_info := ei\<rparr>, al) } }"

definition fsm_walk2_tuple_new ::
  "alloc \<Rightarrow> fsm_walk2_data \<Rightarrow> fsm \<Rightarrow> fsm_state_t option \<Rightarrow> fsm \<Rightarrow> fsm_state_t option \<Rightarrow>
   (fsm_walk2_tuple option \<times> fsm_walk2_data \<times> alloc) option" where
  "fsm_walk2_tuple_new al d a qa b qb =
     do { c_assert (qa \<noteq> None \<or> qb \<noteq> None);
          q \<leftarrow> tuple_set_contains (w2_states d) \<lparr>wt_a = qa, wt_b = qb, wt_comb = 0\<rparr>;
          case q of
            Some q \<Rightarrow> Some (Some q, d, al)
          | None \<Rightarrow>
              let (ok, d, al) = alloc_walk2_tuple al d in
              if \<not> ok then Some (None, d, al)
              else do {
                ea \<leftarrow> walk2_isend a qa;
                eb \<leftarrow> walk2_isend b qb;
                let is_end = in_mask (w2_endmask d) (walk2mask ea eb);
                (r, new, al) \<leftarrow> walk2_comb_state al (w2_new d) is_end;
                let d = d\<lparr>w2_new := new\<rparr>;
                case r of
                  None \<Rightarrow> Some (None, d, al)
                | Some comb \<Rightarrow>
                    do { (ok, new, al) \<leftarrow> (if is_end then walk2_end_ids al a qa b qb (w2_new d) comb else Some (True, w2_new d, al));
                         let d = d\<lparr>w2_new := new\<rparr>;
                         if \<not> ok then Some (None, d, al)
                         else do {
                           st \<leftarrow> c_nth (f_states (w2_new d)) comb;
                           c_assert (\<not> st_visited st);
                           let p = \<lparr>wt_a = qa, wt_b = qb, wt_comb = comb\<rparr>;
                           (ok, S, al) \<leftarrow> tuple_set_add al (w2_states d) p;
                           Some (if ok then Some p else None, d\<lparr>w2_states := S\<rparr>, al) } } } }"

text \<open>
  The loop over all symbols that adds an edge of the combined state \<open>qc\<close> where there is one, and
  visits its target with \<open>visit\<close>. \<open>nxt\<close> says where the edge leads.
\<close>

definition walk2_follow ::
  "(fsm_walk2_tuple \<Rightarrow> fsm_walk2_data \<times> alloc \<Rightarrow> (bool \<times> fsm_walk2_data \<times> alloc) option) \<Rightarrow> fsm_state_t \<Rightarrow> octet \<Rightarrow>
   fsm_walk2_tuple option \<times> fsm_walk2_data \<times> alloc \<Rightarrow> (bool \<times> fsm_walk2_data \<times> alloc) option" where
  "walk2_follow visit qc c = (\<lambda>(dst, d, al).
     case dst of
       None \<Rightarrow> Some (False, d, al)
     | Some dst \<Rightarrow>
         do { c_assert (wt_comb dst < statecount (w2_new d));
              (ok, new, al) \<leftarrow> fsm_addedge_literal al (w2_new d) qc (wt_comb dst) c;
              let d = d\<lparr>w2_new := new\<rparr>;
              if \<not> ok then Some (False, d, al)
              else if st_visited (f_states (w2_new d) ! wt_comb dst) then Some (True, d, al)
              else visit dst (d, al) })"

definition walk2_loop ::
  "(fsm_walk2_tuple \<Rightarrow> fsm_walk2_data \<times> alloc \<Rightarrow> (bool \<times> fsm_walk2_data \<times> alloc) option) \<Rightarrow> fsm \<Rightarrow> fsm \<Rightarrow> fsm_state_t \<Rightarrow>
   (octet \<Rightarrow> (fsm_state_t option \<times> fsm_state_t option) option) \<Rightarrow> fsm_walk2_data \<times> alloc \<Rightarrow> (bool \<times> fsm_walk2_data \<times> alloc) option" where
  "walk2_loop visit a b qc nxt =
     c_for (\<lambda>i s.
       case nxt (of_nat i) of
         None \<Rightarrow> Some (True, s)
       | Some e \<Rightarrow>
           do { r \<leftarrow> fsm_walk2_tuple_new (snd s) (fst s) a (fst e) b (snd e); walk2_follow visit qc (of_nat i) r }) [0..<256]"

definition walk2_edges_of :: "fsm \<Rightarrow> fsm_state_t option \<Rightarrow> octet \<Rightarrow> fsm_state_t option" where
  "walk2_edges_of f q c = (case q of None \<Rightarrow> None | Some s \<Rightarrow> edge_set_transition (st_edges (f_states f ! s)) c)"

text \<open>Edges of both, and of \<open>a\<close> alone.\<close>

definition walk2_next_a :: "mask4 \<Rightarrow> fsm \<Rightarrow> fsm \<Rightarrow> fsm_state_t option \<Rightarrow> fsm_state_t option \<Rightarrow> octet \<Rightarrow> (fsm_state_t option \<times> fsm_state_t option) option" where
  "walk2_next_a edgemask a b qa qb c =
     (case walk2_edges_of a qa c of
        None \<Rightarrow> None
      | Some eas \<Rightarrow>
          (let ebs = walk2_edges_of b qb c in
           if ebs = None \<and> \<not> in_mask edgemask FSM_WALK2_ONLYA then None else Some (Some eas, ebs)))"

text \<open>Edges of \<open>b\<close> alone.\<close>

definition walk2_next_b :: "fsm \<Rightarrow> fsm \<Rightarrow> fsm_state_t option \<Rightarrow> fsm_state_t option \<Rightarrow> octet \<Rightarrow> (fsm_state_t option \<times> fsm_state_t option) option" where
  "walk2_next_b a b qa qb c =
     (case walk2_edges_of b qb c of
        None \<Rightarrow> None
      | Some ebs \<Rightarrow>
          (if (case qa of None \<Rightarrow> False | Some s \<Rightarrow> edge_set_contains (st_edges (f_states a ! s)) c) then None
           else Some (None, Some ebs)))"

lemma c_for_mono [partial_function_mono]:
  assumes "\<And>x s. mono_option (\<lambda>f. g f x s)"
  shows "mono_option (\<lambda>f. c_for (g f) xs s)"
proof (induction xs arbitrary: s)
  case (Cons x xs)
  have "mono_option (\<lambda>f. case y of (ok, s') \<Rightarrow> if ok then c_for (g f) xs s' else Some (False, s'))" for y
  proof (cases y)
    case (Pair ok s')
    show ?thesis by (cases ok) (simp_all add: Pair Cons option.const_mono)
  qed
  then show ?case unfolding c_for.simps by (intro bind_mono assms)
qed (simp add: option.const_mono)

lemma walk2_follow_mono:
  assumes "\<And>dst s. mono_option (\<lambda>f. visit f dst s)"
  shows "mono_option (\<lambda>f. walk2_follow (visit f) qc c r)"
proof -
  obtain dst d al where r: "r = (dst, d, al)" by (cases r)
  have "mono_option (\<lambda>f. case y of (ok, new, al) \<Rightarrow> (let d = d\<lparr>w2_new := new\<rparr> in
      if \<not> ok then Some (False, d, al) else if st_visited (f_states (w2_new d) ! wt_comb t) then Some (True, d, al) else visit f t (d, al)))" for y t
    by (cases y) (simp add: Let_def assms option.const_mono if_mono)
  then show ?thesis
    by (cases dst) (auto simp: r walk2_follow_def option.const_mono intro!: bind_mono)
qed

lemma walk2_loop_mono [partial_function_mono]:
  assumes "\<And>dst s. mono_option (\<lambda>f. visit f dst s)"
  shows "mono_option (\<lambda>f. walk2_loop (visit f) a b qc nxt s)"
  unfolding walk2_loop_def
proof (rule c_for_mono)
  fix i s
  show "mono_option (\<lambda>f. case nxt (of_nat i) of None \<Rightarrow> Some (True, s)
      | Some e \<Rightarrow> do { r \<leftarrow> fsm_walk2_tuple_new (snd s) (fst s) a (fst e) b (snd e); walk2_follow (visit f) qc (of_nat i) r })"
    by (cases "nxt (of_nat i)") (auto intro!: bind_mono walk2_follow_mono assms simp: option.const_mono)
qed

partial_function (option) fsm_walk2_edges ::
  "fsm \<times> fsm \<times> fsm_walk2_tuple \<times> fsm_walk2_data \<times> alloc \<Rightarrow> (bool \<times> fsm_walk2_data \<times> alloc) option" where
  [code]: "fsm_walk2_edges x =
     (case x of (a, b, start, d, al) \<Rightarrow>
        let qa = wt_a start; qb = wt_b start; qc = wt_comb start; edgemask = w2_edgemask d in
        do { c_assert (qa \<noteq> None \<or> qb \<noteq> None);
             c_assert (case qa of None \<Rightarrow> True | Some q \<Rightarrow> q < statecount a);
             c_assert (case qb of None \<Rightarrow> True | Some q \<Rightarrow> q < statecount b);
             c_assert (qc < statecount (w2_new d));
             if st_visited (f_states (w2_new d) ! qc) then Some (True, d, al)
             else
               let d = d\<lparr>w2_new := upd_state (w2_new d) qc (\<lambda>st. st\<lparr>st_visited := True\<rparr>)\<rparr> in
               if qb = None \<and> \<not> in_mask edgemask FSM_WALK2_ONLYA then Some (True, d, al)
               else do {
                 (ok, d, al) \<leftarrow>
                   (if qa = None \<or> \<not> in_mask edgemask (FSM_WALK2_BOTH OR FSM_WALK2_ONLYA) then Some (True, d, al)
                    else walk2_loop (\<lambda>dst s. fsm_walk2_edges (a, b, dst, s)) a b qc (walk2_next_a edgemask a b qa qb) (d, al));
                 if \<not> ok then Some (False, d, al)
                 else if qb = None \<or> \<not> in_mask edgemask FSM_WALK2_ONLYB then Some (True, d, al)
                 else walk2_loop (\<lambda>dst s. fsm_walk2_edges (a, b, dst, s)) a b qc (walk2_next_b a b qa qb) (d, al) } })"

definition fsm_walk2 :: "alloc \<Rightarrow> fsm \<Rightarrow> fsm \<Rightarrow> 32 word \<Rightarrow> 32 word \<Rightarrow> (fsm option \<times> alloc) option" where
  "fsm_walk2 al a b edgemask endmask =
     do { da \<leftarrow> fsm_all a fsm_isdfa;
          c_assert da;
          db \<leftarrow> fsm_all b fsm_isdfa;
          c_assert db;
          sa \<leftarrow> fsm_getstart a;
          sb \<leftarrow> fsm_getstart b;
          case (sa, sb) of
            (None, None) \<Rightarrow> fsm_new al
          | (Some sa, None) \<Rightarrow> if endmask AND FSM_WALK2_ONLYA \<noteq> 0 then fsm_clone al a else fsm_new al
          | (None, Some sb) \<Rightarrow> if endmask AND FSM_WALK2_ONLYB \<noteq> 0 then fsm_clone al b else fsm_new al
          | (Some sa, Some sb) \<Rightarrow>
              do { (new, al) \<leftarrow> fsm_new al;
                   case new of
                     None \<Rightarrow> Some (None, al)
                   | Some new \<Rightarrow>
                       let (S, al) = tuple_set_create al in
                       case S of
                         None \<Rightarrow> Some (None, al)
                       | Some S \<Rightarrow>
                           do { let d = \<lparr>w2_top = None, w2_new = new, w2_states = S, w2_endmask = ucast endmask, w2_edgemask = ucast edgemask\<rparr>;
                                (tup0, d, al) \<leftarrow> fsm_walk2_tuple_new al d a (Some sa) b (Some sb);
                                case tup0 of
                                  None \<Rightarrow> Some (None, al)
                                | Some tup0 \<Rightarrow>
                                    do { c_assert (wt_a tup0 = Some sa);
                                         c_assert (wt_b tup0 = Some sb);
                                         st \<leftarrow> c_nth (f_states (w2_new d)) (wt_comb tup0);
                                         c_assert (\<not> st_visited st);
                                         new \<leftarrow> fsm_setstart (w2_new d) (wt_comb tup0);
                                         (ok, d, al) \<leftarrow> fsm_walk2_edges (a, b, tup0, d\<lparr>w2_new := new\<rparr>, al);
                                         Some (if ok then Some (w2_new d) else None, al) } } } }"


section \<open>Ordered sets against finite maps\<close>

locale item_order =
  fixes cmp :: "'i \<Rightarrow> 'i \<Rightarrow> int option" and key :: "'i \<Rightarrow> 'k :: linorder" and item_ok :: "'i \<Rightarrow> bool"
  assumes cmp: "item_ok x \<Longrightarrow> item_ok y \<Longrightarrow> \<exists>r. cmp x y = Some r \<and> (r < 0 \<longleftrightarrow> key x < key y) \<and> (r > 0 \<longleftrightarrow> key y < key x)"
begin

definition set_ok :: "'i item_set \<Rightarrow> bool" where
  "set_ok S \<longleftrightarrow> sorted_wrt (\<lambda>x y. key x < key y) (is_a S) \<and> (\<forall>x \<in> set (is_a S). item_ok x) \<and>
     length (is_a S) \<le> is_n S \<and> 0 < is_n S"

text \<open>The position where an item is, or where it goes.\<close>

definition splits_at :: "'i list \<Rightarrow> 'i \<Rightarrow> nat \<Rightarrow> bool" where
  "splits_at a x j \<longleftrightarrow> j \<le> length a \<and> (\<forall>k < j. key (a ! k) < key x) \<and> (\<forall>k. j \<le> k \<longrightarrow> k < length a \<longrightarrow> key x < key (a ! k))"

lemma set_ok_less: "set_ok S \<Longrightarrow> j < k \<Longrightarrow> k < length (is_a S) \<Longrightarrow> key (is_a S ! j) < key (is_a S ! k)"
  by (simp add: set_ok_def sorted_wrt_iff_nth_less)

lemma set_search_wp:
  assumes S: "set_ok S" and x: "item_ok x" and ne: "is_a S \<noteq> []"
  shows "wp (set_search cmp S x) (\<lambda>i. i < length (is_a S) \<and>
    (key (is_a S ! i) = key x \<or> splits_at (is_a S) x (if key (is_a S ! i) < key x then i + 1 else i)))"
  unfolding set_search_def
proof (rule wp_c_loop [where m = "\<lambda>(start, end, mid). end - start" and
      I = "\<lambda>(start, end, mid). start \<le> end \<and> end \<le> length (is_a S) \<and> (\<forall>k < start. key (is_a S ! k) < key x) \<and>
        (\<forall>k. end \<le> k \<longrightarrow> k < length (is_a S) \<longrightarrow> key x < key (is_a S ! k)) \<and>
        (start < end \<or> mid < length (is_a S) \<and> (mid = start \<or> mid + 1 = start))"])
  let ?a = "is_a S"
  show "case (0, length ?a, 0) of (start, end, mid) \<Rightarrow> start \<le> end \<and> end \<le> length ?a \<and> (\<forall>k < start. key (?a ! k) < key x) \<and>
      (\<forall>k. end \<le> k \<longrightarrow> k < length ?a \<longrightarrow> key x < key (?a ! k)) \<and> (start < end \<or> mid < length ?a \<and> (mid = start \<or> mid + 1 = start))"
    using ne by simp
  fix w :: "nat \<times> nat \<times> nat"
  obtain s e m where w: "w = (s, e, m)" by (cases w)
  assume "case w of (start, end, mid) \<Rightarrow> start \<le> end \<and> end \<le> length ?a \<and> (\<forall>k < start. key (?a ! k) < key x) \<and>
      (\<forall>k. end \<le> k \<longrightarrow> k < length ?a \<longrightarrow> key x < key (?a ! k)) \<and> (start < end \<or> mid < length ?a \<and> (mid = start \<or> mid + 1 = start))"
  then have I: "s \<le> e" "e \<le> length ?a" "\<And>k. k < s \<Longrightarrow> key (?a ! k) < key x" "\<And>k. e \<le> k \<Longrightarrow> k < length ?a \<Longrightarrow> key x < key (?a ! k)"
    "s < e \<or> m < length ?a \<and> (m = s \<or> m + 1 = s)" unfolding w by auto
  show "wp (case w of (start, end, mid) \<Rightarrow>
         if start < end then let mid = start + (end - start) div 2 in
           do { y \<leftarrow> c_nth ?a mid; r \<leftarrow> cmp x y;
                Some (if r < 0 then Inl (start, mid, mid) else if r > 0 then Inl (mid + 1, end, mid) else Inr mid) }
         else Some (Inr mid))
       (\<lambda>r. case r of
          Inl s' \<Rightarrow> (case s' of (start, end, mid) \<Rightarrow> start \<le> end \<and> end \<le> length ?a \<and> (\<forall>k < start. key (?a ! k) < key x) \<and>
            (\<forall>k. end \<le> k \<longrightarrow> k < length ?a \<longrightarrow> key x < key (?a ! k)) \<and> (start < end \<or> mid < length ?a \<and> (mid = start \<or> mid + 1 = start))) \<and>
            (case s' of (start, end, mid) \<Rightarrow> end - start) < (case w of (start, end, mid) \<Rightarrow> end - start)
        | Inr i \<Rightarrow> i < length ?a \<and> (key (?a ! i) = key x \<or> splits_at ?a x (if key (?a ! i) < key x then i + 1 else i)))"
  proof (cases "s < e")
    case True
    define c where "c = s + (e - s) div 2"
    have c: "s \<le> c" "c < e" "c < length ?a" using True I(2) by (auto simp: c_def)
    obtain r where r: "cmp x (?a ! c) = Some r" "r < 0 \<longleftrightarrow> key x < key (?a ! c)" "r > 0 \<longleftrightarrow> key (?a ! c) < key x"
      using cmp [OF x, of "?a ! c"] S c(3) by (auto simp: set_ok_def)
    have below: "key (?a ! k) < key x" if "key (?a ! c) < key x" "k < c + 1" for k
      using set_ok_less [OF S _ c(3), of k] that by (cases "k = c") (auto dest: less_trans)
    have above: "key x < key (?a ! k)" if "key x < key (?a ! c)" "c \<le> k" "k < length ?a" for k
      using set_ok_less [OF S, of c k] that by (cases "k = c") (auto dest: less_trans)
    consider "key x < key (?a ! c)" | "key (?a ! c) < key x" | "key x = key (?a ! c)" by (rule linorder_cases)
    then show ?thesis
    proof cases
      case 1
      then show ?thesis using True r c I above by (auto simp: w c_def [symmetric])
    next
      case 2
      then show ?thesis using True r c I below by (auto simp: w c_def [symmetric])
    next
      case 3
      then show ?thesis using True r c by (auto simp: w c_def [symmetric])
    qed
  next
    case False
    then have m: "s = e" "m < length ?a" "m = s \<or> m + 1 = s" using I by auto
    have "splits_at ?a x s" using I(2,3,4) m(1) by (simp add: splits_at_def)
    moreover have "(if key (?a ! m) < key x then m + 1 else m) = s"
      using m I(3) [of m] I(4) [of m] by (auto dest: less_asym)
    ultimately show ?thesis using False m(2) by (simp add: w)
  qed
qed

lemma splits_at_absent: "splits_at a x j \<Longrightarrow> y \<in> set a \<Longrightarrow> key y \<noteq> key x"
  unfolding splits_at_def in_set_conv_nth by (metis less_irrefl linorder_not_less)

lemma set_contains_wp:
  assumes S: "set_ok S" and x: "item_ok x"
  shows "wp (set_contains cmp S x) (\<lambda>r. case r of None \<Rightarrow> \<forall>y \<in> set (is_a S). key y \<noteq> key x | Some y \<Rightarrow> y \<in> set (is_a S) \<and> key y = key x)"
proof (cases "is_a S = []")
  case False
  obtain i where i: "set_search cmp S x = Some i" "i < length (is_a S)"
    "key (is_a S ! i) = key x \<or> splits_at (is_a S) x (if key (is_a S ! i) < key x then i + 1 else i)"
    using set_search_wp [OF assms False] by (auto simp: wp_iff_ex)
  obtain r where r: "cmp x (is_a S ! i) = Some r" "r < 0 \<longleftrightarrow> key x < key (is_a S ! i)" "r > 0 \<longleftrightarrow> key (is_a S ! i) < key x"
    using cmp [OF x, of "is_a S ! i"] S i(2) by (auto simp: set_ok_def)
  then have "r = 0 \<longleftrightarrow> key x = key (is_a S ! i)" by (metis less_irrefl linorder_neqE)
  then show ?thesis
    using False i(1,2) r(1) i(3) splits_at_absent by (fastforce simp: set_contains_def)
qed (simp add: set_contains_def)

lemma sorted_insert_at:
  assumes "sorted_wrt (\<lambda>x y. key x < key y) a" and "splits_at a x j"
  shows "sorted_wrt (\<lambda>x y. key x < key y) (take j a @ x # drop j a)"
proof -
  have "key y < key x" if "y \<in> set (take j a)" for y
    using that assms(2) by (auto simp: splits_at_def in_set_conv_nth)
  moreover have "key x < key y" if "y \<in> set (drop j a)" for y
    using that assms(2) by (auto simp: splits_at_def in_set_conv_nth)
  ultimately show ?thesis
    using assms(1) by (auto simp: sorted_wrt_append sorted_wrt_take sorted_wrt_drop dest: less_trans)
qed

lemma set_add_wp:
  assumes S: "set_ok S" and x: "item_ok x" and new: "\<forall>y \<in> set (is_a S). key y \<noteq> key x"
  shows "wp (set_add cmp al S x) (\<lambda>(ok, S', al'). set_ok S' \<and>
    (if ok then set (is_a S') = insert x (set (is_a S)) \<and> length (is_a S') = length (is_a S) + 1 else S' = S) \<and> (al = [] \<longrightarrow> ok \<and> al' = []))"
proof (cases "is_a S = []")
  case True
  let ?S = "S\<lparr>is_a := [x]\<rparr>"
  have ok: "set_ok ?S" using S x by (auto simp: set_ok_def)
  have "wp (set_contains cmp ?S x) (\<lambda>r. r \<noteq> None)"
    by (rule wp_mono [OF set_contains_wp [OF ok x]]) (auto split: option.splits)
  then show ?thesis using True ok S by (auto simp: set_add_def c_assert_def wp_iff_ex set_ok_def)
next
  case False
  obtain i where i: "set_search cmp S x = Some i" "i < length (is_a S)"
    "key (is_a S ! i) = key x \<or> splits_at (is_a S) x (if key (is_a S ! i) < key x then i + 1 else i)"
    using set_search_wp [OF S x False] by (auto simp: wp_iff_ex)
  obtain r where r: "cmp x (is_a S ! i) = Some r" "r < 0 \<longleftrightarrow> key x < key (is_a S ! i)" "r > 0 \<longleftrightarrow> key (is_a S ! i) < key x"
    using cmp [OF x, of "is_a S ! i"] S i(2) by (auto simp: set_ok_def)
  have neq: "key (is_a S ! i) \<noteq> key x" using new i(2) nth_mem by blast
  then have r0: "r \<noteq> 0" using r(2,3) by (metis less_irrefl linorder_neqE)
  define j where "j = (if r > 0 then i + 1 else i)"
  have j: "splits_at (is_a S) x j" using i(3) neq r(3) by (simp add: j_def)
  obtain ok n al1 where g: "set_grow al S = (ok, n, al1)" by (cases "set_grow al S")
  have n: "length (is_a S) < n" "al = [] \<longrightarrow> ok \<and> al1 = []"
    using g S by (auto simp: set_grow_def set_ok_def split: if_splits prod.splits)
  let ?S = "\<lparr>is_a = take j (is_a S) @ x # drop j (is_a S), is_n = n\<rparr>"
  have mem: "set (is_a ?S) = insert x (set (is_a S))" using set_append [of "take j (is_a S)" "drop j (is_a S)"] by simp
  have len: "length (is_a ?S) = length (is_a S) + 1" using j by (simp add: splits_at_def)
  have okS: "set_ok ?S" using sorted_insert_at [OF _ j] S x mem len n(1) unfolding set_ok_def by simp
  have "wp (set_contains cmp ?S x) (\<lambda>r. r \<noteq> None)"
    by (rule wp_mono [OF set_contains_wp [OF okS x]]) (use mem in \<open>auto split: option.splits\<close>)
  then obtain y where "set_contains cmp ?S x = Some (Some y)" by (auto simp: wp_iff_ex)
  then have run: "set_add cmp al S x = (if ok then Some (True, ?S, al1) else Some (False, S, al1))"
    using False i(1,2) r(1) r0 g n(1) by (cases ok; cases "r > 0") (simp_all add: set_add_def j_def c_assert_def)
  show ?thesis unfolding run using okS S mem len n(2) by auto
qed

end

type_synonym walk2_key = "fsm_state_t option \<times> fsm_state_t option"

definition tuple_key :: "fsm_walk2_tuple \<Rightarrow> walk2_key" where
  "tuple_key t = (wt_a t, wt_b t)"

definition tuple_ok :: "fsm_walk2_tuple \<Rightarrow> bool" where
  "tuple_ok t \<longleftrightarrow> wt_a t \<noteq> None \<or> wt_b t \<noteq> None"

lemma cmp_half_sign: "cmp_half x y < 0 \<longleftrightarrow> x < y" "cmp_half x y > 0 \<longleftrightarrow> y < x" "cmp_half x y = 0 \<longleftrightarrow> x = y"
  by (cases x; cases y; auto simp: cmp_half_def)+

interpretation tset: item_order cmp_walk2_tuple tuple_key tuple_ok
proof
  fix x y
  assume "tuple_ok x" "tuple_ok y"
  then show "\<exists>r. cmp_walk2_tuple x y = Some r \<and> (r < 0) = (tuple_key x < tuple_key y) \<and> (0 < r) = (tuple_key y < tuple_key x)"
    by (auto simp: cmp_walk2_tuple_def c_assert_def tuple_ok_def tuple_key_def cmp_half_sign less_prod_def' Let_def)
qed


section \<open>The marks of states\<close>

definition visited_set :: "fsm \<Rightarrow> fsm_state_t set" where
  "visited_set f = {s. s < statecount f \<and> st_visited (f_states f ! s)}"

lemma visited_upd_state:
  assumes "\<And>st. st_visited (g st) = st_visited st"
  shows "visited_set (upd_state f s g) = visited_set f"
  by (cases "s < statecount f") (auto simp: visited_set_def upd_state_def nth_list_update assms)

lemma fsm_addstate_visited: "fsm_addstate al f = Some (r, f', al') \<Longrightarrow> visited_set f' = visited_set f"
  by (auto simp: fsm_addstate_def visited_set_def new_state_def nth_append less_Suc_eq Let_def split: if_splits prod.splits list.splits)

lemma fsm_setend_visited: "fsm_setend f s e = Some f' \<Longrightarrow> visited_set f' = visited_set f"
proof -
  have "visited_set (g\<lparr>f_endcount := k\<rparr>) = visited_set g" for g k by (simp add: visited_set_def)
  then show "fsm_setend f s e = Some f' \<Longrightarrow> visited_set f' = visited_set f"
    by (auto simp: fsm_setend_def bind_eq_Some_conv visited_upd_state split: if_splits)
qed

lemma fsm_addedge_literal_visited: "fsm_addedge_literal al f s t c = Some (ok, f', al') \<Longrightarrow> visited_set f' = visited_set f"
  by (auto simp: fsm_addedge_literal_def bind_eq_Some_conv visited_upd_state)

section \<open>The product\<close>

definition walk2_keys :: "fsm \<Rightarrow> fsm \<Rightarrow> walk2_key set" where
  "walk2_keys a b = (insert None (Some ` {..<statecount a})) \<times> (insert None (Some ` {..<statecount b})) - {(None, None)}"

definition opt_end :: "fsm \<Rightarrow> fsm_state_t option \<Rightarrow> bool" where
  "opt_end f q = (case q of None \<Rightarrow> False | Some s \<Rightarrow> n_end (fsm_nfa f) s)"

definition opt_ids :: "fsm \<Rightarrow> fsm_state_t option \<Rightarrow> fsm_end_id_t list" where
  "opt_ids f q = (case q of None \<Rightarrow> [] | Some s \<Rightarrow> if n_end (fsm_nfa f) s then endid_ids (f_endid_info f) s else [])"

definition walk2_end :: "mask4 \<Rightarrow> fsm \<Rightarrow> fsm \<Rightarrow> walk2_key \<Rightarrow> bool" where
  "walk2_end m a b k = in_mask m (walk2mask (opt_end a (fst k)) (opt_end b (snd k)))"

definition walk2_ids :: "mask4 \<Rightarrow> fsm \<Rightarrow> fsm \<Rightarrow> walk2_key \<Rightarrow> fsm_end_id_t list" where
  "walk2_ids m a b k = (if walk2_end m a b k then remdups_adj (sort (opt_ids a (fst k) @ opt_ids b (snd k))) else [])"

definition walk2_input :: "fsm \<Rightarrow> fsm \<Rightarrow> bool" where
  "walk2_input a b \<longleftrightarrow> fsm_inv a \<and> fsm_inv b \<and> endid_inv (f_endid_info a) \<and> endid_inv (f_endid_info b) \<and>
     (\<forall>s < statecount a. dfa_state a s) \<and> (\<forall>s < statecount b. dfa_state b s) \<and>
     (statecount a + 1) * (statecount b + 1) \<le> edge_state_limit \<and>
     (\<forall>s t. length (endid_ids (f_endid_info a) s) + length (endid_ids (f_endid_info b) t) \<le> 2 ^ 31)"

lemma walk2_keys_card: "finite (walk2_keys a b)" "card (walk2_keys a b) < (statecount a + 1) * (statecount b + 1)"
proof -
  let ?X = "insert None (Some ` {..<statecount a}) \<times> insert None (Some ` {..<statecount b})"
  have fin: "finite ?X" by simp
  show "finite (walk2_keys a b)" by (simp add: walk2_keys_def)
  have "card (walk2_keys a b) < card ?X" unfolding walk2_keys_def by (rule card_Diff1_less) auto
  also have "card ?X = (statecount a + 1) * (statecount b + 1)"
    unfolding card_cartesian_product by (simp add: card_insert_if card_image)
  finally show "card (walk2_keys a b) < (statecount a + 1) * (statecount b + 1)" .
qed

definition w2_tuples :: "fsm_walk2_data \<Rightarrow> fsm_walk2_tuple set" where
  "w2_tuples d = set (is_a (w2_states d))"

text \<open>Every tuple stands for one state of the new automaton, whose edges are added when it is visited.\<close>

definition w2_inv :: "fsm \<Rightarrow> fsm \<Rightarrow> fsm_walk2_data \<Rightarrow> bool" where
  "w2_inv a b d \<longleftrightarrow> (let f = w2_new d; T = w2_tuples d in
     fsm_inv f \<and> meta_ok f \<and> (\<forall>s. eager_ids (f_eager_output_info f) s = []) \<and> f_capture_info f = capture_none \<and>
     en_used (f_endid_info f) \<le> statecount f \<and> length (en_buckets (f_endid_info f)) \<le> 4 * (statecount f + 1) \<and>
     tset.set_ok (w2_states d) \<and> tuple_key ` T \<subseteq> walk2_keys a b \<and> bij_betw wt_comb T {..<statecount f} \<and>
     (\<forall>t \<in> T. n_end (fsm_nfa f) (wt_comb t) = walk2_end (w2_endmask d) a b (tuple_key t)) \<and>
     (\<forall>t \<in> T. endid_ids (f_endid_info f) (wt_comb t) = walk2_ids (w2_endmask d) a b (tuple_key t)) \<and>
     (\<forall>s t. \<not> fsm_step f s None t) \<and> (\<forall>s l t. fsm_step f s l t \<longrightarrow> s \<in> visited_set f))"

lemma w2_inv_count:
  assumes "w2_inv a b d"
  shows "inj_on tuple_key (w2_tuples d)" "statecount (w2_new d) = card (tuple_key ` w2_tuples d)" "finite (w2_tuples d)"
proof -
  have S: "sorted_wrt (\<lambda>x y. tuple_key x < tuple_key y) (is_a (w2_states d))" and bij: "bij_betw wt_comb (w2_tuples d) {..<statecount (w2_new d)}"
    using assms by (auto simp: w2_inv_def Let_def tset.set_ok_def)
  show inj: "inj_on tuple_key (w2_tuples d)"
  proof (rule inj_onI)
    fix x y assume "x \<in> w2_tuples d" "y \<in> w2_tuples d" and eq: "tuple_key x = tuple_key y"
    then obtain i j where ij: "i < length (is_a (w2_states d))" "is_a (w2_states d) ! i = x" "j < length (is_a (w2_states d))" "is_a (w2_states d) ! j = y"
      by (auto simp: w2_tuples_def in_set_conv_nth)
    then have "\<not> i < j" "\<not> j < i" using S eq unfolding sorted_wrt_iff_nth_less by fastforce+
    then show "x = y" using ij by simp
  qed
  show "finite (w2_tuples d)" by (simp add: w2_tuples_def)
  show "statecount (w2_new d) = card (tuple_key ` w2_tuples d)"
    using bij_betw_same_card [OF bij] card_image [OF inj] by simp
qed

lemma w2_inv_room:
  assumes "w2_inv a b d" and "walk2_input a b" and "k \<in> walk2_keys a b" and "k \<notin> tuple_key ` w2_tuples d"
  shows "statecount (w2_new d) < edge_state_limit"
proof -
  have "tuple_key ` w2_tuples d \<subset> walk2_keys a b" using assms by (auto simp: w2_inv_def Let_def)
  then have "card (tuple_key ` w2_tuples d) < card (walk2_keys a b)" by (rule psubset_card_mono [OF walk2_keys_card(1)])
  then show ?thesis using w2_inv_count(2) [OF assms(1)] walk2_keys_card(2) [of a b] assms(2) unfolding walk2_input_def by linarith
qed


section \<open>New tuples\<close>

lemma walk2_isend_eq: "fsm_inv f \<Longrightarrow> (\<And>s. q = Some s \<Longrightarrow> s < statecount f) \<Longrightarrow> walk2_isend f q = Some (opt_end f q)"
  by (auto simp: walk2_isend_def opt_end_def fsm_isend_eq split: option.split)

lemma walk2_ids_read:
  assumes inv: "fsm_inv f" and ei: "endid_inv (f_endid_info f)" and q: "\<And>s. q = Some s \<Longrightarrow> s < statecount f"
  shows "walk2_count f q = Some (length (opt_ids f q))" and "walk2_get f q (length (opt_ids f q)) = Some (opt_ids f q)"
proof -
  have no: "s < BUCKET_NO_STATE" if "q = Some s" for s
    using q [OF that] fsm_inv_limits(1) [OF inv] by (simp add: BUCKET_NO_STATE_def)
  show "walk2_count f q = Some (length (opt_ids f q))"
  proof (cases q)
    case (Some s)
    then show ?thesis using fsm_endid_count_wp [OF ei no [OF Some]] q [OF Some] by (auto simp: walk2_count_def opt_ids_def fsm_isend_eq wp_iff_ex)
  qed (simp add: walk2_count_def opt_ids_def)
  show "walk2_get f q (length (opt_ids f q)) = Some (opt_ids f q)"
  proof (cases q)
    case (Some s)
    then show ?thesis using fsm_endid_get_wp [OF ei no [OF Some], of "length (opt_ids f q)"]
      by (auto simp: walk2_get_def opt_ids_def c_assert_def wp_iff_ex split: if_splits)
  qed (simp add: walk2_get_def opt_ids_def)
qed

lemma walk2_end_ids_wp:
  assumes in': "walk2_input a b" and k: "(qa, qb) \<in> walk2_keys a b" and new: "endid_inv (f_endid_info new)" "comb < BUCKET_NO_STATE"
    "endid_ids (f_endid_info new) comb = []" "length (en_buckets (f_endid_info new)) < 2 ^ 31"
  shows "wp (walk2_end_ids [] a qa b qb new comb) (\<lambda>(ok, new', al'). ok \<and> al' = [] \<and> (\<exists>ei. new' = new\<lparr>f_endid_info := ei\<rparr> \<and> endid_inv ei \<and>
    endid_ids ei = (endid_ids (f_endid_info new))(comb := remdups_adj (sort (opt_ids a qa @ opt_ids b qb))) \<and>
    length (en_buckets ei) \<le> max (length (en_buckets (f_endid_info new))) (4 * en_used (f_endid_info new)) \<and>
    en_used ei \<le> en_used (f_endid_info new) + 1))"
proof -
  have in_ab: "fsm_inv a" "fsm_inv b" "endid_inv (f_endid_info a)" "endid_inv (f_endid_info b)"
    and len: "length (opt_ids a qa) + length (opt_ids b qb) \<le> 2 ^ 31"
  proof -
    show "fsm_inv a" "fsm_inv b" "endid_inv (f_endid_info a)" "endid_inv (f_endid_info b)" using in' by (auto simp: walk2_input_def)
    have "length (opt_ids a qa) \<le> length (endid_ids (f_endid_info a) (the qa))" "length (opt_ids b qb) \<le> length (endid_ids (f_endid_info b) (the qb))"
      by (auto simp: opt_ids_def split: option.split)
    moreover have "length (endid_ids (f_endid_info a) (the qa)) + length (endid_ids (f_endid_info b) (the qb)) \<le> 2 ^ 31"
      using in' by (simp add: walk2_input_def)
    ultimately show "length (opt_ids a qa) + length (opt_ids b qb) \<le> 2 ^ 31" by linarith
  qed
  have q: "qa = Some s \<Longrightarrow> s < statecount a" "qb = Some s \<Longrightarrow> s < statecount b" for s using k by (auto simp: walk2_keys_def)
  note ra = walk2_ids_read [OF in_ab(1,3), of qa, OF q(1)] and rb = walk2_ids_read [OF in_ab(2,4), of qb, OF q(2)]
  show ?thesis
  proof (cases "opt_ids a qa @ opt_ids b qb = []")
    case True
    then show ?thesis using new(1,3) by (simp add: walk2_end_ids_def ra rb fun_upd_idem) (rule exI [of _ "f_endid_info new"], simp)
  next
    case False
    have "length (opt_ids a qa @ opt_ids b qb) + length (endid_ids (f_endid_info new) comb) \<le> 2 ^ 31" using len new(3) by simp
    from fsm_endid_set_bulk_wp [OF new(1,2,4) False this, of "[]" FSM_ENDID_BULK_REPLACE]
    show ?thesis using False by (auto simp: walk2_end_ids_def ra rb bulk_prev_def Let_def elim!: wpE3)
  qed
qed


text \<open>What a new tuple leaves as it is.\<close>

definition w2_same :: "fsm_walk2_data \<Rightarrow> fsm_walk2_data \<Rightarrow> bool" where
  "w2_same d d' \<longleftrightarrow> w2_tuples d \<subseteq> w2_tuples d' \<and> w2_endmask d' = w2_endmask d \<and> w2_edgemask d' = w2_edgemask d \<and>
     visited_set (w2_new d') = visited_set (w2_new d) \<and> n_start (fsm_nfa (w2_new d')) = n_start (fsm_nfa (w2_new d)) \<and>
     fsm_step (w2_new d') = fsm_step (w2_new d)"

lemma walk2_comb_state_wp:
  assumes inv: "fsm_inv f" and n: "statecount f < edge_state_limit"
  shows "wp (walk2_comb_state [] f e) (\<lambda>(r, f', al'). al' = [] \<and> r = Some (statecount f) \<and> fsm_inv f' \<and> statecount f' = statecount f + 1 \<and>
    fsm_meta f' = fsm_meta f \<and> visited_set f' = visited_set f \<and> n_start (fsm_nfa f') = n_start (fsm_nfa f) \<and> fsm_step f' = fsm_step f \<and>
    n_end (fsm_nfa f') = (n_end (fsm_nfa f))(statecount f := e))"
proof -
  obtain f1 where run1: "fsm_addstate [] f = Some (Some (statecount f), f1, [])" and 1: "fsm_inv f1" "fsm_nfa f1 = fsm_nfa f"
      "fsm_meta f1 = fsm_meta f" "statecount f1 = statecount f + 1"
    using fsm_addstate_wp [OF inv n, of "[]"] by (auto elim!: wpE3 split: option.splits)
  have v1: "visited_set f1 = visited_set f" by (rule fsm_addstate_visited [OF run1])
  have step1: "fsm_step f1 = fsm_step f" using arg_cong [OF 1(2), of n_step] by (simp add: fsm_nfa_def)
  show ?thesis
  proof (cases e)
    case False
    then have "(n_end (fsm_nfa f))(statecount f := e) = n_end (fsm_nfa f)" by (auto simp: fun_eq_iff fsm_nfa_def)
    then show ?thesis using False run1 1 v1 step1 by (simp add: walk2_comb_state_def)
  next
    case True
    obtain f2 where run2: "fsm_setend f1 (statecount f) 1 = Some f2" and 2: "fsm_inv f2" "statecount f2 = statecount f1" "fsm_meta f2 = fsm_meta f1"
      "fsm_nfa f2 = (fsm_nfa f1)\<lparr>n_end := (n_end (fsm_nfa f1))(statecount f := True)\<rparr>"
      using fsm_setend_wp [OF 1(1), of "statecount f" 1] 1(4) by (auto simp: wp_iff_ex)
    have "fsm_step f2 = fsm_step f" using arg_cong [OF 2(4), of n_step] step1 by (simp add: fsm_nfa_def)
    then show ?thesis using True run1 run2 1 2 v1 fsm_setend_visited [OF run2] by (simp add: walk2_comb_state_def)
  qed
qed

lemma fsm_walk2_tuple_new_wp:
  assumes inv: "w2_inv a b d" and in': "walk2_input a b" and k: "(qa, qb) \<in> walk2_keys a b"
  shows "wp (fsm_walk2_tuple_new [] d a qa b qb) (\<lambda>(r, d', al'). al' = [] \<and> w2_inv a b d' \<and> w2_same d d' \<and>
    (\<exists>t \<in> w2_tuples d'. r = Some t \<and> tuple_key t = (qa, qb) \<and> w2_tuples d' \<subseteq> insert t (w2_tuples d)))"
proof -
  let ?f = "w2_new d" and ?T = "w2_tuples d" and ?lk = "\<lparr>wt_a = qa, wt_b = qb, wt_comb = 0\<rparr>"
  have I: "fsm_inv ?f" "meta_ok ?f" "\<forall>s. eager_ids (f_eager_output_info ?f) s = []" "f_capture_info ?f = capture_none"
    "en_used (f_endid_info ?f) \<le> statecount ?f" "length (en_buckets (f_endid_info ?f)) \<le> 4 * (statecount ?f + 1)"
    "tset.set_ok (w2_states d)" "tuple_key ` ?T \<subseteq> walk2_keys a b" "bij_betw wt_comb ?T {..<statecount ?f}"
    "\<forall>t \<in> ?T. n_end (fsm_nfa ?f) (wt_comb t) = walk2_end (w2_endmask d) a b (tuple_key t)"
    "\<forall>t \<in> ?T. endid_ids (f_endid_info ?f) (wt_comb t) = walk2_ids (w2_endmask d) a b (tuple_key t)"
    "\<forall>s t. \<not> fsm_step ?f s None t" "\<forall>s l t. fsm_step ?f s l t \<longrightarrow> s \<in> visited_set ?f"
    using inv unfolding w2_inv_def Let_def by blast+
  have ne: "qa \<noteq> None \<or> qb \<noteq> None" using k by (auto simp: walk2_keys_def)
  then have ok: "tuple_ok ?lk" by (simp add: tuple_ok_def)
  have keylk: "tuple_key ?lk = (qa, qb)" by (simp add: tuple_key_def)
  obtain q where q: "tuple_set_contains (w2_states d) ?lk = Some q"
    and q': "case q of None \<Rightarrow> \<forall>y \<in> ?T. tuple_key y \<noteq> (qa, qb) | Some y \<Rightarrow> y \<in> ?T \<and> tuple_key y = (qa, qb)"
    using tset.set_contains_wp [OF I(7) ok, unfolded keylk] unfolding wp_iff_ex tuple_set_contains_def w2_tuples_def by blast
  show ?thesis
  proof (cases q)
    case (Some y)
    then show ?thesis using ne q q' inv by (simp add: fsm_walk2_tuple_new_def c_assert_def w2_same_def subset_insertI)
  next
    case None
    then have fresh: "(qa, qb) \<notin> tuple_key ` ?T" using q' by auto
    have n: "statecount ?f < edge_state_limit" by (rule w2_inv_room [OF inv in' k fresh])
    have "\<exists>top. alloc_walk2_tuple [] d = (True, d\<lparr>w2_top := top\<rparr>, [])"
      by (cases "w2_top d") (auto simp: alloc_walk2_tuple_def)
    then obtain top where top: "alloc_walk2_tuple [] d = (True, d\<lparr>w2_top := top\<rparr>, [])" by blast
    let ?e = "walk2_end (w2_endmask d) a b (qa, qb)" and ?c = "statecount ?f"
    have ea: "walk2_isend a qa = Some (opt_end a qa)" and eb: "walk2_isend b qb = Some (opt_end b qb)"
      using k in' by (auto simp: walk2_keys_def walk2_input_def intro!: walk2_isend_eq)
    obtain f1 where run1: "walk2_comb_state [] ?f ?e = Some (Some ?c, f1, [])" and 1: "fsm_inv f1" "statecount f1 = ?c + 1"
        "fsm_meta f1 = fsm_meta ?f" "visited_set f1 = visited_set ?f" "n_start (fsm_nfa f1) = n_start (fsm_nfa ?f)" "fsm_step f1 = fsm_step ?f"
        "n_end (fsm_nfa f1) = (n_end (fsm_nfa ?f))(?c := ?e)"
      by (rule wpE3 [OF walk2_comb_state_wp [OF I(1) n, of ?e]]) auto
    have meta1: "f_endid_info f1 = f_endid_info ?f" "f_eager_output_info f1 = f_eager_output_info ?f" "f_capture_info f1 = f_capture_info ?f"
      using 1(3) by (auto simp: fsm_meta_def)
    have ids0: "endid_ids (f_endid_info ?f) s = []" if "s \<ge> ?c" for s using meta_ok_ids(1) [OF I(2), of s] that by fastforce
    obtain ei where run2: "(if ?e then walk2_end_ids [] a qa b qb f1 ?c else Some (True, f1, [])) = Some (True, f1\<lparr>f_endid_info := ei\<rparr>, [])"
      and ei: "endid_inv ei" "endid_ids ei = (endid_ids (f_endid_info ?f))(?c := walk2_ids (w2_endmask d) a b (qa, qb))"
        "length (en_buckets ei) \<le> 4 * (?c + 2)" "en_used ei \<le> ?c + 1"
    proof (cases ?e)
      case True
      have "?c < BUCKET_NO_STATE" "length (en_buckets (f_endid_info f1)) < 2 ^ 31" "endid_inv (f_endid_info f1)" "endid_ids (f_endid_info f1) ?c = []"
        using n I(2,6) ids0 [OF order_refl] by (simp_all add: BUCKET_NO_STATE_def edge_state_limit_def meta1 meta_ok_def)
      from walk2_end_ids_wp [OF in' k this(3,1,4,2)] show ?thesis
        using that True I(5,6) unfolding meta1 by (fastforce simp: walk2_ids_def elim!: wpE3)
    next
      case False
      have "f1 = f1\<lparr>f_endid_info := f_endid_info ?f\<rparr>" using meta1(1) by simp
      then show ?thesis
        using that [of "f_endid_info ?f"] False I(2,5,6) ids0 [OF order_refl] by (simp add: walk2_ids_def fun_upd_idem meta_ok_def)
    qed
    let ?f2 = "f1\<lparr>f_endid_info := ei\<rparr>" and ?p = "\<lparr>wt_a = qa, wt_b = qb, wt_comb = ?c\<rparr>"
    have okp: "tuple_ok ?p" using ne by (simp add: tuple_ok_def)
    have keyp: "tuple_key ?p = (qa, qb)" by (simp add: tuple_key_def)
    have "\<forall>y \<in> set (is_a (w2_states d)). tuple_key y \<noteq> tuple_key ?p" using fresh keyp by (force simp: w2_tuples_def)
    from tset.set_add_wp [OF I(7) okp this, of "[]"]
    obtain S where run3: "tuple_set_add [] (w2_states d) ?p = Some (True, S, [])" and S: "tset.set_ok S" "set (is_a S) = insert ?p ?T"
      by (auto simp: tuple_set_add_def w2_tuples_def elim!: wpE3)
    let ?d = "d\<lparr>w2_top := top, w2_new := ?f2, w2_states := S\<rparr>"
    have T: "w2_tuples ?d = insert ?p ?T" using S(2) by (simp add: w2_tuples_def)
    have vis: "visited_set ?f2 = visited_set ?f" using 1(4) by (simp add: visited_set_def)
    have step: "fsm_step ?f2 = fsm_step ?f" using 1(6) by (simp add: fsm_step_def)
    have nfa2: "fsm_nfa ?f2 = fsm_nfa f1" by (simp add: fsm_nfa_def fsm_step_def)
    have notin: "?c \<notin> wt_comb ` ?T" using I(9) by (auto simp: bij_betw_def)
    have "w2_inv a b ?d" unfolding w2_inv_def Let_def T
    proof (intro conjI)
      show "fsm_inv (w2_new ?d)" using 1(1) by (simp add: fsm_inv_def statealloc_def)
      show "meta_ok (w2_new ?d)"
        by (rule meta_okI) (use ei 1(2) I(2,3) ids0 in \<open>auto simp: meta1 meta_ok_def split: if_splits intro: ccontr\<close>)
      show "bij_betw wt_comb (insert ?p ?T) {..<statecount (w2_new ?d)}"
        using notin I(9) 1(2) by (auto simp: bij_betw_def lessThan_Suc)
      have lt: "wt_comb t < ?c" if "t \<in> ?T" for t using that I(9) by (auto simp: bij_betw_def)
      show "\<forall>t \<in> insert ?p ?T. n_end (fsm_nfa (w2_new ?d)) (wt_comb t) = walk2_end (w2_endmask ?d) a b (tuple_key t)"
        using I(10) 1(7) nfa2 keyp lt by fastforce
      show "\<forall>t \<in> insert ?p ?T. endid_ids (f_endid_info (w2_new ?d)) (wt_comb t) = walk2_ids (w2_endmask ?d) a b (tuple_key t)"
        using I(11) ei(2) keyp lt by fastforce
    qed (use I ei S k keyp 1(2) vis step in \<open>auto simp: meta1\<close>)
    moreover have "w2_same d ?d" using T vis step nfa2 1(5) by (auto simp: w2_same_def)
    moreover have "?c < statecount f1" "\<not> st_visited (f_states f1 ! ?c)"
    proof -
      show "?c < statecount f1" using 1(2) by simp
      have "?c \<notin> visited_set f1" using 1(4) by (simp add: visited_set_def)
      then show "\<not> st_visited (f_states f1 ! ?c)" using 1(2) by (simp add: visited_set_def)
    qed
    moreover have e: "in_mask (w2_endmask d) (walk2mask (opt_end a qa) (opt_end b qb)) = ?e"
      by (simp add: walk2_end_def)
    ultimately have "fsm_walk2_tuple_new [] d a qa b qb = Some (Some ?p, ?d, [])"
    proof (cases ?e)
      case True
      then show ?thesis
        using ne q None top ea eb run1 run2 run3 \<open>?c < statecount f1\<close> \<open>\<not> st_visited (f_states f1 ! ?c)\<close>
        by (simp add: fsm_walk2_tuple_new_def c_assert_def Let_def e)
    next
      case False
      then have "?f2 = f1" using run2 by simp
      then show ?thesis
        using False ne q None top ea eb run1 run3 \<open>?c < statecount f1\<close> \<open>\<not> st_visited (f_states f1 ! ?c)\<close>
        by (simp add: fsm_walk2_tuple_new_def c_assert_def Let_def e)
    qed
    then show ?thesis using \<open>w2_inv a b ?d\<close> \<open>w2_same d ?d\<close> T keyp by simp
  qed
qed


section \<open>Edges of the product\<close>

definition walk2_step :: "mask4 \<Rightarrow> fsm \<Rightarrow> fsm \<Rightarrow> walk2_key \<Rightarrow> octet \<Rightarrow> walk2_key option" where
  "walk2_step m a b k c =
     (case (walk2_edges_of a (fst k) c, walk2_edges_of b (snd k) c) of
        (Some x, Some y) \<Rightarrow> if in_mask m (FSM_WALK2_BOTH OR FSM_WALK2_ONLYA) then Some (Some x, Some y) else None
      | (Some x, None) \<Rightarrow> if in_mask m FSM_WALK2_ONLYA then Some (Some x, None) else None
      | (None, Some y) \<Rightarrow> if in_mask m FSM_WALK2_ONLYB then Some (None, Some y) else None
      | (None, None) \<Rightarrow> None)"

text \<open>The edges of the state of \<open>t\<close> are those \<open>nxt\<close> gives, and lead to visited states.\<close>

definition walk2_done :: "(octet \<Rightarrow> walk2_key option) \<Rightarrow> fsm_walk2_data \<Rightarrow> fsm_walk2_tuple \<Rightarrow> bool" where
  "walk2_done nxt d t \<longleftrightarrow>
     (\<forall>c k. nxt c = Some k \<longrightarrow> (\<exists>u \<in> w2_tuples d. tuple_key u = k \<and> wt_comb u \<in> visited_set (w2_new d) \<and>
        fsm_step (w2_new d) (wt_comb t) (Some c) (wt_comb u))) \<and>
     (\<forall>c s. fsm_step (w2_new d) (wt_comb t) (Some c) s \<longrightarrow> (\<exists>u \<in> w2_tuples d. wt_comb u = s \<and> nxt c = Some (tuple_key u)))"

abbreviation walk2_complete :: "fsm \<Rightarrow> fsm \<Rightarrow> fsm_walk2_data \<Rightarrow> fsm_walk2_tuple \<Rightarrow> bool" where
  "walk2_complete a b d t \<equiv> walk2_done (walk2_step (w2_edgemask d) a b (tuple_key t)) d t"

text \<open>The walk only adds, except to the edges of the states \<open>X\<close> it is at.\<close>

definition w2_ext :: "fsm_state_t set \<Rightarrow> fsm_walk2_data \<Rightarrow> fsm_walk2_data \<Rightarrow> bool" where
  "w2_ext X d d' \<longleftrightarrow> w2_tuples d \<subseteq> w2_tuples d' \<and> w2_endmask d' = w2_endmask d \<and> w2_edgemask d' = w2_edgemask d \<and>
     visited_set (w2_new d) \<subseteq> visited_set (w2_new d') \<and> n_start (fsm_nfa (w2_new d')) = n_start (fsm_nfa (w2_new d)) \<and>
     (\<forall>s \<in> visited_set (w2_new d) - X. \<forall>l t. fsm_step (w2_new d') s l t \<longleftrightarrow> fsm_step (w2_new d) s l t)"

lemma w2_ext_refl: "w2_ext X d d"
  by (simp add: w2_ext_def)

lemma w2_ext_trans: "w2_ext X d d' \<Longrightarrow> w2_ext X d' d'' \<Longrightarrow> w2_ext X d d''"
  unfolding w2_ext_def by (auto; blast)

lemma w2_ext_mono: "w2_ext X d d' \<Longrightarrow> X \<subseteq> Y \<Longrightarrow> w2_ext Y d d'"
  unfolding w2_ext_def by blast

lemma w2_same_ext: "w2_same d d' \<Longrightarrow> w2_ext X d d'"
  by (auto simp: w2_same_def w2_ext_def)

lemma walk2_done_ext:
  assumes "walk2_done nxt d t" and "w2_ext X d d'" and "wt_comb t \<in> visited_set (w2_new d)" and "wt_comb t \<notin> X"
  shows "walk2_done nxt d' t"
proof -
  have "fsm_step (w2_new d') (wt_comb t) l s \<longleftrightarrow> fsm_step (w2_new d) (wt_comb t) l s" for l s
    using assms(2,3,4) by (auto simp: w2_ext_def)
  moreover have "w2_tuples d \<subseteq> w2_tuples d'" "visited_set (w2_new d) \<subseteq> visited_set (w2_new d')" using assms(2) by (auto simp: w2_ext_def)
  ultimately show ?thesis using assms(1) unfolding walk2_done_def by (meson subsetD)
qed

lemma walk2_complete_ext:
  assumes "walk2_complete a b d t" and "w2_ext X d d'" and "wt_comb t \<in> visited_set (w2_new d)" and "wt_comb t \<notin> X"
  shows "walk2_complete a b d' t"
  using walk2_done_ext [OF assms] assms(2) by (simp add: w2_ext_def)

lemma walk2_done_same: "walk2_done nxt d t \<Longrightarrow> w2_same d d' \<Longrightarrow> walk2_done nxt d' t"
  unfolding walk2_done_def w2_same_def by (metis subsetD)

section \<open>One edge\<close>

lemma w2_add_edge:
  assumes inv: "w2_inv a b d" and s: "qc \<in> visited_set (w2_new d)" and t: "u \<in> w2_tuples d"
  shows "wp (fsm_addedge_literal [] (w2_new d) qc (wt_comb u) c) (\<lambda>(ok, new, al'). ok \<and> al' = [] \<and> w2_inv a b (d\<lparr>w2_new := new\<rparr>) \<and>
    w2_ext {qc} d (d\<lparr>w2_new := new\<rparr>) \<and> visited_set new = visited_set (w2_new d) \<and>
    (\<forall>l x. fsm_step new qc l x \<longleftrightarrow> fsm_step (w2_new d) qc l x \<or> l = Some c \<and> x = wt_comb u))"
proof -
  let ?f = "w2_new d"
  have I: "fsm_inv ?f" "meta_ok ?f" and bij: "bij_betw wt_comb (w2_tuples d) {..<statecount ?f}" using inv by (simp_all add: w2_inv_def Let_def)
  have qc: "qc < statecount ?f" using s by (simp add: visited_set_def)
  have u: "wt_comb u < statecount ?f" using bij t by (auto simp: bij_betw_def)
  obtain new where run: "fsm_addedge_literal [] ?f qc (wt_comb u) c = Some (True, new, [])" and new: "fsm_inv new" "fsm_meta new = fsm_meta ?f"
      "fsm_nfa new = add_step qc (Some c) (wt_comb u) (fsm_nfa ?f)" "statecount new = statecount ?f"
    by (rule wpE3 [OF fsm_addedge_literal_wp [OF I(1) qc u, of "[]" c]]) auto
  have vis: "visited_set new = visited_set ?f" by (rule fsm_addedge_literal_visited [OF run])
  have step: "fsm_step new p l x \<longleftrightarrow> fsm_step ?f p l x \<or> p = qc \<and> l = Some c \<and> x = wt_comb u" for p l x
    using arg_cong [OF new(3), of n_step] by (auto simp: add_step_def fsm_nfa_def)
  have se: "n_start (fsm_nfa new) = n_start (fsm_nfa ?f)" "n_end (fsm_nfa new) = n_end (fsm_nfa ?f)" by (simp_all add: new(3) add_step_def)
  have meta: "f_endid_info new = f_endid_info ?f" "f_eager_output_info new = f_eager_output_info ?f" "f_capture_info new = f_capture_info ?f"
    using new(2) by (auto simp: fsm_meta_def)
  have mo: "meta_ok new" using I(2) new(4) by (simp add: meta_ok_def meta)
  have "w2_inv a b (d\<lparr>w2_new := new\<rparr>)"
    using inv new(1,4) s mo unfolding w2_inv_def Let_def by (simp add: w2_tuples_def vis step se meta)
  moreover have "w2_ext {qc} d (d\<lparr>w2_new := new\<rparr>)" by (auto simp: w2_ext_def w2_tuples_def vis step se)
  ultimately show ?thesis unfolding run using vis step by simp
qed

text \<open>What a visit of the tuple \<open>u\<close> has to give.\<close>

definition walk2_visited :: "fsm \<Rightarrow> fsm \<Rightarrow> fsm_walk2_tuple \<Rightarrow> fsm_walk2_data \<Rightarrow> bool \<times> fsm_walk2_data \<times> alloc \<Rightarrow> bool" where
  "walk2_visited a b u d = (\<lambda>(ok, d', al'). ok \<and> al' = [] \<and> w2_inv a b d' \<and> w2_ext {} d d' \<and> wt_comb u \<in> visited_set (w2_new d') \<and>
     (\<forall>x \<in> w2_tuples d' - w2_tuples d. wt_comb x \<in> visited_set (w2_new d')) \<and>
     (\<forall>x \<in> w2_tuples d'. wt_comb x \<in> visited_set (w2_new d') - visited_set (w2_new d) \<longrightarrow> walk2_complete a b d' x))"


text \<open>One edge more, whose target is visited by then.\<close>

lemma walk2_done_visit:
  assumes "walk2_done P d t" and "P c = None"
    and step: "\<forall>l x. fsm_step (w2_new d') (wt_comb t) l x \<longleftrightarrow> fsm_step (w2_new d) (wt_comb t) l x \<or> l = Some c \<and> x = wt_comb u"
    and sub: "w2_tuples d \<subseteq> w2_tuples d'" "visited_set (w2_new d) \<subseteq> visited_set (w2_new d')"
    and u: "u \<in> w2_tuples d'" "wt_comb u \<in> visited_set (w2_new d')"
  shows "walk2_done (P(c \<mapsto> tuple_key u)) d' t"
  unfolding walk2_done_def
proof (intro conjI allI impI)
  fix c' k assume k: "(P(c \<mapsto> tuple_key u)) c' = Some k"
  show "\<exists>u \<in> w2_tuples d'. tuple_key u = k \<and> wt_comb u \<in> visited_set (w2_new d') \<and> fsm_step (w2_new d') (wt_comb t) (Some c') (wt_comb u)"
  proof (cases "c' = c")
    case True
    then show ?thesis using k u step by auto
  next
    case False
    then have "P c' = Some k" using k by simp
    then obtain x where "x \<in> w2_tuples d" "tuple_key x = k" "wt_comb x \<in> visited_set (w2_new d)" "fsm_step (w2_new d) (wt_comb t) (Some c') (wt_comb x)"
      using assms(1) unfolding walk2_done_def by blast
    then show ?thesis using sub step by blast
  qed
next
  fix c' s assume "fsm_step (w2_new d') (wt_comb t) (Some c') s"
  then consider "c' = c" "s = wt_comb u" | "fsm_step (w2_new d) (wt_comb t) (Some c') s" using step by blast
  then show "\<exists>x \<in> w2_tuples d'. wt_comb x = s \<and> (P(c \<mapsto> tuple_key u)) c' = Some (tuple_key x)"
  proof cases
    case 2
    then obtain x where "x \<in> w2_tuples d" "wt_comb x = s" "P c' = Some (tuple_key x)" using assms(1) unfolding walk2_done_def by blast
    moreover from this have "c' \<noteq> c" using assms(2) by auto
    ultimately show ?thesis using sub(1) by auto
  qed (use u in auto)
qed

lemma walk2_follow_wp:
  assumes inv: "w2_inv a b d" and t: "wt_comb t = qc" "qc \<in> visited_set (w2_new d)" and u: "u \<in> w2_tuples d"
    and P: "walk2_done P d t" "P c = None"
    and visit: "\<And>d. w2_inv a b d \<Longrightarrow> u \<in> w2_tuples d \<Longrightarrow> wt_comb u \<notin> visited_set (w2_new d) \<Longrightarrow> V \<subseteq> visited_set (w2_new d) \<Longrightarrow>
      wp (visit u (d, [])) (walk2_visited a b u d)"
    and V: "V \<subseteq> visited_set (w2_new d)"
  shows "wp (walk2_follow visit qc c (Some u, d, [])) (\<lambda>(ok, d', al'). ok \<and> al' = [] \<and> w2_inv a b d' \<and> w2_ext {qc} d d' \<and>
    walk2_done (P(c \<mapsto> tuple_key u)) d' t \<and> wt_comb u \<in> visited_set (w2_new d') \<and>
    (\<forall>x \<in> w2_tuples d' - w2_tuples d. wt_comb x \<in> visited_set (w2_new d')) \<and>
    (\<forall>x \<in> w2_tuples d'. wt_comb x \<in> visited_set (w2_new d') - visited_set (w2_new d) \<longrightarrow> walk2_complete a b d' x))"
proof -
  have uc: "wt_comb u < statecount (w2_new d)" using inv u by (auto simp: w2_inv_def Let_def bij_betw_def)
  obtain new where run: "fsm_addedge_literal [] (w2_new d) qc (wt_comb u) c = Some (True, new, [])"
    and 1: "w2_inv a b (d\<lparr>w2_new := new\<rparr>)" "w2_ext {qc} d (d\<lparr>w2_new := new\<rparr>)" "visited_set new = visited_set (w2_new d)"
      "\<forall>l x. fsm_step new qc l x \<longleftrightarrow> fsm_step (w2_new d) qc l x \<or> l = Some c \<and> x = wt_comb u"
    by (rule wpE3 [OF w2_add_edge [OF inv t(2) u, of c]]) auto
  let ?d = "d\<lparr>w2_new := new\<rparr>"
  have T: "w2_tuples ?d = w2_tuples d" by (simp add: w2_tuples_def)
  have cnt: "wt_comb u < statecount new" using 1(1) u T by (auto simp: w2_inv_def Let_def bij_betw_def)
  have vu: "st_visited (f_states new ! wt_comb u) \<longleftrightarrow> wt_comb u \<in> visited_set (w2_new d)"
    unfolding 1(3) [symmetric] using cnt by (simp add: visited_set_def)
  show ?thesis
  proof (cases "wt_comb u \<in> visited_set (w2_new d)")
    case True
    have "walk2_done (P(c \<mapsto> tuple_key u)) ?d t"
      by (rule walk2_done_visit [OF P]) (use 1 T u True t in auto)
    then show ?thesis using run uc 1 True vu T by (simp add: walk2_follow_def c_assert_def)
  next
    case False
    obtain d' where run': "visit u (?d, []) = Some (True, d', [])" and d': "w2_inv a b d'" "w2_ext {} ?d d'" "wt_comb u \<in> visited_set (w2_new d')"
      "\<forall>x \<in> w2_tuples d' - w2_tuples ?d. wt_comb x \<in> visited_set (w2_new d')"
      "\<forall>x \<in> w2_tuples d'. wt_comb x \<in> visited_set (w2_new d') - visited_set (w2_new ?d) \<longrightarrow> walk2_complete a b d' x"
      by (rule wpE3 [OF visit [of ?d]]) (use 1 T u False V in \<open>auto simp: walk2_visited_def\<close>)
    have ext: "w2_ext {qc} d d'" using w2_ext_trans [OF 1(2) w2_ext_mono [OF d'(2)]] by simp
    have "fsm_step (w2_new d') qc l x \<longleftrightarrow> fsm_step new qc l x" for l x
      using d'(2) t(2) 1(3) by (simp add: w2_ext_def)
    then have "walk2_done (P(c \<mapsto> tuple_key u)) d' t"
      by (intro walk2_done_visit [OF P]) (use 1(4) ext u d'(3) t in \<open>auto simp: w2_ext_def\<close>)
    then show ?thesis using run run' uc False vu d' ext 1(3) T by (simp add: walk2_follow_def c_assert_def)
  qed
qed


section \<open>The loops\<close>

lemma w2_tuple_old:
  assumes "w2_inv a b d" and "w2_inv a b d'" and "w2_tuples d \<subseteq> w2_tuples d'" and "x \<in> w2_tuples d'" and "wt_comb x \<in> visited_set (w2_new d)"
  shows "x \<in> w2_tuples d"
proof -
  have "wt_comb x \<in> wt_comb ` w2_tuples d" using assms(1,5) by (auto simp: w2_inv_def Let_def bij_betw_def visited_set_def)
  then obtain y where y: "y \<in> w2_tuples d" "wt_comb y = wt_comb x" by auto
  have "inj_on wt_comb (w2_tuples d')" using assms(2) by (simp add: w2_inv_def Let_def bij_betw_def)
  then have "y = x" using y assms(3,4) by (auto simp: inj_on_def)
  then show ?thesis using y(1) by simp
qed

lemma octet_range: "of_nat ` set [0..<256] = (UNIV :: octet set)"
proof -
  have "c \<in> of_nat ` set [0..<256]" for c :: octet using unsigned_less [of c, where 'a = nat] by (intro image_eqI [of _ _ "unat c"]) simp_all
  then show ?thesis by blast
qed

lemma octet_prefix:
  assumes "[0..<256] = ys @ i # zs"
  shows "(of_nat i :: octet) \<notin> of_nat ` set ys"
proof
  assume "(of_nat i :: octet) \<in> of_nat ` set ys"
  then obtain j where j: "j \<in> set ys" "(of_nat i :: octet) = of_nat j" by auto
  have "i < 256" "j < 256" using assms j(1) by (metis append_Cons in_set_conv_decomp set_upt atLeastLessThan_iff Un_iff set_append)+
  then have "i = j" using arg_cong [OF j(2), of unat] by (simp add: unat_of_nat)
  moreover have "i \<notin> set ys" using arg_cong [OF assms, of distinct] by simp
  ultimately show False using j(1) by simp
qed

definition walk2_loop_inv ::
  "fsm \<Rightarrow> fsm \<Rightarrow> fsm_walk2_tuple \<Rightarrow> fsm_walk2_data \<Rightarrow> (octet \<Rightarrow> walk2_key option) \<Rightarrow> fsm_walk2_data \<times> alloc \<Rightarrow> bool" where
  "walk2_loop_inv a b t d0 P = (\<lambda>(d, al). al = [] \<and> w2_inv a b d \<and> w2_ext {wt_comb t} d0 d \<and> walk2_done P d t \<and>
     (\<forall>x \<in> w2_tuples d - w2_tuples d0. wt_comb x \<in> visited_set (w2_new d)) \<and>
     (\<forall>x \<in> w2_tuples d. wt_comb x \<in> visited_set (w2_new d) - visited_set (w2_new d0) \<longrightarrow> walk2_complete a b d x))"

lemma walk2_loop_step:
  assumes I: "walk2_loop_inv a b t d0 P (d, [])" and d0: "wt_comb t \<in> visited_set (w2_new d0)" and in': "walk2_input a b"
    and k: "(qa, qb) \<in> walk2_keys a b" and P: "P c = None"
    and visit: "\<And>u d. w2_inv a b d \<Longrightarrow> u \<in> w2_tuples d \<Longrightarrow> wt_comb u \<notin> visited_set (w2_new d) \<Longrightarrow>
      visited_set (w2_new d0) \<subseteq> visited_set (w2_new d) \<Longrightarrow> wp (visit u (d, [])) (walk2_visited a b u d)"
  shows "wp (do { r \<leftarrow> fsm_walk2_tuple_new [] d a qa b qb; walk2_follow visit (wt_comb t) c r })
    (\<lambda>(ok, s). ok \<and> walk2_loop_inv a b t d0 (P(c \<mapsto> (qa, qb))) s)"
proof -
  have inv: "w2_inv a b d" and ext: "w2_ext {wt_comb t} d0 d" and done_t: "walk2_done P d t"
    and vis: "\<And>x. x \<in> w2_tuples d - w2_tuples d0 \<Longrightarrow> wt_comb x \<in> visited_set (w2_new d)"
    and compl: "\<And>x. x \<in> w2_tuples d \<Longrightarrow> wt_comb x \<in> visited_set (w2_new d) - visited_set (w2_new d0) \<Longrightarrow> walk2_complete a b d x"
    using I by (auto simp: walk2_loop_inv_def)
  obtain u d1 where run1: "fsm_walk2_tuple_new [] d a qa b qb = Some (Some u, d1, [])"
    and 1: "w2_inv a b d1" "w2_same d d1" "u \<in> w2_tuples d1" "tuple_key u = (qa, qb)" "w2_tuples d1 \<subseteq> insert u (w2_tuples d)"
    by (rule wpE3 [OF fsm_walk2_tuple_new_wp [OF inv in' k]]) auto
  have vis1: "visited_set (w2_new d1) = visited_set (w2_new d)" using 1(2) by (simp add: w2_same_def)
  have V: "visited_set (w2_new d0) \<subseteq> visited_set (w2_new d1)" using ext vis1 by (simp add: w2_ext_def)
  have qc: "wt_comb t \<in> visited_set (w2_new d1)" using d0 V by blast
  obtain d2 where run2: "walk2_follow visit (wt_comb t) c (Some u, d1, []) = Some (True, d2, [])"
    and 2: "w2_inv a b d2" "w2_ext {wt_comb t} d1 d2" "walk2_done (P(c \<mapsto> tuple_key u)) d2 t"
      "\<forall>x \<in> w2_tuples d2. wt_comb x \<in> visited_set (w2_new d2) - visited_set (w2_new d1) \<longrightarrow> walk2_complete a b d2 x"
      "wt_comb u \<in> visited_set (w2_new d2)" "\<forall>x \<in> w2_tuples d2 - w2_tuples d1. wt_comb x \<in> visited_set (w2_new d2)"
    using walk2_follow_wp [where V = "visited_set (w2_new d0)" and visit = visit, OF 1(1) refl qc 1(3) walk2_done_same [OF done_t 1(2)] P] visit V
    by (force elim!: wpE3)
  have ext12: "w2_ext {wt_comb t} d d2" using w2_ext_trans [OF w2_same_ext [OF 1(2)] 2(2)] .
  have "walk2_complete a b d2 x" if x: "x \<in> w2_tuples d2" "wt_comb x \<in> visited_set (w2_new d2) - visited_set (w2_new d0)" for x
  proof (cases "wt_comb x \<in> visited_set (w2_new d)")
    case True
    have "x \<in> w2_tuples d" using w2_tuple_old [OF inv 2(1) _ x(1) True] ext12 by (simp add: w2_ext_def)
    moreover have "wt_comb x \<notin> {wt_comb t}" using x(2) d0 by auto
    ultimately show ?thesis using walk2_complete_ext [OF compl ext12] True x(2) by blast
  qed (use 2(4) x vis1 in auto)
  moreover have "wt_comb x \<in> visited_set (w2_new d2)" if "x \<in> w2_tuples d2 - w2_tuples d0" for x
  proof (cases "x \<in> w2_tuples d1")
    case True
    have "visited_set (w2_new d) \<subseteq> visited_set (w2_new d2)" using ext12 by (simp add: w2_ext_def)
    then show ?thesis using True 1(5) 2(5) vis [of x] that by blast
  qed (use that 2(6) in blast)
  ultimately show ?thesis
    unfolding wp_bind run1 wp_Some run2 using 2 1(4) w2_ext_trans [OF ext ext12] by (simp add: walk2_loop_inv_def)
qed

lemma walk2_loop_wp:
  assumes I: "walk2_loop_inv a b t d0 P (d, [])" and d0: "wt_comb t \<in> visited_set (w2_new d0)" and in': "walk2_input a b"
    and nxt: "\<And>c k. nxt c = Some k \<Longrightarrow> k \<in> walk2_keys a b \<and> P c = None"
    and visit: "\<And>u d. w2_inv a b d \<Longrightarrow> u \<in> w2_tuples d \<Longrightarrow> wt_comb u \<notin> visited_set (w2_new d) \<Longrightarrow>
      visited_set (w2_new d0) \<subseteq> visited_set (w2_new d) \<Longrightarrow> wp (visit u (d, [])) (walk2_visited a b u d)"
  shows "wp (walk2_loop visit a b (wt_comb t) nxt (d, [])) (\<lambda>(ok, s). ok \<and> walk2_loop_inv a b t d0 (P ++ nxt) s)"
proof -
  let ?I = "\<lambda>ys. walk2_loop_inv a b t d0 (P ++ (nxt |` (of_nat ` set ys)))"
  have "wp (walk2_loop visit a b (wt_comb t) nxt (d, [])) (\<lambda>(ok, s). if ok then ?I [0..<256] s else False)"
    unfolding walk2_loop_def
  proof (rule wp_c_for [where I = ?I])
    show "?I [] (d, [])" using I by simp
    fix ys i zs s
    assume split: "[0..<256] = ys @ i # zs" and Is: "?I ys s"
    obtain d1 where s: "s = (d1, [])" using Is by (cases s) (auto simp: walk2_loop_inv_def)
    let ?c = "of_nat i :: octet"
    have c: "?c \<notin> of_nat ` set ys" by (rule octet_prefix [OF split])
    show "wp (case nxt ?c of None \<Rightarrow> Some (True, s)
        | Some e \<Rightarrow> do { r \<leftarrow> fsm_walk2_tuple_new (snd s) (fst s) a (fst e) b (snd e); walk2_follow visit (wt_comb t) ?c r })
        (\<lambda>(ok, s'). if ok then ?I (ys @ [i]) s' else False)"
    proof (cases "nxt ?c")
      case None
      then have "nxt |` (of_nat ` set (ys @ [i])) = nxt |` (of_nat ` set ys)" by (auto simp: restrict_map_def fun_eq_iff)
      then show ?thesis using None Is by simp
    next
      case (Some e)
      obtain qa qb where e: "e = (qa, qb)" by (cases e)
      have k: "(qa, qb) \<in> walk2_keys a b" "P ?c = None" using nxt [OF Some] e by auto
      have none: "(P ++ (nxt |` (of_nat ` set ys))) ?c = None" using k(2) c by (simp add: map_add_None)
      have eq: "(P ++ (nxt |` (of_nat ` set ys)))(?c \<mapsto> (qa, qb)) = P ++ (nxt |` (of_nat ` set (ys @ [i])))"
        using Some e by (auto simp: fun_eq_iff map_add_def restrict_map_def)
      show ?thesis
        using walk2_loop_step [OF Is [unfolded s] d0 in' k(1) none visit] unfolding eq Some option.case e s fst_conv snd_conv
        by (rule wp_mono2) auto
    qed
  qed
  moreover have "nxt |` (of_nat ` set [0..<256]) = nxt" unfolding octet_range by (simp add: restrict_map_def)
  ultimately show ?thesis by (simp only:) (erule wp_mono2, auto split: if_splits)
qed


section \<open>The recursion\<close>

lemma in_mask_or: "in_mask m FSM_WALK2_ONLYA \<Longrightarrow> in_mask m (FSM_WALK2_BOTH OR FSM_WALK2_ONLYA)"
proof -
  have "(x :: 32 word) AND y = (x AND (z OR y)) AND y" for x y z by (rule bit_word_eqI) (auto simp: bit_simps)
  then show "in_mask m FSM_WALK2_ONLYA \<Longrightarrow> in_mask m (FSM_WALK2_BOTH OR FSM_WALK2_ONLYA)"
    unfolding in_mask_def by (metis and_zero_eq zero_and_eq)
qed

lemma walk2_edges_of_iff:
  assumes "fsm_inv f" and "\<forall>s < statecount f. dfa_state f s" and "\<And>s. q = Some s \<Longrightarrow> s < statecount f"
  shows "walk2_edges_of f q c = Some t \<longleftrightarrow> (\<exists>s. q = Some s \<and> fsm_step f s (Some c) t)"
  using assms by (cases q) (auto simp: walk2_edges_of_def exec_transition_iff)

text \<open>The two loops together follow the edges of the product.\<close>

lemma walk2_next_step:
  assumes in': "walk2_input a b" and k: "(qa, qb) \<in> walk2_keys a b"
  shows "walk2_step m a b (qa, qb) =
    (if qa = None \<or> \<not> in_mask m (FSM_WALK2_BOTH OR FSM_WALK2_ONLYA) then Map.empty else walk2_next_a m a b qa qb) ++
    (if qb = None \<or> \<not> in_mask m FSM_WALK2_ONLYB then Map.empty else walk2_next_b a b qa qb)" (is ?sum)
    and "walk2_next_a m a b qa qb c = Some k' \<Longrightarrow> k' \<in> walk2_keys a b" and "walk2_next_b a b qa qb c = Some k' \<Longrightarrow> k' \<in> walk2_keys a b"
    and "walk2_next_b a b qa qb c = Some k' \<Longrightarrow> walk2_next_a m a b qa qb c = None"
proof -
  have q: "qa = Some s \<Longrightarrow> s < statecount a" "qb = Some s \<Longrightarrow> s < statecount b" for s using k by (auto simp: walk2_keys_def)
  have inv: "fsm_inv a" "fsm_inv b" "\<forall>s < statecount a. dfa_state a s" "\<forall>s < statecount b. dfa_state b s" using in' by (auto simp: walk2_input_def)
  have ea: "walk2_edges_of a qa c = Some t \<longleftrightarrow> (\<exists>s. qa = Some s \<and> fsm_step a s (Some c) t)" for c t
    by (rule walk2_edges_of_iff [OF inv(1,3) q(1)])
  have eb: "walk2_edges_of b qb c = Some t \<longleftrightarrow> (\<exists>s. qb = Some s \<and> fsm_step b s (Some c) t)" for c t
    by (rule walk2_edges_of_iff [OF inv(2,4) q(2)])
  have ta: "t < statecount a" if "walk2_edges_of a qa c = Some t" for c t using that fsm_step_bounds(2) [OF inv(1)] unfolding ea by blast
  have tb: "t < statecount b" if "walk2_edges_of b qb c = Some t" for c t using that fsm_step_bounds(2) [OF inv(2)] unfolding eb by blast
  have cont: "(case qa of None \<Rightarrow> False | Some s \<Rightarrow> edge_set_contains (st_edges (f_states a ! s)) c) \<longleftrightarrow> walk2_edges_of a qa c \<noteq> None" for c
  proof (cases qa)
    case (Some s)
    have "es_inv (st_edges (f_states a ! s))" using fsm_inv_state [OF inv(1) q(1) [OF Some]] by (simp add: state_ok_def)
    then have "edge_set_contains (st_edges (f_states a ! s)) c \<longleftrightarrow> (\<exists>t. fsm_step a s (Some c) t)"
      using q(1) [OF Some] by (simp add: edge_set_contains_iff fsm_step_def step_in_def)
    then show ?thesis using Some ea [of c] by auto
  qed (simp add: walk2_edges_of_def)
  show "walk2_next_a m a b qa qb c = Some k' \<Longrightarrow> k' \<in> walk2_keys a b"
    using ta [of c] tb [of c] by (auto simp: walk2_next_a_def walk2_keys_def Let_def split: option.splits if_splits) (metis imageI lessThan_iff not_Some_eq)
  show "walk2_next_b a b qa qb c = Some k' \<Longrightarrow> k' \<in> walk2_keys a b"
    using tb [of c] by (auto simp: walk2_next_b_def walk2_keys_def split: option.splits if_splits)
  show "walk2_next_b a b qa qb c = Some k' \<Longrightarrow> walk2_next_a m a b qa qb c = None"
    unfolding walk2_next_b_def cont by (auto simp: walk2_next_a_def split: option.splits if_splits)
  have none: "walk2_edges_of a None c = None" "walk2_edges_of b None c = None" for c by (simp_all add: walk2_edges_of_def)
  show ?sum
  proof
    fix c
    show "walk2_step m a b (qa, qb) c =
      ((if qa = None \<or> \<not> in_mask m (FSM_WALK2_BOTH OR FSM_WALK2_ONLYA) then Map.empty else walk2_next_a m a b qa qb) ++
       (if qb = None \<or> \<not> in_mask m FSM_WALK2_ONLYB then Map.empty else walk2_next_b a b qa qb)) c"
      unfolding walk2_step_def fst_conv snd_conv walk2_next_b_def cont
      using in_mask_or [of m] none [of c]
      by (cases "walk2_edges_of a qa c"; cases "walk2_edges_of b qb c"; cases qa; cases qb)
        (simp_all add: map_add_def walk2_next_a_def walk2_next_b_def cont)
  qed
qed


lemma w2_mark:
  assumes inv: "w2_inv a b d" and qc: "qc < statecount (w2_new d)"
  defines "f \<equiv> upd_state (w2_new d) qc (\<lambda>st. st\<lparr>st_visited := True\<rparr>)"
  shows "w2_inv a b (d\<lparr>w2_new := f\<rparr>)" and "visited_set f = insert qc (visited_set (w2_new d))" and "fsm_nfa f = fsm_nfa (w2_new d)"
    and "fsm_step f = fsm_step (w2_new d)"
proof -
  have cl: "clear_visited f = clear_visited (w2_new d)"
    using qc by (auto simp: f_def clear_visited_def upd_state_def list_eq_iff_nth_eq nth_list_update)
  show nfa: "fsm_nfa f = fsm_nfa (w2_new d)" using clear_visited_sel(1) cl by metis
  have fi: "fsm_inv f = fsm_inv (w2_new d)" using clear_visited_inv cl by metis
  show vis: "visited_set f = insert qc (visited_set (w2_new d))"
    using qc by (auto simp: f_def visited_set_def upd_state_def nth_list_update)
  show step: "fsm_step f = fsm_step (w2_new d)" using arg_cong [OF nfa, of n_step] by (simp add: fsm_nfa_def)
  have meta: "f_endid_info f = f_endid_info (w2_new d)" "f_eager_output_info f = f_eager_output_info (w2_new d)"
    "f_capture_info f = f_capture_info (w2_new d)" "statecount f = statecount (w2_new d)"
    by (simp_all add: f_def upd_state_def)
  have "meta_ok f = meta_ok (w2_new d)" by (simp add: meta_ok_def meta)
  then show "w2_inv a b (d\<lparr>w2_new := f\<rparr>)"
    using inv unfolding w2_inv_def Let_def by (simp add: w2_tuples_def nfa fi vis step meta)
qed

definition w2_left :: "fsm \<Rightarrow> fsm \<Rightarrow> fsm_walk2_data \<Rightarrow> nat" where
  "w2_left a b d = card (walk2_keys a b) - card (visited_set (w2_new d))"

lemma w2_left_less:
  assumes inv: "w2_inv a b d'" and sub: "visited_set (w2_new d) \<subset> visited_set (w2_new d')"
  shows "w2_left a b d' < w2_left a b d"
proof -
  have fin: "finite (visited_set (w2_new d'))" by (simp add: visited_set_def)
  have "visited_set (w2_new d') \<subseteq> {..<statecount (w2_new d')}" by (auto simp: visited_set_def)
  then have "card (visited_set (w2_new d')) \<le> statecount (w2_new d')" using card_mono [of "{..<statecount (w2_new d')}"] by simp
  also have "\<dots> \<le> card (walk2_keys a b)"
    unfolding w2_inv_count(2) [OF inv] using inv walk2_keys_card(1) by (intro card_mono) (simp_all add: w2_inv_def Let_def)
  finally show ?thesis using psubset_card_mono [OF fin sub] by (simp add: w2_left_def)
qed

lemma walk2_finish:
  assumes inv: "w2_inv a b d" and t: "t \<in> w2_tuples d" "wt_comb t \<notin> visited_set (w2_new d)"
    and d1: "d1 = d\<lparr>w2_new := upd_state (w2_new d) (wt_comb t) (\<lambda>st. st\<lparr>st_visited := True\<rparr>)\<rparr>"
    and I: "walk2_loop_inv a b t d1 (walk2_step (w2_edgemask d) a b (tuple_key t)) (d', al)"
  shows "walk2_visited a b t d (True, d', al)"
proof -
  have qc: "wt_comb t < statecount (w2_new d)" using inv t(1) by (auto simp: w2_inv_def Let_def bij_betw_def)
  note mark = w2_mark [OF inv qc]
  have d': "al = []" "w2_inv a b d'" "w2_ext {wt_comb t} d1 d'" "walk2_done (walk2_step (w2_edgemask d) a b (tuple_key t)) d' t"
    "\<forall>x \<in> w2_tuples d' - w2_tuples d1. wt_comb x \<in> visited_set (w2_new d')"
    and compl: "\<And>x. x \<in> w2_tuples d' \<Longrightarrow> wt_comb x \<in> visited_set (w2_new d') - visited_set (w2_new d1) \<Longrightarrow> walk2_complete a b d' x"
    using I by (auto simp: walk2_loop_inv_def)
  have vis1: "visited_set (w2_new d1) = insert (wt_comb t) (visited_set (w2_new d))" using mark(2) d1 by simp
  have same: "w2_tuples d1 = w2_tuples d" "w2_endmask d1 = w2_endmask d" "w2_edgemask d1 = w2_edgemask d"
    "fsm_nfa (w2_new d1) = fsm_nfa (w2_new d)" "fsm_step (w2_new d1) = fsm_step (w2_new d)"
    using mark(3,4) by (simp_all add: d1 w2_tuples_def)
  have ext: "w2_ext {} d d'"
    using d'(3) t(2) unfolding w2_ext_def same vis1 by blast
  have "walk2_complete a b d' x" if x: "x \<in> w2_tuples d'" "wt_comb x \<in> visited_set (w2_new d') - visited_set (w2_new d)" for x
  proof (cases "wt_comb x = wt_comb t")
    case True
    have "inj_on wt_comb (w2_tuples d')" "t \<in> w2_tuples d'"
      using d'(2) t(1) ext by (auto simp: w2_inv_def Let_def bij_betw_def w2_ext_def)
    then have "x = t" using True x(1) by (simp add: inj_on_eq_iff)
    then show ?thesis using d'(4) ext by (simp add: w2_ext_def)
  qed (use compl x vis1 in auto)
  moreover have "wt_comb t \<in> visited_set (w2_new d')" using d'(3) vis1 by (auto simp: w2_ext_def)
  ultimately show ?thesis using d' ext same(1) by (simp add: walk2_visited_def)
qed

lemma fsm_walk2_edges_wp:
  assumes in': "walk2_input a b" and "w2_inv a b d" and "t \<in> w2_tuples d" and "wt_comb t \<notin> visited_set (w2_new d)"
  shows "wp (fsm_walk2_edges (a, b, t, d, [])) (walk2_visited a b t d)"
  using assms(2-)
proof (induction "w2_left a b d" arbitrary: t d rule: less_induct)
  case less
  note inv = less.prems(1) and t = less.prems(2,3)
  obtain qa qb where k: "tuple_key t = (qa, qb)" by (cases "tuple_key t")
  have ab: "wt_a t = qa" "wt_b t = qb" using k by (simp_all add: tuple_key_def)
  have "tuple_key ` w2_tuples d \<subseteq> walk2_keys a b" using inv by (simp add: w2_inv_def Let_def)
  then have key: "(qa, qb) \<in> walk2_keys a b" using imageI [OF t(1), of tuple_key] unfolding k by blast
  then have q: "qa \<noteq> None \<or> qb \<noteq> None" "case qa of None \<Rightarrow> True | Some q \<Rightarrow> q < statecount a" "case qb of None \<Rightarrow> True | Some q \<Rightarrow> q < statecount b"
    by (auto simp: walk2_keys_def split: option.split)
  let ?qc = "wt_comb t" and ?m = "w2_edgemask d"
  have qc: "?qc < statecount (w2_new d)" using inv t(1) by (auto simp: w2_inv_def Let_def bij_betw_def)
  have nv: "\<not> st_visited (f_states (w2_new d) ! ?qc)" using qc t(2) by (simp add: visited_set_def)
  define d1 where "d1 = d\<lparr>w2_new := upd_state (w2_new d) ?qc (\<lambda>st. st\<lparr>st_visited := True\<rparr>)\<rparr>"
  note mark = w2_mark [OF inv qc]
  have inv1: "w2_inv a b d1" and vis1: "visited_set (w2_new d1) = insert ?qc (visited_set (w2_new d))" and m1: "w2_edgemask d1 = ?m"
    using mark by (simp_all add: d1_def)
  have "\<forall>s l x. fsm_step (w2_new d) s l x \<longrightarrow> s \<in> visited_set (w2_new d)" using inv unfolding w2_inv_def Let_def by blast
  then have "\<not> fsm_step (w2_new d1) ?qc l s" for l s using t(2) mark(4) by (auto simp: d1_def)
  then have I1: "walk2_loop_inv a b t d1 Map.empty (d1, [])" using inv1 by (simp add: walk2_loop_inv_def w2_ext_refl walk2_done_def)
  have in1: "?qc \<in> visited_set (w2_new d1)" using vis1 by simp
  have visit: "wp (fsm_walk2_edges (a, b, u, d', [])) (walk2_visited a b u d')"
    if "w2_inv a b d'" "u \<in> w2_tuples d'" "wt_comb u \<notin> visited_set (w2_new d')" "visited_set (w2_new d1) \<subseteq> visited_set (w2_new d')" for u d'
    by (rule less.hyps [OF w2_left_less [OF that(1)] that(1,2,3)]) (use that(4) vis1 t(2) in auto)
  note next_a = walk2_next_step(2) [OF in' key] and next_b = walk2_next_step(3) [OF in' key] and disj = walk2_next_step(4) [OF in' key]
  have run: "fsm_walk2_edges (a, b, t, d, []) =
      (if qb = None \<and> \<not> in_mask ?m FSM_WALK2_ONLYA then Some (True, d1, [])
       else do { (ok, s) \<leftarrow> (if qa = None \<or> \<not> in_mask ?m (FSM_WALK2_BOTH OR FSM_WALK2_ONLYA) then Some (True, d1, [])
              else walk2_loop (\<lambda>dst s. fsm_walk2_edges (a, b, dst, s)) a b ?qc (walk2_next_a ?m a b qa qb) (d1, []));
            if \<not> ok then Some (False, s)
            else if qb = None \<or> \<not> in_mask ?m FSM_WALK2_ONLYB then Some (True, s)
            else walk2_loop (\<lambda>dst s. fsm_walk2_edges (a, b, dst, s)) a b ?qc (walk2_next_b a b qa qb) s })"
  proof -
    have as: "c_assert (qa \<noteq> None \<or> qb \<noteq> None) = Some ()" "c_assert (case qa of None \<Rightarrow> True | Some q \<Rightarrow> q < statecount a) = Some ()"
      "c_assert (case qb of None \<Rightarrow> True | Some q \<Rightarrow> q < statecount b) = Some ()" "c_assert (?qc < statecount (w2_new d)) = Some ()"
      using q qc by (simp_all only: c_assert_def if_True)
    show ?thesis
      by (subst fsm_walk2_edges.simps)
        (simp only: prod.case Let_def ab as bind.bind_lunit nv if_False d1_def [symmetric] split_def fst_conv snd_conv prod.collapse)
  qed
  show ?case
  proof (cases "qb = None \<and> \<not> in_mask ?m FSM_WALK2_ONLYA")
    case True
    have "walk2_next_a ?m a b qa qb c = None" for c
      using True by (simp add: walk2_next_a_def walk2_edges_of_def split: option.split)
    then have "walk2_step ?m a b (qa, qb) = Map.empty"
      unfolding walk2_next_step(1) [OF in' key] using True by (simp add: map_add_def fun_eq_iff)
    then show ?thesis using walk2_finish [OF inv t d1_def, of d1 "[]"] I1 k run True by simp
  next
    case False
    let ?P = "if qa = None \<or> \<not> in_mask ?m (FSM_WALK2_BOTH OR FSM_WALK2_ONLYA) then Map.empty else walk2_next_a ?m a b qa qb"
    have "wp (if qa = None \<or> \<not> in_mask ?m (FSM_WALK2_BOTH OR FSM_WALK2_ONLYA) then Some (True, d1, [])
        else walk2_loop (\<lambda>dst s. fsm_walk2_edges (a, b, dst, s)) a b ?qc (walk2_next_a ?m a b qa qb) (d1, []))
        (\<lambda>(ok, s). ok \<and> walk2_loop_inv a b t d1 ?P s)"
      using walk2_loop_wp [OF I1 in1 in', of "walk2_next_a ?m a b qa qb" "\<lambda>dst s. fsm_walk2_edges (a, b, dst, s)"] next_a visit I1
      by (simp del: split_paired_All)
    then obtain d2 where run2: "(if qa = None \<or> \<not> in_mask ?m (FSM_WALK2_BOTH OR FSM_WALK2_ONLYA) then Some (True, d1, [])
        else walk2_loop (\<lambda>dst s. fsm_walk2_edges (a, b, dst, s)) a b ?qc (walk2_next_a ?m a b qa qb) (d1, [])) = Some (True, d2, [])"
      and I2: "walk2_loop_inv a b t d1 ?P (d2, [])" by (auto simp: walk2_loop_inv_def elim!: wpE3)
    let ?Q = "if qb = None \<or> \<not> in_mask ?m FSM_WALK2_ONLYB then Map.empty else walk2_next_b a b qa qb"
    have "wp (if qb = None \<or> \<not> in_mask ?m FSM_WALK2_ONLYB then Some (True, d2, [])
        else walk2_loop (\<lambda>dst s. fsm_walk2_edges (a, b, dst, s)) a b ?qc (walk2_next_b a b qa qb) (d2, []))
        (\<lambda>(ok, s). ok \<and> walk2_loop_inv a b t d1 (?P ++ ?Q) s)"
      using walk2_loop_wp [OF I2 in1 in', of "walk2_next_b a b qa qb" "\<lambda>dst s. fsm_walk2_edges (a, b, dst, s)"] next_b disj visit I2
      by (simp del: split_paired_All)
    then obtain d3 where run3: "(if qb = None \<or> \<not> in_mask ?m FSM_WALK2_ONLYB then Some (True, d2, [])
        else walk2_loop (\<lambda>dst s. fsm_walk2_edges (a, b, dst, s)) a b ?qc (walk2_next_b a b qa qb) (d2, [])) = Some (True, d3, [])"
      and I3: "walk2_loop_inv a b t d1 (?P ++ ?Q) (d3, [])" by (auto simp: walk2_loop_inv_def elim!: wpE3)
    have "fsm_walk2_edges (a, b, t, d, []) = Some (True, d3, [])"
      unfolding run if_not_P [OF False] run2 using run3 by simp
    then show ?thesis
      using walk2_finish [OF inv t d1_def, of d3 "[]"] I3 unfolding k walk2_next_step(1) [OF in' key] by simp
  qed
qed


section \<open>The language of the product\<close>

primrec walk2_path :: "mask4 \<Rightarrow> fsm \<Rightarrow> fsm \<Rightarrow> walk2_key \<Rightarrow> octet list \<Rightarrow> walk2_key option" where
  "walk2_path m a b k [] = Some k"
| "walk2_path m a b k (c # w) = (case walk2_step m a b k c of None \<Rightarrow> None | Some k' \<Rightarrow> walk2_path m a b k' w)"

primrec opt_path :: "fsm \<Rightarrow> fsm_state_t option \<Rightarrow> octet list \<Rightarrow> fsm_state_t option" where
  "opt_path f q [] = q"
| "opt_path f q (c # w) = opt_path f (walk2_edges_of f q c) w"

lemma opt_path_None [simp]: "opt_path f None w = None"
  by (induction w) (simp_all add: walk2_edges_of_def)

lemma opt_path_run:
  assumes inv: "fsm_inv f" and dfa: "\<forall>s < statecount f. dfa_state f s" and "s < statecount f"
  shows "opt_path f (Some s) w = Some t \<longleftrightarrow> run (fsm_step f) s w t"
  using assms(3)
proof (induction w arbitrary: s)
  case Nil
  have "run (fsm_step f) s [] t \<longleftrightarrow> s = t" using dfa Nil by (auto simp: dfa_state_def intro: run.intros elim: run.cases)
  then show ?case by simp
next
  case (Cons c w)
  have "run (fsm_step f) s (c # w) t \<longleftrightarrow> (\<exists>p. fsm_step f s (Some c) p \<and> run (fsm_step f) p w t)"
    using dfa Cons.prems by (auto simp: dfa_state_def intro: run.intros elim: run.cases)
  moreover have e: "walk2_edges_of f (Some s) c = Some p \<longleftrightarrow> fsm_step f s (Some c) p" for p
    using walk2_edges_of_iff [OF inv dfa, of "Some s" c p] Cons.prems by simp
  moreover have "p < statecount f" if "walk2_edges_of f (Some s) c = Some p" for p using that fsm_step_bounds(2) [OF inv] e by blast
  ultimately show ?case
    using Cons.IH by (cases "walk2_edges_of f (Some s) c") (simp_all flip: e)
qed

lemma opt_path_language:
  assumes inv: "fsm_inv f" and dfa: "\<forall>s < statecount f. dfa_state f s" and start: "n_start (fsm_nfa f) = Some s"
  shows "w \<in> fsm_language f \<longleftrightarrow> opt_end f (opt_path f (Some s) w)"
proof -
  have s: "s < statecount f" using start inv by (auto simp: fsm_nfa_def fsm_inv_def split: if_splits)
  have "w \<in> fsm_language f \<longleftrightarrow> (\<exists>t. run (fsm_step f) s w t \<and> n_end (fsm_nfa f) t)"
    using start by (simp add: fsm_language_def in_language fsm_nfa_def)
  then show ?thesis unfolding opt_path_run [OF inv dfa s, of w, symmetric] by (cases "opt_path f (Some s) w") (simp_all add: opt_end_def)
qed

lemma in_mask_or2: "in_mask m FSM_WALK2_BOTH \<Longrightarrow> in_mask m (FSM_WALK2_BOTH OR FSM_WALK2_ONLYA)"
proof -
  have "(x :: 32 word) AND y = (x AND (y OR z)) AND y" for x y z by (rule bit_word_eqI) (auto simp: bit_simps)
  then show "in_mask m FSM_WALK2_BOTH \<Longrightarrow> in_mask m (FSM_WALK2_BOTH OR FSM_WALK2_ONLYA)"
    unfolding in_mask_def by (metis zero_and_eq)
qed

lemma walk2_path_both:
  assumes "in_mask m FSM_WALK2_BOTH" and "\<not> in_mask m FSM_WALK2_ONLYA" and "\<not> in_mask m FSM_WALK2_ONLYB"
    and "qa \<noteq> None" and "qb \<noteq> None"
  shows "walk2_path m a b (qa, qb) w = (if opt_path a qa w = None \<or> opt_path b qb w = None then None else Some (opt_path a qa w, opt_path b qb w))"
  using assms(4,5)
proof (induction w arbitrary: qa qb)
  case (Cons c w)
  show ?case using Cons.IH in_mask_or2 [OF assms(1)] assms(2,3)
    by (cases "walk2_edges_of a qa c"; cases "walk2_edges_of b qb c") (auto simp: walk2_step_def)
qed simp

lemma walk2_path_a:
  assumes "in_mask m FSM_WALK2_ONLYA" and "\<not> in_mask m FSM_WALK2_ONLYB" and "qa \<noteq> None"
  shows "walk2_path m a b (qa, qb) w = (if opt_path a qa w = None then None else Some (opt_path a qa w, opt_path b qb w))"
  using assms(3)
proof (induction w arbitrary: qa qb)
  case (Cons c w)
  show ?case using Cons.IH in_mask_or [OF assms(1)] assms(1,2)
    by (cases "walk2_edges_of a qa c"; cases "walk2_edges_of b qb c") (auto simp: walk2_step_def)
qed simp

lemma walk2_path_any:
  assumes "in_mask m FSM_WALK2_ONLYA" and "in_mask m FSM_WALK2_ONLYB" and "qa \<noteq> None \<or> qb \<noteq> None"
  shows "walk2_path m a b (qa, qb) w =
    (if opt_path a qa w = None \<and> opt_path b qb w = None then None else Some (opt_path a qa w, opt_path b qb w))"
  using assms(3)
proof (induction w arbitrary: qa qb)
  case (Cons c w)
  show ?case using Cons.IH in_mask_or [OF assms(1)] assms(1,2)
    by (cases "walk2_edges_of a qa c"; cases "walk2_edges_of b qb c") (auto simp: walk2_step_def)
qed simp


text \<open>The runs of the new automaton are the paths of the product.\<close>

lemma walk2_runs:
  assumes inv: "w2_inv a b d" and t: "t \<in> w2_tuples d" "wt_comb t \<in> visited_set (w2_new d)"
    and compl: "\<And>x. x \<in> w2_tuples d \<Longrightarrow> wt_comb x \<in> visited_set (w2_new d) \<Longrightarrow> walk2_complete a b d x"
  shows "run (fsm_step (w2_new d)) (wt_comb t) w s \<longleftrightarrow>
    (\<exists>u \<in> w2_tuples d. wt_comb u = s \<and> walk2_path (w2_edgemask d) a b (tuple_key t) w = Some (tuple_key u))"
  using t
proof (induction w arbitrary: t)
  let ?f = "w2_new d"
  have eps: "\<not> fsm_step ?f p None q" for p q using inv unfolding w2_inv_def Let_def by blast
  have inj: "inj_on tuple_key (w2_tuples d)" by (rule w2_inv_count(1) [OF inv])
  case Nil
  have "run (fsm_step ?f) (wt_comb t) [] s \<longleftrightarrow> wt_comb t = s" using eps by (auto intro: run.intros elim: run.cases)
  then show ?case using Nil inj by (auto simp: inj_on_def)
next
  let ?f = "w2_new d" and ?m = "w2_edgemask d"
  have eps: "\<not> fsm_step ?f p None q" for p q using inv unfolding w2_inv_def Let_def by blast
  have inj: "inj_on tuple_key (w2_tuples d)" "inj_on wt_comb (w2_tuples d)"
    using w2_inv_count(1) [OF inv] inv by (auto simp: w2_inv_def Let_def bij_betw_def)
  case (Cons c w)
  note ct = compl [OF Cons.prems, unfolded walk2_done_def]
  have "run (fsm_step ?f) (wt_comb t) (c # w) s \<longleftrightarrow> (\<exists>p. fsm_step ?f (wt_comb t) (Some c) p \<and> run (fsm_step ?f) p w s)"
    using eps by (auto intro: run.intros elim: run.cases)
  also have "\<dots> \<longleftrightarrow> (\<exists>x \<in> w2_tuples d. wt_comb x \<in> visited_set ?f \<and> walk2_step ?m a b (tuple_key t) c = Some (tuple_key x) \<and>
      run (fsm_step ?f) (wt_comb x) w s)" (is "?l \<longleftrightarrow> ?r")
  proof
    assume ?l
    then obtain p where p: "fsm_step ?f (wt_comb t) (Some c) p" "run (fsm_step ?f) p w s" by blast
    then obtain x where x: "x \<in> w2_tuples d" "wt_comb x = p" "walk2_step ?m a b (tuple_key t) c = Some (tuple_key x)" using ct by blast
    then obtain u where "u \<in> w2_tuples d" "tuple_key u = tuple_key x" "wt_comb u \<in> visited_set ?f" using ct by blast
    then have "wt_comb x \<in> visited_set ?f" using inj(1) x(1) by (auto simp: inj_on_def)
    then show ?r using x p(2) by blast
  next
    assume ?r
    then obtain x where x: "x \<in> w2_tuples d" "walk2_step ?m a b (tuple_key t) c = Some (tuple_key x)" "run (fsm_step ?f) (wt_comb x) w s" by blast
    then obtain u where u: "u \<in> w2_tuples d" "tuple_key u = tuple_key x" "fsm_step ?f (wt_comb t) (Some c) (wt_comb u)" using ct by blast
    then have "u = x" using inj(1) x(1) by (auto simp: inj_on_def)
    then show ?l using u(3) x(3) by blast
  qed
  also have "\<dots> \<longleftrightarrow> (\<exists>u \<in> w2_tuples d. wt_comb u = s \<and> walk2_path ?m a b (tuple_key t) (c # w) = Some (tuple_key u))"
  proof (cases "walk2_step ?m a b (tuple_key t) c")
    case (Some k)
    then obtain x where x: "x \<in> w2_tuples d" "tuple_key x = k" "wt_comb x \<in> visited_set ?f" using ct by blast
    then have "(\<exists>y \<in> w2_tuples d. wt_comb y \<in> visited_set ?f \<and> k = tuple_key y \<and> run (fsm_step ?f) (wt_comb y) w s) \<longleftrightarrow>
        run (fsm_step ?f) (wt_comb x) w s" using inj(1) by (auto simp: inj_on_def)
    then show ?thesis using Some x Cons.IH [OF x(1,3)] by simp
  qed simp
  finally show ?case .
qed

lemma w2_setstart:
  assumes inv: "w2_inv a b d" and s: "s < statecount (w2_new d)"
  shows "wp (fsm_setstart (w2_new d) s) (\<lambda>f. w2_inv a b (d\<lparr>w2_new := f\<rparr>) \<and> visited_set f = visited_set (w2_new d) \<and>
    n_start (fsm_nfa f) = Some s)"
proof -
  have fi: "fsm_inv (w2_new d)" using inv by (simp add: w2_inv_def Let_def)
  obtain f where run: "fsm_setstart (w2_new d) s = Some f" and f: "fsm_inv f" "fsm_nfa f = (fsm_nfa (w2_new d))\<lparr>n_start := Some s\<rparr>"
    "f_states f = f_states (w2_new d)" "fsm_meta f = fsm_meta (w2_new d)"
    using fsm_setstart_wp [OF fi s] by (auto simp: wp_iff_ex)
  have step: "fsm_step f = fsm_step (w2_new d)" using f(3) by (simp add: fsm_step_def)
  have vis: "visited_set f = visited_set (w2_new d)" using f(3) by (simp add: visited_set_def)
  have meta: "f_endid_info f = f_endid_info (w2_new d)" "f_eager_output_info f = f_eager_output_info (w2_new d)"
    "f_capture_info f = f_capture_info (w2_new d)" using f(4) by (auto simp: fsm_meta_def)
  have "meta_ok f = meta_ok (w2_new d)" by (simp add: meta_ok_def meta f(3))
  then have "w2_inv a b (d\<lparr>w2_new := f\<rparr>)" using inv f(1) unfolding w2_inv_def Let_def by (simp add: w2_tuples_def meta vis step f(2,3))
  then show ?thesis using run vis f(2) by simp
qed


lemma walk2_path_tuples:
  assumes inv: "w2_inv a b d" and t: "t \<in> w2_tuples d" "wt_comb t \<in> visited_set (w2_new d)"
    and compl: "\<And>x. x \<in> w2_tuples d \<Longrightarrow> wt_comb x \<in> visited_set (w2_new d) \<Longrightarrow> walk2_complete a b d x"
    and "walk2_path (w2_edgemask d) a b (tuple_key t) w = Some k"
  shows "\<exists>u \<in> w2_tuples d. tuple_key u = k"
  using t assms(5)
proof (induction w arbitrary: t)
  case (Cons c w)
  then obtain k' where k': "walk2_step (w2_edgemask d) a b (tuple_key t) c = Some k'" "walk2_path (w2_edgemask d) a b k' w = Some k"
    by (auto split: option.splits)
  obtain u where "u \<in> w2_tuples d" "tuple_key u = k'" "wt_comb u \<in> visited_set (w2_new d)"
    using compl [OF Cons.prems(1,2)] k'(1) unfolding walk2_done_def by blast
  then show ?case using Cons.IH [of u] k'(2) by blast
qed auto

definition walk2_product :: "fsm \<Rightarrow> fsm \<Rightarrow> mask4 \<Rightarrow> mask4 \<Rightarrow> walk2_key \<Rightarrow> fsm \<Rightarrow> bool" where
  "walk2_product a b edgemask endmask k0 f \<longleftrightarrow> fsm_inv f \<and> meta_ok f \<and> (\<forall>s. eager_ids (f_eager_output_info f) s = []) \<and>
     f_capture_info f = capture_none \<and> f_hasstart f \<and> (\<forall>s < statecount f. dfa_state f s) \<and>
     fsm_language f = {w. \<exists>k. walk2_path edgemask a b k0 w = Some k \<and> walk2_end endmask a b k} \<and>
     (\<forall>w s. run (fsm_step f) (f_start f) w s \<longrightarrow>
        (\<exists>k. walk2_path edgemask a b k0 w = Some k \<and> endid_ids (f_endid_info f) s = walk2_ids endmask a b k))"

lemma walk2_complete_product:
  assumes inv: "w2_inv a b d" and t: "t \<in> w2_tuples d" "wt_comb t \<in> visited_set (w2_new d)" and start: "n_start (fsm_nfa (w2_new d)) = Some (wt_comb t)"
    and compl: "\<And>x. x \<in> w2_tuples d \<Longrightarrow> wt_comb x \<in> visited_set (w2_new d) \<Longrightarrow> walk2_complete a b d x"
  shows "walk2_product a b (w2_edgemask d) (w2_endmask d) (tuple_key t) (w2_new d)"
proof -
  let ?f = "w2_new d"
  have I: "fsm_inv ?f" "meta_ok ?f" "\<forall>s. eager_ids (f_eager_output_info ?f) s = []" "f_capture_info ?f = capture_none"
    "\<forall>t \<in> w2_tuples d. n_end (fsm_nfa ?f) (wt_comb t) = walk2_end (w2_endmask d) a b (tuple_key t)"
    "\<forall>t \<in> w2_tuples d. endid_ids (f_endid_info ?f) (wt_comb t) = walk2_ids (w2_endmask d) a b (tuple_key t)"
    "\<forall>s t. \<not> fsm_step ?f s None t" "\<forall>s l t. fsm_step ?f s l t \<longrightarrow> s \<in> visited_set ?f" "bij_betw wt_comb (w2_tuples d) {..<statecount ?f}"
    using inv unfolding w2_inv_def Let_def by blast+
  have runs: "run (fsm_step ?f) (wt_comb t) w s \<longleftrightarrow>
      (\<exists>u \<in> w2_tuples d. wt_comb u = s \<and> walk2_path (w2_edgemask d) a b (tuple_key t) w = Some (tuple_key u))" for w s
    by (rule walk2_runs [OF inv t]) (rule compl)
  have hs: "f_hasstart ?f" "f_start ?f = wt_comb t" using start by (auto simp: fsm_nfa_def split: if_splits)
  have "w \<in> fsm_language ?f \<longleftrightarrow> (\<exists>k. walk2_path (w2_edgemask d) a b (tuple_key t) w = Some k \<and> walk2_end (w2_endmask d) a b k)" for w
  proof -
    have "w \<in> fsm_language ?f \<longleftrightarrow> (\<exists>s. run (fsm_step ?f) (wt_comb t) w s \<and> n_end (fsm_nfa ?f) s)"
      using start by (simp add: fsm_language_def in_language fsm_nfa_def)
    also have "\<dots> \<longleftrightarrow> (\<exists>u \<in> w2_tuples d. walk2_path (w2_edgemask d) a b (tuple_key t) w = Some (tuple_key u) \<and> walk2_end (w2_endmask d) a b (tuple_key u))"
      unfolding runs using I(5) by blast
    also have "\<dots> \<longleftrightarrow> (\<exists>k. walk2_path (w2_edgemask d) a b (tuple_key t) w = Some k \<and> walk2_end (w2_endmask d) a b k)"
    proof
      assume "\<exists>k. walk2_path (w2_edgemask d) a b (tuple_key t) w = Some k \<and> walk2_end (w2_endmask d) a b k"
      then obtain k where k: "walk2_path (w2_edgemask d) a b (tuple_key t) w = Some k" "walk2_end (w2_endmask d) a b k" by blast
      have "\<exists>u \<in> w2_tuples d. tuple_key u = k" by (rule walk2_path_tuples [OF inv t _ k(1)]) (rule compl)
      then show "\<exists>u \<in> w2_tuples d. walk2_path (w2_edgemask d) a b (tuple_key t) w = Some (tuple_key u) \<and> walk2_end (w2_endmask d) a b (tuple_key u)"
        using k by blast
    qed blast
    finally show ?thesis .
  qed
  then have lang: "fsm_language ?f = {w. \<exists>k. walk2_path (w2_edgemask d) a b (tuple_key t) w = Some k \<and> walk2_end (w2_endmask d) a b k}" by blast
  have dfa: "dfa_state ?f s" if s: "s < statecount ?f" for s
    unfolding dfa_state_def
  proof (intro conjI allI impI)
    fix c x y assume x: "fsm_step ?f s (Some c) x" and y: "fsm_step ?f s (Some c) y"
    have "s \<in> wt_comb ` w2_tuples d" using I(9) s by (auto simp: bij_betw_def)
    then obtain u where u: "u \<in> w2_tuples d" "wt_comb u = s" by auto
    have "s \<in> visited_set ?f" using I(8) x by blast
    note cu = compl [OF u(1), unfolded u(2), OF this, unfolded walk2_done_def u(2)]
    obtain x' y' where "x' \<in> w2_tuples d" "wt_comb x' = x" "y' \<in> w2_tuples d" "wt_comb y' = y" "tuple_key x' = tuple_key y'"
      using cu x y by (metis option.inject)
    then show "x = y" using w2_inv_count(1) [OF inv] by (auto simp: inj_on_def)
  qed (use I(7) in blast)
  show ?thesis
    unfolding walk2_product_def lang hs runs using I(1-4,6) hs(1) dfa by blast
qed


lemma isdfa_all:
  assumes "fsm_inv f" and "\<forall>s < statecount f. dfa_state f s" and "f_hasstart f \<or> statecount f = 0"
  shows "fsm_all f fsm_isdfa = Some True"
proof -
  have "fsm_all f fsm_isdfa = Some (\<forall>s < statecount f. f_hasstart f \<and> dfa_state f s)"
    using fsm_isdfa_eq [OF assms(1)] by (intro fsm_all_eq) (simp add: dfa_state_def)
  then show ?thesis using assms(2,3) by auto
qed

lemma w2_inv_new:
  "wp (fsm_new []) (\<lambda>(r, al). al = [] \<and> (\<exists>f. r = Some f \<and> fsm_inv f \<and> f_states f = [] \<and>
     w2_inv a b \<lparr>w2_top = None, w2_new = f, w2_states = \<lparr>is_a = [], is_n = ITEM_SET_INITIAL\<rparr>, w2_endmask = em, w2_edgemask = nm\<rparr>))"
proof -
  obtain f where run: "fsm_new [] = Some (Some f, [])" and f: "meta_ok f" "fsm_blank f" "length (en_buckets (f_endid_info f)) = 4" "en_used (f_endid_info f) = 0"
    using fsm_new_statealloc_fields [of FSM_DEFAULT_STATEALLOC] by (auto simp: fsm_new_def elim!: wpE2)
  have "fsm_inv f" using fsm_new_wp run by simp
  then show ?thesis
    unfolding run using f
    by (auto simp: w2_inv_def Let_def w2_tuples_def fsm_blank_def tset.set_ok_def ITEM_SET_INITIAL_def fsm_step_def step_in_def bij_betw_def)
qed

lemma fsm_walk2_product_wp:
  assumes in': "walk2_input a b" and sa: "n_start (fsm_nfa a) = Some sa" and sb: "n_start (fsm_nfa b) = Some sb"
  shows "wp (fsm_walk2 [] a b edgemask endmask) (\<lambda>(r, al'). al' = [] \<and>
    (\<exists>f. r = Some f \<and> walk2_product a b (ucast edgemask) (ucast endmask) (Some sa, Some sb) f \<and>
      visited_set f = {..<statecount f}))"
proof -
  have inv: "fsm_inv a" "fsm_inv b" and dfa: "\<forall>s < statecount a. dfa_state a s" "\<forall>s < statecount b. dfa_state b s"
    using in' by (auto simp: walk2_input_def)
  have hs: "f_hasstart a" "f_hasstart b" using sa sb by (auto simp: fsm_nfa_def split: if_splits)
  have lt: "sa < statecount a" "sb < statecount b" using inv sa sb by (auto simp: fsm_nfa_def fsm_inv_def split: if_splits)
  have all: "fsm_all a fsm_isdfa = Some True" "fsm_all b fsm_isdfa = Some True" using inv dfa hs by (auto intro: isdfa_all)
  define d where "d f = \<lparr>w2_top = None, w2_new = f, w2_states = \<lparr>is_a = [], is_n = ITEM_SET_INITIAL\<rparr>, w2_endmask = ucast endmask, w2_edgemask = ucast edgemask\<rparr>" for f
  obtain f where new: "fsm_new [] = Some (Some f, [])" and f: "f_states f = []" "w2_inv a b (d f)"
    using w2_inv_new [of a b "ucast endmask" "ucast edgemask"] unfolding d_def by (auto elim!: wpE2)
  have k: "(Some sa, Some sb) \<in> walk2_keys a b" using lt by (simp add: walk2_keys_def)
  obtain t d1 where run1: "fsm_walk2_tuple_new [] (d f) a (Some sa) b (Some sb) = Some (Some t, d1, [])"
    and 1: "w2_inv a b d1" "w2_same (d f) d1" "t \<in> w2_tuples d1" "tuple_key t = (Some sa, Some sb)"
      "w2_tuples d1 \<subseteq> insert t (w2_tuples (d f))"
    by (rule wpE3 [OF fsm_walk2_tuple_new_wp [OF f(2) in' k]]) auto
  have vis1: "visited_set (w2_new d1) = {}" using 1(2) f(1) by (simp add: w2_same_def d_def visited_set_def)
  have c: "wt_comb t < statecount (w2_new d1)" using 1(1,3) by (auto simp: w2_inv_def Let_def bij_betw_def)
  have nv: "\<not> st_visited (f_states (w2_new d1) ! wt_comb t)" using vis1 c by (auto simp: visited_set_def)
  obtain g where run2: "fsm_setstart (w2_new d1) (wt_comb t) = Some g" and 2: "w2_inv a b (d1\<lparr>w2_new := g\<rparr>)" "visited_set g = {}"
    "n_start (fsm_nfa g) = Some (wt_comb t)" using w2_setstart [OF 1(1) c] vis1 by (auto simp: wp_iff_ex)
  let ?d = "d1\<lparr>w2_new := g\<rparr>"
  have t: "t \<in> w2_tuples ?d" using 1(3) by (simp add: w2_tuples_def)
  obtain d2 where run3: "fsm_walk2_edges (a, b, t, ?d, []) = Some (True, d2, [])" and 3: "w2_inv a b d2" "w2_ext {} ?d d2"
    "wt_comb t \<in> visited_set (w2_new d2)"
    "\<forall>x \<in> w2_tuples d2. wt_comb x \<in> visited_set (w2_new d2) - visited_set (w2_new ?d) \<longrightarrow> walk2_complete a b d2 x"
    "\<forall>x \<in> w2_tuples d2 - w2_tuples ?d. wt_comb x \<in> visited_set (w2_new d2)"
    by (rule wpE3 [OF fsm_walk2_edges_wp [OF in' 2(1) t]]) (use 2(2) in \<open>auto simp: walk2_visited_def\<close>)
  have e: "w2_edgemask d2 = ucast edgemask" "w2_endmask d2 = ucast endmask" "n_start (fsm_nfa (w2_new d2)) = Some (wt_comb t)" "t \<in> w2_tuples d2"
    using 3(2) 1(2) 2(3) t by (auto simp: w2_ext_def w2_same_def d_def)
  have "walk2_product a b (w2_edgemask d2) (w2_endmask d2) (tuple_key t) (w2_new d2)"
    by (rule walk2_complete_product [OF 3(1) e(4) 3(3) e(3)]) (use 3(4) 2(2) in auto)
  moreover have "visited_set (w2_new d2) = {..<statecount (w2_new d2)}"
  proof
    have "w2_tuples ?d \<subseteq> {t}" using 1(5) by (simp add: w2_tuples_def d_def)
    then have "wt_comb ` w2_tuples d2 \<subseteq> visited_set (w2_new d2)" using 3(3,5) by blast
    then show "{..<statecount (w2_new d2)} \<subseteq> visited_set (w2_new d2)" using 3(1) by (simp add: w2_inv_def Let_def bij_betw_def)
  qed (auto simp: visited_set_def)
  moreover have "fsm_walk2 [] a b edgemask endmask = Some (Some (w2_new d2), [])"
    using all inv sa sb new run1 run2 run3 c nv 1(4)
    by (simp add: fsm_walk2_def c_assert_def fsm_getstart_wp set_create_def d_def [symmetric] tuple_key_def)
  ultimately show ?thesis using e 1(4) by simp
qed


section \<open>Intersection, difference and union\<close>

text \<open>The pairs of masks for these, and what they make of two languages.\<close>

definition walk2_intersect :: "32 word \<times> 32 word" where
  "walk2_intersect = (FSM_WALK2_BOTH, FSM_WALK2_BOTH)"

definition walk2_subtract :: "32 word \<times> 32 word" where
  "walk2_subtract = (FSM_WALK2_ONLYA OR FSM_WALK2_BOTH, FSM_WALK2_ONLYA)"

definition walk2_union :: "32 word \<times> 32 word" where
  "walk2_union = (FSM_WALK2_ONLYA OR FSM_WALK2_ONLYB OR FSM_WALK2_BOTH, FSM_WALK2_ONLYA OR FSM_WALK2_ONLYB OR FSM_WALK2_BOTH)"

lemmas walk2_mask_defs = FSM_WALK2_NEITHER_def FSM_WALK2_ONLYA_def FSM_WALK2_ONLYB_def FSM_WALK2_BOTH_def

lemma walk2_masks:
  "in_mask (ucast FSM_WALK2_BOTH) FSM_WALK2_BOTH" "\<not> in_mask (ucast FSM_WALK2_BOTH) FSM_WALK2_ONLYA" "\<not> in_mask (ucast FSM_WALK2_BOTH) FSM_WALK2_ONLYB"
  "in_mask (ucast (FSM_WALK2_ONLYA OR FSM_WALK2_BOTH)) FSM_WALK2_ONLYA" "\<not> in_mask (ucast (FSM_WALK2_ONLYA OR FSM_WALK2_BOTH)) FSM_WALK2_ONLYB"
  "in_mask (ucast (FSM_WALK2_ONLYA OR FSM_WALK2_ONLYB OR FSM_WALK2_BOTH)) FSM_WALK2_ONLYA"
  "in_mask (ucast (FSM_WALK2_ONLYA OR FSM_WALK2_ONLYB OR FSM_WALK2_BOTH)) FSM_WALK2_ONLYB"
  by (simp_all add: in_mask_def walk2_mask_defs)

lemma walk2_ends:
  "in_mask (ucast FSM_WALK2_BOTH) (walk2mask x y) \<longleftrightarrow> x \<and> y" "in_mask (ucast FSM_WALK2_ONLYA) (walk2mask x y) \<longleftrightarrow> x \<and> \<not> y"
  "in_mask (ucast (FSM_WALK2_ONLYA OR FSM_WALK2_ONLYB OR FSM_WALK2_BOTH)) (walk2mask x y) \<longleftrightarrow> x \<or> y"
  by (simp_all add: in_mask_def walk2mask_def walk2_mask_defs)


definition walk2_lang :: "32 word \<times> 32 word \<Rightarrow> octet list set \<Rightarrow> octet list set \<Rightarrow> octet list set" where
  "walk2_lang op A B = (if op = walk2_intersect then A \<inter> B else if op = walk2_subtract then A - B else A \<union> B)"

definition walk2_result :: "fsm \<Rightarrow> fsm \<Rightarrow> octet list set \<Rightarrow> fsm \<Rightarrow> bool" where
  "walk2_result a b L f \<longleftrightarrow> fsm_inv f \<and> meta_ok f \<and> (\<forall>s < statecount f. dfa_state f s) \<and> (f_hasstart f \<or> statecount f = 0) \<and> fsm_language f = L \<and>
     (\<forall>w s. n_start (fsm_nfa f) = Some (f_start f) \<longrightarrow> run (fsm_step f) (f_start f) w s \<longrightarrow> n_end (fsm_nfa f) s \<longrightarrow>
        set (endid_ids (f_endid_info f) s) =
          set (opt_ids a (opt_path a (n_start (fsm_nfa a)) w)) \<union> set (opt_ids b (opt_path b (n_start (fsm_nfa b)) w)))"

lemma walk2_op_paths:
  assumes "op = walk2_intersect \<or> op = walk2_subtract \<or> op = walk2_union" and "qa \<noteq> None" and "qb \<noteq> None"
    and pa_def: "pa = opt_path a qa w" and pb_def: "pb = opt_path b qb w"
  shows "walk2_path (ucast (fst op)) a b (qa, qb) w = Some k \<Longrightarrow> k = (pa, pb)"
    and "(\<exists>k. walk2_path (ucast (fst op)) a b (qa, qb) w = Some k \<and> walk2_end (ucast (snd op)) a b k) \<longleftrightarrow>
      (if op = walk2_intersect then opt_end a pa \<and> opt_end b pb else if op = walk2_subtract then opt_end a pa \<and> \<not> opt_end b pb else opt_end a pa \<or> opt_end b pb)"
proof -
  have ne: "walk2_subtract \<noteq> walk2_intersect" "walk2_union \<noteq> walk2_intersect" "walk2_union \<noteq> walk2_subtract"
    by (simp_all add: walk2_intersect_def walk2_subtract_def walk2_union_def walk2_mask_defs)
  have none: "\<not> opt_end f None" for f by (simp add: opt_end_def)
  note defs = walk2_intersect_def walk2_subtract_def walk2_union_def
  consider "op = walk2_intersect" | "op = walk2_subtract" | "op = walk2_union" using assms(1) by blast
  then have "(walk2_path (ucast (fst op)) a b (qa, qb) w = Some k \<longrightarrow> k = (pa, pb)) \<and>
      ((\<exists>k. walk2_path (ucast (fst op)) a b (qa, qb) w = Some k \<and> walk2_end (ucast (snd op)) a b k) \<longleftrightarrow>
      (if op = walk2_intersect then opt_end a pa \<and> opt_end b pb else if op = walk2_subtract then opt_end a pa \<and> \<not> opt_end b pb else opt_end a pa \<or> opt_end b pb))"
  proof cases
    case 1
    have "walk2_path (ucast FSM_WALK2_BOTH) a b (qa, qb) w = (if pa = None \<or> pb = None then None else Some (pa, pb))"
      unfolding pa_def pb_def by (rule walk2_path_both [OF walk2_masks(1,2,3) assms(2,3)])
    then show ?thesis using 1 none by (auto simp: walk2_end_def walk2_ends defs)
  next
    case 2
    have "walk2_path (ucast (FSM_WALK2_ONLYA OR FSM_WALK2_BOTH)) a b (qa, qb) w = (if pa = None then None else Some (pa, pb))"
      unfolding pa_def pb_def by (rule walk2_path_a [OF walk2_masks(4,5) assms(2)])
    then show ?thesis using 2 ne none unfolding 2 by (auto simp: walk2_end_def walk2_ends walk2_subtract_def)
  next
    case 3
    have "walk2_path (ucast (FSM_WALK2_ONLYA OR FSM_WALK2_ONLYB OR FSM_WALK2_BOTH)) a b (qa, qb) w = (if pa = None \<and> pb = None then None else Some (pa, pb))"
      unfolding pa_def pb_def by (rule walk2_path_any [OF walk2_masks(6,7)]) (use assms(2) in simp)
    then show ?thesis using ne none unfolding 3 by (auto simp: walk2_end_def walk2_ends walk2_union_def)
  qed
  then show "walk2_path (ucast (fst op)) a b (qa, qb) w = Some k \<Longrightarrow> k = (pa, pb)"
    and "(\<exists>k. walk2_path (ucast (fst op)) a b (qa, qb) w = Some k \<and> walk2_end (ucast (snd op)) a b k) \<longleftrightarrow>
      (if op = walk2_intersect then opt_end a pa \<and> opt_end b pb else if op = walk2_subtract then opt_end a pa \<and> \<not> opt_end b pb else opt_end a pa \<or> opt_end b pb)"
    by blast+
qed

lemma walk2_product_result:
  assumes in': "walk2_input a b" and sa: "n_start (fsm_nfa a) = Some sa" and sb: "n_start (fsm_nfa b) = Some sb"
    and op: "op = walk2_intersect \<or> op = walk2_subtract \<or> op = walk2_union"
    and prod: "walk2_product a b (ucast (fst op)) (ucast (snd op)) (Some sa, Some sb) f"
  shows "walk2_result a b (walk2_lang op (fsm_language a) (fsm_language b)) f"
proof -
  have inv: "fsm_inv a" "fsm_inv b" and dfa: "\<forall>s < statecount a. dfa_state a s" "\<forall>s < statecount b. dfa_state b s"
    using in' by (auto simp: walk2_input_def)
  have path: "k = (opt_path a (Some sa) w, opt_path b (Some sb) w)" if "walk2_path (ucast (fst op)) a b (Some sa, Some sb) w = Some k" for w k
    by (rule walk2_op_paths(1) [OF op _ _ refl refl that]) simp_all
  have accept: "(\<exists>k. walk2_path (ucast (fst op)) a b (Some sa, Some sb) w = Some k \<and> walk2_end (ucast (snd op)) a b k) \<longleftrightarrow>
      (if op = walk2_intersect then opt_end a (opt_path a (Some sa) w) \<and> opt_end b (opt_path b (Some sb) w)
       else if op = walk2_subtract then opt_end a (opt_path a (Some sa) w) \<and> \<not> opt_end b (opt_path b (Some sb) w)
       else opt_end a (opt_path a (Some sa) w) \<or> opt_end b (opt_path b (Some sb) w))" for w
    by (rule walk2_op_paths(2) [OF op _ _ refl refl]) simp_all
  have "w \<in> fsm_language f \<longleftrightarrow> w \<in> walk2_lang op (fsm_language a) (fsm_language b)" for w
  proof -
    have "w \<in> fsm_language f \<longleftrightarrow> (\<exists>k. walk2_path (ucast (fst op)) a b (Some sa, Some sb) w = Some k \<and> walk2_end (ucast (snd op)) a b k)"
      using prod by (simp add: walk2_product_def)
    then show ?thesis
      unfolding accept opt_path_language [OF inv(1) dfa(1) sa, symmetric] opt_path_language [OF inv(2) dfa(2) sb, symmetric]
      by (simp add: walk2_lang_def)
  qed
  moreover have "set (endid_ids (f_endid_info f) s) = set (opt_ids a (opt_path a (Some sa) w)) \<union> set (opt_ids b (opt_path b (Some sb) w))"
    if r: "run (fsm_step f) (f_start f) w s" and e: "n_end (fsm_nfa f) s" and st: "n_start (fsm_nfa f) = Some (f_start f)" for w s
  proof -
    obtain k where k: "walk2_path (ucast (fst op)) a b (Some sa, Some sb) w = Some k" "endid_ids (f_endid_info f) s = walk2_ids (ucast (snd op)) a b k"
      using prod r unfolding walk2_product_def by blast
    have kk: "k = (opt_path a (Some sa) w, opt_path b (Some sb) w)" by (rule path [OF k(1)])
    have "w \<in> fsm_language f" using r e st by (auto simp: fsm_language_def in_language fsm_nfa_def)
    then obtain k' where "walk2_path (ucast (fst op)) a b (Some sa, Some sb) w = Some k'" "walk2_end (ucast (snd op)) a b k'"
      using prod unfolding walk2_product_def by blast
    then show ?thesis using k kk by (auto simp: walk2_ids_def)
  qed
  ultimately show ?thesis using prod sa sb by (auto simp: walk2_result_def walk2_product_def)
qed

text \<open>Without two starts the result is a new automaton, or a copy of the input that has one.\<close>

lemma no_start_language: "n_start (fsm_nfa f) = None \<Longrightarrow> fsm_language f = {}"
  by (simp add: fsm_language_def language_def)

lemma walk2_result_new: "wp (fsm_new []) (\<lambda>(r, al'). al' = [] \<and> (\<exists>f. r = Some f \<and> walk2_result a b {} f))"
proof (rule wp_mono [OF fsm_new_wp], clarify)
  fix r :: "fsm option"
  assume r: "case r of None \<Rightarrow> False | Some f \<Rightarrow> fsm_inv f \<and> meta_ok f \<and> fsm_blank f"
  then obtain f where f: "r = Some f" "fsm_inv f" "meta_ok f" "fsm_blank f" by (cases r) auto
  have "n_start (fsm_nfa f) = None" "f_states f = []" using f(4) by (simp_all add: fsm_blank_def fsm_nfa_def)
  then have "walk2_result a b {} f" using f(2,3) no_start_language [of f] by (simp add: walk2_result_def)
  then show "[] = [] \<and> (\<exists>f. r = Some f \<and> walk2_result a b {} f)" using f(1) by simp
qed

lemma walk2_result_copy:
  assumes g: "g = a \<and> n_start (fsm_nfa b) = None \<or> g = b \<and> n_start (fsm_nfa a) = None" and start: "n_start (fsm_nfa g) \<noteq> None"
    and gw: "fsm_wf g" "clone_room g" "fsm_inv g" "\<forall>s < statecount g. dfa_state g s"
  shows "wp (fsm_clone [] g) (\<lambda>(r, al'). al' = [] \<and> (\<exists>f. r = Some f \<and> walk2_result a b (fsm_language g) f))"
proof -
  have hs: "f_hasstart g" using start by (auto simp: fsm_nfa_def split: if_splits)
  have gs: "f_start g < statecount g" using gw(3) hs by (simp add: fsm_inv_def)
  show ?thesis
  proof (rule wp_mono [OF fsm_clone_wp [OF gw(1,2)]], clarify, intro exI conjI)
    fix f assume f: "fsm_wf f" "fsm_nfa f = fsm_nfa g" "statecount f = statecount g" "endid_ids (f_endid_info f) = endid_ids (f_endid_info g)"
    have step: "fsm_step f = fsm_step g" using arg_cong [OF f(2), of n_step] by (simp add: fsm_nfa_def)
    have st: "f_hasstart f" "f_start f = f_start g" using arg_cong [OF f(2), of n_start] hs by (auto simp: fsm_nfa_def split: if_splits)
    have ids: "set (endid_ids (f_endid_info g) s) = set (opt_ids a (opt_path a (n_start (fsm_nfa a)) w)) \<union> set (opt_ids b (opt_path b (n_start (fsm_nfa b)) w))"
      if "run (fsm_step g) (f_start g) w s" "n_end (fsm_nfa g) s" for w s
    proof -
      have "opt_path g (Some (f_start g)) w = Some s" using opt_path_run [OF gw(3,4) gs] that(1) by blast
      then show ?thesis using g hs that(2) by (auto simp: opt_ids_def fsm_nfa_def)
    qed
    have "fsm_inv f" "meta_ok f" using f(1) by (auto simp: fsm_wf_def)
    then show "walk2_result a b (fsm_language g) f"
      using f st ids gw(4) by (simp add: walk2_result_def step dfa_state_def fsm_language_def)
  qed simp_all
qed

lemma fsm_walk2_wp:
  assumes in': "walk2_input a b" and wf: "fsm_wf a" "fsm_wf b" "clone_room a" "clone_room b"
    and start: "f_hasstart a \<or> statecount a = 0" "f_hasstart b \<or> statecount b = 0"
    and op: "op = walk2_intersect \<or> op = walk2_subtract \<or> op = walk2_union"
  shows "wp (fsm_walk2 [] a b (fst op) (snd op)) (\<lambda>(r, al'). al' = [] \<and>
    (\<exists>f. r = Some f \<and> walk2_result a b (walk2_lang op (fsm_language a) (fsm_language b)) f))"
proof -
  have inv: "fsm_inv a" "fsm_inv b" and dfa: "\<forall>s < statecount a. dfa_state a s" "\<forall>s < statecount b. dfa_state b s"
    using in' by (auto simp: walk2_input_def)
  have all: "fsm_all a fsm_isdfa = Some True" "fsm_all b fsm_isdfa = Some True" using inv dfa start by (auto intro: isdfa_all)
  note simps = fsm_walk2_def all c_assert_def fsm_getstart_wp [OF inv(1)] fsm_getstart_wp [OF inv(2)]
  note none = no_start_language and blank = walk2_result_new [of a b]
  note copy_a = walk2_result_copy [of a a b, OF _ _ wf(1,3) inv(1) dfa(1)] and copy_b = walk2_result_copy [of b a b, OF _ _ wf(2,4) inv(2) dfa(2)]
  have ne: "walk2_subtract \<noteq> walk2_intersect" "walk2_union \<noteq> walk2_intersect" "walk2_union \<noteq> walk2_subtract"
    by (simp_all add: walk2_intersect_def walk2_subtract_def walk2_union_def walk2_mask_defs)
  have bits: "snd op AND FSM_WALK2_ONLYA = 0 \<longleftrightarrow> op = walk2_intersect" "snd op AND FSM_WALK2_ONLYB = 0 \<longleftrightarrow> op \<noteq> walk2_union"
    using op ne by (auto simp: walk2_intersect_def walk2_subtract_def walk2_union_def walk2_mask_defs)
  show ?thesis
  proof (cases "n_start (fsm_nfa a)"; cases "n_start (fsm_nfa b)")
    fix sa sb assume s: "n_start (fsm_nfa a) = Some sa" "n_start (fsm_nfa b) = Some sb"
    show ?thesis
      by (rule wp_mono [OF fsm_walk2_product_wp [OF in' s, of "fst op" "snd op"]]) (use walk2_product_result [OF in' s op] in auto)
  next
    assume s: "n_start (fsm_nfa a) = None" "n_start (fsm_nfa b) = None"
    then show ?thesis using blank none by (simp add: simps walk2_lang_def)
  next
    fix sa assume s: "n_start (fsm_nfa a) = Some sa" "n_start (fsm_nfa b) = None"
    then show ?thesis using blank copy_a none [of b] bits(1) by (cases "op = walk2_intersect") (simp_all add: simps walk2_lang_def)
  next
    fix sb assume s: "n_start (fsm_nfa a) = None" "n_start (fsm_nfa b) = Some sb"
    then show ?thesis using blank copy_b none [of a] bits(2) ne op by (cases "op = walk2_union") (auto simp: simps walk2_lang_def)
  qed
qed

end
