(* ===== verification/Fsm_Examples.thy ===== *)
theory Fsm_Examples
  imports Fsm_Combine Fsm_Exec Fsm_Walk2
begin

text \<open>
  Small automata on which the general results are instantiated.
\<close>

section \<open>Building blocks\<close>

definition one_edge :: "octet \<Rightarrow> fsm_state_t \<Rightarrow> edge_set" where
  "one_edge c t = ES \<lparr>es_ceil = DEF_EDGE_GROUP_CEIL, es_groups = [\<lparr>eg_symbols = SYMBOLS_SET symbols_zero c, eg_to = t\<rparr>]\<rparr>"

definition mk_state :: "edge_set \<Rightarrow> state_set \<Rightarrow> bool \<Rightarrow> fsm_state" where
  "mk_state es ss e = (new_state False)\<lparr>st_edges := es, st_epsilons := ss, st_end := e\<rparr>"

text \<open>The tables are those of a new automaton.\<close>

definition mk_fsm :: "fsm_state list \<Rightarrow> fsm_state_t \<Rightarrow> fsm" where
  "mk_fsm sts s = \<lparr>f_states = sts, f_spare = [False], f_endcount = length (filter st_end sts),
     f_hasstart = True, f_start = s, f_capture_info = capture_none,
     f_endid_info = \<lparr>en_buckets = replicate DEF_BUCKET_COUNT eb_empty, en_used = 0\<rparr>,
     f_eager_output_info = \<lparr>eo_buckets = replicate DEF_EAGER_BUCKET_COUNT ob_empty, eo_used = 0\<rparr>,
     f_linkage_info = None\<rparr>"

lemma one_edge_ok [simp]:
  "t < state_limit \<Longrightarrow> es_inv (one_edge c t)" "es_edges (one_edge c t) = {(c, t)}" "es_tos (one_edge c t) = {t}"
  "one_edge c t \<noteq> ES_Null"
  by (simp_all add: one_edge_def groups_ok_def group_ok_def symset_SYMBOLS_SET group_edges_def groups_edges_def
      DEF_EDGE_GROUP_CEIL_def)

lemma mk_state_sel [simp]:
  "st_edges (mk_state es ss e) = es" "st_epsilons (mk_state es ss e) = ss" "st_end (mk_state es ss e) = e"
  by (simp_all add: mk_state_def)

lemma mk_fsm_sel [simp]:
  "f_states (mk_fsm sts s) = sts" "f_start (mk_fsm sts s) = s" "f_hasstart (mk_fsm sts s)"
  by (simp_all add: mk_fsm_def)

lemma mk_fsm_inv:
  "fsm_inv (mk_fsm sts s) \<longleftrightarrow> (\<forall>st \<in> set sts. state_ok (length sts) st) \<and> length sts \<le> edge_state_limit \<and> s < length sts"
  by (auto simp: mk_fsm_def fsm_inv_def statealloc_def)

lemma mk_fsm_meta: "meta_ok (mk_fsm sts s)"
  using new_endids new_eager by (simp add: mk_fsm_def meta_ok_def)

lemma mk_fsm_tables [simp]:
  "f_capture_info (mk_fsm sts s) = capture_none" "f_endcount (mk_fsm sts s) = length (filter st_end sts)"
  "en_used (f_endid_info (mk_fsm sts s)) = 0" "length (en_buckets (f_endid_info (mk_fsm sts s))) = 4"
  "eo_used (f_eager_output_info (mk_fsm sts s)) = 0" "length (eo_buckets (f_eager_output_info (mk_fsm sts s))) = 4"
  "endid_ids (f_endid_info (mk_fsm sts s)) t = []" "eager_ids (f_eager_output_info (mk_fsm sts s)) t = []"
  "endid_pairs (f_endid_info (mk_fsm sts s)) = []" "eager_pairs (f_eager_output_info (mk_fsm sts s)) = []"
  using new_endids_none [of t] new_eager_none [of t]
  by (simp_all add: mk_fsm_def DEF_BUCKET_COUNT_def DEF_EAGER_BUCKET_COUNT_def endid_pairs_def eager_pairs_def eb_empty_def ob_empty_def
      BUCKET_NO_STATE_def)

lemma mk_fsm_wf:
  "fsm_wf (mk_fsm sts s) \<longleftrightarrow> (\<forall>st \<in> set sts. state_ok (length sts) st \<and> es_tos (st_edges st) \<subseteq> snd ` es_edges (st_edges st)) \<and>
     length sts \<le> edge_state_limit \<and> s < length sts"
  using mk_fsm_meta [of sts s]
  by (auto simp: fsm_wf_def mk_fsm_inv fsm_tidy_def eager_marked_def capture_marked_def capture_inv_none)

lemma mk_fsm_rooms:
  assumes "length sts + length sts' < edge_state_limit"
  shows "merge_room (mk_fsm sts s) (mk_fsm sts' s')" and "clone_room (mk_fsm sts s)" and "captures_fit (mk_fsm sts s) None"
  using assms
  by (simp_all add: merge_room_def clone_room_def captures_fit_def endid_room_def eager_room_def capture_room_def
      capture_none_def capture_inv_none [unfolded capture_none_def] fsm_countcaptures_def)

section \<open>An automaton for \<open>a\<close> and \<open>ab\<close>\<close>

text \<open>
  State 0 leads on \<open>a\<close> to 1, an end state; that by an epsilon edge to 2, and 2 on \<open>b\<close> to 3,
  another end state. No edge leads to or from state 4.
\<close>

definition ab_fsm :: fsm where
  "ab_fsm = mk_fsm
     [mk_state (one_edge 97 1) SS_Null False, mk_state ES_Null (SS_Singleton 2) True,
      mk_state (one_edge 98 3) SS_Null False, mk_state ES_Null SS_Null True,
      mk_state ES_Null SS_Null False] 0"

lemma ab_fsm_ok [simp]: "fsm_inv ab_fsm" "meta_ok ab_fsm" "statecount ab_fsm = 5" "f_hasstart ab_fsm" "f_start ab_fsm = 0"
  by (simp_all add: ab_fsm_def mk_fsm_inv mk_fsm_meta state_ok_def state_limit_def edge_state_limit_def)

lemma ab_fsm_endids [simp]:
  "endid_inv (f_endid_info ab_fsm)" "endid_ids (f_endid_info ab_fsm) s = []" "length (en_buckets (f_endid_info ab_fsm)) = 4"
  using mk_fsm_meta by (simp_all add: ab_fsm_def meta_ok_def)

lemma ab_fsm_wf [simp]: "fsm_wf ab_fsm" "merge_room ab_fsm ab_fsm" "clone_room ab_fsm"
  using mk_fsm_rooms [of _ "[]"] mk_fsm_rooms(1)
  by (simp_all add: ab_fsm_def mk_fsm_wf state_ok_def state_limit_def edge_state_limit_def)

lemma ab_fsm_fresh [simp]: "\<forall>st \<in> set (f_states ab_fsm). \<not> st_visited st"
  by (simp add: ab_fsm_def mk_fsm_def mk_state_def new_state_def)

section \<open>A deterministic automaton for \<open>a*b\<close>\<close>

definition astar_fsm :: fsm where
  "astar_fsm = mk_fsm
     [mk_state (ES \<lparr>es_ceil = 2,
        es_groups = [\<lparr>eg_symbols = SYMBOLS_SET symbols_zero 97, eg_to = 0\<rparr>, \<lparr>eg_symbols = SYMBOLS_SET symbols_zero 98, eg_to = 1\<rparr>]\<rparr>)
        SS_Null False,
      mk_state ES_Null SS_Null True] 0"

lemma astar_fsm_wf [simp]: "fsm_wf astar_fsm" "captures_fit astar_fsm None" "merge_room astar_fsm astar_fsm" "statecount astar_fsm = 2"
  using mk_fsm_rooms [of _ "[]"] mk_fsm_rooms(1)
  by (simp_all add: astar_fsm_def mk_fsm_wf state_ok_def state_limit_def edge_state_limit_def groups_ok_def group_ok_def
      symset_SYMBOLS_SET group_edges_def groups_edges_def)

lemma astar_fsm_ok [simp]: "fsm_inv astar_fsm" "meta_ok astar_fsm" "f_hasstart astar_fsm" "f_start astar_fsm = 0"
  "merge_room ab_fsm astar_fsm" "merge_room astar_fsm ab_fsm"
  using astar_fsm_wf(1) unfolding fsm_wf_def
  by (simp_all add: mk_fsm_rooms(1) ab_fsm_def astar_fsm_def edge_state_limit_def)

lemma astar_fsm_step: "fsm_step astar_fsm s l t \<longleftrightarrow> s = 0 \<and> (l = Some 97 \<and> t = 0 \<or> l = Some 98 \<and> t = 1)"
  by (cases s rule: nat.exhaust; cases l)
    (auto simp: astar_fsm_def fsm_step_def step_in_def symset_SYMBOLS_SET group_edges_def groups_edges_def nth_Cons split: nat.splits)

lemma astar_fsm_walk2 [simp]: "clone_room astar_fsm" "walk2_input astar_fsm astar_fsm"
proof -
  have "endid_inv (f_endid_info astar_fsm)" "endid_ids (f_endid_info astar_fsm) s = []" for s
    using astar_fsm_ok(2) by (simp_all add: meta_ok_def astar_fsm_def)
  moreover have "dfa_state astar_fsm s" for s by (auto simp: dfa_state_def astar_fsm_step)
  ultimately show "walk2_input astar_fsm astar_fsm" by (simp add: walk2_input_def edge_state_limit_def)
  show "clone_room astar_fsm" using mk_fsm_rooms(2) [of _ "[]"] by (simp add: astar_fsm_def edge_state_limit_def)
qed

lemma astar_fsm_words: "[98] \<in> fsm_language astar_fsm" "[] \<notin> fsm_language astar_fsm"
proof -
  have e: "n_end (fsm_nfa astar_fsm) s \<longleftrightarrow> s = 1" for s by (auto simp: fsm_nfa_def astar_fsm_def nth_Cons split: nat.splits)
  have r: "run (fsm_step astar_fsm) s [] t \<longleftrightarrow> t = s" for s t by (auto simp: astar_fsm_step intro: run.intros elim: run.cases)
  have "run (fsm_step astar_fsm) 0 [98] 1" by (rule run_sym [of _ _ _ 1]) (auto simp: astar_fsm_step r)
  then show "[98] \<in> fsm_language astar_fsm" "[] \<notin> fsm_language astar_fsm"
    using e r by (auto simp: fsm_language_def in_language fsm_nfa_def)
qed

end
