(* ===== verification/Spec2Isabelle.thy ===== *)
theory Spec2Isabelle
  imports State_Set Edge_Set Endids Eager_Output Capture Automaton Fsm_Core Queue Fsm_Walk Fsm_Combine Fsm_Exec Fsm_Closure Fsm_Reverse
    Fsm_Trim Fsm_Walk2 Fsm_Examples
begin

text \<open>
  A verification of \<open>libfsm\<close>, the finite automata library in \<open>src/libfsm\<close>, and of the data
  structures in \<open>src/adt\<close> it is built on. Paths below are relative to the repository's \<open>src\<close>, those of the
  headers of \<open>adt\<close> to its \<open>include\<close>.

  \<^bold>\<open>The program.\<close> An automaton (\<open>struct fsm\<close>, \<open>libfsm/internal.h\<close>) is an array of states; a state has a
  set of labelled edges, a set of epsilon targets, an end flag and flags for the tables beside it. The
  tables map states to end ids, eager outputs and capture actions. Operations build automata, walk
  them, combine them, rewrite them in place, and run them on input.

  \<^bold>\<open>How C is modelled.\<close> A function that can fail an assertion, read outside an array or not return is a
  function into \<open>option\<close>, written in do notation: \<open>None\<close> is that outcome. An error return is a boolean
  beside the updated data. The allocator is a list of outcomes threaded through the calls, \<open>[]\<close> for one
  that never fails (\<open>Fsm_Prelude\<close>, for \<open>adt/alloc.c\<close>). \<open>wp m Q\<close> says that \<open>m\<close> returns a value with \<open>Q\<close>,
  so every result stated with it includes that no assertion fails and that the code returns. State
  numbers and sizes are natural numbers with their wrap-around written out where it can happen; symbols,
  hashes, bit sets, tagged pointers and capture positions are words of their width. An iteration over a
  set that the body does not change is a loop over the list the iterator of the set yields, which is
  proved of the iterator. A loop without a counter is \<open>c_loop\<close> of \<open>Worklist\<close>, a partial function whose
  results are proved with a measure, so there is no fuel anywhere in the development. Objects are owned
  by one pointer in this code, so an updated object is the value returned.

  \<^bold>\<open>Data structures.\<close>
  \<^item> \<open>Bitset\<close>, \<open>Bitmap\<close>: \<open>adt/u64bitset.h\<close>, \<open>adt/bitmap.c\<close>. Every operation against sets of numbers.
  \<^item> \<open>State_Set\<close>: \<open>adt/stateset.c\<close>, with the tagged pointer for a singleton, binary search, bulk addition,
    renumbering. Every operation against finite sets, on every outcome of the allocator.
  \<^item> \<open>Edge_Set\<close>: \<open>adt/edgeset.c\<close>, groups of symbols in order of their target, and its three iterators.
    Every operation against a set of pairs of symbol and target.
  \<^item> \<open>Hash_Table\<close>: the hash functions of \<open>adt/hash.h\<close> and open addressing with linear probing: a lookup
    after an insertion, growth, removal-free rehashing. \<open>Endids\<close>, \<open>Eager_Output\<close> and \<open>Capture\<close>
    (\<open>libfsm/endids.c\<close>, \<open>eager_output.c\<close>, \<open>capture.c\<close>, \<open>capture_internal.h\<close>) are its instances.
  \<^item> \<open>Worklist\<close>, \<open>Queue\<close>: \<open>adt/queue.c\<close>, and graph search over any list that a locale describes; it is
    interpreted for the queue and for the stack of \<open>libfsm/walk/reachable.c\<close>.

  \<^bold>\<open>Automata.\<close> \<open>Automaton\<close> is the specification: automata with epsilon moves, runs, languages. \<open>fsm_nfa\<close>
  of \<open>Fsm_Core\<close> takes a \<open>struct fsm\<close> to it, \<open>fsm_language\<close> is its language, \<open>fsm_inv\<close> and \<open>fsm_wf\<close> its
  invariants.
  \<^item> \<open>Fsm_Core\<close>: \<open>fsm.c\<close>, \<open>state.c\<close>, \<open>edge.c\<close>, \<open>start.c\<close>, \<open>end.c\<close>; removal of states as a restriction and
    renumbering of the abstract automaton.
  \<^item> \<open>Fsm_Walk\<close>: \<open>pred/*.c\<close>, \<open>walk/*.c\<close>, \<open>empty.c\<close>, \<open>collate.c\<close>. \<open>Fsm_Closure\<close>: \<open>closure.c\<close>.
  \<^item> \<open>Fsm_Merge\<close>, \<open>Fsm_Combine\<close>: \<open>merge.c\<close>, \<open>clone.c\<close>, \<open>union.c\<close>, \<open>concat.c\<close> with the copying of all tables.
  \<^item> \<open>Fsm_Reverse\<close>: \<open>reverse.c\<close>. \<open>Fsm_Trim\<close>: \<open>trim.c\<close> with the distances to an end, \<open>vacuum.c\<close>.
  \<^item> \<open>Fsm_Walk2\<close>: \<open>walk2.c\<close>, the product of two deterministic automata, with the sorted sets of
    \<open>adt/set.inc\<close> and \<open>adt/tupleset.c\<close>; the recursion is a partial function that is proved to return.
  \<^item> \<open>Fsm_Exec\<close>: \<open>exec.c\<close>, with captures and eager outputs.
  \<^item> \<open>Fsm_Examples\<close>: automata on which the theorems below are instantiated.

  \<^bold>\<open>What is shown.\<close> This theory holds the properties. The first group is about languages: execution
  accepts exactly the language, and union, concatenation, copying, reversal, trimming and products have
  the language they should. The second is about searches and predicates: they end, and decide what they
  are for. Then come the operations on single automata against the abstract one, the data structures,
  and the tables. Some of them give exactly the inputs on which the
  code reads past an allocation, misses a member or fails an assertion later.

  \<^bold>\<open>Bounds.\<close> Automata have at most \<open>2^24\<close> states, as the bit field of an edge requires; hash tables have
  room for a doubling below \<open>2^64\<close>. Both are hypotheses or parts of the invariants. The flag
  \<open>has_capture_actions\<close> is cleared where the array of states is allocated or grown (\<open>fsm_capture_init\<close>,
  \<open>fsm_addstate\<close>) but not when a state is added, so that a state added after a removal can have the flag
  of a state that was there before; \<open>f_spare\<close> carries the flags of the unused elements.

  \<^bold>\<open>Not modelled.\<close> Release of memory, as nothing can be observed of it. Output (\<open>print.c\<close>, \<open>print/\<close>,
  \<open>src/print\<close>) and dumps, which only format text. The parsers and lexers (\<open>libfsm/parser.c\<close>, \<open>lexer.c\<close>,
  those of \<open>libre\<close> and \<open>lx\<close>), which are generated. The command line tools, which are I/O around the
  library. Determinisation, minimisation and what is built on them
  (\<open>determinise.c\<close>, \<open>minimise.c\<close>, \<open>epsilons.c\<close>, \<open>complete.c\<close>, \<open>complement.c\<close>, \<open>consolidate.c\<close>,
  \<open>equal.c\<close>, and the calls to it in \<open>intersect.c\<close> and \<open>subtract.c\<close>), the weighted searches (\<open>shortest.c\<close>, \<open>gen.c\<close>), the virtual machines
  (\<open>vm/\<close>) and the regular expression compiler (\<open>libre\<close>) are future work; nothing here assumes anything
  of them.
\<close>

section \<open>Languages\<close>

text \<open>
  C1: \<open>fsm_exec\<close> rejects an automaton that is not deterministic or has no start with \<open>-1\<close> and no
  effect. On any other it returns 1 for the words of the language and 0 for all others, gives
  the end state it stops in, and calls the callback with the eager outputs of every state it
  passes, in order; the capture buffer is written only inside its bounds.
\<close>

theorem fsm_exec_accepts:
  assumes "fsm_wf f" and "captures_fit f captures"
  shows "wp (fsm_exec callback f w captures out) (\<lambda>(r, e, captures', out').
    map_option length captures' = map_option length captures \<and>
    (if f_hasstart f \<and> (\<forall>s < statecount f. dfa_state f s) then
       r = of_bool (w \<in> fsm_language f) \<and> out' = fold (emit callback f) (exec_states f (f_start f) w) out \<and>
       (\<forall>t. e = Some t \<longleftrightarrow> run (fsm_step f) (f_start f) w t \<and> n_end (fsm_nfa f) t)
     else r = - 1 \<and> e = None \<and> captures' = captures \<and> out' = out))"
  using assms by (intro fsm_exec_wp) (auto simp: fsm_wf_def meta_ok_def)

theorem fsm_exec_accepts_witness:
  "wp (fsm_exec (Some (#)) astar_fsm [97, 97, 98] (None :: fsm_capture list option) []) (\<lambda>(r, e, captures', out').
    map_option length captures' = map_option length (None :: fsm_capture list option) \<and>
    (if f_hasstart astar_fsm \<and> (\<forall>s < statecount astar_fsm. dfa_state astar_fsm s) then
       r = of_bool ([97, 97, 98] \<in> fsm_language astar_fsm) \<and> out' = fold (emit (Some (#)) astar_fsm) (exec_states astar_fsm (f_start astar_fsm) [97, 97, 98]) [] \<and>
       (\<forall>t. e = Some t \<longleftrightarrow> run (fsm_step astar_fsm) (f_start astar_fsm) [97, 97, 98] t \<and> n_end (fsm_nfa astar_fsm) t)
     else r = - 1 \<and> e = None \<and> captures' = (None :: fsm_capture list option) \<and> out' = []))"
  by (rule fsm_exec_accepts) simp_all

text \<open>
  C2: \<open>fsm_union\<close> of two automata with a start state gives a well-formed automaton for the union
  of their languages, with one state more than both together, which holds the states of both
  at the reported bases with their end ids and eager outputs. It fails only when both have
  states and one has no start.
\<close>

theorem fsm_union_language:
  assumes "fsm_wf a" and "fsm_wf b" and "merge_room a b" and "merge_room b a"
  shows "wp (fsm_union [] a b) (\<lambda>(r, al'). al' = [] \<and>
    (case r of
       None \<Rightarrow> statecount a \<noteq> 0 \<and> statecount b \<noteq> 0 \<and> (\<not> f_hasstart a \<or> \<not> f_hasstart b)
     | Some (q, ci) \<Rightarrow> fsm_wf q \<and> fsm_language q = fsm_language a \<union> fsm_language b \<and>
         (statecount a \<noteq> 0 \<and> statecount b \<noteq> 0 \<longrightarrow> statecount q = statecount a + statecount b + 1 \<and>
           embedded a (base_a ci) q \<and> embedded b (base_b ci) q)))"
  using assms by (rule fsm_union_wp)

theorem fsm_union_language_witness:
  "wp (fsm_union [] ab_fsm ab_fsm) (\<lambda>(r, al'). al' = [] \<and>
    (case r of
       None \<Rightarrow> statecount ab_fsm \<noteq> 0 \<and> statecount ab_fsm \<noteq> 0 \<and> (\<not> f_hasstart ab_fsm \<or> \<not> f_hasstart ab_fsm)
     | Some (q, ci) \<Rightarrow> fsm_wf q \<and> fsm_language q = fsm_language ab_fsm \<union> fsm_language ab_fsm \<and>
         (statecount ab_fsm \<noteq> 0 \<and> statecount ab_fsm \<noteq> 0 \<longrightarrow> statecount q = statecount ab_fsm + statecount ab_fsm + 1 \<and>
           embedded ab_fsm (base_a ci) q \<and> embedded ab_fsm (base_b ci) q)))"
  by (rule fsm_union_language) simp_all

text \<open>
  C3: \<open>fsm_concat\<close> of two automata with start states, the first with an end state, gives an
  automaton for the concatenations of their words where the first has one end state. Where it
  has more, the language of the first is accepted as well: the end states that are collated
  stay end states. An operand without states is dropped.
\<close>

theorem fsm_concat_language:
  assumes "fsm_wf a" and "fsm_wf b" and "merge_room a b" and "merge_room b a"
    and "statecount a + statecount b + 1 < edge_state_limit"
  shows "wp (fsm_concat [] a b) (\<lambda>(r, al'). al' = [] \<and>
    (case r of
       None \<Rightarrow> statecount a \<noteq> 0 \<and> statecount b \<noteq> 0 \<and> (f_endcount a = 0 \<or> \<not> f_hasstart a \<or> \<not> f_hasstart b)
     | Some (q, ci) \<Rightarrow> fsm_wf q \<and>
         fsm_language q =
           (if statecount a = 0 then fsm_language b else if statecount b = 0 then fsm_language a
            else (if f_endcount a = 1 then {} else fsm_language a) \<union> {u @ v | u v. u \<in> fsm_language a \<and> v \<in> fsm_language b})))"
  using assms by (rule fsm_concat_wp)

theorem fsm_concat_language_witness:
  "wp (fsm_concat [] ab_fsm ab_fsm) (\<lambda>(r, al'). al' = [] \<and>
    (case r of
       None \<Rightarrow> statecount ab_fsm \<noteq> 0 \<and> statecount ab_fsm \<noteq> 0 \<and> (f_endcount ab_fsm = 0 \<or> \<not> f_hasstart ab_fsm \<or> \<not> f_hasstart ab_fsm)
     | Some (q, ci) \<Rightarrow> fsm_wf q \<and>
         fsm_language q =
           (if statecount ab_fsm = 0 then fsm_language ab_fsm else if statecount ab_fsm = 0 then fsm_language ab_fsm
            else (if f_endcount ab_fsm = 1 then {} else fsm_language ab_fsm) \<union> {u @ v | u v. u \<in> fsm_language ab_fsm \<and> v \<in> fsm_language ab_fsm})))"
  by (rule fsm_concat_language) (simp_all add: edge_state_limit_def)

text \<open>
  C4: \<open>fsm_merge\<close> puts the states of two automata side by side in one without a start state:
  each keeps its edges, end flags, end ids, eager outputs and capture actions, moved by its
  base, and the bases are 0 and the number of states of the other.
\<close>

theorem fsm_merge_embeds:
  assumes "fsm_wf a" and "fsm_wf b" and "merge_room a b" and "merge_room b a"
  shows "wp (fsm_merge [] a b) (\<lambda>(r, al'). al' = [] \<and> (\<exists>q ci. r = Some (q, ci) \<and> fsm_wf q \<and>
    statecount q = statecount a + statecount b \<and> \<not> f_hasstart q \<and>
    embedded a (base_a ci) q \<and> embedded b (base_b ci) q \<and>
    (base_a ci = 0 \<and> base_b ci = statecount a \<or> base_b ci = 0 \<and> base_a ci = statecount b) \<and>
    capture_set (f_capture_info q) = rebase_capture (base_a ci) (capture_base_a ci) ` capture_set (f_capture_info a) \<union>
      rebase_capture (base_b ci) (capture_base_b ci) ` capture_set (f_capture_info b)))"
  using fsm_merge_wp [OF assms] unfolding merged_def .

theorem fsm_merge_embeds_witness:
  "wp (fsm_merge [] ab_fsm astar_fsm) (\<lambda>(r, al'). al' = [] \<and> (\<exists>q ci. r = Some (q, ci) \<and> fsm_wf q \<and>
    statecount q = statecount ab_fsm + statecount astar_fsm \<and> \<not> f_hasstart q \<and>
    embedded ab_fsm (base_a ci) q \<and> embedded astar_fsm (base_b ci) q \<and>
    (base_a ci = 0 \<and> base_b ci = statecount ab_fsm \<or> base_b ci = 0 \<and> base_a ci = statecount astar_fsm) \<and>
    capture_set (f_capture_info q) = rebase_capture (base_a ci) (capture_base_a ci) ` capture_set (f_capture_info ab_fsm) \<union>
      rebase_capture (base_b ci) (capture_base_b ci) ` capture_set (f_capture_info astar_fsm)))"
  by (rule fsm_merge_embeds) simp_all

text \<open>
  C5: \<open>fsm_clone\<close> gives a well-formed copy with the same states, edges, start and ends, and the
  same end ids, eager outputs and capture actions.
\<close>

theorem fsm_clone_copies:
  assumes "fsm_wf f" and "clone_room f"
  shows "wp (fsm_clone [] f) (\<lambda>(r, al'). al' = [] \<and> (\<exists>g. r = Some g \<and> fsm_wf g \<and> fsm_nfa g = fsm_nfa f \<and>
    statecount g = statecount f \<and> endid_ids (f_endid_info g) = endid_ids (f_endid_info f) \<and>
    (\<forall>s. set (eager_ids (f_eager_output_info g) s) = set (eager_ids (f_eager_output_info f) s)) \<and>
    capture_set (f_capture_info g) = capture_set (f_capture_info f)))"
  using assms by (rule fsm_clone_wp)

theorem fsm_clone_copies_witness:
  "wp (fsm_clone [] ab_fsm) (\<lambda>(r, al'). al' = [] \<and> (\<exists>g. r = Some g \<and> fsm_wf g \<and> fsm_nfa g = fsm_nfa ab_fsm \<and>
    statecount g = statecount ab_fsm \<and> endid_ids (f_endid_info g) = endid_ids (f_endid_info ab_fsm) \<and>
    (\<forall>s. set (eager_ids (f_eager_output_info g) s) = set (eager_ids (f_eager_output_info ab_fsm) s)) \<and>
    capture_set (f_capture_info g) = capture_set (f_capture_info ab_fsm)))"
  by (rule fsm_clone_copies) simp_all



text \<open>
  C7: \<open>fsm_trim\<close> keeps exactly the states that can be reached from the start and, in the mode for
  both, reach an end, renumbered in their order; it keeps the language and the ids and outputs
  of the states, clears the flags and returns how many states it removed, but 1 for an automaton
  without states. The distances it is asked for are those of each state that is left to its
  nearest end.
\<close>

theorem fsm_trim_trims:
  assumes "fsm_inv f" and "meta_ok f" and "\<forall>st \<in> set (f_states f). \<not> st_visited st"
  shows "wp (fsm_trim [] f mode want) (\<lambda>(ret, sed, f', al'). fsm_inv f' \<and> fsm_language f' = fsm_language f \<and>
    fsm_nfa f' = compact_nfa (trim_keep f mode) (fsm_nfa f) \<and>
    ret = (if statecount f = 0 then 1 else int (statecount f - statecount f')) \<and> (\<forall>st \<in> set (f_states f'). \<not> st_visited st) \<and>
    (\<forall>s. trim_keep f mode s \<longrightarrow>
       endid_ids (f_endid_info f') (rank (trim_keep f mode) s) = endid_ids (f_endid_info f) s \<and>
       eager_ids (f_eager_output_info f') (rank (trim_keep f mode) s) = eager_ids (f_eager_output_info f) s) \<and>
    (sed \<noteq> None \<longleftrightarrow> want \<and> mode = FSM_TRIM_START_AND_END_REACHABLE \<and> 0 < statecount f) \<and>
    (\<forall>d. sed = Some d \<longrightarrow> (\<forall>s < statecount f'. end_distance f' s (d ! s))))"
proof (rule wp_mono [OF fsm_trim_wp [OF assms, of mode want]], clarify, intro conjI)
  fix ret sed f' d s
  assume nfa: "fsm_nfa f' = compact_nfa (trim_keep f mode) (fsm_nfa f)" and n: "statecount f' = rank (trim_keep f mode) (statecount f)"
    and d: "\<forall>d s. sed = Some d \<longrightarrow> trim_keep f mode s \<longrightarrow> end_distance f' (rank (trim_keep f mode) s) (d ! rank (trim_keep f mode) s)"
  show "fsm_language f' = fsm_language f" using trim_language [of f mode] nfa by (simp add: fsm_language_def)
  show "\<forall>d. sed = Some d \<longrightarrow> (\<forall>s < statecount f'. end_distance f' s (d ! s))"
    using d n by (metis kept_nth rank_def)
qed auto

theorem fsm_trim_trims_witness:
  "wp (fsm_trim [] ab_fsm FSM_TRIM_START_AND_END_REACHABLE True) (\<lambda>(ret, sed, f', al'). fsm_inv f' \<and> fsm_language f' = fsm_language ab_fsm \<and>
    fsm_nfa f' = compact_nfa (trim_keep ab_fsm FSM_TRIM_START_AND_END_REACHABLE) (fsm_nfa ab_fsm) \<and>
    ret = (if statecount ab_fsm = 0 then 1 else int (statecount ab_fsm - statecount f')) \<and> (\<forall>st \<in> set (f_states f'). \<not> st_visited st) \<and>
    (\<forall>s. trim_keep ab_fsm FSM_TRIM_START_AND_END_REACHABLE s \<longrightarrow>
       endid_ids (f_endid_info f') (rank (trim_keep ab_fsm FSM_TRIM_START_AND_END_REACHABLE) s) = endid_ids (f_endid_info ab_fsm) s \<and>
       eager_ids (f_eager_output_info f') (rank (trim_keep ab_fsm FSM_TRIM_START_AND_END_REACHABLE) s) = eager_ids (f_eager_output_info ab_fsm) s) \<and>
    (sed \<noteq> None \<longleftrightarrow> True \<and> FSM_TRIM_START_AND_END_REACHABLE = FSM_TRIM_START_AND_END_REACHABLE \<and> 0 < statecount ab_fsm) \<and>
    (\<forall>d. sed = Some d \<longrightarrow> (\<forall>s < statecount f'. end_distance f' s (d ! s))))"
  by (rule fsm_trim_trims) (rule ab_fsm_ok ab_fsm_fresh)+

text \<open>
  C8: On two deterministic automata \<open>fsm_walk2\<close>, with the masks for the intersection, the
  difference or the union, ends and makes a deterministic automaton for that of the languages.
  The end ids of the state a word leads to are those of the states it leads to in the two.
\<close>

theorem fsm_walk2_language:
  assumes "walk2_input a b" and "fsm_wf a" and "fsm_wf b" and "clone_room a" and "clone_room b"
    and "f_hasstart a \<or> statecount a = 0" and "f_hasstart b \<or> statecount b = 0"
    and "op \<in> {walk2_intersect, walk2_subtract, walk2_union}"
  shows "wp (fsm_walk2 [] a b (fst op) (snd op)) (\<lambda>(r, al'). \<exists>f. r = Some f \<and> fsm_inv f \<and> (\<forall>s < statecount f. dfa_state f s) \<and>
    fsm_language f =
      (if op = walk2_intersect then fsm_language a \<inter> fsm_language b
       else if op = walk2_subtract then fsm_language a - fsm_language b else fsm_language a \<union> fsm_language b) \<and>
    (f_hasstart f \<longrightarrow> (\<forall>w s. run (fsm_step f) (f_start f) w s \<longrightarrow> n_end (fsm_nfa f) s \<longrightarrow>
       set (endid_ids (f_endid_info f) s) =
         set (opt_ids a (opt_path a (n_start (fsm_nfa a)) w)) \<union> set (opt_ids b (opt_path b (n_start (fsm_nfa b)) w)))))"
proof -
  have op: "op = walk2_intersect \<or> op = walk2_subtract \<or> op = walk2_union" using assms(8) by simp
  have start: "n_start (fsm_nfa f) = Some (f_start f) \<longleftrightarrow> f_hasstart f" for f by (simp add: fsm_nfa_def)
  show ?thesis
    by (rule wp_mono2 [OF fsm_walk2_wp [OF assms(1-7) op, unfolded walk2_result_def walk2_lang_def start]]) blast
qed

theorem fsm_walk2_language_witness:
  "wp (fsm_walk2 [] astar_fsm astar_fsm (fst walk2_subtract) (snd walk2_subtract))
    (\<lambda>(r, al'). \<exists>f. r = Some f \<and> fsm_inv f \<and> (\<forall>s < statecount f. dfa_state f s) \<and>
    fsm_language f =
      (if walk2_subtract = walk2_intersect then fsm_language astar_fsm \<inter> fsm_language astar_fsm
       else if walk2_subtract = walk2_subtract then fsm_language astar_fsm - fsm_language astar_fsm
       else fsm_language astar_fsm \<union> fsm_language astar_fsm) \<and>
    (f_hasstart f \<longrightarrow> (\<forall>w s. run (fsm_step f) (f_start f) w s \<longrightarrow> n_end (fsm_nfa f) s \<longrightarrow>
       set (endid_ids (f_endid_info f) s) =
         set (opt_ids astar_fsm (opt_path astar_fsm (n_start (fsm_nfa astar_fsm)) w)) \<union>
         set (opt_ids astar_fsm (opt_path astar_fsm (n_start (fsm_nfa astar_fsm)) w)))))"
  by (rule fsm_walk2_language) simp_all

text \<open>
  C9: \<open>fsm_walk2\<close> leaves the flag of every state set, and \<open>fsm_trim\<close> does not clear the flags
  first. In the mode for both ends, trimming such a result leaves the start alone if the empty
  word is in the language, and no state at all if it is not.
\<close>

theorem fsm_trim_after_walk2:
  assumes "walk2_input a b" and "f_hasstart a" and "f_hasstart b"
    and "op \<in> {walk2_intersect, walk2_subtract, walk2_union}"
  shows "wp (fsm_walk2 [] a b (fst op) (snd op)) (\<lambda>(r, al). \<exists>f. r = Some f \<and>
    fsm_language f = walk2_lang op (fsm_language a) (fsm_language b) \<and>
    wp (fsm_trim al f FSM_TRIM_START_AND_END_REACHABLE False) (\<lambda>(ret, sed, f', al').
      fsm_inv f' \<and> statecount f' = of_bool ([] \<in> fsm_language f)))"
proof -
  have s: "n_start (fsm_nfa a) = Some (f_start a)" "n_start (fsm_nfa b) = Some (f_start b)" using assms(2,3) by (simp_all add: fsm_nfa_def)
  have op: "op = walk2_intersect \<or> op = walk2_subtract \<or> op = walk2_union" using assms(4) by simp
  obtain f where run: "fsm_walk2 [] a b (fst op) (snd op) = Some (Some f, [])"
    and prod: "walk2_product a b (ucast (fst op)) (ucast (snd op)) (Some (f_start a), Some (f_start b)) f"
    and vis: "visited_set f = {..<statecount f}"
    using fsm_walk2_product_wp [OF assms(1) s, of "fst op" "snd op"] unfolding wp_iff_ex by blast
  have "s \<in> visited_set f" if "s < statecount f" for s unfolding vis using that by simp
  then have marked: "\<forall>st \<in> set (f_states f). st_visited st" by (auto simp: visited_set_def in_set_conv_nth)
  note res = walk2_product_result [OF assms(1) s op prod, unfolded walk2_result_def]
  have start: "n_start (fsm_nfa f) = Some (f_start f)" using prod by (simp add: walk2_product_def fsm_nfa_def)
  have f: "fsm_inv f" "meta_ok f" "\<forall>s < statecount f. dfa_state f s" and lang: "fsm_language f = walk2_lang op (fsm_language a) (fsm_language b)"
    using res by blast+
  have "[] \<in> fsm_language f \<longleftrightarrow> n_end (fsm_nfa f) (f_start f)"
    using opt_path_language [OF f(1,3) start, of "[]"] by (simp add: opt_end_def)
  then have "wp (fsm_trim [] f FSM_TRIM_START_AND_END_REACHABLE False) (\<lambda>(ret, sed, f', al').
      fsm_inv f' \<and> statecount f' = of_bool ([] \<in> fsm_language f))"
    using fsm_trim_marked [OF f(1,2) start marked] by (auto elim!: wp_mono)
  then show ?thesis using run lang by simp
qed

theorem fsm_trim_after_walk2_witness:
  "wp (fsm_walk2 [] astar_fsm astar_fsm (fst walk2_intersect) (snd walk2_intersect)) (\<lambda>(r, al). \<exists>f. r = Some f \<and>
    [98] \<in> fsm_language f \<and>
    wp (fsm_trim al f FSM_TRIM_START_AND_END_REACHABLE False) (\<lambda>(ret, sed, f', al'). fsm_inv f' \<and> statecount f' = 0))"
  by (rule wp_mono [OF fsm_trim_after_walk2 [of astar_fsm astar_fsm walk2_intersect]]) (auto simp: walk2_lang_def astar_fsm_words)

text \<open>
  C10: \<open>fsm_empty\<close> decides whether the language is empty. A 1 is always right; with a failing
  allocation the answer may be 0 for an empty language. Without a start it is \<open>-1\<close>. The automaton
  stays the same.
\<close>

theorem fsm_empty_decides:
  assumes "fsm_inv f"
  shows "wp (fsm_empty al f) (\<lambda>(r, f', al'). fsm_inv f' \<and> fsm_nfa f' = fsm_nfa f \<and> fsm_meta f' = fsm_meta f \<and>
    (if \<not> f_hasstart f then r = -1
     else (al = [] \<longrightarrow> r = of_bool (fsm_language f = {})) \<and> (r = 1 \<longrightarrow> fsm_language f = {}) \<and> r \<in> {0, 1}))"
  using assms by (rule fsm_empty_wp)

theorem fsm_empty_decides_witness:
  "wp (fsm_empty ([False] :: alloc) ab_fsm) (\<lambda>(r, f', al'). fsm_inv f' \<and> fsm_nfa f' = fsm_nfa ab_fsm \<and> fsm_meta f' = fsm_meta ab_fsm \<and>
    (if \<not> f_hasstart ab_fsm then r = -1
     else (([False] :: alloc) = [] \<longrightarrow> r = of_bool (fsm_language ab_fsm = {})) \<and> (r = 1 \<longrightarrow> fsm_language ab_fsm = {}) \<and> r \<in> {0, 1}))"
  by (rule fsm_empty_decides) simp

section \<open>Searches\<close>

text \<open>
  C11: \<open>epsilon_closure\<close> ends, and gives for every state the set of the states that epsilon edges
  lead to from it; only the marks of the search change in the automaton.
\<close>

theorem epsilon_closure_correct:
  assumes "fsm_inv f" and "statecount f > 0"
  shows "wp (epsilon_closure [] f) (\<lambda>(r, f', al'). al' = [] \<and> f' = clear_visited f \<and>
    (\<exists>cls. r = Some cls \<and> length cls = statecount f \<and>
       (\<forall>s < statecount f. ss_inv (cls ! s) \<and> ss_set (cls ! s) = {t. run (fsm_step f) s [] t})))"
  using epsilon_closure_wp [OF assms] by (simp add: eps_reach_runs)

theorem epsilon_closure_correct_witness:
  "wp (epsilon_closure [] ab_fsm) (\<lambda>(r, f', al'). al' = [] \<and> f' = clear_visited ab_fsm \<and>
    (\<exists>cls. r = Some cls \<and> length cls = statecount ab_fsm \<and>
       (\<forall>s < statecount ab_fsm. ss_inv (cls ! s) \<and> ss_set (cls ! s) = {t. run (fsm_step ab_fsm) s [] t})))"
  by (rule epsilon_closure_correct) simp_all

text \<open>
  C12: \<open>fsm_reachable\<close> ends, for every predicate that gives an answer on each state of the
  automaton. Asked for some state it finds one exactly when a state with the property can be
  reached, asked for all it says whether every state that can be reached has it; a failing
  allocation is an error, and only the marks of the search change.
\<close>

theorem fsm_reachable_decides:
  assumes "fsm_inv f" and "s < statecount f" and "\<And>t. t < statecount f \<Longrightarrow> p f t = Some (P t)"
  shows "wp (fsm_reachable al f s any p) (\<lambda>(r, f', al'). f' = clear_visited f \<and> (al = [] \<longrightarrow> r \<noteq> None \<and> al' = []) \<and>
    (case r of None \<Rightarrow> True
     | Some b \<Rightarrow> b = (if any then \<exists>w t. run (fsm_step f) s w t \<and> P t
                     else \<forall>w t. run (fsm_step f) s w t \<longrightarrow> P t)))"
proof -
  have rel: "fsm_edge_rel f = (\<lambda>p t. \<exists>l. fsm_step f p l t)" by (simp add: fun_eq_iff fsm_edge_rel_def)
  have "(fsm_edge_rel f)\<^sup>*\<^sup>* s t \<longleftrightarrow> (\<exists>w. run (fsm_step f) s w t)" for t
    unfolding rel by (simp add: run_reach_iff)
  then have key: "b = (if any then \<exists>w t. run (fsm_step f) s w t \<and> P t else \<forall>w t. run (fsm_step f) s w t \<longrightarrow> P t)"
    if "(b = any) = (\<exists>t. (fsm_edge_rel f)\<^sup>*\<^sup>* s t \<and> P t = any)" for b
    using that by (cases any; cases b) (simp, blast)+
  obtain r f' al' where run: "fsm_reachable al f s any p = Some (r, f', al')"
    and post: "f' = clear_visited f \<and> (al = [] \<longrightarrow> r \<noteq> None \<and> al' = []) \<and>
      (case r of None \<Rightarrow> True | Some b \<Rightarrow> (b = any) = (\<exists>t. (fsm_edge_rel f)\<^sup>*\<^sup>* s t \<and> P t = any))"
    using fsm_reachable_wp [where p = p and P = P and al = al and any = any, OF assms(1,3,2)]
    unfolding wp_iff_ex split_paired_Ex prod.case by blast
  show ?thesis
  proof (cases r)
    case (Some b)
    then have "b = (if any then \<exists>w t. run (fsm_step f) s w t \<and> P t else \<forall>w t. run (fsm_step f) s w t \<longrightarrow> P t)"
      using post by (intro key) simp
    then show ?thesis unfolding run wp_Some prod.case using post by (simp only: Some option.case simp_thms) simp
  qed (use post in \<open>simp add: run\<close>)
qed

theorem fsm_reachable_decides_witness:
  "wp (fsm_reachable ([] :: alloc) ab_fsm 2 True fsm_isend) (\<lambda>(r, f', al'). f' = clear_visited ab_fsm \<and> (([] :: alloc) = [] \<longrightarrow> r \<noteq> None \<and> al' = []) \<and>
    (case r of None \<Rightarrow> True
     | Some b \<Rightarrow> b = (if True then \<exists>w t. run (fsm_step ab_fsm) 2 w t \<and> n_end (fsm_nfa ab_fsm) t
                     else \<forall>w t. run (fsm_step ab_fsm) 2 w t \<longrightarrow> n_end (fsm_nfa ab_fsm) t)))"
  by (rule fsm_reachable_decides) (simp_all add: fsm_isend_eq)

text \<open>
  C13: \<open>state_epsilon_closure\<close> ends on every automaton, epsilon loops included, and collects
  exactly the states that epsilon edges lead to, or reports a failing allocation.
\<close>

theorem state_epsilon_closure_ends:
  assumes "fsm_inv f" and "s < statecount f"
  shows "\<exists>ok closure al'. state_epsilon_closure al f s SS_Null = Some (ok, closure, al') \<and> ss_inv closure \<and>
    (ok \<longrightarrow> ss_set closure = {t. run (fsm_step f) s [] t}) \<and> (al = [] \<longrightarrow> ok)"
  using state_epsilon_closure_wp [OF assms, of al] by (auto elim!: wpE3 simp: eps_reach_runs)

theorem state_epsilon_closure_ends_witness:
  "\<exists>ok closure al'. state_epsilon_closure ([] :: alloc) ab_fsm 1 SS_Null = Some (ok, closure, al') \<and> ss_inv closure \<and>
    (ok \<longrightarrow> ss_set closure = {t. run (fsm_step ab_fsm) 1 [] t}) \<and> (([] :: alloc) = [] \<longrightarrow> ok)"
  by (rule state_epsilon_closure_ends) simp_all

text \<open>
  C14: \<open>fsm_hasnondeterminism\<close> is 1 exactly when two edges with the same label leave the epsilon
  closure of the state, from different states or to different ones.
\<close>

theorem fsm_hasnondeterminism_decides:
  assumes "fsm_inv f" and "s < statecount f"
  shows "\<exists>r. fsm_hasnondeterminism [] f s = Some (r, []) \<and>
    r = of_bool (\<exists>c p p' t t'. run (fsm_step f) s [] p \<and> run (fsm_step f) s [] p' \<and>
      fsm_step f p (Some c) t \<and> fsm_step f p' (Some c) t' \<and> (p, t) \<noteq> (p', t'))"
  using fsm_hasnondeterminism_wp [OF assms]
  by (elim wpE2) (simp add: eps_reach_runs closure_conflict_def Bex_def)

theorem fsm_hasnondeterminism_decides_witness:
  "\<exists>r. fsm_hasnondeterminism [] ab_fsm 1 = Some (r, []) \<and>
    r = of_bool (\<exists>c p p' t t'. run (fsm_step ab_fsm) 1 [] p \<and> run (fsm_step ab_fsm) 1 [] p' \<and>
      fsm_step ab_fsm p (Some c) t \<and> fsm_step ab_fsm p' (Some c) t' \<and> (p, t) \<noteq> (p', t'))"
  by (rule fsm_hasnondeterminism_decides) simp_all

text \<open>
  C15: \<open>fsm_all\<close> with \<open>fsm_isdfa\<close> says whether there is a start and no state has an epsilon edge
  or two edges with one label, and with \<open>fsm_iscomplete\<close> whether every state has an edge for each
  of the 256 symbols.
\<close>

theorem fsm_all_isdfa_iscomplete:
  assumes "fsm_inv f" and "statecount f > 0"
  shows "fsm_all f fsm_isdfa = Some (f_hasstart f \<and> (\<forall>s < statecount f. dfa_state f s)) \<and>
    fsm_all f fsm_iscomplete = Some (\<forall>s < statecount f. \<forall>c. \<exists>t. fsm_step f s (Some c) t)"
  using fsm_all_eq [of f fsm_isdfa, OF fsm_isdfa_eq [OF assms(1)]] assms(2)
    fsm_all_eq [of f fsm_iscomplete, OF fsm_iscomplete_eq [OF assms(1)]]
  by (auto simp: dfa_state_def)

theorem fsm_all_isdfa_iscomplete_witness:
  "fsm_all astar_fsm fsm_isdfa = Some (f_hasstart astar_fsm \<and> (\<forall>s < statecount astar_fsm. dfa_state astar_fsm s)) \<and>
    fsm_all astar_fsm fsm_iscomplete = Some (\<forall>s < statecount astar_fsm. \<forall>c. \<exists>t. fsm_step astar_fsm s (Some c) t)"
  by (rule fsm_all_isdfa_iscomplete) simp_all

section \<open>The automaton\<close>

text \<open>
  C16: \<open>fsm_compact_states\<close> gives the automaton on the kept states alone, renumbered in order,
  with the end ids and eager outputs of those states; when every state on a path from the
  start to an end is kept, the language is the same.
\<close>

theorem fsm_compact_states_refines:
  assumes "fsm_inv f" and "meta_ok f"
  shows "wp (fsm_compact_states [] f keep) (\<lambda>(ok, removed, f', al'). ok \<and> fsm_inv f' \<and>
    fsm_nfa f' = compact_nfa keep (fsm_nfa f) \<and> removed = statecount f - rank keep (statecount f) \<and>
    (\<forall>s < statecount f. keep s \<longrightarrow>
       endid_ids (f_endid_info f') (rank keep s) = endid_ids (f_endid_info f) s \<and>
       eager_ids (f_eager_output_info f') (rank keep s) = eager_ids (f_eager_output_info f) s) \<and>
    ((\<forall>a p u v e. n_start (fsm_nfa f) = Some a \<longrightarrow> run (fsm_step f) a u p \<longrightarrow> run (fsm_step f) p v e \<longrightarrow>
        n_end (fsm_nfa f) e \<longrightarrow> keep p) \<longrightarrow> fsm_language f' = fsm_language f))"
  apply (rule wp_mono [OF fsm_compact_states_wp [OF assms, of keep]])
  apply (clarsimp simp: fsm_language_def)
  apply (rule compact_language)
  apply (auto simp: fsm_nfa_def)
  done

theorem fsm_compact_states_refines_witness:
  "wp (fsm_compact_states [] ab_fsm (\<lambda>s. s \<noteq> 4)) (\<lambda>(ok, removed, f', al'). ok \<and> fsm_inv f' \<and>
    fsm_nfa f' = compact_nfa (\<lambda>s. s \<noteq> 4) (fsm_nfa ab_fsm) \<and>
    removed = statecount ab_fsm - rank (\<lambda>s. s \<noteq> 4) (statecount ab_fsm) \<and>
    (\<forall>s < statecount ab_fsm. s \<noteq> 4 \<longrightarrow>
       endid_ids (f_endid_info f') (rank (\<lambda>s. s \<noteq> 4) s) = endid_ids (f_endid_info ab_fsm) s \<and>
       eager_ids (f_eager_output_info f') (rank (\<lambda>s. s \<noteq> 4) s) = eager_ids (f_eager_output_info ab_fsm) s) \<and>
    ((\<forall>a p u v e. n_start (fsm_nfa ab_fsm) = Some a \<longrightarrow> run (fsm_step ab_fsm) a u p \<longrightarrow> run (fsm_step ab_fsm) p v e \<longrightarrow>
        n_end (fsm_nfa ab_fsm) e \<longrightarrow> p \<noteq> 4) \<longrightarrow> fsm_language f' = fsm_language ab_fsm))"
  by (rule fsm_compact_states_refines) simp_all

text \<open>
  C17: \<open>fsm_addedge_literal\<close> between two existing states keeps the invariant of the automaton and
  adds exactly that transition; without a failing allocation it succeeds.
\<close>

theorem fsm_addedge_literal_refines:
  assumes "fsm_inv f" and "from < statecount f" and "to < statecount f"
  shows "wp (fsm_addedge_literal al f from to c) (\<lambda>(ok, f', al'). fsm_inv f' \<and> fsm_meta f' = fsm_meta f \<and>
    fsm_nfa f' = (if ok then add_step from (Some c) to (fsm_nfa f) else fsm_nfa f) \<and> (al = [] \<longrightarrow> ok))"
  by (rule wp_mono [OF fsm_addedge_literal_wp [OF assms]]) auto

theorem fsm_addedge_literal_refines_witness:
  "wp (fsm_addedge_literal [] ab_fsm 3 4 99) (\<lambda>(ok, f', al'). fsm_inv f' \<and> fsm_meta f' = fsm_meta ab_fsm \<and>
    fsm_nfa f' = (if ok then add_step 3 (Some 99) 4 (fsm_nfa ab_fsm) else fsm_nfa ab_fsm) \<and> (([] :: alloc) = [] \<longrightarrow> ok))"
  by (rule fsm_addedge_literal_refines) simp_all

text \<open>
  C18: a state that \<open>fsm_addstate\<close> adds is the next number and has no edges; when the array of
  states cannot grow the automaton is as it was.
\<close>

theorem fsm_addstate_next:
  assumes "fsm_inv f" and "statecount f < edge_state_limit"
  shows "wp (fsm_addstate al f) (\<lambda>(r, f', al'). fsm_inv f' \<and> fsm_nfa f' = fsm_nfa f \<and> fsm_meta f' = fsm_meta f \<and>
    (case r of None \<Rightarrow> f' = f | Some s \<Rightarrow> s = statecount f \<and> statecount f' = statecount f + 1 \<and> (\<forall>l t. \<not> fsm_step f' s l t)) \<and>
    (al = [] \<longrightarrow> r \<noteq> None))"
proof -
  obtain r f' al' where run: "fsm_addstate al f = Some (r, f', al')"
    and post: "fsm_inv f'" "fsm_nfa f' = fsm_nfa f" "fsm_meta f' = fsm_meta f" "al = [] \<longrightarrow> r \<noteq> None"
      "case r of None \<Rightarrow> f' = f | Some s \<Rightarrow> s = statecount f \<and> statecount f' = statecount f + 1"
    by (rule wpE3 [OF fsm_addstate_wp [OF assms, of al]]) auto
  have "fsm_step f' = fsm_step f" using arg_cong [OF post(2), of n_step] by (simp add: fsm_nfa_def)
  then have "\<not> fsm_step f' (statecount f) l t" for l t using fsm_step_bounds [OF assms(1)] by (metis less_irrefl)
  then show ?thesis using post by (auto simp: run split: option.splits)
qed

theorem fsm_addstate_next_witness:
  "wp (fsm_addstate ([False] :: alloc) ab_fsm) (\<lambda>(r, f', al'). fsm_inv f' \<and> fsm_nfa f' = fsm_nfa ab_fsm \<and> fsm_meta f' = fsm_meta ab_fsm \<and>
    (case r of None \<Rightarrow> f' = ab_fsm | Some s \<Rightarrow> s = statecount ab_fsm \<and> statecount f' = statecount ab_fsm + 1 \<and> (\<forall>l t. \<not> fsm_step f' s l t)) \<and>
    (([False] :: alloc) = [] \<longrightarrow> r \<noteq> None))"
  by (rule fsm_addstate_next) (simp_all add: edge_state_limit_def)

text \<open>
  C19: \<open>fsm_removestate\<close> puts the last state into the place of the removed one but does not
  renumber the start: where the last state was the start, the start is no longer a state, and
  the next \<open>fsm_getstart\<close> fails its assertion.
\<close>

theorem fsm_removestate_loses_start:
  assumes "fsm_removestate al f s = Some (True, f', al')" and "f_hasstart f" and "f_start f = statecount f - 1"
    and "s < f_start f"
  shows "fsm_getstart f' = None"
  using assms by (rule fsm_removestate_start)

theorem fsm_removestate_loses_start_witness:
  "fsm_getstart ((mk_fsm [mk_state ES_Null SS_Null False] 1)\<lparr>f_spare := [False, False]\<rparr>) = None"
  by (rule fsm_removestate_loses_start [of "[]" "mk_fsm [mk_state ES_Null SS_Null True, mk_state ES_Null SS_Null False] 1" 0 _ "[]"])
    (simp_all add: Let_def fsm_removestate_def mk_fsm_def fsm_setend_def c_assert_def upd_state_def removestate_edges_def fsm_getstart_def
      removestate_renumber_def mk_state_def new_state_def numeral_2_eq_2)

text \<open>
  C20: \<open>fsm_collate\<close> gives an automaton whose end states all lead by an epsilon edge to one state,
  a new one unless there is only one end state; the old ones stay end states. Without an end
  state it fails.
\<close>

theorem fsm_collate_joins:
  assumes "fsm_inv f" and "statecount f < edge_state_limit"
  shows "wp (fsm_collate [] f fsm_isend) (\<lambda>(r, f', al'). al' = [] \<and> fsm_inv f' \<and> fsm_meta f' = fsm_meta f \<and>
    (case r of
       None \<Rightarrow> f_endcount f = 0 \<and> f' = f
     | Some e \<Rightarrow>
         if f_endcount f = 1 then f' = f \<and> (\<forall>s. n_end (fsm_nfa f) s \<longleftrightarrow> s = e)
         else f_endcount f > 1 \<and> e = statecount f \<and> statecount f' = statecount f + 1 \<and> fsm_nfa f' = join_ends e (fsm_nfa f)))"
  using assms by (rule fsm_collate_wp)

theorem fsm_collate_joins_witness:
  "wp (fsm_collate [] ab_fsm fsm_isend) (\<lambda>(r, f', al'). al' = [] \<and> fsm_inv f' \<and> fsm_meta f' = fsm_meta ab_fsm \<and>
    (case r of
       None \<Rightarrow> f_endcount ab_fsm = 0 \<and> f' = ab_fsm
     | Some e \<Rightarrow>
         if f_endcount ab_fsm = 1 then f' = ab_fsm \<and> (\<forall>s. n_end (fsm_nfa ab_fsm) s \<longleftrightarrow> s = e)
         else f_endcount ab_fsm > 1 \<and> e = statecount ab_fsm \<and> statecount f' = statecount ab_fsm + 1 \<and> fsm_nfa f' = join_ends e (fsm_nfa ab_fsm)))"
  by (rule fsm_collate_joins) (simp_all add: edge_state_limit_def)

section \<open>Sets of edges\<close>

text \<open>
  C21: a transition that is added to the edges of a state that is deterministic, for a symbol
  without one, is the one that \<open>edge_set_transition\<close> finds; for any other symbol it finds what
  it found before.
\<close>

theorem edge_set_add_transition:
  assumes "es_inv es" and "es_deterministic es" and "\<forall>(c, s) \<in> es_edges es. s < edge_state_limit"
    and "\<not> edge_set_contains es c" and "s < edge_state_limit"
  shows "wp (edge_set_add al es c s) (\<lambda>(ok, es', al'). es_inv es' \<and> (al = [] \<longrightarrow> ok) \<and>
    (\<forall>d. edge_set_transition es' d = (if ok \<and> d = c then Some s else edge_set_transition es d)))"
proof -
  have "s < state_limit" using assms(5) by (simp add: edge_state_limit_def state_limit_def)
  then obtain ok es' al' where run: "edge_set_add al es c s = Some (ok, es', al')"
    and post: "es_added al es {c} s (ok, es', al')"
    by (rule wpE3 [OF edge_set_add_wp [OF assms(1)]])
  have edges: "es_edges es' = (if ok then insert (c, s) (es_edges es) else es_edges es)" and inv: "es_inv es'"
    using post by (auto simp: es_added_def)
  have no: "(c, t) \<notin> es_edges es" for t using edge_set_contains_iff [OF assms(1)] assms(4) by auto
  have det: "es_deterministic es'" and lim: "\<forall>(c, s) \<in> es_edges es'. s < edge_state_limit"
    using assms(2,3,5) no by (auto simp: edges es_deterministic_def)
  have "edge_set_transition es' d = Some t \<longleftrightarrow> (if ok \<and> d = c then Some s else edge_set_transition es d) = Some t" for d t
    using edge_set_transition_iff [OF det lim, of d t] edge_set_transition_iff [OF assms(2,3), of d t] no
    by (auto simp: edges)
  then have "edge_set_transition es' d = (if ok \<and> d = c then Some s else edge_set_transition es d)" for d
    by (intro option_eqI)
  then show ?thesis using post by (simp add: run es_added_def)
qed

theorem edge_set_add_transition_witness:
  "wp (edge_set_add [] (one_edge 97 1) 98 2) (\<lambda>(ok, es', al'). es_inv es' \<and> (([] :: alloc) = [] \<longrightarrow> ok) \<and>
    (\<forall>d. edge_set_transition es' d = (if ok \<and> d = 98 then Some 2 else edge_set_transition (one_edge 97 1) d)))"
  using edge_set_add_transition [of "one_edge 97 1" 98 2 "[]"]
  by (simp add: state_limit_def edge_state_limit_def es_deterministic_def edge_set_contains_iff)

text \<open>
  C22: \<open>edge_set_copy\<close> adds the edges of the source to the destination, also when the two have
  groups for the same target; when an allocation fails nothing else is added. The one exception
  is a null source with a destination that is not null, on which it dereferences the null pointer.
\<close>

theorem edge_set_copy_union:
  assumes "es_inv dst" and "es_inv src"
  shows "if src = ES_Null \<and> dst \<noteq> ES_Null then edge_set_copy al dst src = None
    else wp (edge_set_copy al dst src) (\<lambda>(ok, es, al'). es_inv es \<and> es_edges es \<subseteq> es_edges dst \<union> es_edges src \<and>
      (ok \<longrightarrow> es_edges es = es_edges dst \<union> es_edges src) \<and> (al = [] \<longrightarrow> ok))"
proof (cases "src = ES_Null \<and> dst \<noteq> ES_Null")
  case True
  then show ?thesis by (cases dst) simp_all
next
  case False
  then have "src = ES_Null \<longrightarrow> dst = ES_Null" by simp
  from edge_set_copy_wp [OF assms this]
  have "wp (edge_set_copy al dst src) (\<lambda>(ok, es, al'). es_inv es \<and> es_edges es \<subseteq> es_edges dst \<union> es_edges src \<and>
      (ok \<longrightarrow> es_edges es = es_edges dst \<union> es_edges src) \<and> (al = [] \<longrightarrow> ok))"
    by (rule wp_mono) (auto simp: copied_def split: if_splits)
  then show ?thesis using False by (simp only: if_False)
qed

theorem edge_set_copy_union_witness:
  "wp (edge_set_copy ([] :: alloc) (one_edge 97 1) (one_edge 98 1)) (\<lambda>(ok, es, al'). es_inv es \<and> es_edges es \<subseteq> es_edges (one_edge 97 1) \<union> es_edges (one_edge 98 1) \<and>
    (ok \<longrightarrow> es_edges es = es_edges (one_edge 97 1) \<union> es_edges (one_edge 98 1)) \<and> (([] :: alloc) = [] \<longrightarrow> ok)) \<and>
    edge_set_copy [] (one_edge 97 1) ES_Null = None"
  using edge_set_copy_union [of "one_edge 97 1" "one_edge 98 1" "[]"] edge_set_copy_union [of "one_edge 97 1" ES_Null "[]"]
  by (simp add: state_limit_def)

text \<open>
  C23: \<open>edge_set_compact\<close> renumbers the targets of the edges by the remapping and drops those that
  are mapped to no state, joining the groups of targets that fall together; a failing allocation
  leaves the set as it was.
\<close>

theorem edge_set_compact_renumbers:
  assumes "es_inv es" and "\<forall>t \<in> es_tos es. remap t = Some (g t) \<and> g t \<le> FSM_STATE_REMAP_NO_STATE"
  shows "wp (edge_set_compact al es remap) (\<lambda>(ok, es', al'). es_inv es' \<and> (al = [] \<longrightarrow> ok) \<and>
    (if ok then es_edges es' = {(c, g t) | c t. (c, t) \<in> es_edges es \<and> g t \<noteq> FSM_STATE_REMAP_NO_STATE} else es' = es))"
  by (rule wp_mono [OF edge_set_compact_wp [OF assms(1), of remap g al]])
    (use assms(2) in \<open>auto simp: es_compacted_def split: if_splits\<close>)

theorem edge_set_compact_renumbers_witness:
  "wp (edge_set_compact ([] :: alloc) (one_edge 97 3) (\<lambda>t. Some (t - 1))) (\<lambda>(ok, es', al'). es_inv es' \<and> (([] :: alloc) = [] \<longrightarrow> ok) \<and>
    (if ok then es_edges es' = {(c, (\<lambda>t. t - 1) t) | c t. (c, t) \<in> es_edges (one_edge 97 3) \<and> (\<lambda>t. t - 1) t \<noteq> FSM_STATE_REMAP_NO_STATE} else es' = (one_edge 97 3)))"
  by (rule edge_set_compact_renumbers) (simp_all add: state_limit_def FSM_STATE_REMAP_NO_STATE_def)

text \<open>
  C24: where the groups of an edge set do not fill their allocation, \<open>edge_set_remove_state\<close> and
  \<open>edge_set_replace_state\<close> stay inside it, and drop the edges to the state, or lead them to the
  new one, whether or not it had a group.
\<close>

theorem edge_set_state_operations:
  assumes "es_inv es" and "es_room es" and "new < state_limit"
  shows "wp (edge_set_remove_state es old) (\<lambda>es'. es_inv es' \<and> es_edges es' = {(c, t) \<in> es_edges es. t \<noteq> old}) \<and>
    wp (edge_set_replace_state al es old new) (\<lambda>(ok, es', al'). ok \<and> al' = al \<and> es_inv es' \<and>
      es_edges es' = (\<lambda>(c, t). (c, if t = old then new else t)) ` es_edges es)"
  using edge_set_remove_state_wp [OF assms(1,2)] edge_set_replace_state_wp [OF assms] by simp

theorem edge_set_state_operations_witness:
  "wp (edge_set_remove_state (ES \<lparr>es_ceil = 2, es_groups = [\<lparr>eg_symbols = SYMBOLS_SET symbols_zero 97, eg_to = 3\<rparr>]\<rparr>) 3) (\<lambda>es'. es_inv es' \<and> es_edges es' = {(c, t) \<in> es_edges (ES \<lparr>es_ceil = 2, es_groups = [\<lparr>eg_symbols = SYMBOLS_SET symbols_zero 97, eg_to = 3\<rparr>]\<rparr>). t \<noteq> 3}) \<and>
    wp (edge_set_replace_state ([] :: alloc) (ES \<lparr>es_ceil = 2, es_groups = [\<lparr>eg_symbols = SYMBOLS_SET symbols_zero 97, eg_to = 3\<rparr>]\<rparr>) 3 4) (\<lambda>(ok, es', al'). ok \<and> al' = ([] :: alloc) \<and> es_inv es' \<and>
      es_edges es' = (\<lambda>(c, t). (c, if t = 3 then 4 else t)) ` es_edges (ES \<lparr>es_ceil = 2, es_groups = [\<lparr>eg_symbols = SYMBOLS_SET symbols_zero 97, eg_to = 3\<rparr>]\<rparr>))"
  by (rule edge_set_state_operations) (simp_all add: groups_ok_def group_ok_def symset_SYMBOLS_SET es_room_def state_limit_def)

text \<open>
  C25: \<open>edge_set_remove_state\<close> reads past the allocation of the groups exactly when they fill it
  and the state has a group in a set that is not empty. The first edge that is added to a new set
  makes such a set, whatever its label and target.
\<close>

theorem edge_set_remove_state_overread:
  assumes "es_inv es"
  shows "(edge_set_remove_state es s = None \<longleftrightarrow> \<not> es_room es \<and> es_edges es \<noteq> {} \<and> s \<in> es_tos es) \<and>
    (t < state_limit \<longrightarrow> (\<exists>es'. edge_set_add [] ES_Null c t = Some (True, es', []) \<and> es_inv es' \<and>
      es_edges es' = {(c, t)} \<and> edge_set_remove_state es' t = None))"
proof -
  let ?es = "ES \<lparr>es_ceil = 1, es_groups = [\<lparr>eg_symbols = SYMBOLS_SET symbols_zero c, eg_to = t\<rparr>]\<rparr>"
  have "es_inv ?es \<and> es_edges ?es = {(c, t)} \<and> edge_set_remove_state ?es t = None" if "t < state_limit"
  proof -
    have inv: "es_inv ?es" and edges: "es_edges ?es = {(c, t)}"
      using that by (simp_all add: groups_ok_def group_ok_def group_edges_def symset_SYMBOLS_SET)
    then show ?thesis using edge_set_remove_state_None_iff [OF inv, of t] by (simp add: es_room_def)
  qed
  then show ?thesis using edge_set_remove_state_None_iff [OF assms, of s] edge_set_add_first by auto
qed

theorem edge_set_remove_state_overread_witness:
  "edge_set_remove_state (one_edge 97 3) 3 = None \<and> edge_set_remove_state (one_edge 97 3) 4 \<noteq> None \<and>
    (\<exists>es'. edge_set_add [] ES_Null 1 5 = Some (True, es', []) \<and> es_inv es' \<and>
      es_edges es' = {(1, 5)} \<and> edge_set_remove_state es' 5 = None)"
proof -
  have "\<not> es_room (one_edge 97 3)" by (simp add: es_room_def one_edge_def DEF_EDGE_GROUP_CEIL_def)
  then show ?thesis
    using edge_set_remove_state_overread [of "one_edge 97 3" 3 5 1] edge_set_remove_state_overread [of "one_edge 97 3" 4 5 1]
    by (simp add: state_limit_def)
qed

section \<open>Sets of states and symbols\<close>

text \<open>
  C26: adding a state to a set of states keeps its representation in order; on success the
  set has exactly that one more member, and without a failing allocation it succeeds.
\<close>

theorem state_set_add_correct:
  assumes "ss_inv st" and "s < state_limit"
  shows "wp (state_set_add al st s) (\<lambda>(ok, st', al'). ss_inv st' \<and>
    (if ok then ss_set st' = insert s (ss_set st) \<and> (\<forall>t. state_set_contains st' t \<longleftrightarrow> t = s \<or> state_set_contains st t)
     else ss_set st' \<subseteq> ss_set st) \<and> (al = [] \<longrightarrow> ok))"
  using state_set_add_wp [OF assms, of al] assms(1)
  by (auto elim!: wpE3 simp: added_def state_set_contains_iff)

theorem state_set_add_correct_witness:
  "wp (state_set_add [] (SS_Singleton 9) 5) (\<lambda>(ok, st', al'). ss_inv st' \<and>
    (if ok then ss_set st' = insert 5 (ss_set (SS_Singleton 9)) \<and>
       (\<forall>t. state_set_contains st' t \<longleftrightarrow> t = 5 \<or> state_set_contains (SS_Singleton 9) t)
     else ss_set st' \<subseteq> ss_set (SS_Singleton 9)) \<and> (([] :: alloc) = [] \<longrightarrow> ok))"
  using state_set_add_correct [of "SS_Singleton 9" 5 "[]"] by (simp add: state_limit_def)

text \<open>
  C27: \<open>state_set_add_bulk\<close> adds the states of an array in any order and with repetitions; a
  failure adds none of them, and does not happen without a failing allocation.
\<close>

theorem state_set_add_bulk_union:
  assumes "ss_inv st" and "\<forall>s \<in> set a. s < state_limit"
  shows "wp (state_set_add_bulk al st a) (\<lambda>(ok, st', al'). ss_inv st' \<and> (al = [] \<longrightarrow> ok) \<and>
    (if ok then ss_set st' = set a \<union> ss_set st else ss_set st' \<subseteq> ss_set st))"
  by (rule wp_mono [OF state_set_add_bulk_wp [OF assms]]) (auto simp: added_def split: if_splits)

theorem state_set_add_bulk_union_witness:
  "wp (state_set_add_bulk ([] :: alloc) (SS_Singleton 9) [7, 3, 7]) (\<lambda>(ok, st', al'). ss_inv st' \<and> (([] :: alloc) = [] \<longrightarrow> ok) \<and>
    (if ok then ss_set st' = set [7, 3, 7] \<union> ss_set (SS_Singleton 9) else ss_set st' \<subseteq> ss_set (SS_Singleton 9)))"
  by (rule state_set_add_bulk_union) (simp_all add: state_limit_def)

text \<open>
  C28: \<open>state_set_cmp\<close> of two sets is 0 exactly when they have the same members, whichever of
  the representations they have.
\<close>

theorem state_set_cmp_equal:
  assumes "ss_inv a" and "ss_inv b" and "a \<noteq> SS_Null" and "b \<noteq> SS_Null"
    and "state_set_count a < 2 ^ 32" and "state_set_count b < 2 ^ 32"
  shows "\<exists>r. state_set_cmp a b = Some r \<and> (r = 0 \<longleftrightarrow> ss_set a = ss_set b)"
proof -
  have "ss_list a = ss_list b \<longleftrightarrow> ss_set a = ss_set b" using ss_list_unique [OF assms(1,2)] by auto
  then show ?thesis using state_set_cmp_wp [OF assms] by (simp add: wp_iff_ex)
qed

theorem state_set_cmp_equal_witness:
  "\<exists>r. state_set_cmp (SS_Singleton 5) replace_example = Some r \<and> (r = 0 \<longleftrightarrow> ss_set (SS_Singleton 5) = ss_set replace_example)"
  by (rule state_set_cmp_equal) (use replace_example_inv in \<open>simp_all add: replace_example_def state_limit_def\<close>)

text \<open>
  C29: \<open>state_set_replace\<close> puts the new state in the place of the old one. The set stays in order
  where the new state compares with the other members as the old one did. Where the old state is
  the greatest member, \<open>state_set_contains\<close> afterwards misses every other member above the new one.
\<close>

theorem state_set_replace_unsorted:
  assumes "ss_inv st" and "new < state_limit"
  shows "ss_set (state_set_replace st old new) = (\<lambda>s. if s = old then new else s) ` ss_set st \<and>
    ((\<forall>s \<in> ss_set st. s \<noteq> old \<longrightarrow> s \<noteq> new \<and> (s < old \<longleftrightarrow> s < new)) \<longrightarrow> ss_inv (state_set_replace st old new)) \<and>
    (old \<in> ss_set st \<and> (\<forall>s \<in> ss_set st. s \<le> old) \<longrightarrow>
      (\<forall>x \<in> ss_set st. x \<noteq> old \<and> new < x \<longrightarrow> x \<in> ss_set (state_set_replace st old new) \<and>
        \<not> state_set_contains (state_set_replace st old new) x))"
proof (intro conjI impI ballI)
  show "ss_set (state_set_replace st old new) = (\<lambda>s. if s = old then new else s) ` ss_set st" by (rule ss_set_replace)
next
  fix x assume "x \<in> ss_set st" "x \<noteq> old \<and> new < x"
  then show "x \<in> ss_set (state_set_replace st old new)" unfolding ss_set_replace by auto
qed (use assms state_set_replace_inv state_set_replace_missed in blast)+

theorem state_set_replace_unsorted_witness:
  "ss_inv (state_set_replace replace_example 5 7) \<and>
    1 \<in> ss_set (state_set_replace replace_example 5 0) \<and> \<not> state_set_contains (state_set_replace replace_example 5 0) 1"
proof (intro conjI)
  have inv: "ss_inv replace_example" by (rule replace_example_inv)
  show "ss_inv (state_set_replace replace_example 5 7)"
    using state_set_replace_unsorted [OF inv, of 7 5] by (simp add: replace_example_def state_limit_def)
  show "1 \<in> ss_set (state_set_replace replace_example 5 0)" "\<not> state_set_contains (state_set_replace replace_example 5 0) 1"
    using state_set_replace_unsorted [OF inv, of 0 5] by (simp_all add: replace_example_def state_limit_def)
qed

text \<open>
  C30: \<open>bm_next\<close> gives the next larger symbol that is in the set, or that is not, and 256 when
  there is none up to 255.
\<close>

theorem bm_next_finds:
  assumes "bm_low bm" and "-1 \<le> i" and "i \<le> 255"
  shows "\<exists>r. bm_next bm i v = Some r \<and> r \<le> 256 \<and> (r < 256 \<longrightarrow> int r > i \<and> (r \<in> bm_chars bm) = v) \<and>
    (\<forall>k. int k > i \<and> k < r \<longrightarrow> (k \<in> bm_chars bm) \<noteq> v)"
proof -
  let ?r = "bm_next_loop bm (nat (i + 1)) v"
  have "bm_next bm i v = Some ?r" using assms(2,3) by (simp add: bm_next_def c_assert_def)
  moreover have "(?r = 256 \<or> ?r \<le> 255 \<and> nat (i + 1) \<le> ?r \<and> (?r \<in> bm_chars bm) = v) \<and>
      (\<forall>k. nat (i + 1) \<le> k \<and> k < ?r \<and> k \<le> 255 \<longrightarrow> (k \<in> bm_chars bm) \<noteq> v)"
    using bm_next_loop_spec [OF assms(1), of "nat (i + 1)" v] by (simp add: Let_def)
  ultimately show ?thesis using assms(2) by (intro exI [of _ ?r]) auto
qed

theorem bm_next_finds_witness:
  "\<exists>r. bm_next (bm_clear \<lparr>bm_map = []\<rparr>) 64 False = Some r \<and> r \<le> 256 \<and> (r < 256 \<longrightarrow> int r > 64 \<and> (r \<in> bm_chars (bm_clear \<lparr>bm_map = []\<rparr>)) = False) \<and>
    (\<forall>k. int k > 64 \<and> k < r \<longrightarrow> (k \<in> bm_chars (bm_clear \<lparr>bm_map = []\<rparr>)) \<noteq> False)"
  by (rule bm_next_finds) simp_all

text \<open>
  C31: the tagged pointer that stands for a set with one member keeps a 32 bit state number
  exactly, and is never taken for the pointer to an array.
\<close>

theorem SINGLETON_encoding:
  assumes "s < state_limit"
  shows "SINGLETON_DECODE (SINGLETON_ENCODE s) = s \<and> IS_SINGLETON (SINGLETON_ENCODE s)"
  using SINGLETON_roundtrip [OF assms] push_bit_1_IS_SINGLETON by simp

theorem SINGLETON_encoding_witness:
  "SINGLETON_DECODE (SINGLETON_ENCODE 4294967295) = 4294967295 \<and> IS_SINGLETON (SINGLETON_ENCODE 4294967295)"
  by (rule SINGLETON_encoding) (simp add: state_limit_def)

section \<open>The queue\<close>

text \<open>
  C32: the queue keeps its order and never writes outside its buffer: a push appends unless
  the queue holds as many states as its capacity, a pop takes the oldest.
\<close>

theorem queue_fifo:
  assumes "queue_inv q"
  shows "wp (queue_push q s) (\<lambda>(ok, q'). queue_inv q' \<and> q_capacity q' = q_capacity q \<and>
      ok = (length (queue_items q) < q_capacity q) \<and> queue_items q' = (if ok then queue_items q @ [s] else queue_items q)) \<and>
    wp (queue_pop q) (\<lambda>(r, q'). queue_inv q' \<and> q_capacity q' = q_capacity q \<and>
      (case r of None \<Rightarrow> queue_items q = [] \<and> q' = q | Some t \<Rightarrow> queue_items q = t # queue_items q'))"
  using queue_push_wp [OF assms] queue_pop_wp [OF assms] by simp

theorem queue_fifo_witness:
  "wp (queue_push \<lparr>q_rd = 1, q_wr = 3, q_q = [4, 5, 6]\<rparr> 7) (\<lambda>(ok, q'). queue_inv q' \<and> q_capacity q' = q_capacity \<lparr>q_rd = 1, q_wr = 3, q_q = [4, 5, 6]\<rparr> \<and>
      ok = (length (queue_items \<lparr>q_rd = 1, q_wr = 3, q_q = [4, 5, 6]\<rparr>) < q_capacity \<lparr>q_rd = 1, q_wr = 3, q_q = [4, 5, 6]\<rparr>) \<and> queue_items q' = (if ok then queue_items \<lparr>q_rd = 1, q_wr = 3, q_q = [4, 5, 6]\<rparr> @ [7] else queue_items \<lparr>q_rd = 1, q_wr = 3, q_q = [4, 5, 6]\<rparr>)) \<and>
    wp (queue_pop \<lparr>q_rd = 1, q_wr = 3, q_q = [4, 5, 6]\<rparr>) (\<lambda>(r, q'). queue_inv q' \<and> q_capacity q' = q_capacity \<lparr>q_rd = 1, q_wr = 3, q_q = [4, 5, 6]\<rparr> \<and>
      (case r of None \<Rightarrow> queue_items \<lparr>q_rd = 1, q_wr = 3, q_q = [4, 5, 6]\<rparr> = [] \<and> q' = \<lparr>q_rd = 1, q_wr = 3, q_q = [4, 5, 6]\<rparr> | Some t \<Rightarrow> queue_items \<lparr>q_rd = 1, q_wr = 3, q_q = [4, 5, 6]\<rparr> = t # queue_items q'))"
  by (rule queue_fifo) (simp add: queue_inv_def)

section \<open>The tables\<close>

text \<open>
  C33: after \<open>fsm_endid_set\<close>, \<open>fsm_endid_get\<close> with a large enough buffer gives the end ids of every
  state in ascending order, those of the given state with the new one among them.
\<close>

theorem fsm_endid_set_get:
  assumes "endid_inv ei" and "s < BUCKET_NO_STATE" and "length (en_buckets ei) < 2 ^ 31"
    and "length (endid_ids ei s) < 2 ^ 31"
  shows "wp (fsm_endid_set al ei s k) (\<lambda>(ok, ei', al'). endid_inv ei' \<and> (al = [] \<longrightarrow> ok) \<and>
    (\<forall>t n ids. ids = (if ok \<and> t = s then sorted_list_of_set (insert k (set (endid_ids ei s))) else endid_ids ei t) \<longrightarrow>
       t < BUCKET_NO_STATE \<longrightarrow> length ids \<le> n \<longrightarrow> fsm_endid_get ei' t n = Some (True, ids)))"
proof -
  obtain ok ei' al' where run: "fsm_endid_set al ei s k = Some (ok, ei', al')"
    and post: "endid_added al ei s {k} (ok, ei', al')"
    by (rule wpE3 [OF fsm_endid_set_wp [OF assms]])
  then have inv: "endid_inv ei'" by (simp add: endid_added_def)
  have ids: "endid_ids ei' t =
      (if ok \<and> t = s then sorted_list_of_set (insert k (set (endid_ids ei s))) else endid_ids ei t)" for t
    using post strict_sorted_list_of_set [of "insert k (set (endid_ids ei s))"]
    by (intro asc_unique) (auto simp: endid_added_def endid_ids_asc assms(1) set_insort_key)
  have "fsm_endid_get ei' t n = Some (True, endid_ids ei' t)"
    if "t < BUCKET_NO_STATE" "length (endid_ids ei' t) \<le> n" for t n
    using fsm_endid_get_wp [OF inv that(1), of n] that(2) by (auto elim!: wpE2)
  then show ?thesis using post by (simp add: run ids [symmetric] endid_added_def)
qed

theorem fsm_endid_set_get_witness:
  "wp (fsm_endid_set [] (f_endid_info ab_fsm) 1 7) (\<lambda>(ok, ei', al'). endid_inv ei' \<and> (([] :: alloc) = [] \<longrightarrow> ok) \<and>
    (\<forall>t n ids. ids = (if ok \<and> t = 1 then sorted_list_of_set (insert 7 (set (endid_ids (f_endid_info ab_fsm) 1)))
         else endid_ids (f_endid_info ab_fsm) t) \<longrightarrow>
       t < BUCKET_NO_STATE \<longrightarrow> length ids \<le> n \<longrightarrow> fsm_endid_get ei' t n = Some (True, ids)))"
  by (rule fsm_endid_set_get) (simp_all add: ab_fsm_endids BUCKET_NO_STATE_def)

text \<open>
  C34: \<open>fsm_endid_set_bulk\<close> sets the ids of a state to the given ones, or adds them to those it
  has, in ascending order and without repetitions; other states keep theirs, and a failure
  changes none. With no id given, \<open>FSM_ENDID_BULK_REPLACE\<close> does not empty the ids of the state but
  leaves the first of them, and a state without ids does not come out with ids that are defined:
  the count becomes 1 and the id is the uninitialised memory.
\<close>

theorem fsm_endid_set_bulk_ids:
  assumes "endid_inv ei" and "s < BUCKET_NO_STATE" and "length (en_buckets ei) < 2 ^ 31"
    and "length ids + length (endid_ids ei s) \<le> 2 ^ 31"
  shows "if ids = [] \<and> endid_ids ei s = []
    then (al = [] \<longrightarrow> fsm_endid_set_bulk al ei s ids op = None) \<and>
      (\<forall>ei' al'. fsm_endid_set_bulk al ei s ids op \<noteq> Some (True, ei', al'))
    else wp (fsm_endid_set_bulk al ei s ids op) (\<lambda>(ok, ei', al'). endid_inv ei' \<and> (al = [] \<longrightarrow> ok) \<and>
      endid_ids ei' = (if \<not> ok then endid_ids ei else (endid_ids ei)(s :=
        if ids \<noteq> [] then remdups_adj (sort (bulk_prev op (endid_ids ei s) @ ids))
        else if op = FSM_ENDID_BULK_REPLACE then [hd (endid_ids ei s)] else endid_ids ei s)))"
proof (cases "ids = []")
  case True
  show ?thesis
    using fsm_endid_set_bulk_none [OF assms(1-3), of al op] unfolding True by (auto elim!: wp_mono split: if_splits)
next
  case False
  from fsm_endid_set_bulk_wp [OF assms(1-3) False assms(4), of al op]
  have "wp (fsm_endid_set_bulk al ei s ids op) (\<lambda>(ok, ei', al'). endid_inv ei' \<and> (al = [] \<longrightarrow> ok) \<and>
      endid_ids ei' = (if \<not> ok then endid_ids ei else (endid_ids ei)(s :=
        remdups_adj (sort (bulk_prev op (endid_ids ei s) @ ids)))))"
    by (rule wp_mono) auto
  then show ?thesis using False by simp
qed

theorem fsm_endid_set_bulk_ids_witness:
  "wp (fsm_endid_set_bulk ([] :: alloc) two_endids 1 [9, 2, 9] FSM_ENDID_BULK_APPEND) (\<lambda>(ok, ei', al'). endid_inv ei' \<and> ok \<and>
    endid_ids ei' = (endid_ids two_endids)(1 := remdups_adj (sort (endid_ids two_endids 1 @ [9, 2, 9])))) \<and>
   wp (fsm_endid_set_bulk ([] :: alloc) two_endids 1 [] FSM_ENDID_BULK_REPLACE) (\<lambda>(ok, ei', al'). endid_inv ei' \<and> ok \<and>
    endid_ids ei' = (endid_ids two_endids)(1 := [hd (endid_ids two_endids 1)])) \<and>
   fsm_endid_set_bulk [] two_endids 2 [] FSM_ENDID_BULK_REPLACE = None"
proof (intro conjI)
  have lens: "length (en_buckets two_endids) < 2 ^ 31" "1 < BUCKET_NO_STATE" "2 < BUCKET_NO_STATE"
    by (simp_all add: two_endids_def BUCKET_NO_STATE_def)
  have ids: "endid_ids two_endids 1 \<noteq> []" "endid_ids two_endids 2 = []" "length (endid_ids two_endids 1) \<le> 1"
    using two_endids_states [of 1] two_endids_states [of 2] two_endids_ids by simp_all
  show "wp (fsm_endid_set_bulk ([] :: alloc) two_endids 1 [9, 2, 9] FSM_ENDID_BULK_APPEND) (\<lambda>(ok, ei', al'). endid_inv ei' \<and> ok \<and>
      endid_ids ei' = (endid_ids two_endids)(1 := remdups_adj (sort (endid_ids two_endids 1 @ [9, 2, 9]))))"
    using fsm_endid_set_bulk_ids [OF two_endids_inv lens(2,1), of "[9, 2, 9]" "[]" FSM_ENDID_BULK_APPEND] ids
    by (auto elim!: wp_mono simp: bulk_prev_def)
  show "wp (fsm_endid_set_bulk ([] :: alloc) two_endids 1 [] FSM_ENDID_BULK_REPLACE) (\<lambda>(ok, ei', al'). endid_inv ei' \<and> ok \<and>
      endid_ids ei' = (endid_ids two_endids)(1 := [hd (endid_ids two_endids 1)]))"
    using fsm_endid_set_bulk_ids [OF two_endids_inv lens(2,1), of "[]" "[]" FSM_ENDID_BULK_REPLACE] ids
    by (auto elim!: wp_mono)
  show "fsm_endid_set_bulk [] two_endids 2 [] FSM_ENDID_BULK_REPLACE = None"
    using fsm_endid_set_bulk_ids [OF two_endids_inv lens(3,1), of "[]" "[]" FSM_ENDID_BULK_REPLACE] ids by simp
qed

text \<open>
  C35: a \<open>fsm_endid_compact\<close> that drops a state with ids does not lower the count of used buckets,
  which is then above their number. If half of the buckets counted as used before, the next
  \<open>fsm_endid_set\<close> for a state without ids fails the assertion in the growth of the table.
\<close>

theorem fsm_endid_compact_stale_count:
  assumes "endid_inv ei" and "remap_inj mapping" and "\<forall>s. endid_ids ei s \<noteq> [] \<longrightarrow> s < length mapping"
    and "endid_ids ei d \<noteq> []" and "mapping ! d = FSM_STATE_REMAP_NO_STATE"
  shows "wp (fsm_endid_compact al ei mapping) (\<lambda>(ok, ei', al'). (al = [] \<longrightarrow> ok) \<and> en_used ei' = en_used ei \<and>
    (ok \<longrightarrow> ht_used eb_key (en_buckets ei') < en_used ei' \<and>
      (2 * en_used ei = length (en_buckets ei) \<longrightarrow>
        (\<forall>s k. s < BUCKET_NO_STATE \<and> endid_ids ei' s = [] \<longrightarrow> fsm_endid_set [] ei' s k = None))))"
  by (rule wp_mono [OF fsm_endid_compact_stale [OF assms]]) (auto intro!: stale_used_set)

theorem fsm_endid_compact_stale_count_witness:
  "wp (fsm_endid_compact [] two_endids [0, FSM_STATE_REMAP_NO_STATE]) (\<lambda>(ok, ei', al'). (([] :: alloc) = [] \<longrightarrow> ok) \<and>
    en_used ei' = en_used two_endids \<and> (ok \<longrightarrow> ht_used eb_key (en_buckets ei') < en_used ei' \<and>
      (2 * en_used two_endids = length (en_buckets two_endids) \<longrightarrow>
        (\<forall>s k. s < BUCKET_NO_STATE \<and> endid_ids ei' s = [] \<longrightarrow> fsm_endid_set [] ei' s k = None)))) \<and>
    2 * en_used two_endids = length (en_buckets two_endids)"
proof
  show "2 * en_used two_endids = length (en_buckets two_endids)" by (simp add: two_endids_def)
  have "remap_inj [0, FSM_STATE_REMAP_NO_STATE]" by (auto simp: remap_inj_def inj_on_def less_Suc_eq)
  moreover have "\<forall>s. endid_ids two_endids s \<noteq> [] \<longrightarrow> s < length [0, FSM_STATE_REMAP_NO_STATE]" "endid_ids two_endids 1 \<noteq> []"
    by (simp_all add: two_endids_states numeral_2_eq_2)
  ultimately show "wp (fsm_endid_compact [] two_endids [0, FSM_STATE_REMAP_NO_STATE]) (\<lambda>(ok, ei', al'). (([] :: alloc) = [] \<longrightarrow> ok) \<and>
    en_used ei' = en_used two_endids \<and> (ok \<longrightarrow> ht_used eb_key (en_buckets ei') < en_used ei' \<and>
      (2 * en_used two_endids = length (en_buckets two_endids) \<longrightarrow>
        (\<forall>s k. s < BUCKET_NO_STATE \<and> endid_ids ei' s = [] \<longrightarrow> fsm_endid_set [] ei' s k = None))))"
    by (rule fsm_endid_compact_stale_count [OF two_endids_inv]) simp
qed

text \<open>
  C36: after \<open>fsm_eager_output_set\<close>, \<open>fsm_eager_output_get\<close> with a large enough buffer gives the
  outputs of every state in ascending order, those of the given state with the new one; the
  states, edges and other tables stay as they were.
\<close>

theorem fsm_eager_output_set_get:
  assumes "eager_inv (f_eager_output_info f)" and "eager_room (f_eager_output_info f) 0" and "eager_marked f"
    and "length (eager_ids (f_eager_output_info f) s) < 2 ^ 31" and "s < statecount f"
  shows "wp (fsm_eager_output_set al f s k) (\<lambda>(ok, f', al'). same_graph f f' \<and> eager_marked f' \<and> (al = [] \<longrightarrow> ok) \<and>
    (\<forall>t n ids. ids = sorted_list_of_set (set (eager_ids (f_eager_output_info f) t) \<union> (if ok \<and> t = s then {k} else {})) \<longrightarrow>
       length ids \<le> n \<longrightarrow>
       fsm_eager_output_get (f_eager_output_info f') (\<lambda>t. st_has_eager_outputs (f_states f' ! t)) t n = Some (True, ids)))"
proof -
  obtain ok f' al' where run: "fsm_eager_output_set al f s k = Some (ok, f', al')"
    and post: "same_graph f f'" "eager_inv (f_eager_output_info f')" "eager_marked f'" "al = [] \<longrightarrow> ok"
      "\<And>t. set (eager_ids (f_eager_output_info f') t) = set (eager_ids (f_eager_output_info f) t) \<union> (if ok \<and> t = s then {k} else {})"
    by (rule wpE3 [OF fsm_eager_output_set_wp [OF assms(1,2,4,5,3), of al k]]) auto
  have d: "distinct (eager_ids (f_eager_output_info f') t)" for t by (rule eager_ids_distinct [OF post(2)])
  have ids: "sorted_list_of_set (set (eager_ids (f_eager_output_info f) t) \<union> (if ok \<and> t = s then {k} else {})) =
      sort (eager_ids (f_eager_output_info f') t)" for t
    unfolding post(5) [symmetric] using d by (simp add: sorted_list_of_set_sort_remdups distinct_remdups_id)
  have "fsm_eager_output_get (f_eager_output_info f') (\<lambda>t. st_has_eager_outputs (f_states f' ! t)) t n =
      Some (True, sort (eager_ids (f_eager_output_info f') t))" if "length (sort (eager_ids (f_eager_output_info f') t)) \<le> n" for t n
    using post(3) that by (intro fsm_eager_output_get_eq [OF post(2)]) (simp_all add: eager_marked_def)
  then show ?thesis unfolding run wp_Some prod.case ids using post(1,3,4) by blast
qed

theorem fsm_eager_output_set_get_witness:
  "wp (fsm_eager_output_set ([] :: alloc) ab_fsm 1 7) (\<lambda>(ok, f', al'). same_graph ab_fsm f' \<and> eager_marked f' \<and> (([] :: alloc) = [] \<longrightarrow> ok) \<and>
    (\<forall>t n ids. ids = sorted_list_of_set (set (eager_ids (f_eager_output_info ab_fsm) t) \<union> (if ok \<and> t = 1 then {7} else {})) \<longrightarrow>
       length ids \<le> n \<longrightarrow>
       fsm_eager_output_get (f_eager_output_info f') (\<lambda>t. st_has_eager_outputs (f_states f' ! t)) t n = Some (True, ids)))"
  by (rule fsm_eager_output_set_get) (use ab_fsm_wf(1,2) in \<open>simp_all add: fsm_wf_def meta_ok_def merge_room_def eager_room_def\<close>)

text \<open>
  C37: \<open>fsm_capture_add_action\<close> adds exactly the given action to the table, marks the state, and
  keeps the graph and the other tables; adding one that is there changes nothing.
\<close>

theorem fsm_capture_add_action_adds:
  assumes "fsm_wf f" and "capture_room (f_capture_info f) 0" and "s < statecount f"
    and "ca_to a = CAPTURE_NO_STATE \<or> ca_to a < statecount f"
  shows "wp (fsm_capture_add_action al f s a) (\<lambda>(ok, f', al'). same_graph f f' \<and> id_meta f' = id_meta f \<and>
    capture_inv (f_capture_info f') \<and> capture_marked f' \<and> (al = [] \<longrightarrow> ok) \<and>
    capture_set (f_capture_info f') = capture_set (f_capture_info f) \<union> (if ok then {(s, a)} else {}))"
proof -
  have "statecount f \<le> CAPTURE_NO_STATE"
    using assms(1) fsm_inv_limits(1) [of f] by (auto simp: fsm_wf_def CAPTURE_NO_STATE_def)
  then show ?thesis
    using assms by (intro wp_mono [OF fsm_capture_add_action_wp [of f s a al]]) (auto simp: fsm_wf_def)
qed

theorem fsm_capture_add_action_adds_witness:
  "wp (fsm_capture_add_action ([] :: alloc) ab_fsm 1 \<lparr>ca_type = CAPTURE_ACTION_START, ca_id = 0, ca_to = 2\<rparr>) (\<lambda>(ok, f', al'). same_graph ab_fsm f' \<and> id_meta f' = id_meta ab_fsm \<and>
    capture_inv (f_capture_info f') \<and> capture_marked f' \<and> (([] :: alloc) = [] \<longrightarrow> ok) \<and>
    capture_set (f_capture_info f') = capture_set (f_capture_info ab_fsm) \<union> (if ok then {(1, \<lparr>ca_type = CAPTURE_ACTION_START, ca_id = 0, ca_to = 2\<rparr>)} else {}))"
  by (rule fsm_capture_add_action_adds) (use ab_fsm_wf(2) in \<open>simp_all add: merge_room_def capture_room_def\<close>)

text \<open>
  C38: a capture whose end is committed keeps its positions when the captures are finalized, for
  every offset below \<open>2 ^ 63 - 1\<close>; one that is not committed is cleared.
\<close>

theorem finalize_capture_committed:
  assumes "unat offset < 2 ^ 63 - 1" and "p \<noteq> FSM_CAPTURE_NO_POS"
  shows "finalize_capture (p, offset OR COMMITTED_CAPTURE_FLAG) = (p, offset) \<and>
    finalize_capture (p, offset) = (FSM_CAPTURE_NO_POS, FSM_CAPTURE_NO_POS)"
  by (intro conjI finalize_committed [OF assms] finalize_uncommitted flag_clear(2) [OF assms(1)])

theorem finalize_capture_committed_witness:
  "finalize_capture (3, 12 OR COMMITTED_CAPTURE_FLAG) = (3, 12) \<and>
    finalize_capture (3, 12) = (FSM_CAPTURE_NO_POS, FSM_CAPTURE_NO_POS)"
  by (rule finalize_capture_committed) (simp_all add: FSM_CAPTURE_NO_POS_def)

end
